(* ===== verification/Kern_Prelude.thy ===== *)
theory Kern_Prelude
  imports Main "HOL-Library.Word" "HOL-Library.Monad_Syntax"
begin

text \<open>
  Shared vocabulary of the development.

  \<^item> A kernel operation that can stop the machine (a failed \<open>assert\<close>, a call of \<open>panic\<close>,
    a load or store outside the block a pointer points into) is a function into
    \<open>'a option\<close>: \<open>None\<close> is the stopped kernel (or, for a loop, a loop that never
    returns). Such operations are composed with the \<open>do\<close> notation of the option monad.
  \<^item> A C function that returns an \<open>int\<close> error code returns \<open>errno + 'a\<close>:
    \<open>Inl e\<close> is the code \<open>e\<close>, \<open>Inr x\<close> is 0 with the result \<open>x\<close>.
  \<^item> A heap block is a list; a cell that was never written since \<open>kmalloc\<close> returned the
    block holds \<open>None\<close> and reading it stops the model.
  \<^item> Whether a call of \<open>kmalloc\<close> succeeds is an argument (\<open>mem :: bool\<close>) of every
    operation that allocates, so every theorem holds for both outcomes unless it says so.
\<close>

section \<open>Error codes\<close>

datatype errno =
    EINVAL | EFAULT | ENAMETOOLONG | ENOMEM | EIO | ENOENT | ENOTDIR | EISDIR | EEXIST
  | EXDEV | EAGAIN | ESPIPE | EUNIMP | ENXIO | ENODEV | EBUSY | EIOCTL | ENOTEMPTY
  | ERANGE | ENOSPC | EMFILE | ENFILE | ENOSYS | ENOEXEC | E2BIG | EBADF

fun errno_code :: "errno \<Rightarrow> int" where
  "errno_code EINVAL = 1"
| "errno_code EFAULT = 2"
| "errno_code ENAMETOOLONG = 3"
| "errno_code ENOMEM = 4"
| "errno_code EIO = 5"
| "errno_code ENOENT = 6"
| "errno_code ENOTDIR = 7"
| "errno_code EISDIR = 8"
| "errno_code EEXIST = 9"
| "errno_code EXDEV = 10"
| "errno_code EAGAIN = 11"
| "errno_code ESPIPE = 12"
| "errno_code EUNIMP = 13"
| "errno_code ENXIO = 14"
| "errno_code ENODEV = 15"
| "errno_code EBUSY = 16"
| "errno_code EIOCTL = 17"
| "errno_code ENOTEMPTY = 18"
| "errno_code ERANGE = 19"
| "errno_code ENOSPC = 20"
| "errno_code EMFILE = 21"
| "errno_code ENFILE = 22"
| "errno_code ENOSYS = 23"
| "errno_code ENOEXEC = 24"
| "errno_code E2BIG = 25"
| "errno_code EBADF = 26"

type_synonym 'a res = "errno + 'a"
type_synonym 'a block = "'a option list"

section \<open>Kernel assertions and memory access\<close>

definition kassert :: "bool \<Rightarrow> unit option" where
  "kassert b = (if b then Some () else None)"

definition rd :: "'a list \<Rightarrow> int \<Rightarrow> 'a option" where
  "rd xs i = (if 0 \<le> i \<and> i < int (length xs) then Some (xs ! nat i) else None)"

definition wr :: "'a list \<Rightarrow> int \<Rightarrow> 'a \<Rightarrow> 'a list option" where
  "wr xs i x = (if 0 \<le> i \<and> i < int (length xs) then Some (xs[nat i := x]) else None)"

definition move_words :: "'a list \<Rightarrow> int \<Rightarrow> int \<Rightarrow> int \<Rightarrow> 'a list option" where
  \<comment> \<open>\<open>memmove(p + dst, p + src, n * sizeof(*p))\<close> inside the block \<open>xs\<close>\<close>
  "move_words xs dst src n =
     (if 0 \<le> dst \<and> 0 \<le> src \<and> 0 \<le> n \<and> dst + n \<le> int (length xs) \<and> src + n \<le> int (length xs)
      then Some (take (nat dst) xs @ take (nat n) (drop (nat src) xs) @ drop (nat (dst + n)) xs)
      else None)"

definition swrap32 :: "int \<Rightarrow> int" where
  \<comment> \<open>the value of a 32-bit signed \<open>int\<close> after two's complement wrap-around\<close>
  "swrap32 x = (x + 2 ^ 31) mod 2 ^ 32 - 2 ^ 31"

definition cdiv :: "int \<Rightarrow> int \<Rightarrow> int" where
  \<comment> \<open>the C quotient, rounded towards zero\<close>
  "cdiv a b = (if a < 0 then - ((- a) div b) else a div b)"

definition cmod :: "int \<Rightarrow> int \<Rightarrow> int" where
  "cmod a b = a - cdiv a b * b"

definition u32 :: "int \<Rightarrow> nat" where
  \<comment> \<open>conversion to a 32-bit unsigned number\<close>
  "u32 x = nat (x mod 2 ^ 32)"

definition kmalloc_words :: "bool \<Rightarrow> int \<Rightarrow> 'a block option" where
  \<comment> \<open>\<open>kmalloc(n * sizeof(void *))\<close>: the size is computed in the 32-bit type \<open>size_t\<close>\<close>
  "kmalloc_words mem n =
     (if mem then Some (replicate (nat ((n * 4) mod 2 ^ 32) div 4) None) else None)"

section \<open>Automation\<close>

named_theorems kern_simps \<open>unfolding rules for memory access and assertions\<close>

lemma kassert_bind [simp]: "(kassert b \<bind> f) = (if b then f () else None)"
  by (simp add: kassert_def)

lemma kassert_eq_Some [simp]: "kassert b = Some u \<longleftrightarrow> b"
  by (simp add: kassert_def)

lemma rd_Some [kern_simps]: "rd xs i = Some x \<longleftrightarrow> 0 \<le> i \<and> i < int (length xs) \<and> x = xs ! nat i"
  by (auto simp: rd_def)

lemma rd_in [simp]: "0 \<le> i \<Longrightarrow> i < int (length xs) \<Longrightarrow> rd xs i = Some (xs ! nat i)"
  by (simp add: rd_def)

lemma wr_in [simp]: "0 \<le> i \<Longrightarrow> i < int (length xs) \<Longrightarrow> wr xs i x = Some (xs[nat i := x])"
  by (simp add: wr_def)

lemma wr_Some [kern_simps]:
  "wr xs i x = Some ys \<longleftrightarrow> 0 \<le> i \<and> i < int (length xs) \<and> ys = xs[nat i := x]"
  by (auto simp: wr_def)

lemma uint_less_int: "uint w < int n \<longleftrightarrow> unat w < n"
proof -
  have "int (unat w) < int n \<longleftrightarrow> unat w < n" by (simp only: of_nat_less_iff)
  then show ?thesis by simp
qed

lemma rd_uint [simp]: "rd xs (uint w) = (if unat w < length xs then Some (xs ! unat w) else None)"
  by (simp add: rd_def uint_less_int)

lemma wr_uint [simp]: "wr xs (uint w) x = (if unat w < length xs then Some (xs[unat w := x]) else None)"
  by (simp add: wr_def uint_less_int)

lemma swrap32_id [simp]: "- (2 ^ 31) \<le> x \<Longrightarrow> x < 2 ^ 31 \<Longrightarrow> swrap32 x = x"
  by (simp add: swrap32_def)

lemma u32_id [simp]: "0 \<le> x \<Longrightarrow> x < 2 ^ 32 \<Longrightarrow> u32 x = nat x"
  by (simp add: u32_def)

lemma cdiv_pos [simp]: "0 \<le> a \<Longrightarrow> cdiv a b = a div b"
  by (simp add: cdiv_def)

lemma cmod_pos [simp]: "0 \<le> a \<Longrightarrow> cmod a b = a mod b"
  by (simp add: cmod_def minus_div_mult_eq_mod)

lemma swrap32_range: "- (2 ^ 31) \<le> swrap32 x" "swrap32 x < 2 ^ 31"
proof -
  have "0 \<le> (x + 2 ^ 31) mod 2 ^ 32" "(x + 2 ^ 31) mod 2 ^ 32 < (2 ^ 32 :: int)"
    by simp_all
  then show "- (2 ^ 31) \<le> swrap32 x" "swrap32 x < 2 ^ 31"
    by (simp_all add: swrap32_def)
qed

lemma swrap32_double:
  assumes "n < 2 ^ 31" "0 < swrap32 (n * 2)"
  shows "n < swrap32 (n * 2)"
proof (cases "0 < n \<and> 2 ^ 31 \<le> n * 2")
  case True
  then have "(n * 2 + 2 ^ 31) mod 2 ^ 32 = n * 2 + 2 ^ 31 - 2 ^ 32"
    using assms(1) by (simp add: mod_pos_geq)
  with True assms show ?thesis by (simp add: swrap32_def)
next
  case False
  with assms show ?thesis by (cases "0 < n") simp_all
qed

lemma kmalloc_words_in [simp]:
  "0 \<le> n \<Longrightarrow> n < 2 ^ 30 \<Longrightarrow> kmalloc_words True n = Some (replicate (nat n) None)"
proof -
  assume "0 \<le> n" "n < 2 ^ 30"
  then have "(n * 4) mod 2 ^ 32 = n * 4"
    by simp
  moreover have "nat (n * 4) div 4 = nat n"
    using \<open>0 \<le> n\<close> by (simp add: nat_mult_distrib)
  ultimately show ?thesis
    by (simp only: kmalloc_words_def if_True)
qed

lemma kmalloc_words_False [simp]: "kmalloc_words False n = None"
  by (simp add: kmalloc_words_def)

lemmas bind_Some = Option.bind_eq_Some_conv

lemma map_sum_eq_Inr [simp]: "map_sum f g r = Inr y \<longleftrightarrow> (\<exists>x. r = Inr x \<and> y = g x)"
  by (cases r) auto

lemma errno_code_pos: "0 < errno_code e"
  by (cases e) simp_all

lemma errno_code_inj: "errno_code a = errno_code b \<Longrightarrow> a = b"
  by (cases a; cases b) simp_all

end
