(* ===== verification/Kern_Interfaces.thy ===== *)
theory Kern_Interfaces
  imports Kern_Prelude
begin

text \<open>
  The contracts between the kernel's containers and the code that uses them, as locales.

  \<^item> \<open>reserved_seq\<close>: a sequence to which elements are appended and which promises that an
    append cannot fail while there is room. \<open>thread_fork\<close> relies on it: it reserves room
    in the sleeper array, the zombie array and the run queue before it creates a thread.
    \<open>kern/lib/array.c\<close> and \<open>kern/lib/queue.c\<close> provide it.
  \<^item> \<open>fifo\<close>: a \<open>reserved_seq\<close> whose elements leave at the head, in the order they came. The
    scheduler, the locks and the condition variables rely on it; \<open>kern/lib/queue.c\<close>
    provides it.
  \<^item> \<open>slot_map\<close>: a set of numbered slots from which free ones are handed out. The SFS block
    allocator relies on it; \<open>kern/lib/bitmap.c\<close> provides it.
  \<^item> \<open>frame_pool\<close>: runs of page frames, handed out and taken back by the address of the first.
    The page tables and the kernel heap rely on it; \<open>kern/vm/coremap.c\<close> provides it.
\<close>

section \<open>Appending many elements\<close>

primrec add_all ::
  "(bool \<Rightarrow> 's \<Rightarrow> 'a \<Rightarrow> (unit res \<times> 's) option) \<Rightarrow> bool \<Rightarrow> 's \<Rightarrow> 'a list \<Rightarrow> (unit res \<times> 's) option" where
  "add_all add mem s [] = Some (Inr (), s)"
| "add_all add mem s (x # xs) = do {
     (r, s') \<leftarrow> add mem s x;
     (case r of Inl e \<Rightarrow> Some (Inl e, s') | Inr _ \<Rightarrow> add_all add mem s' xs)
   }"

locale reserved_seq =
  fixes inv :: "'s \<Rightarrow> bool"
    and contents :: "'s \<Rightarrow> 'a list"
    and room :: "'s \<Rightarrow> int"
    and add :: "bool \<Rightarrow> 's \<Rightarrow> 'a \<Rightarrow> (unit res \<times> 's) option"
  assumes add_room: "inv s \<Longrightarrow> int (length (contents s)) < room s \<Longrightarrow>
    \<exists>s'. add mem s x = Some (Inr (), s') \<and> inv s' \<and> contents s' = contents s @ [x] \<and> room s \<le> room s'"
begin

lemma add_all_room:
  "inv s \<Longrightarrow> int (length (contents s) + length xs) \<le> room s \<Longrightarrow>
   \<exists>s'. add_all add mem s xs = Some (Inr (), s') \<and> inv s' \<and> contents s' = contents s @ xs"
proof (induction xs arbitrary: s)
  case Nil
  then show ?case by simp
next
  case (Cons x xs)
  from Cons.prems have "int (length (contents s)) < room s" by simp
  with Cons.prems(1) obtain s' where s': "add mem s x = Some (Inr (), s')" "inv s'"
    "contents s' = contents s @ [x]" "room s \<le> room s'"
    using add_room by blast
  with Cons.prems(2) have "int (length (contents s') + length xs) \<le> room s'" by simp
  with Cons.IH [OF s'(2)] s' show ?case by auto
qed

end

locale fifo = reserved_seq inv contents room add
  for inv :: "'s \<Rightarrow> bool" and contents :: "'s \<Rightarrow> 'a list" and room :: "'s \<Rightarrow> int"
    and add :: "bool \<Rightarrow> 's \<Rightarrow> 'a \<Rightarrow> (unit res \<times> 's) option" +
  fixes isempty :: "'s \<Rightarrow> bool"
    and remhead :: "'s \<Rightarrow> ('a \<times> 's) option"
  assumes isempty_iff: "inv s \<Longrightarrow> isempty s \<longleftrightarrow> contents s = []"
    and remhead_Cons: "inv s \<Longrightarrow> contents s = x # xs \<Longrightarrow>
      \<exists>s'. remhead s = Some (x, s') \<and> inv s' \<and> contents s' = xs \<and> room s' = room s"
    and remhead_empty: "inv s \<Longrightarrow> contents s = [] \<Longrightarrow> remhead s = None"
begin

lemma remhead_cases:
  assumes "inv s"
  obtains "isempty s" "contents s = []" "remhead s = None"
  | x xs s' where "\<not> isempty s" "contents s = x # xs" "remhead s = Some (x, s')" "inv s'"
      "contents s' = xs" "room s' = room s"
proof (cases "contents s")
  case Nil
  with assms that(1) show ?thesis by (simp add: isempty_iff remhead_empty)
next
  case (Cons x xs)
  with assms that(2) show ?thesis using remhead_Cons by (metis isempty_iff list.distinct(1))
qed

lemma rotate:
  assumes "inv s" "contents s = x # xs" "int (length (contents s)) \<le> room s"
  shows "\<exists>s' s''. remhead s = Some (x, s') \<and> add mem s' x = Some (Inr (), s'') \<and> inv s'' \<and>
    contents s'' = xs @ [x]"
proof -
  obtain s' where s': "remhead s = Some (x, s')" "inv s'" "contents s' = xs" "room s' = room s"
    using remhead_Cons [OF assms(1,2)] by blast
  with assms have "int (length (contents s')) < room s'" by simp
  with add_room [OF s'(2)] s' show ?thesis by metis
qed

end

section \<open>Numbered slots\<close>

primrec alloc_all :: "('s \<Rightarrow> (nat res \<times> 's) option) \<Rightarrow> nat \<Rightarrow> 's \<Rightarrow> (nat list res \<times> 's) option" where
  "alloc_all alloc 0 s = Some (Inr [], s)"
| "alloc_all alloc (Suc n) s = do {
     (r, s') \<leftarrow> alloc s;
     (case r of
        Inl e \<Rightarrow> Some (Inl e, s')
      | Inr j \<Rightarrow> do {
          (rs, s'') \<leftarrow> alloc_all alloc n s';
          Some (map_sum id ((#) j) rs, s'')
        })
   }"

locale slot_map =
  fixes inv :: "'s \<Rightarrow> bool"
    and used :: "'s \<Rightarrow> nat \<Rightarrow> bool"
    and limit :: "'s \<Rightarrow> nat"
    and alloc :: "'s \<Rightarrow> (nat res \<times> 's) option"
    and release :: "'s \<Rightarrow> nat \<Rightarrow> 's option"
  assumes alloc_free: "inv s \<Longrightarrow> i < limit s \<Longrightarrow> \<not> used s i \<Longrightarrow>
      \<exists>j s'. alloc s = Some (Inr j, s') \<and> j \<le> i \<and> \<not> used s j \<and> (\<forall>k < j. used s k) \<and>
        inv s' \<and> used s' = (used s)(j := True) \<and> limit s' = limit s"
    and alloc_full: "inv s \<Longrightarrow> \<forall>i < limit s. used s i \<Longrightarrow> alloc s = Some (Inl ENOSPC, s)"
    and release_used: "inv s \<Longrightarrow> i < limit s \<Longrightarrow> used s i \<Longrightarrow>
      \<exists>s'. release s i = Some s' \<and> inv s' \<and> used s' = (used s)(i := False) \<and> limit s' = limit s"
    and release_free: "inv s \<Longrightarrow> \<not> (i < limit s \<and> used s i) \<Longrightarrow> release s i = None"
begin

lemma alloc_cases:
  assumes "inv s"
  obtains j s' where "alloc s = Some (Inr j, s')" "j < limit s" "\<not> used s j" "\<forall>k < j. used s k" "inv s'"
      "used s' = (used s)(j := True)" "limit s' = limit s"
  | "alloc s = Some (Inl ENOSPC, s)" "\<forall>i < limit s. used s i"
proof (cases "\<forall>i < limit s. used s i")
  case True
  with assms alloc_full that(2) show ?thesis by blast
next
  case False
  then obtain i where i: "i < limit s" "\<not> used s i" by blast
  from alloc_free [OF assms i] i(1) that(1) show ?thesis by (metis order_le_less_trans)
qed

lemma alloc_all_fresh:
  assumes "inv s" "alloc_all alloc n s = Some (Inr js, s')"
  shows "inv s' \<and> length js = n \<and> distinct js \<and> (\<forall>j \<in> set js. j < limit s \<and> \<not> used s j) \<and>
    used s' = (\<lambda>k. used s k \<or> k \<in> set js)"
  using assms
proof (induction n arbitrary: s js)
  case 0
  then show ?case by auto
next
  case (Suc n)
  from Suc.prems(1) show ?case
  proof (cases rule: alloc_cases)
    case (1 j t)
    with Suc.prems(2) obtain js' where js': "alloc_all alloc n t = Some (Inr js', s')" "js = j # js'"
      by (auto simp: bind_Some)
    from Suc.IH [OF 1(5) js'(1)] 1 js'(2) show ?thesis by (auto simp: fun_eq_iff split: if_splits)
  next
    case 2
    with Suc.prems(2) show ?thesis by simp
  qed
qed

lemma release_alloc:
  assumes "inv s" "alloc s = Some (Inr j, s')"
  shows "\<exists>s''. release s' j = Some s'' \<and> inv s'' \<and> used s'' = used s \<and> limit s'' = limit s"
  using assms(1)
proof (cases rule: alloc_cases)
  case (1 i t)
  with assms(2) have "inv s'" "j < limit s'" "used s' j" "used s' = (used s)(j := True)" "\<not> used s j" "limit s' = limit s"
    by auto
  with release_used [OF this(1-3)] show ?thesis by (auto simp: fun_eq_iff)
next
  case 2
  with assms(2) show ?thesis by simp
qed

end

section \<open>Page frames\<close>

locale frame_pool =
  fixes inv :: "'s \<Rightarrow> bool"
    and avail :: "'s \<Rightarrow> nat set"
    and block_at :: "'s \<Rightarrow> 'p \<Rightarrow> nat option"
    and frames :: "'p \<Rightarrow> nat \<Rightarrow> nat set"
    and alloc :: "nat \<Rightarrow> 's \<Rightarrow> ('p \<times> 's) option"
    and release :: "'p \<Rightarrow> 's \<Rightarrow> 's option"
  assumes alloc_ok: "inv s \<Longrightarrow> alloc n s = Some (p, s') \<Longrightarrow>
      frames p n \<subseteq> avail s \<and> block_at s p = None \<and> inv s' \<and> avail s' = avail s - frames p n \<and>
      block_at s' = (block_at s)(p \<mapsto> n)"
    and release_ok: "inv s \<Longrightarrow> block_at s p = Some n \<Longrightarrow>
      \<exists>s'. release p s = Some s' \<and> inv s' \<and> avail s' = avail s \<union> frames p n \<and> block_at s' = (block_at s)(p := None)"
    and block_used: "inv s \<Longrightarrow> block_at s p = Some n \<Longrightarrow> frames p n \<inter> avail s = {}"
begin

lemma alloc_fresh:
  assumes "inv s" "alloc n s = Some (p, s')" "block_at s q = Some m"
  shows "frames p n \<inter> frames q m = {} \<and> block_at s' q = Some m"
  using alloc_ok [OF assms(1,2)] block_used [OF assms(1,3)] assms(3) by auto

lemma alloc_release:
  assumes "inv s" "alloc n s = Some (p, s')"
  shows "\<exists>s''. release p s' = Some s'' \<and> inv s'' \<and> avail s'' = avail s \<and> block_at s'' = block_at s"
proof -
  from alloc_ok [OF assms] have s': "inv s'" "block_at s' p = Some n" "avail s' = avail s - frames p n"
    "frames p n \<subseteq> avail s" "block_at s' = (block_at s)(p \<mapsto> n)" "block_at s p = None" by auto
  with release_ok [OF s'(1,2)] show ?thesis by (auto simp: fun_eq_iff)
qed

lemma alloc_twice_disjoint:
  assumes "inv s" "alloc n s = Some (p, s')" "alloc m s' = Some (q, s'')"
  shows "frames p n \<inter> frames q m = {} \<and> frames p n \<union> frames q m \<subseteq> avail s \<and> avail s'' = avail s - (frames p n \<union> frames q m)"
proof -
  from alloc_ok [OF assms(1,2)] have s': "inv s'" "avail s' = avail s - frames p n" "frames p n \<subseteq> avail s" by auto
  from alloc_ok [OF s'(1) assms(3)] s' show ?thesis by auto
qed

end

section \<open>The heap\<close>

locale block_heap =
  fixes inv :: "'s \<Rightarrow> bool"
    and blocks :: "'s \<Rightarrow> 'p \<Rightarrow> nat option"
    and bytes :: "'p \<Rightarrow> nat \<Rightarrow> nat set"
    and kept :: "'s \<Rightarrow> 's \<Rightarrow> 'p set \<Rightarrow> bool"
    and limit :: nat
    and alloc :: "nat \<Rightarrow> 's \<Rightarrow> ('p option \<times> 's) option"
    and release :: "'p \<Rightarrow> 's \<Rightarrow> 's option"
  assumes disjoint: "inv s \<Longrightarrow> blocks s p = Some n \<Longrightarrow> blocks s q = Some m \<Longrightarrow> p \<noteq> q \<Longrightarrow> bytes p n \<inter> bytes q m = {}"
    and alloc_block: "inv s \<Longrightarrow> n < limit \<Longrightarrow> alloc n s = Some (Some p, s') \<Longrightarrow>
      inv s' \<and> blocks s p = None \<and> (\<exists>m \<ge> n. blocks s' = (blocks s)(p \<mapsto> m)) \<and> kept s s' {}"
    and alloc_null: "inv s \<Longrightarrow> alloc n s = Some (None, s') \<Longrightarrow> s' = s"
    and release_block: "inv s \<Longrightarrow> blocks s p = Some n \<Longrightarrow>
      \<exists>s'. release p s = Some s' \<and> inv s' \<and> blocks s' = (blocks s)(p := None) \<and> kept s s' {p}"
begin

lemma alloc_fresh:
  assumes "inv s" "n < limit" "alloc n s = Some (Some p, s')"
  shows "\<exists>m \<ge> n. blocks s' = (blocks s)(p \<mapsto> m) \<and> (\<forall>q k. blocks s q = Some k \<longrightarrow> bytes p m \<inter> bytes q k = {})"
proof -
  from alloc_block [OF assms] obtain m where m: "inv s'" "blocks s p = None" "n \<le> m" "blocks s' = (blocks s)(p \<mapsto> m)" by blast
  have "bytes p m \<inter> bytes q k = {}" if q: "blocks s q = Some k" for q k
  proof -
    from q m(2) have "p \<noteq> q" by auto
    with q m(4) show ?thesis by (intro disjoint [OF m(1)]) simp_all
  qed
  with m show ?thesis by blast
qed

lemma alloc_release:
  assumes "inv s" "n < limit" "alloc n s = Some (Some p, s')"
  shows "\<exists>s''. release p s' = Some s'' \<and> inv s'' \<and> blocks s'' = blocks s"
proof -
  from alloc_block [OF assms] obtain m where m: "inv s'" "blocks s p = None" "blocks s' = (blocks s)(p \<mapsto> m)" by blast
  from release_block [OF m(1), of p m] m(2,3) show ?thesis by (auto simp: fun_eq_iff)
qed

end

end
