(* ===== verification/Kern_Array.thy ===== *)
theory Kern_Array
  imports Kern_Interfaces
begin

text \<open>
  The growable pointer array of \<open>kern/lib/array.c\<close>. The record has the three fields of
  \<open>struct array\<close>; \<open>arr_v\<close> is \<open>None\<close> for the null pointer. The refinement lemmas
  relate every operation to the list \<open>array_list a\<close> of the cells below \<open>num\<close>.
\<close>

section \<open>Definitions\<close>

record 'a array =
  arr_num :: int
  arr_max :: int
  arr_v :: "'a block option"

definition array_create :: "bool \<Rightarrow> 'a array option" where
  "array_create mem =
     (if mem then Some \<lparr>arr_num = 0, arr_max = 0, arr_v = None\<rparr> else None)"

definition array_getnum :: "'a array \<Rightarrow> int" where
  "array_getnum a = arr_num a"

definition array_getguy :: "'a array \<Rightarrow> int \<Rightarrow> 'a option" where
  "array_getguy a index = do {
     kassert (arr_num a \<le> arr_max a);
     kassert (0 \<le> index \<and> index < arr_num a);
     v \<leftarrow> arr_v a;
     cell \<leftarrow> rd v index;
     cell
   }"

partial_function (option) grow_max :: "int \<Rightarrow> int \<Rightarrow> int option" where
  \<comment> \<open>\<open>while (nguys > newmax) newmax = (newmax+1)*2;\<close>\<close>
  "grow_max nguys newmax =
     (if nguys > newmax then grow_max nguys (swrap32 ((newmax + 1) * 2)) else Some newmax)"

primrec copy_words :: "nat \<Rightarrow> 'a list option \<Rightarrow> 'a list \<Rightarrow> 'a list option" where
  \<comment> \<open>\<open>for (i=0; i<n; i++) newv[i] = v[i];\<close>\<close>
  "copy_words 0 src dst = Some dst"
| "copy_words (Suc i) src dst = do {
     dst' \<leftarrow> copy_words i src dst;
     s \<leftarrow> src;
     x \<leftarrow> rd s (int i);
     wr dst' (int i) x
   }"

definition array_preallocate :: "bool \<Rightarrow> 'a array \<Rightarrow> int \<Rightarrow> (unit res \<times> 'a array) option" where
  "array_preallocate mem a nguys = do {
     kassert (0 \<le> arr_num a \<and> arr_num a \<le> arr_max a);
     newmax \<leftarrow> grow_max nguys (arr_max a);
     (case kmalloc_words mem newmax of
        None \<Rightarrow> Some (Inl ENOMEM, a)
      | Some newv \<Rightarrow> do {
          newv' \<leftarrow> copy_words (nat (arr_num a)) (arr_v a) newv;
          Some (Inr (), a\<lparr>arr_max := newmax, arr_v := Some newv'\<rparr>)
        })
   }"

definition array_setsize :: "bool \<Rightarrow> 'a array \<Rightarrow> int \<Rightarrow> (unit res \<times> 'a array) option" where
  "array_setsize mem a nguys = do {
     kassert (0 \<le> arr_num a \<and> arr_num a \<le> arr_max a);
     (if nguys > arr_max a then do {
        (result, a') \<leftarrow> array_preallocate mem a nguys;
        (case result of
           Inl e \<Rightarrow> Some (Inl e, a')
         | Inr _ \<Rightarrow> Some (Inr (), a'\<lparr>arr_num := nguys\<rparr>))
      }
      else if nguys = 0 \<and> arr_max a > 16 then do {
        kassert (arr_v a \<noteq> None);
        Some (Inr (), a\<lparr>arr_v := None, arr_max := 0, arr_num := nguys\<rparr>)
      }
      else Some (Inr (), a\<lparr>arr_num := nguys\<rparr>))
   }"

definition array_setguy :: "'a array \<Rightarrow> int \<Rightarrow> 'a \<Rightarrow> 'a array option" where
  "array_setguy a index ptr = do {
     kassert (arr_num a \<le> arr_max a);
     kassert (0 \<le> index \<and> index < arr_num a);
     v \<leftarrow> arr_v a;
     v' \<leftarrow> wr v index (Some ptr);
     Some (a\<lparr>arr_v := Some v'\<rparr>)
   }"

definition array_add :: "bool \<Rightarrow> 'a array \<Rightarrow> 'a \<Rightarrow> (unit res \<times> 'a array) option" where
  "array_add mem a guy = do {
     let ix = arr_num a;
     (result, a') \<leftarrow> array_setsize mem a (ix + 1);
     (case result of
        Inl e \<Rightarrow> Some (Inl e, a')
      | Inr _ \<Rightarrow> do {
          v \<leftarrow> arr_v a';
          v' \<leftarrow> wr v ix (Some guy);
          Some (Inr (), a'\<lparr>arr_v := Some v'\<rparr>)
        })
   }"

definition array_remove :: "'a array \<Rightarrow> int \<Rightarrow> 'a array option" where
  "array_remove a index = do {
     kassert (arr_num a \<le> arr_max a);
     kassert (0 \<le> index \<and> index < arr_num a);
     let nmove = arr_num a - (index + 1);
     v \<leftarrow> arr_v a;
     v' \<leftarrow> move_words v index (index + 1) nmove;
     Some (a\<lparr>arr_v := Some v', arr_num := arr_num a - 1\<rparr>)
   }"

section \<open>Invariant and abstraction\<close>

definition array_inv :: "'a array \<Rightarrow> bool" where
  "array_inv a \<longleftrightarrow> 0 \<le> arr_num a \<and> arr_num a \<le> arr_max a \<and> arr_max a < 2 ^ 30 \<and>
     (case arr_v a of None \<Rightarrow> arr_max a = 0 | Some v \<Rightarrow> int (length v) = arr_max a)"

definition array_cells :: "'a array \<Rightarrow> 'a block" where
  "array_cells a = (case arr_v a of None \<Rightarrow> [] | Some v \<Rightarrow> v)"

definition array_list :: "'a array \<Rightarrow> 'a block" where
  "array_list a = take (nat (arr_num a)) (array_cells a)"


section \<open>Loops\<close>

lemma grow_max_spec:
  assumes "0 \<le> m" "m < 2 ^ 30" "nguys < 2 ^ 29"
  shows "\<exists>r. grow_max nguys m = Some r \<and> nguys \<le> r \<and> m \<le> r \<and> r < 2 ^ 30 \<and> (nguys \<le> m \<longrightarrow> r = m)"
  using assms(1,2)
proof (induction "nat (nguys - m)" arbitrary: m rule: less_induct)
  case less
  show ?case
  proof (cases "nguys > m")
    case False
    with less.prems show ?thesis by (subst grow_max.simps) simp
  next
    case True
    let ?m = "(m + 1) * 2"
    from True assms(3) less.prems have m': "swrap32 ?m = ?m" "0 \<le> ?m" "?m < 2 ^ 30"
      by simp_all
    from True less.prems have "nat (nguys - ?m) < nat (nguys - m)" by simp
    from less.hyps [OF this m'(2,3)] obtain r where
      "grow_max nguys ?m = Some r \<and> nguys \<le> r \<and> ?m \<le> r \<and> r < 2 ^ 30"
      by blast
    with True less.prems m'(1) show ?thesis
      by (subst grow_max.simps) simp
  qed
qed

lemma copy_words_Some:
  "n \<le> length s \<Longrightarrow> n \<le> length dst \<Longrightarrow> copy_words n (Some s) dst = Some (take n s @ drop n dst)"
proof (induction n)
  case (Suc n)
  then have "(take n s @ drop n dst)[n := s ! n] = take (Suc n) s @ drop (Suc n) dst"
    by (simp add: list_update_append take_Suc_conv_app_nth Cons_nth_drop_Suc [symmetric])
  with Suc show ?case by simp
qed simp

section \<open>Every operation keeps the invariant and refines the list operation\<close>

lemmas array_defs = array_inv_def array_list_def array_cells_def

lemma array_inv_length: "array_inv a \<Longrightarrow> int (length (array_cells a)) = arr_max a"
  by (auto simp: array_defs split: option.splits)

lemma array_list_length [simp]: "array_inv a \<Longrightarrow> length (array_list a) = nat (arr_num a)"
  using array_inv_length [of a] by (auto simp: array_list_def array_inv_def)

lemma array_create_ok: "array_create True = Some a \<Longrightarrow> array_inv a \<and> array_list a = []"
  by (auto simp: array_create_def array_defs)

lemma array_preallocate_ok:
  assumes "array_inv a" "nguys < 2 ^ 29"
  shows "\<exists>a'. array_preallocate True a nguys = Some (Inr (), a') \<and> array_inv a' \<and>
    array_list a' = array_list a \<and> arr_num a' = arr_num a \<and> nguys \<le> arr_max a' \<and> arr_max a \<le> arr_max a'"
proof -
  from assms(1) have inv: "0 \<le> arr_num a" "arr_num a \<le> arr_max a" "0 \<le> arr_max a" "arr_max a < 2 ^ 30"
    by (auto simp: array_inv_def)
  obtain r where r: "grow_max nguys (arr_max a) = Some r" "nguys \<le> r" "arr_max a \<le> r" "r < 2 ^ 30"
    using grow_max_spec [OF inv(3,4) assms(2)] by blast
  let ?n = "nat (arr_num a)"
  let ?blk = "replicate (nat r) None"
  have cells: "copy_words ?n (arr_v a) ?blk = Some (array_list a @ drop ?n ?blk)"
  proof (cases "arr_v a")
    case None
    with assms(1) inv have "?n = 0" by (simp add: array_inv_def)
    then show ?thesis by (simp add: array_list_def)
  next
    case (Some v)
    with assms(1) inv r show ?thesis
      by (simp add: array_defs copy_words_Some)
  qed
  have "kmalloc_words True r = (Some ?blk :: 'a block option)"
    using r(3,4) inv(3) by simp
  moreover have "array_inv (a\<lparr>arr_max := r, arr_v := Some (array_list a @ drop ?n ?blk)\<rparr>)"
    using assms(1) inv r by (simp add: array_inv_def)
  ultimately show ?thesis
    using r inv cells assms(1) by (simp add: array_preallocate_def array_list_def [of "a\<lparr>arr_max := _, arr_v := _\<rparr>"] array_cells_def [of "a\<lparr>arr_max := _, arr_v := _\<rparr>"])
qed

lemma array_preallocate_nomem:
  assumes "array_inv a" "nguys < 2 ^ 29"
  shows "array_preallocate False a nguys = Some (Inl ENOMEM, a)"
  using assms grow_max_spec [of "arr_max a" nguys]
  by (auto simp: array_preallocate_def array_inv_def)

lemma array_setsize_within:
  assumes "array_inv a" "0 \<le> nguys" "nguys \<le> arr_max a" "nguys \<noteq> 0 \<or> arr_max a \<le> 16"
  shows "array_setsize mem a nguys = Some (Inr (), a\<lparr>arr_num := nguys\<rparr>)"
    and "array_inv (a\<lparr>arr_num := nguys\<rparr>)"
  using assms by (auto simp: array_setsize_def array_inv_def split: option.splits)

lemma array_setsize_zero:
  assumes "array_inv a"
  shows "\<exists>a'. array_setsize mem a 0 = Some (Inr (), a') \<and> array_inv a' \<and> array_list a' = []"
  using assms by (auto simp: array_setsize_def array_defs split: option.splits)

lemma array_setsize_grow:
  assumes "array_inv a" "arr_max a < nguys" "nguys < 2 ^ 29"
  shows "\<exists>a'. array_setsize True a nguys = Some (Inr (), a') \<and> array_inv a' \<and> arr_num a' = nguys \<and>
    take (nat (arr_num a)) (array_list a') = array_list a"
proof -
  obtain a' where a': "array_preallocate True a nguys = Some (Inr (), a')" "array_inv a'"
    "array_list a' = array_list a" "arr_num a' = arr_num a" "nguys \<le> arr_max a'"
    using array_preallocate_ok [OF assms(1,3)] by blast
  from assms a'(2,5) have "array_inv (a'\<lparr>arr_num := nguys\<rparr>)"
    by (auto simp: array_inv_def split: option.splits)
  moreover have "take (nat (arr_num a)) (array_list (a'\<lparr>arr_num := nguys\<rparr>)) = array_list a"
    using assms a'(3,4) by (auto simp: array_defs min_def split: option.splits)
  ultimately show ?thesis
    using assms a' by (simp add: array_setsize_def array_inv_def)
qed

lemma array_add_ok:
  assumes "array_inv a" "arr_num a < arr_max a \<or> mem \<and> arr_num a + 1 < 2 ^ 29"
  shows "\<exists>a'. array_add mem a x = Some (Inr (), a') \<and> array_inv a' \<and>
    array_list a' = array_list a @ [Some x] \<and> arr_max a \<le> arr_max a'"
proof -
  let ?n = "arr_num a + 1"
  have "\<exists>a'. array_setsize mem a ?n = Some (Inr (), a') \<and> array_inv a' \<and> arr_num a' = ?n \<and>
    take (nat (arr_num a)) (array_list a') = array_list a \<and> arr_max a \<le> arr_max a'"
  proof (cases "arr_num a < arr_max a")
    case True
    with assms(1) show ?thesis
      using array_setsize_within [of a ?n]
      by (auto simp: array_inv_def array_list_def array_cells_def min_def split: option.splits)
  next
    case False
    with assms have "mem" "arr_max a < ?n" "?n < 2 ^ 29" "arr_num a = arr_max a"
      by (auto simp: array_inv_def)
    with array_setsize_grow [OF assms(1) this(2,3)] show ?thesis
      by (auto simp: array_inv_def)
  qed
  then obtain a' where a': "array_setsize mem a ?n = Some (Inr (), a')" "array_inv a'"
    "arr_num a' = ?n" "take (nat (arr_num a)) (array_list a') = array_list a" "arr_max a \<le> arr_max a'"
    by blast
  from assms(1) have "0 \<le> arr_num a" by (simp add: array_inv_def)
  with a'(2,3) obtain v where v: "arr_v a' = Some v" "int (length v) = arr_max a'" "?n \<le> int (length v)"
    by (auto simp: array_inv_def split: option.splits)
  let ?a = "a'\<lparr>arr_v := Some (v[nat (arr_num a) := Some x])\<rparr>"
  from v a'(2) have "array_inv ?a" by (simp add: array_inv_def)
  moreover have "array_list ?a = array_list a @ [Some x]"
  proof -
    have "nat ?n = Suc (nat (arr_num a))" using \<open>0 \<le> arr_num a\<close> by simp
    moreover have "nat (arr_num a) < length v" using v(3) \<open>0 \<le> arr_num a\<close> by linarith
    ultimately show ?thesis
      using a'(3,4) v(1) by (simp add: array_list_def array_cells_def take_Suc_conv_app_nth)
  qed
  ultimately show ?thesis
    using a' v \<open>0 \<le> arr_num a\<close> by (simp add: array_add_def)
qed

lemma array_add_nomem:
  assumes "array_inv a" "arr_num a + 1 < 2 ^ 29" "arr_num a = arr_max a"
  shows "array_add False a x = Some (Inl ENOMEM, a)"
  using assms array_preallocate_nomem [of a "arr_num a + 1"]
  by (auto simp: array_add_def array_setsize_def array_inv_def)

lemma array_getguy_eq:
  assumes "array_inv a" "0 \<le> i" "i < arr_num a"
  shows "array_getguy a i = array_list a ! nat i"
  using assms by (auto simp: array_getguy_def array_defs split: option.splits)

lemma array_getguy_outside:
  "i < 0 \<or> arr_num a \<le> i \<Longrightarrow> array_getguy a i = None"
  by (auto simp: array_getguy_def)

lemma array_setguy_ok:
  assumes "array_inv a" "0 \<le> i" "i < arr_num a"
  shows "\<exists>a'. array_setguy a i x = Some a' \<and> array_inv a' \<and> array_list a' = (array_list a)[nat i := Some x]"
proof -
  from assms obtain v where v: "arr_v a = Some v" "int (length v) = arr_max a" "arr_num a \<le> arr_max a"
    by (auto simp: array_inv_def split: option.splits)
  with assms show ?thesis
    by (auto simp: array_setguy_def array_defs take_update_swap)
qed

lemma array_remove_ok:
  assumes "array_inv a" "0 \<le> i" "i < arr_num a"
  shows "\<exists>a'. array_remove a i = Some a' \<and> array_inv a' \<and> arr_num a' = arr_num a - 1 \<and>
    arr_max a' = arr_max a \<and> array_list a' = take (nat i) (array_list a) @ drop (Suc (nat i)) (array_list a)"
proof -
  from assms obtain v where v: "arr_v a = Some v" "int (length v) = arr_max a" "arr_num a \<le> arr_max a"
    by (auto simp: array_inv_def split: option.splits)
  define k n where "k = nat i" and "n = nat (arr_num a)"
  with assms v have k: "i = int k" "arr_num a = int n" "k < n" "n \<le> length v"
    by auto
  let ?v = "take k v @ take (n - Suc k) (drop (Suc k) v) @ drop (n - 1) v"
  have mv: "move_words v i (i + 1) (arr_num a - (i + 1)) = Some ?v"
    using k by (simp add: move_words_def nat_diff_distrib' nat_add_distrib of_nat_diff)
  have len: "length ?v = length v" using k by simp
  obtain m where m: "n = Suc m" using k(3) by (cases n) auto
  with k have "k \<le> m" "Suc m \<le> length v" by auto
  with m have "take (n - 1) ?v = take k (take n v) @ drop (Suc k) (take n v)"
    by (simp add: min_absorb2 drop_take)
  with mv len v assms k show ?thesis
    by (auto simp: array_remove_def array_defs nat_diff_distrib')
qed


section \<open>Arrays as reserved sequences\<close>

definition array_full :: "'a array \<Rightarrow> bool" where
  \<comment> \<open>the invariant of an array whose cells below \<open>num\<close> were all written\<close>
  "array_full a \<longleftrightarrow> array_inv a \<and> None \<notin> set (array_list a)"

definition array_elems :: "'a array \<Rightarrow> 'a list" where
  "array_elems a = map the (array_list a)"

lemma array_full_list: "array_full a \<Longrightarrow> array_list a = map Some (array_elems a)"
  unfolding array_full_def array_elems_def map_map
  by (rule sym, rule map_idI) (metis comp_apply option.collapse)

lemma array_elems_length: "array_full a \<Longrightarrow> int (length (array_elems a)) = arr_num a"
  by (auto simp: array_elems_def array_full_def array_inv_def)

lemma array_fullI: "array_inv a \<Longrightarrow> array_list a = map Some xs \<Longrightarrow> array_full a \<and> array_elems a = xs"
  by (auto simp: array_full_def array_elems_def comp_def)

interpretation arr: reserved_seq array_full array_elems arr_max array_add
proof
  fix a :: "'a array" and mem x
  assume a: "array_full a" "int (length (array_elems a)) < arr_max a"
  then have "array_inv a" "arr_num a < arr_max a"
    by (auto simp: array_elems_length array_full_def)
  then obtain a' where a': "array_add mem a x = Some (Inr (), a')" "array_inv a'"
    "array_list a' = array_list a @ [Some x]" "arr_max a \<le> arr_max a'"
    using array_add_ok [of a mem x] by auto
  with array_full_list [OF a(1)] have "array_list a' = map Some (array_elems a @ [x])" by simp
  with array_fullI a' show "\<exists>s'. array_add mem a x = Some (Inr (), s') \<and> array_full s' \<and>
    array_elems s' = array_elems a @ [x] \<and> arr_max a \<le> arr_max s'"
    by blast
qed

lemma array_getguy_full:
  assumes "array_full a" "i < length (array_elems a)"
  shows "array_getguy a (int i) = Some (array_elems a ! i)"
  using assms array_full_list [OF assms(1)] array_elems_length [OF assms(1)] array_getguy_eq [of a "int i"]
  by (simp add: array_full_def)

lemma array_remove_full:
  assumes "array_full a" "i < length (array_elems a)"
  shows "\<exists>a'. array_remove a (int i) = Some a' \<and> array_full a' \<and> arr_max a' = arr_max a \<and>
    array_elems a' = take i (array_elems a) @ drop (Suc i) (array_elems a)"
proof -
  from assms have "array_inv a" "int i < arr_num a"
    using array_elems_length [OF assms(1)] by (auto simp: array_full_def)
  then obtain a' where a': "array_remove a (int i) = Some a'" "array_inv a'" "arr_max a' = arr_max a"
    "array_list a' = take i (array_list a) @ drop (Suc i) (array_list a)"
    using array_remove_ok [of a "int i"] by auto
  with array_full_list [OF assms(1)]
  have "array_list a' = map Some (take i (array_elems a) @ drop (Suc i) (array_elems a))"
    by (simp add: take_map drop_map)
  with array_fullI a' show ?thesis by blast
qed

text \<open>C35.
  \<open>array_preallocate(a, n)\<close> really reserves: once it has returned 0, any elements may be
  added as long as the array holds at most \<open>n\<close>, every \<open>array_add\<close> returns 0 without the
  allocator's help (\<open>mem\<close> may be \<open>False\<close>), and the array then holds exactly the old elements
  followed by the new ones in order.
\<close>

theorem array_preallocate_reserves:
  assumes "array_full a" "n < 2 ^ 29" "arr_num a + int (length xs) \<le> n"
  shows "\<exists>a' a''. array_preallocate True a n = Some (Inr (), a') \<and>
    add_all array_add mem a' xs = Some (Inr (), a'') \<and> array_full a'' \<and>
    array_elems a'' = array_elems a @ xs"
proof -
  obtain a' where a': "array_preallocate True a n = Some (Inr (), a')" "array_inv a'"
    "array_list a' = array_list a" "n \<le> arr_max a'"
    using assms(1,2) array_preallocate_ok [of a n] by (auto simp: array_full_def)
  with array_full_list [OF assms(1)] have full: "array_full a' \<and> array_elems a' = array_elems a"
    by (intro array_fullI) simp_all
  have "int (length (array_elems a') + length xs) \<le> arr_max a'"
    using full assms(3) a'(4) array_elems_length [OF assms(1)] by simp
  with full obtain a'' where "add_all array_add mem a' xs = Some (Inr (), a'')" "array_full a''"
    "array_elems a'' = array_elems a' @ xs"
    using arr.add_all_room [of a' xs mem] by blast
  with full a'(1) show ?thesis by simp
qed

theorem array_preallocate_reserves_witness:
  "\<exists>a' a''. array_preallocate True \<lparr>arr_num = 0, arr_max = 0, arr_v = None\<rparr> 3 = Some (Inr (), a') \<and>
    add_all array_add False a' [7 :: nat, 8] = Some (Inr (), a'') \<and> array_full a'' \<and> array_elems a'' = [7, 8]"
  using array_preallocate_reserves [of "\<lparr>arr_num = 0, arr_max = 0, arr_v = None\<rparr>" 3 "[7 :: nat, 8]" False]
  by (simp add: array_full_def array_elems_def array_defs)

end
