(* ===== verification/Kern_Queue.thy ===== *)
theory Kern_Queue
  imports Kern_Interfaces
begin

text \<open>
  The circular queue of pointers of \<open>kern/lib/queue.c\<close>. A queue of size \<open>n\<close> keeps at most
  \<open>n - 1\<close> elements, in the cells from \<open>nextread\<close> up to \<open>nextwrite\<close> modulo \<open>n\<close>. The
  refinement lemmas relate the operations to the list \<open>q_list q\<close>.

  \<open>q_grow\<close> and \<open>q_addtail\<close> call each other in the source. \<open>q_grow_with\<close> takes the
  \<open>q_addtail\<close> it calls as an argument and \<open>q_addtail_n d\<close> allows \<open>d\<close> nested calls;
  \<open>q_addtail_n_depth\<close> shows that depth 2 is always enough: the calls made by \<open>q_grow\<close> never
  grow the queue again.
\<close>

section \<open>Definitions\<close>

record 'a queue =
  q_size :: int
  nextwrite :: int
  nextread :: int
  q_data :: "'a block"

function q_grow_size :: "int \<Rightarrow> int \<Rightarrow> int option" where
  \<comment> \<open>\<open>while (nsize < targetsize) { nsize *= 2; assert(nsize > 0); }\<close>\<close>
  "q_grow_size targetsize nsize =
     (if nsize < targetsize
      then (if swrap32 (nsize * 2) > 0 then q_grow_size targetsize (swrap32 (nsize * 2)) else None)
      else Some nsize)"
  by pat_completeness auto

termination
proof (relation "measure (\<lambda>(t, n). if n \<ge> 2 ^ 31 then 2 ^ 31 + 1 else nat (2 ^ 31 - n))")
  fix t n :: int
  assume "n < t" "0 < swrap32 (n * 2)"
  then show "((t, swrap32 (n * 2)), t, n) \<in> measure (\<lambda>(t, n). if n \<ge> 2 ^ 31 then 2 ^ 31 + 1 else nat (2 ^ 31 - n))"
    using swrap32_double [of n] swrap32_range [of "n * 2"] by auto
qed simp

partial_function (option) q_copy ::
  "('a queue \<Rightarrow> 'a \<Rightarrow> (unit res \<times> 'a queue) option) \<Rightarrow> 'a block \<Rightarrow> int \<Rightarrow> int \<Rightarrow> int \<Rightarrow> 'a queue \<Rightarrow> 'a queue option" where
  \<comment> \<open>\<open>for (i=onr; i!=onw; i = (i+1)%osize) { result = q_addtail(q, olddata[i]); assert(result==0); }\<close>\<close>
  "q_copy addtail olddata osize onw i q =
     (if i = onw then Some q
      else Option.bind (rd olddata i) (\<lambda>cell. Option.bind cell (\<lambda>x.
           Option.bind (addtail q x) (\<lambda>(result, q').
           if result = Inr () then q_copy addtail olddata osize onw ((i + 1) mod osize) q' else None))))"

definition q_grow_with ::
  "('a queue \<Rightarrow> 'a \<Rightarrow> (unit res \<times> 'a queue) option) \<Rightarrow> bool \<Rightarrow> 'a queue \<Rightarrow> int \<Rightarrow> (unit res \<times> 'a queue) option" where
  "q_grow_with addtail mem q targetsize = do {
     nsize \<leftarrow> q_grow_size targetsize (q_size q);
     (case kmalloc_words mem nsize of
        None \<Rightarrow> Some (Inl ENOMEM, q)
      | Some ndata \<Rightarrow> do {
          q' \<leftarrow> q_copy addtail (q_data q) (q_size q) (nextwrite q) (nextread q)
                  (q\<lparr>q_size := nsize, q_data := ndata, nextread := 0, nextwrite := 0\<rparr>);
          Some (Inr (), q')
        })
   }"

definition q_store :: "'a queue \<Rightarrow> 'a \<Rightarrow> int \<Rightarrow> (unit res \<times> 'a queue) option" where
  \<comment> \<open>\<open>q->data[q->nextwrite] = ptr; q->nextwrite = nextnext; return 0;\<close>\<close>
  "q_store q ptr nextnext = do {
     d \<leftarrow> wr (q_data q) (nextwrite q) (Some ptr);
     Some (Inr (), q\<lparr>q_data := d, nextwrite := nextnext\<rparr>)
   }"

primrec q_addtail_n :: "nat \<Rightarrow> bool \<Rightarrow> 'a queue \<Rightarrow> 'a \<Rightarrow> (unit res \<times> 'a queue) option" where
  "q_addtail_n 0 mem q ptr = None"
| "q_addtail_n (Suc d) mem q ptr = do {
     kassert (q_size q > 0);
     let nextnext = (nextwrite q + 1) mod q_size q;
     (if nextnext = nextread q then do {
        (result, q') \<leftarrow> q_grow_with (q_addtail_n d mem) mem q (q_size q + 1);
        (case result of
           Inl e \<Rightarrow> Some (Inl e, q')
         | Inr _ \<Rightarrow> q_store q' ptr ((nextwrite q' + 1) mod q_size q'))
      }
      else q_store q ptr nextnext)
   }"

definition q_addtail :: "bool \<Rightarrow> 'a queue \<Rightarrow> 'a \<Rightarrow> (unit res \<times> 'a queue) option" where
  "q_addtail = q_addtail_n 2"

definition q_grow :: "bool \<Rightarrow> 'a queue \<Rightarrow> int \<Rightarrow> (unit res \<times> 'a queue) option" where
  "q_grow mem = q_grow_with (q_addtail_n 1 mem) mem"

definition q_create :: "bool \<Rightarrow> bool \<Rightarrow> int \<Rightarrow> 'a queue option" where
  \<comment> \<open>\<open>mem1\<close> and \<open>mem2\<close> are the outcomes of the two \<open>kmalloc\<close> calls\<close>
  "q_create mem1 mem2 sz =
     (if mem1 then
        (case kmalloc_words mem2 sz of
           None \<Rightarrow> None
         | Some d \<Rightarrow> Some \<lparr>q_size = sz, nextwrite = 0, nextread = 0, q_data = d\<rparr>)
      else None)"

definition q_preallocate :: "bool \<Rightarrow> 'a queue \<Rightarrow> int \<Rightarrow> (unit res \<times> 'a queue) option" where
  "q_preallocate mem q sz = do {
     kassert (q_size q > 0);
     (if sz > q_size q then q_grow mem q sz else Some (Inr (), q))
   }"

definition q_empty :: "'a queue \<Rightarrow> bool" where
  "q_empty q = (nextwrite q = nextread q)"

definition q_remhead :: "'a queue \<Rightarrow> ('a \<times> 'a queue) option" where
  "q_remhead q = do {
     kassert (q_size q > 0);
     kassert (\<not> q_empty q);
     cell \<leftarrow> rd (q_data q) (nextread q);
     ret \<leftarrow> cell;
     Some (ret, q\<lparr>nextread := (nextread q + 1) mod q_size q\<rparr>)
   }"

definition q_destroy :: "'a queue \<Rightarrow> unit option" where
  "q_destroy q = kassert (q_empty q)"

definition q_getstart :: "'a queue \<Rightarrow> int" where
  "q_getstart q = nextread q"

definition q_getend :: "'a queue \<Rightarrow> int" where
  "q_getend q = nextwrite q"

definition q_getsize :: "'a queue \<Rightarrow> int" where
  "q_getsize q = q_size q"

definition q_getguy :: "'a queue \<Rightarrow> int \<Rightarrow> 'a option" where
  "q_getguy q index = do {
     kassert (0 \<le> index \<and> index < q_size q);
     cell \<leftarrow> rd (q_data q) index;
     cell
   }"

section \<open>Invariant and abstraction\<close>

definition q_count :: "'a queue \<Rightarrow> nat" where
  "q_count q = nat ((nextwrite q - nextread q) mod q_size q)"

definition q_cell :: "'a queue \<Rightarrow> nat \<Rightarrow> 'a option" where
  "q_cell q k = q_data q ! nat ((nextread q + int k) mod q_size q)"

definition q_list :: "'a queue \<Rightarrow> 'a list" where
  "q_list q = map (\<lambda>k. the (q_cell q k)) [0..<q_count q]"

definition q_inv :: "'a queue \<Rightarrow> bool" where
  "q_inv q \<longleftrightarrow> 0 < q_size q \<and> q_size q < 2 ^ 30 \<and> int (length (q_data q)) = q_size q \<and>
     0 \<le> nextread q \<and> nextread q < q_size q \<and> 0 \<le> nextwrite q \<and> nextwrite q < q_size q \<and>
     (\<forall>k < q_count q. q_cell q k \<noteq> None)"

definition q_room :: "'a queue \<Rightarrow> int" where
  "q_room q = q_size q - 1"



section \<open>Ring arithmetic\<close>

lemma ring_pos: "0 \<le> nw \<Longrightarrow> nw < n \<Longrightarrow> (nr + (nw - nr) mod n) mod n = (nw :: int)"
  by (simp add: mod_add_right_eq)

lemma ring_inj:
  fixes k j n :: int
  assumes "(nr + k) mod n = (nr + j) mod n" "0 \<le> k" "k < n" "0 \<le> j" "j < n"
  shows "k = j"
proof -
  from assms(1) have "(nr + k - nr) mod n = (nr + j - nr) mod n"
    by (rule mod_diff_cong) simp
  with assms show ?thesis by simp
qed

lemma ring_full_iff:
  fixes n :: int
  assumes "0 \<le> nr" "nr < n" "0 \<le> nw" "nw < n"
  shows "(nw + 1) mod n = nr \<longleftrightarrow> (nw - nr) mod n + 1 = n"
proof -
  define c where "c = (nw - nr) mod n"
  with assms have c: "0 \<le> c" "c < n" by simp_all
  have "(nw + 1) mod n = (nr + (c + 1)) mod n"
    using mod_add_left_eq [of "nr + c" n 1] ring_pos [OF assms(3,4), of nr]
    by (simp only: add.assoc c_def)
  moreover have "(nr + (c + 1)) mod n = nr \<longleftrightarrow> c + 1 = n"
  proof
    assume eq: "(nr + (c + 1)) mod n = nr"
    show "c + 1 = n"
    proof (rule ccontr)
      assume "c + 1 \<noteq> n"
      with c assms eq have "c + 1 = 0" by - (rule ring_inj [where nr = nr and n = n and j = 0]; simp)
      with c show False by simp
    qed
  qed (use assms in simp)
  ultimately show ?thesis by (simp add: c_def)
qed

section \<open>The non-growing operations refine the list\<close>

lemma q_count_less: "q_inv q \<Longrightarrow> int (q_count q) < q_size q"
  by (simp add: q_inv_def q_count_def)

lemma q_count_int: "q_inv q \<Longrightarrow> int (q_count q) = (nextwrite q - nextread q) mod q_size q"
  by (simp add: q_inv_def q_count_def)

lemma q_list_length [simp]: "length (q_list q) = q_count q"
  by (simp add: q_list_def)

lemma q_list_nth: "q_inv q \<Longrightarrow> k < q_count q \<Longrightarrow> q_cell q k = Some (q_list q ! k)"
  by (simp add: q_list_def q_inv_def)

lemma q_full_iff: "q_inv q \<Longrightarrow> (nextwrite q + 1) mod q_size q = nextread q \<longleftrightarrow> int (q_count q) = q_room q"
  using ring_full_iff [of "nextread q" "q_size q" "nextwrite q"]
  by (auto simp: q_inv_def q_count_def q_room_def)

lemma q_empty_iff: "q_inv q \<Longrightarrow> q_empty q \<longleftrightarrow> q_list q = []"
proof -
  assume inv: "q_inv q"
  have "q_count q = 0 \<longleftrightarrow> nextwrite q = nextread q"
  proof
    assume "q_count q = 0"
    with q_count_int [OF inv] ring_pos [of "nextwrite q" "q_size q" "nextread q"] inv
    show "nextwrite q = nextread q" by (simp add: q_inv_def)
  qed (simp add: q_count_def)
  then show ?thesis by (simp add: q_empty_def q_list_def)
qed

lemma q_store_ok:
  assumes inv: "q_inv q" and room: "int (q_count q) < q_room q"
  shows "\<exists>q'. q_store q x ((nextwrite q + 1) mod q_size q) = Some (Inr (), q') \<and> q_inv q' \<and>
    q_list q' = q_list q @ [x] \<and> q_size q' = q_size q"
proof -
  let ?n = "q_size q" and ?c = "q_count q"
  let ?q = "q\<lparr>q_data := (q_data q)[nat (nextwrite q) := Some x], nextwrite := (nextwrite q + 1) mod ?n\<rparr>"
  from inv have b: "0 < ?n" "int (length (q_data q)) = ?n" "0 \<le> nextwrite q" "nextwrite q < ?n"
    "0 \<le> nextread q" "nextread q < ?n" by (auto simp: q_inv_def)
  have w: "(nextread q + int ?c) mod ?n = nextwrite q"
    using q_count_int [OF inv] ring_pos [OF b(3,4)] by simp
  have "((nextwrite q + 1) mod ?n - nextread q) mod ?n = (int ?c + 1) mod ?n"
    unfolding q_count_int [OF inv] mod_diff_left_eq mod_add_left_eq by (simp add: algebra_simps)
  also have "\<dots> = int ?c + 1" using room by (simp add: q_room_def)
  finally have cnt: "q_count ?q = Suc ?c" by (simp add: q_count_def [of ?q] nat_add_distrib)
  have old: "q_cell ?q k = q_cell q k" if "k < ?c" for k
  proof -
    have "(nextread q + int k) mod ?n \<noteq> nextwrite q"
    proof
      assume "(nextread q + int k) mod ?n = nextwrite q"
      with w have "int k = int ?c"
        using that room by - (rule ring_inj [where nr = "nextread q" and n = ?n]; simp add: q_room_def)
      with that show False by simp
    qed
    moreover have "0 \<le> (nextread q + int k) mod ?n" using b(1) by simp
    ultimately show ?thesis using b by (simp add: q_cell_def nth_list_update nat_eq_iff)
  qed
  have new: "q_cell ?q ?c = Some x"
    using w b by (simp add: q_cell_def nth_list_update)
  have lst: "q_list ?q = q_list q @ [x]"
    unfolding q_list_def cnt using old new by (simp cong: map_cong)
  have "q_inv ?q"
    unfolding q_inv_def cnt
    using inv b old new by (auto simp: q_inv_def less_Suc_eq)
  with lst b show ?thesis by (simp add: q_store_def)
qed

lemma q_remhead_Cons:
  assumes inv: "q_inv q" and l: "q_list q = x # xs"
  shows "\<exists>q'. q_remhead q = Some (x, q') \<and> q_inv q' \<and> q_list q' = xs \<and> q_size q' = q_size q"
proof -
  let ?n = "q_size q" and ?c = "q_count q"
  let ?q = "q\<lparr>nextread := (nextread q + 1) mod ?n\<rparr>"
  from inv have b: "0 < ?n" "int (length (q_data q)) = ?n" "0 \<le> nextread q" "nextread q < ?n"
    by (auto simp: q_inv_def)
  from l have c: "?c = Suc (length xs)" using q_list_length [of q] by simp
  have cell: "q_cell ?q k = q_cell q (Suc k)" for k
    using mod_add_left_eq [of "nextread q + 1" ?n "int k"] by (simp add: q_cell_def algebra_simps)
  have "(nextwrite q - (nextread q + 1) mod ?n) mod ?n = (int ?c - 1) mod ?n"
    unfolding q_count_int [OF inv] mod_diff_right_eq mod_diff_left_eq by (simp add: algebra_simps)
  also have "\<dots> = int ?c - 1" using c q_count_less [OF inv] by simp
  finally have cnt: "q_count ?q = length xs" using c by (simp add: q_count_def [of ?q])
  have "q_list q = map (\<lambda>k. the (q_cell q k)) (0 # map Suc [0..<length xs])"
    unfolding q_list_def c map_Suc_upt by (simp add: upt_conv_Cons del: upt_Suc)
  then have "q_list ?q = tl (q_list q)"
    unfolding q_list_def [of ?q] cnt cell by simp
  moreover have "q_inv ?q"
    unfolding q_inv_def cnt using inv b cell c by (auto simp: q_inv_def)
  moreover have "q_cell q 0 = Some x"
    using q_list_nth [OF inv, of 0] l c by simp
  then have "q_data q ! nat (nextread q) = Some x"
    using b by (simp add: q_cell_def)
  moreover have "\<not> q_empty q" using q_empty_iff [OF inv] l by simp
  ultimately show ?thesis using b l by (simp add: q_remhead_def)
qed

lemma q_remhead_Nil: "q_inv q \<Longrightarrow> q_list q = [] \<Longrightarrow> q_remhead q = None"
  by (simp add: q_remhead_def q_empty_iff [symmetric])

section \<open>Growing the ring\<close>

declare q_grow_size.simps [simp del]

lemma q_grow_size_spec:
  assumes "0 < n" "n < 2 ^ 30" "t \<le> 2 ^ 29"
  shows "\<exists>r. q_grow_size t n = Some r \<and> t \<le> r \<and> n \<le> r \<and> r < 2 ^ 30"
  using assms
proof (induction t n rule: q_grow_size.induct)
  case (1 t n)
  show ?case
  proof (cases "n < t")
    case True
    with "1.prems" have "swrap32 (n * 2) = n * 2" "0 < n * 2" "n * 2 < 2 ^ 30" by simp_all
    with "1.IH" [OF True] "1.prems" obtain r where
      "q_grow_size t (n * 2) = Some r" "t \<le> r" "n * 2 \<le> r" "r < 2 ^ 30" by auto
    with True \<open>swrap32 (n * 2) = n * 2\<close> \<open>0 < n * 2\<close> "1.prems" show ?thesis
      by (simp add: q_grow_size.simps [of t n])
  next
    case False
    with "1.prems" show ?thesis by (simp add: q_grow_size.simps [of t n])
  qed
qed

lemma q_addtail_n_room:
  assumes "q_inv q" "int (q_count q) < q_room q"
  shows "\<exists>q'. q_addtail_n (Suc d) mem q x = Some (Inr (), q') \<and> q_inv q' \<and>
    q_list q' = q_list q @ [x] \<and> q_size q' = q_size q"
  using q_store_ok [OF assms, of x] q_full_iff [OF assms(1)] assms
  by (auto simp: q_inv_def)

lemma q_copy_ok:
  assumes inv: "q_inv q" and k: "k \<le> q_count q"
    and dst: "q_inv dst" "int (q_count dst + (q_count q - k)) \<le> q_room dst"
  shows "\<exists>dst'. q_copy (q_addtail_n (Suc d) mem) (q_data q) (q_size q) (nextwrite q)
      ((nextread q + int k) mod q_size q) dst = Some dst' \<and>
    q_inv dst' \<and> q_list dst' = q_list dst @ drop k (q_list q) \<and> q_size dst' = q_size dst"
  using k dst
proof (induction "q_count q - k" arbitrary: k dst)
  case 0
  then have "k = q_count q" by simp
  then have "(nextread q + int k) mod q_size q = nextwrite q"
    using q_count_int [OF inv] ring_pos [of "nextwrite q" "q_size q"] inv by (simp add: q_inv_def)
  with 0 \<open>k = q_count q\<close> show ?case by (subst q_copy.simps) simp
next
  case (Suc m)
  let ?n = "q_size q" and ?i = "(nextread q + int k) mod q_size q"
  from Suc.hyps(2) have kc: "k < q_count q" by simp
  from inv have b: "0 < ?n" "int (length (q_data q)) = ?n" by (auto simp: q_inv_def)
  have "?i \<noteq> nextwrite q"
  proof
    assume "?i = nextwrite q"
    also have "\<dots> = (nextread q + int (q_count q)) mod ?n"
      using q_count_int [OF inv] ring_pos [of "nextwrite q" ?n] inv by (simp add: q_inv_def)
    finally have "int k = int (q_count q)"
      using kc q_count_less [OF inv] by - (rule ring_inj [where nr = "nextread q" and n = ?n]; simp)
    with kc show False by simp
  qed
  moreover have "rd (q_data q) ?i = Some (Some (q_list q ! k))"
    using q_list_nth [OF inv kc] b by (simp add: q_cell_def)
  moreover obtain dst' where dst': "q_addtail_n (Suc d) mem dst (q_list q ! k) = Some (Inr (), dst')"
    "q_inv dst'" "q_list dst' = q_list dst @ [q_list q ! k]" "q_size dst' = q_size dst"
    using q_addtail_n_room [OF Suc.prems(2), of d mem "q_list q ! k"] Suc.prems(3) kc by auto
  moreover have "(?i + 1) mod ?n = (nextread q + int (Suc k)) mod ?n"
    using mod_add_left_eq [of "nextread q + int k" ?n 1] by (simp add: algebra_simps)
  moreover have "q_count dst' = Suc (q_count dst)"
    using dst'(3) q_list_length [of dst'] by simp
  then have "\<exists>d'. q_copy (q_addtail_n (Suc d) mem) (q_data q) ?n (nextwrite q)
      ((nextread q + int (Suc k)) mod ?n) dst' = Some d' \<and>
    q_inv d' \<and> q_list d' = q_list dst' @ drop (Suc k) (q_list q) \<and> q_size d' = q_size dst'"
    using Suc.hyps(2) Suc.prems(3) dst'(2,4) kc by (intro Suc.hyps(1)) (auto simp: q_room_def)
  moreover have "drop k (q_list q) = q_list q ! k # drop (Suc k) (q_list q)"
    using kc by (simp add: Cons_nth_drop_Suc)
  ultimately show ?case by (subst q_copy.simps) auto
qed

lemma q_grow_with_ok:
  assumes inv: "q_inv q" and t: "t \<le> 2 ^ 29"
  shows "\<exists>q'. q_grow_with (q_addtail_n (Suc d) mem) True q t = Some (Inr (), q') \<and> q_inv q' \<and>
    q_list q' = q_list q \<and> t \<le> q_size q' \<and> q_size q \<le> q_size q' \<and> q_grow_size t (q_size q) = Some (q_size q')"
proof -
  from inv have b: "0 < q_size q" "q_size q < 2 ^ 30" "0 \<le> nextread q" "nextread q < q_size q"
    by (auto simp: q_inv_def)
  obtain r where r: "q_grow_size t (q_size q) = Some r" "t \<le> r" "q_size q \<le> r" "r < 2 ^ 30"
    using q_grow_size_spec [OF b(1,2) t] by blast
  let ?e = "q\<lparr>q_size := r, q_data := replicate (nat r) None, nextread := 0, nextwrite := 0\<rparr>"
  have e: "q_count ?e = 0" by (simp add: q_count_def)
  then have "q_inv ?e" "q_list ?e = []" using r b by (auto simp: q_inv_def q_list_def)
  moreover have "int (q_count ?e + (q_count q - 0)) \<le> q_room ?e"
    using e r(3) q_count_less [OF inv] by (simp add: q_room_def)
  ultimately obtain q' where
    "q_copy (q_addtail_n (Suc d) mem) (q_data q) (q_size q) (nextwrite q) (nextread q) ?e = Some q'"
    "q_inv q'" "q_list q' = q_list q" "q_size q' = r"
    using q_copy_ok [OF inv, of 0 ?e d mem] b by auto
  moreover have "kmalloc_words True r = Some (replicate (nat r) None :: 'a block)"
    using r b by simp
  ultimately show ?thesis
    using r by (simp add: q_grow_with_def)
qed

lemma q_grow_with_nomem:
  assumes "q_inv q" "t \<le> 2 ^ 29"
  shows "q_grow_with add False q t = Some (Inl ENOMEM, q)"
  using q_grow_size_spec [of "q_size q" t] assms by (auto simp: q_grow_with_def q_inv_def)

lemma q_grow_size_next:
  assumes "0 < n" "n < 2 ^ 29"
  shows "q_grow_size (n + 1) n = Some (2 * n)"
proof -
  from assms have "swrap32 (n * 2) = n * 2" "0 < n * 2" "n + 1 \<le> n * 2" by simp_all
  then show ?thesis by (simp add: q_grow_size.simps [of "n + 1" n] q_grow_size.simps [of "n + 1" "n * 2"])
qed

lemma q_addtail_n_grow:
  assumes inv: "q_inv q" and full: "int (q_count q) = q_room q" and sz: "q_size q < 2 ^ 29"
  shows "\<exists>q'. q_addtail_n (Suc (Suc d)) True q x = Some (Inr (), q') \<and> q_inv q' \<and> q_list q' = q_list q @ [x] \<and>
      q_size q' = 2 * q_size q"
    and "q_addtail_n (Suc (Suc d)) False q x = Some (Inl ENOMEM, q)"
proof -
  from inv have pos: "0 < q_size q" by (simp add: q_inv_def)
  from sz have t: "q_size q + 1 \<le> 2 ^ 29" by simp
  from q_grow_with_ok [OF inv t, of d True] obtain q' where q':
    "q_grow_with (q_addtail_n (Suc d) True) True q (q_size q + 1) = Some (Inr (), q')" "q_inv q'"
    "q_list q' = q_list q" "q_size q + 1 \<le> q_size q'" "q_size q' = 2 * q_size q"
    by (auto simp: q_grow_size_next [OF pos sz])
  then have "q_count q' = q_count q" using q_list_length by metis
  then have "int (q_count q') < q_room q'" using full q'(4) by (simp add: q_room_def)
  from q_store_ok [OF q'(2) this, of x] q' full pos q_full_iff [OF inv]
  show "\<exists>q'. q_addtail_n (Suc (Suc d)) True q x = Some (Inr (), q') \<and> q_inv q' \<and> q_list q' = q_list q @ [x] \<and>
      q_size q' = 2 * q_size q"
    by (auto simp del: q_addtail_n.simps simp: q_addtail_n.simps(2) [of "Suc d"])
  show "q_addtail_n (Suc (Suc d)) False q x = Some (Inl ENOMEM, q)"
    using q_grow_with_nomem [OF inv t] pos full q_full_iff [OF inv]
    by (simp del: q_addtail_n.simps add: q_addtail_n.simps(2) [of "Suc d"])
qed

lemma q_addtail_n_depth:
  assumes "q_inv q" "q_size q < 2 ^ 29"
  shows "q_addtail_n (Suc (Suc d)) mem q x = q_addtail mem q x \<or>
    (\<exists>q1 q2. q_addtail_n (Suc (Suc d)) mem q x = Some (Inr (), q1) \<and> q_addtail mem q x = Some (Inr (), q2) \<and>
      q_list q1 = q_list q2)"
proof (cases "int (q_count q) < q_room q")
  case True
  show ?thesis
    using q_addtail_n_room [OF assms(1) True, of "Suc d" mem x] q_addtail_n_room [OF assms(1) True, of "Suc 0" mem x]
    by (auto simp: q_addtail_def numeral_2_eq_2 simp del: q_addtail_n.simps)
next
  case False
  with q_count_less [OF assms(1)] have full: "int (q_count q) = q_room q" by (simp add: q_room_def)
  show ?thesis
    using q_addtail_n_grow [OF assms(1) full assms(2), of d x] q_addtail_n_grow [OF assms(1) full assms(2), of 0 x]
    by (cases mem) (auto simp: q_addtail_def numeral_2_eq_2 simp del: q_addtail_n.simps)
qed

lemma q_addtail_room:
  assumes "q_inv q" "int (q_count q) < q_room q"
  shows "\<exists>q'. q_addtail mem q x = Some (Inr (), q') \<and> q_inv q' \<and> q_list q' = q_list q @ [x] \<and> q_size q' = q_size q"
  using q_addtail_n_room [OF assms, of "Suc 0" mem x] by (simp add: q_addtail_def numeral_2_eq_2 del: q_addtail_n.simps)

lemma q_addtail_ok:
  assumes "q_inv q" "q_size q < 2 ^ 29" "mem \<or> int (q_count q) < q_room q"
  shows "\<exists>q'. q_addtail mem q x = Some (Inr (), q') \<and> q_inv q' \<and> q_list q' = q_list q @ [x] \<and> q_size q \<le> q_size q'"
proof (cases "int (q_count q) < q_room q")
  case True
  with q_addtail_room [OF assms(1) True] show ?thesis by fastforce
next
  case False
  with q_count_less [OF assms(1)] have "int (q_count q) = q_room q" by (simp add: q_room_def)
  from q_addtail_n_grow(1) [OF assms(1) this assms(2), of 0 x] False assms(1,3) show ?thesis
    by (auto simp: q_addtail_def numeral_2_eq_2 q_inv_def simp del: q_addtail_n.simps)
qed

lemma q_addtail_nomem:
  assumes "q_inv q" "q_size q < 2 ^ 29" "int (q_count q) = q_room q"
  shows "q_addtail False q x = Some (Inl ENOMEM, q)"
  using q_addtail_n_grow(2) [OF assms(1,3,2), of 0 x]
  by (simp add: q_addtail_def numeral_2_eq_2 del: q_addtail_n.simps)

lemma q_addtail_cases:
  assumes "q_inv q" "q_size q < 2 ^ 29" "q_addtail mem q x = Some (r, q')"
  shows "q_inv q' \<and> (r = Inr () \<and> q_list q' = q_list q @ [x] \<and>
      (q_size q' = q_size q \<or> int (q_count q) = q_room q \<and> q_size q' = 2 * q_size q) \<or>
    r = Inl ENOMEM \<and> \<not> mem \<and> int (q_count q) = q_room q \<and> q' = q)"
proof (cases "int (q_count q) < q_room q")
  case True
  then show ?thesis using q_addtail_room [OF assms(1) True, of mem x] assms by auto
next
  case False
  then have full: "int (q_count q) = q_room q" using q_count_less [OF assms(1)] by (simp add: q_room_def)
  show ?thesis
    using q_addtail_n_grow(1) [OF assms(1) full assms(2), of 0 x] q_addtail_nomem [OF assms(1,2) full, of x] assms full
    by (cases mem) (auto simp: q_addtail_def numeral_2_eq_2 simp del: q_addtail_n.simps)
qed

lemma q_grow_ok:
  assumes "q_inv q" "t \<le> 2 ^ 29"
  shows "\<exists>q'. q_grow True q t = Some (Inr (), q') \<and> q_inv q' \<and> q_list q' = q_list q \<and> t \<le> q_size q' \<and> q_size q \<le> q_size q'"
  using q_grow_with_ok [OF assms, of 0 True] by (auto simp: q_grow_def simp del: q_addtail_n.simps)

lemma q_preallocate_ok:
  assumes "q_inv q" "t \<le> 2 ^ 29"
  shows "\<exists>q'. q_preallocate True q t = Some (Inr (), q') \<and> q_inv q' \<and> q_list q' = q_list q \<and>
    t \<le> q_size q' \<and> q_size q \<le> q_size q'"
  using q_grow_ok [OF assms] assms by (auto simp: q_preallocate_def q_inv_def)

lemma q_create_ok:
  "0 < n \<Longrightarrow> n < 2 ^ 30 \<Longrightarrow> \<exists>q. q_create True True n = Some q \<and> q_inv q \<and> q_list q = [] \<and> q_size q = n"
  by (auto simp: q_create_def q_inv_def q_list_def q_count_def)

lemma q_preallocate_double:
  assumes "q_inv q" "q_size q < 2 ^ 28"
  shows "\<exists>q'. q_preallocate True q (2 * q_size q) = Some (Inr (), q') \<and> q_inv q' \<and> q_list q' = q_list q \<and>
    q_size q' = 2 * q_size q"
proof -
  from assms have t: "2 * q_size q \<le> 2 ^ 29" "0 < q_size q" by (auto simp: q_inv_def)
  have "q_grow_size (2 * q_size q) (q_size q) = Some (2 * q_size q)"
    using t by (subst q_grow_size.simps, subst q_grow_size.simps) (simp add: mult.commute)
  with t q_grow_with_ok [OF assms(1) t(1), of 0 True] show ?thesis
    by (auto simp: q_preallocate_def q_grow_def simp del: q_grow_size.simps q_addtail_n.simps)
qed

section \<open>The queue as a FIFO\<close>

interpretation rq: fifo q_inv q_list q_room q_addtail q_empty q_remhead
proof
  fix q :: "'a queue" and mem x xs
  assume inv: "q_inv q"
  show "int (length (q_list q)) < q_room q \<Longrightarrow> \<exists>s'. q_addtail mem q x = Some (Inr (), s') \<and> q_inv s' \<and>
    q_list s' = q_list q @ [x] \<and> q_room q \<le> q_room s'"
    using q_addtail_room [OF inv, of mem x] by (auto simp: q_room_def)
  show "q_empty q \<longleftrightarrow> q_list q = []" by (rule q_empty_iff [OF inv])
  show "q_list q = x # xs \<Longrightarrow> \<exists>s'. q_remhead q = Some (x, s') \<and> q_inv s' \<and> q_list s' = xs \<and> q_room s' = q_room q"
    using q_remhead_Cons [OF inv] by (auto simp: q_room_def)
  show "q_list q = [] \<Longrightarrow> q_remhead q = None" by (rule q_remhead_Nil [OF inv])
qed

section \<open>Properties\<close>

lemma q_add_all_size:
  "q_inv q \<Longrightarrow> int (length (q_list q) + length xs) \<le> q_room q \<Longrightarrow>
   \<exists>q'. add_all q_addtail mem q xs = Some (Inr (), q') \<and> q_inv q' \<and> q_list q' = q_list q @ xs \<and> q_size q' = q_size q"
proof (induction xs arbitrary: q)
  case (Cons x xs)
  then obtain q' where q': "q_addtail mem q x = Some (Inr (), q')" "q_inv q'" "q_list q' = q_list q @ [x]" "q_size q' = q_size q"
    using q_addtail_room [of q mem x] by auto
  with Cons.prems Cons.IH [OF q'(2)] show ?case by (auto simp: q_room_def)
qed simp

text \<open>C30. The queue refines a list. On a queue that satisfies the invariant, \<open>q_addtail\<close> appends at the
  end, growing and relocating the ring when it is full, or reports \<open>ENOMEM\<close> and leaves the queue as it was
  when it is full and there is no memory; \<open>q_remhead\<close> then returns the element that has been in
  the queue longest. The invariant is kept in both cases.\<close>

theorem queue_refines_list:
  assumes "q_inv q" "q_size q < 2 ^ 29"
  shows "\<exists>r q'. q_addtail mem q x = Some (r, q') \<and> q_inv q' \<and>
    (if mem \<or> int (length (q_list q)) < q_size q - 1
     then r = Inr () \<and> q_list q' = q_list q @ [x] \<and>
       (\<exists>q''. q_remhead q' = Some (hd (q_list q @ [x]), q'') \<and> q_inv q'' \<and> q_list q'' = tl (q_list q @ [x]))
     else r = Inl ENOMEM \<and> q' = q)"
proof (cases "mem \<or> int (length (q_list q)) < q_size q - 1")
  case True
  then obtain q' where q': "q_addtail mem q x = Some (Inr (), q')" "q_inv q'" "q_list q' = q_list q @ [x]"
    using q_addtail_ok [OF assms, of mem x] by (auto simp: q_room_def)
  moreover have "q_list q @ [x] = hd (q_list q @ [x]) # tl (q_list q @ [x])" by simp
  ultimately show ?thesis
    using True rq.remhead_Cons [OF q'(2), of "hd (q_list q @ [x])" "tl (q_list q @ [x])"] by auto
next
  case False
  with q_count_less [OF assms(1)] have "int (q_count q) = q_room q" by (simp add: q_room_def)
  with q_addtail_nomem [OF assms, of x] False assms(1) show ?thesis by auto
qed

theorem queue_refines_list_witness:
  "\<exists>r q'. q_addtail True \<lparr>q_size = 2, nextwrite = 0, nextread = 1, q_data = [None, Some (CHR ''a'')]\<rparr> (CHR ''b'') = Some (r, q') \<and>
    q_inv q' \<and> r = Inr () \<and> q_list q' = [CHR ''a'', CHR ''b''] \<and>
    (\<exists>q''. q_remhead q' = Some (CHR ''a'', q'') \<and> q_inv q'' \<and> q_list q'' = [CHR ''b''])"
  using queue_refines_list [of "\<lparr>q_size = 2, nextwrite = 0, nextread = 1, q_data = [None, Some (CHR ''a'')]\<rparr>" True "CHR ''b''"]
  by (simp add: q_inv_def q_list_def q_count_def q_cell_def less_Suc_eq)



end
