(* ===== verification/Kern_Bitmap.thy ===== *)
theory Kern_Bitmap
  imports Kern_Interfaces
begin

unbundle bit_operations_syntax

text \<open>
  The bit arrays of \<open>kern/lib/bitmap.c\<close>: \<open>nbits\<close> bits kept in bytes, bit \<open>i\<close> in byte
  \<open>i / 8\<close> at position \<open>i mod 8\<close>. The bits of the last byte past \<open>nbits\<close> are kept set, so
  that the allocator, which looks at whole bytes, never hands them out.
\<close>

section \<open>Definitions\<close>

abbreviation (input) BITS_PER_WORD :: nat where "BITS_PER_WORD \<equiv> 8"

record bitmap =
  nbits :: nat
  bm_v :: "8 word list"

definition DIVROUNDUP :: "nat \<Rightarrow> nat \<Rightarrow> nat" where
  \<comment> \<open>the macro, in 32-bit unsigned arithmetic\<close>
  "DIVROUNDUP a b = ((a + b - 1) mod 2 ^ 32) div b"

function mark_leftover :: "8 word list \<Rightarrow> nat \<Rightarrow> nat \<Rightarrow> 8 word list option" where
  \<comment> \<open>\<open>for (j=overbits; j<BITS_PER_WORD; j++) b->v[ix] |= ((WORD_TYPE)1 << j);\<close>\<close>
  "mark_leftover v ix j =
     (if j < BITS_PER_WORD then do {
        w \<leftarrow> rd v (int ix);
        v' \<leftarrow> wr v (int ix) (w OR push_bit j 1);
        mark_leftover v' ix (Suc j)
      } else Some v)"
  by pat_completeness auto

termination
  by (relation "measure (\<lambda>(v, ix, j). BITS_PER_WORD - j)") auto

definition bitmap_create :: "bool \<Rightarrow> bool \<Rightarrow> nat \<Rightarrow> bitmap option option" where
  \<comment> \<open>the inner option is the returned pointer, \<open>None\<close> for the null pointer\<close>
  "bitmap_create mem1 mem2 n = (
     let words = DIVROUNDUP n BITS_PER_WORD in
     if \<not> mem1 \<or> \<not> mem2 then Some None
     else (let v = replicate words 0 in
       if n div BITS_PER_WORD < words then
         (let ix = words - 1; overbits = n - ix * BITS_PER_WORD in do {
            kassert (n div BITS_PER_WORD = words - 1);
            kassert (overbits > 0 \<and> overbits < BITS_PER_WORD);
            v' \<leftarrow> mark_leftover v ix overbits;
            Some (Some \<lparr>nbits = n, bm_v = v'\<rparr>)
          })
       else Some (Some \<lparr>nbits = n, bm_v = v\<rparr>)))"

definition bitmap_getdata :: "bitmap \<Rightarrow> 8 word list" where
  "bitmap_getdata b = bm_v b"

function alloc_offset :: "8 word \<Rightarrow> nat \<Rightarrow> nat option" where
  \<comment> \<open>the inner loop of \<open>bitmap_alloc\<close>; \<open>None\<close> is the \<open>assert(0)\<close> after it\<close>
  "alloc_offset w offset =
     (if offset < BITS_PER_WORD
      then (if w AND push_bit offset 1 = 0 then Some offset else alloc_offset w (Suc offset))
      else None)"
  by pat_completeness auto

termination
  by (relation "measure (\<lambda>(w, offset). BITS_PER_WORD - offset)") auto

function alloc_loop :: "bitmap \<Rightarrow> nat \<Rightarrow> nat \<Rightarrow> (nat res \<times> bitmap) option" where
  \<comment> \<open>the outer loop of \<open>bitmap_alloc\<close>, from byte \<open>ix\<close> on\<close>
  "alloc_loop b maxix ix =
     (if ix < maxix then do {
        w \<leftarrow> rd (bm_v b) (int ix);
        (if w \<noteq> 0xff then do {
           offset \<leftarrow> alloc_offset w 0;
           v' \<leftarrow> wr (bm_v b) (int ix) (w OR push_bit offset 1);
           let index = ix * BITS_PER_WORD + offset;
           kassert (index < nbits b);
           Some (Inr index, b\<lparr>bm_v := v'\<rparr>)
         }
         else alloc_loop b maxix (Suc ix))
      }
      else Some (Inl ENOSPC, b))"
  by pat_completeness auto

termination
  by (relation "measure (\<lambda>(b, maxix, ix). maxix - ix)") auto

definition bitmap_alloc :: "bitmap \<Rightarrow> (nat res \<times> bitmap) option" where
  "bitmap_alloc b = alloc_loop b (DIVROUNDUP (nbits b) BITS_PER_WORD) 0"

definition bitmap_translate :: "nat \<Rightarrow> nat \<times> 8 word" where
  "bitmap_translate bitno = (bitno div BITS_PER_WORD, push_bit (bitno mod BITS_PER_WORD) 1)"

definition bitmap_mark :: "bitmap \<Rightarrow> nat \<Rightarrow> bitmap option" where
  "bitmap_mark b index = do {
     kassert (index < nbits b);
     let (ix, mask) = bitmap_translate index;
     w \<leftarrow> rd (bm_v b) (int ix);
     kassert (w AND mask = 0);
     v' \<leftarrow> wr (bm_v b) (int ix) (w OR mask);
     Some (b\<lparr>bm_v := v'\<rparr>)
   }"

definition bitmap_unmark :: "bitmap \<Rightarrow> nat \<Rightarrow> bitmap option" where
  "bitmap_unmark b index = do {
     kassert (index < nbits b);
     let (ix, mask) = bitmap_translate index;
     w \<leftarrow> rd (bm_v b) (int ix);
     kassert (w AND mask \<noteq> 0);
     v' \<leftarrow> wr (bm_v b) (int ix) (w AND NOT mask);
     Some (b\<lparr>bm_v := v'\<rparr>)
   }"

definition bitmap_isset :: "bitmap \<Rightarrow> nat \<Rightarrow> 8 word option" where
  "bitmap_isset b index = do {
     let (ix, mask) = bitmap_translate index;
     w \<leftarrow> rd (bm_v b) (int ix);
     Some (w AND mask)
   }"

section \<open>Invariant and abstraction\<close>

definition bm_used :: "bitmap \<Rightarrow> nat \<Rightarrow> bool" where
  "bm_used b i = bit (bm_v b ! (i div 8)) (i mod 8)"

definition bitmap_inv :: "bitmap \<Rightarrow> bool" where
  "bitmap_inv b \<longleftrightarrow> nbits b < 2 ^ 32 - 8 \<and> length (bm_v b) = (nbits b + 7) div 8 \<and>
     (\<forall>i. nbits b \<le> i \<and> i < 8 * length (bm_v b) \<longrightarrow> bm_used b i)"

section \<open>Bits of a byte\<close>

declare mark_leftover.simps [simp del] alloc_offset.simps [simp del] alloc_loop.simps [simp del]

lemma byte_full_iff: "w = (0xff :: 8 word) \<longleftrightarrow> (\<forall>j < 8. bit w j)"
proof -
  have m: "(0xff :: 8 word) = - 1" by simp
  show ?thesis unfolding m by (auto intro!: bit_word_eqI)
qed

lemma mask_zero_iff [simp]: "w AND 2 ^ j = 0 \<longleftrightarrow> \<not> bit w j" for w :: "8 word"
  using bit_iff_and_push_bit_not_eq_0 [of w j] by simp

lemma set_mask_bit [simp]: "j < 8 \<Longrightarrow> bit (w OR 2 ^ j) k \<longleftrightarrow> bit w k \<or> k = j" for w :: "8 word"
  by (auto simp: bit_simps)

lemma clear_mask_bit [simp]: "j < 8 \<Longrightarrow> bit (w AND NOT (2 ^ j)) k \<longleftrightarrow> bit w k \<and> k \<noteq> j" for w :: "8 word"
  by (auto simp: bit_simps dest: bit_imp_le_length)

lemma alloc_offset_least:
  assumes "\<forall>j < off. bit w j" "w \<noteq> 0xff" "off \<le> 8"
  shows "\<exists>j. alloc_offset w off = Some j \<and> j < 8 \<and> \<not> bit w j \<and> (\<forall>k < j. bit w k)"
  using assms
proof (induction w off rule: alloc_offset.induct)
  case (1 w off)
  have "off < 8"
    using "1.prems" byte_full_iff [of w] by (metis le_neq_implies_less)
  show ?case
  proof (cases "bit w off")
    case True
    with "1.prems" \<open>off < 8\<close> have "\<forall>j < Suc off. bit w j" by (auto simp: less_Suc_eq)
    with "1.IH" True "1.prems" \<open>off < 8\<close> show ?thesis
      by (subst alloc_offset.simps) simp
  next
    case False
    with "1.prems" \<open>off < 8\<close> show ?thesis
      by (subst alloc_offset.simps) simp
  qed
qed

section \<open>Every operation is the set operation\<close>

lemma bm_used_update:
  assumes "i div 8 < length v" "w = v ! (i div 8)" "\<And>k. bit w' k \<longleftrightarrow> (if k = i mod 8 then c else bit w k)"
  shows "bm_used (b\<lparr>bm_v := v[i div 8 := w']\<rparr>) k \<longleftrightarrow> (if k = i then c else bit (v ! (k div 8)) (k mod 8))"
proof (cases "k div 8 = i div 8")
  case True
  then have "k mod 8 = i mod 8 \<longleftrightarrow> k = i" by (metis div_mult_mod_eq)
  with True assms show ?thesis by (simp add: bm_used_def)
next
  case False
  then have "k \<noteq> i" by auto
  with False show ?thesis by (simp add: bm_used_def)
qed

lemma DIVROUNDUP_8: "n < 2 ^ 32 - 8 \<Longrightarrow> DIVROUNDUP n 8 = (n + 7) div 8"
  by (simp add: DIVROUNDUP_def)

lemma mark_leftover_spec:
  assumes "ix < length v" "j \<le> 8"
  shows "\<exists>v'. mark_leftover v ix j = Some v' \<and> length v' = length v \<and>
    (\<forall>k. bit (v' ! ix) k \<longleftrightarrow> bit (v ! ix) k \<or> j \<le> k \<and> k < 8) \<and> (\<forall>m. m \<noteq> ix \<longrightarrow> v' ! m = v ! m)"
  using assms
proof (induction v ix j rule: mark_leftover.induct)
  case (1 v ix j)
  show ?case
  proof (cases "j < 8")
    case False
    with "1.prems" show ?thesis by (subst mark_leftover.simps) auto
  next
    case True
    let ?v = "v[ix := v ! ix OR push_bit j 1]"
    from "1.prems" True have "ix < length ?v" "Suc j \<le> 8" by simp_all
    with "1.IH" [OF True, of "v ! ix" ?v] "1.prems" obtain v' where v':
      "mark_leftover ?v ix (Suc j) = Some v'" "length v' = length v"
      "\<forall>k. bit (v' ! ix) k \<longleftrightarrow> bit (?v ! ix) k \<or> Suc j \<le> k \<and> k < 8" "\<forall>m. m \<noteq> ix \<longrightarrow> v' ! m = ?v ! m"
      by auto
    with "1.prems" True show ?thesis
      by (subst mark_leftover.simps) (auto simp: le_Suc_eq not_less_eq_eq)
  qed
qed

lemma byte_arith:
  fixes i ix ov :: nat
  shows "0 < ov \<Longrightarrow> ov < 8 \<Longrightarrow> (ix * 8 + ov + 7) div 8 = Suc ix"
    and "0 < ov \<Longrightarrow> ov < 8 \<Longrightarrow> (ix * 8 + ov) div 8 = ix"
    and "i div 8 = ix \<Longrightarrow> ov \<le> i mod 8 \<longleftrightarrow> ix * 8 + ov \<le> i"
    and "i div 8 < ix \<Longrightarrow> i < ix * 8 + ov"
    and "(8 * ix + 7) div 8 = ix"
  by arith+

lemma bitmap_create_ok:
  assumes n: "n < 2 ^ 32 - 8"
  shows "\<exists>b. bitmap_create True True n = Some (Some b) \<and> bitmap_inv b \<and> nbits b = n \<and> (\<forall>i < n. \<not> bm_used b i)"
proof (cases "n mod 8 = 0")
  case True
  then obtain m where m: "n = 8 * m" by auto
  have "\<not> bm_used \<lparr>nbits = n, bm_v = replicate m 0\<rparr> i" if "i < n" for i
    using that m by (simp add: bm_used_def less_mult_imp_div_less)
  with m n show ?thesis
    by (auto simp: bitmap_create_def DIVROUNDUP_8 bitmap_inv_def byte_arith(5))
next
  case False
  define ix ov where "ix = n div 8" and "ov = n mod 8"
  with False have w: "0 < ov" "ov < 8" "n = ix * 8 + ov" by simp_all
  from byte_arith(1) [OF w(1,2)] w(3) have words: "(n + 7) div 8 = Suc ix" by simp
  obtain v where v: "mark_leftover (replicate (Suc ix) 0) ix ov = Some v" "length v = Suc ix"
    "\<forall>k. bit (v ! ix) k \<longleftrightarrow> bit (replicate (Suc ix) (0 :: 8 word) ! ix) k \<or> ov \<le> k \<and> k < 8"
    "\<forall>m. m \<noteq> ix \<longrightarrow> v ! m = replicate (Suc ix) 0 ! m"
    using mark_leftover_spec [of ix "replicate (Suc ix) 0" ov] w by auto
  have "replicate (Suc ix) (0 :: 8 word) ! ix = 0" by (simp del: replicate_Suc)
  with v(3) have last: "bit (v ! ix) k \<longleftrightarrow> ov \<le> k \<and> k < 8" for k by simp
  have other: "m < ix \<Longrightarrow> v ! m = 0" for m using v(4) by (simp del: replicate_Suc)
  let ?b = "\<lparr>nbits = n, bm_v = v\<rparr>"
  have used: "bm_used ?b i \<longleftrightarrow> n \<le> i" if "i < 8 * Suc ix" for i
  proof (cases "i div 8 = ix")
    case True
    with byte_arith(3) [OF True, of ov] last w(3) show ?thesis by (simp add: bm_used_def)
  next
    case False
    with that have lt: "i div 8 < ix" by arith
    with byte_arith(4) [OF lt, of ov] other w(3) show ?thesis by (simp add: bm_used_def)
  qed
  have "n < 8 * Suc ix" using w by simp
  with used v(2) words n have "bitmap_inv ?b" "\<forall>i < n. \<not> bm_used ?b i"
    by (auto simp: bitmap_inv_def)
  moreover have "bitmap_create True True n = Some (Some ?b)"
    using v(1) w n words byte_arith(2) [OF w(1,2), of ix]
    by (simp add: bitmap_create_def DIVROUNDUP_8 Let_def del: replicate_Suc)
  ultimately show ?thesis by simp
qed

lemma bitmap_inv_index: "bitmap_inv b \<Longrightarrow> i < nbits b \<Longrightarrow> i div 8 < length (bm_v b)"
  by (auto simp: bitmap_inv_def)

lemma bitmap_inv_update:
  assumes inv: "bitmap_inv b" and i: "i < nbits b"
    and w: "\<And>k. bit w' k \<longleftrightarrow> (if k = i mod 8 then c else bit (bm_v b ! (i div 8)) k)"
  shows "bitmap_inv (b\<lparr>bm_v := (bm_v b)[i div 8 := w']\<rparr>)"
    and "bm_used (b\<lparr>bm_v := (bm_v b)[i div 8 := w']\<rparr>) = (bm_used b)(i := c)"
proof -
  from bm_used_update [OF bitmap_inv_index [OF inv i] refl w]
  show used: "bm_used (b\<lparr>bm_v := (bm_v b)[i div 8 := w']\<rparr>) = (bm_used b)(i := c)"
    by (auto simp: fun_eq_iff bm_used_def)
  show "bitmap_inv (b\<lparr>bm_v := (bm_v b)[i div 8 := w']\<rparr>)"
    using inv i by (auto simp: bitmap_inv_def used)
qed

lemma alloc_loop_free:
  assumes inv: "bitmap_inv b" and i: "i < nbits b" "\<not> bm_used b i"
    and len: "maxix = length (bm_v b)" and below: "\<forall>k < 8 * ix. bm_used b k"
  shows "\<exists>j b'. alloc_loop b maxix ix = Some (Inr j, b') \<and> j \<le> i \<and> \<not> bm_used b j \<and> (\<forall>k < j. bm_used b k) \<and>
    bitmap_inv b' \<and> bm_used b' = (bm_used b)(j := True) \<and> nbits b' = nbits b"
  using below
proof (induction "maxix - ix" arbitrary: ix rule: less_induct)
  case less
  have "8 * ix \<le> i" using i(2) less.prems by (meson not_le)
  then have "ix \<le> i div 8" by simp
  with bitmap_inv_index [OF inv i(1)] len have ix: "ix < maxix" by simp
  let ?w = "bm_v b ! ix"
  show ?case
  proof (cases "?w = 0xff")
    case True
    have "bm_used b k" if "k < 8 * Suc ix" for k
    proof (cases "k < 8 * ix")
      case False
      with that have "k div 8 = ix" by simp
      moreover have "bit ?w (k mod 8)" using True byte_full_iff by simp
      ultimately show ?thesis by (simp add: bm_used_def)
    qed (use less.prems in blast)
    with less.hyps [of "Suc ix"] ix have "\<exists>j b'. alloc_loop b maxix (Suc ix) = Some (Inr j, b') \<and> j \<le> i \<and>
      \<not> bm_used b j \<and> (\<forall>k < j. bm_used b k) \<and> bitmap_inv b' \<and> bm_used b' = (bm_used b)(j := True) \<and>
      nbits b' = nbits b" by simp
    with ix True len show ?thesis
      by (subst alloc_loop.simps) simp
  next
    case False
    obtain off where off: "alloc_offset ?w 0 = Some off" "off < 8" "\<not> bit ?w off" "\<forall>k < off. bit ?w k"
      using alloc_offset_least [OF _ False, of 0] by auto
    let ?j = "ix * 8 + off"
    from off(2) have j: "?j div 8 = ix" "?j mod 8 = off" by simp_all
    have free: "\<not> bm_used b ?j" using j off(3) by (simp add: bm_used_def)
    have low: "bm_used b k" if "k < ?j" for k
    proof (cases "k < 8 * ix")
      case False
      with that off(2) have "k div 8 = ix" "k mod 8 < off" by arith+
      with off(4) show ?thesis by (simp add: bm_used_def)
    qed (use less.prems in blast)
    have "?j \<le> i" using low i(2) by (metis not_le)
    with i(1) have jn: "?j < nbits b" by simp
    from bitmap_inv_update [OF inv jn, of "?w OR 2 ^ off" True] j off(2)
    have "bitmap_inv (b\<lparr>bm_v := (bm_v b)[ix := ?w OR 2 ^ off]\<rparr>)"
      "bm_used (b\<lparr>bm_v := (bm_v b)[ix := ?w OR 2 ^ off]\<rparr>) = (bm_used b)(?j := True)" by auto
    with False ix len off(1) jn low free \<open>?j \<le> i\<close> show ?thesis
      by (subst alloc_loop.simps) simp
  qed
qed

lemma alloc_loop_full:
  assumes "bitmap_inv b" "\<forall>i < nbits b. bm_used b i" "maxix = length (bm_v b)"
  shows "alloc_loop b maxix ix = Some (Inl ENOSPC, b)"
proof (induction "maxix - ix" arbitrary: ix rule: less_induct)
  case less
  show ?case
  proof (cases "ix < maxix")
    case True
    have "bit (bm_v b ! ix) j" if "j < 8" for j
    proof -
      have "8 * ix + j < 8 * length (bm_v b)" using True assms(3) that by arith
      with assms(1,2) have "bm_used b (8 * ix + j)"
        by (meson bitmap_inv_def not_le)
      with that show ?thesis by (simp add: bm_used_def)
    qed
    then have "bm_v b ! ix = 0xff" using byte_full_iff by blast
    with True less [of "Suc ix"] assms(3) show ?thesis
      by (subst alloc_loop.simps) simp
  next
    case False
    then show ?thesis by (subst alloc_loop.simps) simp
  qed
qed

lemma bitmap_alloc_eq: "bitmap_inv b \<Longrightarrow> bitmap_alloc b = alloc_loop b (length (bm_v b)) 0"
  by (simp add: bitmap_alloc_def DIVROUNDUP_8 bitmap_inv_def)

lemma bitmap_mark_ok:
  assumes "bitmap_inv b" "i < nbits b" "\<not> bm_used b i"
  shows "\<exists>b'. bitmap_mark b i = Some b' \<and> bitmap_inv b' \<and> bm_used b' = (bm_used b)(i := True) \<and> nbits b' = nbits b"
proof -
  have "bitmap_mark b i = Some (b\<lparr>bm_v := (bm_v b)[i div 8 := bm_v b ! (i div 8) OR 2 ^ (i mod 8)]\<rparr>)"
    using assms bitmap_inv_index [OF assms(1,2)] by (simp add: bitmap_mark_def bitmap_translate_def bm_used_def)
  with bitmap_inv_update [OF assms(1,2), of "bm_v b ! (i div 8) OR 2 ^ (i mod 8)" True] show ?thesis by auto
qed

lemma bitmap_unmark_ok:
  assumes "bitmap_inv b" "i < nbits b" "bm_used b i"
  shows "\<exists>b'. bitmap_unmark b i = Some b' \<and> bitmap_inv b' \<and> bm_used b' = (bm_used b)(i := False) \<and> nbits b' = nbits b"
proof -
  have "bitmap_unmark b i = Some (b\<lparr>bm_v := (bm_v b)[i div 8 := bm_v b ! (i div 8) AND NOT (2 ^ (i mod 8))]\<rparr>)"
    using assms bitmap_inv_index [OF assms(1,2)] by (simp add: bitmap_unmark_def bitmap_translate_def bm_used_def)
  with bitmap_inv_update [OF assms(1,2), of "bm_v b ! (i div 8) AND NOT (2 ^ (i mod 8))" False] show ?thesis by auto
qed

lemma bitmap_unmark_free:
  assumes "bitmap_inv b" "\<not> (i < nbits b \<and> bm_used b i)"
  shows "bitmap_unmark b i = None"
  using assms bitmap_inv_index [OF assms(1)]
  by (auto simp: bitmap_unmark_def bitmap_translate_def bm_used_def)

lemma bitmap_isset_ok:
  assumes "bitmap_inv b" "i < nbits b"
  shows "\<exists>w. bitmap_isset b i = Some w \<and> (w \<noteq> 0 \<longleftrightarrow> bm_used b i)"
  using bitmap_inv_index [OF assms] by (simp add: bitmap_isset_def bitmap_translate_def bm_used_def)

interpretation bm: slot_map bitmap_inv bm_used nbits bitmap_alloc bitmap_unmark
proof
  fix b i
  assume inv: "bitmap_inv b"
  show "i < nbits b \<Longrightarrow> \<not> bm_used b i \<Longrightarrow> \<exists>j s'. bitmap_alloc b = Some (Inr j, s') \<and> j \<le> i \<and> \<not> bm_used b j \<and>
    (\<forall>k < j. bm_used b k) \<and> bitmap_inv s' \<and> bm_used s' = (bm_used b)(j := True) \<and> nbits s' = nbits b"
    using alloc_loop_free [OF inv, of i _ 0] bitmap_alloc_eq [OF inv] by auto
  show "\<forall>i < nbits b. bm_used b i \<Longrightarrow> bitmap_alloc b = Some (Inl ENOSPC, b)"
    using alloc_loop_full [OF inv] bitmap_alloc_eq [OF inv] by simp
  show "i < nbits b \<Longrightarrow> bm_used b i \<Longrightarrow> \<exists>s'. bitmap_unmark b i = Some s' \<and> bitmap_inv s' \<and>
    bm_used s' = (bm_used b)(i := False) \<and> nbits s' = nbits b"
    by (rule bitmap_unmark_ok [OF inv])
  show "\<not> (i < nbits b \<and> bm_used b i) \<Longrightarrow> bitmap_unmark b i = None"
    by (rule bitmap_unmark_free [OF inv])
qed

section \<open>Properties\<close>

lemma bitmap_inv_upt:
  "bitmap_inv b \<longleftrightarrow> nbits b < 2 ^ 32 - 8 \<and> length (bm_v b) = (nbits b + 7) div 8 \<and>
     (\<forall>i \<in> set [nbits b ..< 8 * length (bm_v b)]. bm_used b i)"
  by (auto simp: bitmap_inv_def)

text \<open>C31. \<open>bitmap_alloc\<close> hands out the lowest clear bit and marks it, and reports \<open>ENOSPC\<close> exactly when
  no bit below \<open>nbits\<close> is clear; it never stops and never hands out one of the padding bits of the last byte.\<close>

theorem bitmap_alloc_lowest_free:
  assumes "bitmap_inv b"
  shows "if \<exists>i < nbits b. \<not> bm_used b i
    then \<exists>j b'. bitmap_alloc b = Some (Inr j, b') \<and> bitmap_inv b' \<and> nbits b' = nbits b \<and> j < nbits b \<and>
      \<not> bm_used b j \<and> (\<forall>k < j. bm_used b k) \<and> bm_used b' = (bm_used b)(j := True)
    else bitmap_alloc b = Some (Inl ENOSPC, b)"
  using assms by (cases rule: bm.alloc_cases) auto

theorem bitmap_alloc_lowest_free_witness:
  "\<exists>j b'. bitmap_alloc \<lparr>nbits = 10, bm_v = [0xff, 0xfc]\<rparr> = Some (Inr j, b') \<and> bitmap_inv b' \<and> 8 \<le> j \<and> j < 10"
proof -
  let ?b = "\<lparr>nbits = 10, bm_v = [0xff, 0xfc]\<rparr>"
  have inv: "bitmap_inv ?b" by (simp add: bitmap_inv_upt bm_used_def upt_rec_numeral del: set_upt)
  have "bm_used ?b 0 \<and> bm_used ?b 1 \<and> bm_used ?b 2 \<and> bm_used ?b 3 \<and> bm_used ?b 4 \<and> bm_used ?b 5 \<and>
    bm_used ?b 6 \<and> bm_used ?b 7" by (simp add: bm_used_def)
  moreover have "k \<in> {0, 1, 2, 3, 4, 5, 6, 7}" if "k < 8" for k :: nat using that by auto
  ultimately have used: "\<forall>k < 8. bm_used ?b k" by blast
  have "\<exists>i < nbits ?b. \<not> bm_used ?b i" by (intro exI [of _ 8]) (simp add: bm_used_def)
  with bitmap_alloc_lowest_free [OF inv] used show ?thesis
    by (metis bitmap.select_convs(1) leI)
qed

text \<open>Allocation and release are inverse: the slot that \<open>bitmap_alloc\<close> returned can be given back with
  \<open>bitmap_unmark\<close>, which restores the set of used bits, and a second \<open>bitmap_unmark\<close> of the same
  slot stops at its assertion.\<close>

lemma bitmap_alloc_unmark:
  assumes "bitmap_inv b" "bitmap_alloc b = Some (Inr j, b')"
  shows "\<exists>b''. bitmap_unmark b' j = Some b'' \<and> bitmap_inv b'' \<and> bm_used b'' = bm_used b \<and> bitmap_unmark b'' j = None"
proof -
  obtain b'' where b'': "bitmap_unmark b' j = Some b''" "bitmap_inv b''" "bm_used b'' = bm_used b" "nbits b'' = nbits b"
    using bm.release_alloc [OF assms] by blast
  moreover have "\<not> bm_used b j" using assms(1) by (cases rule: bm.alloc_cases) (use assms(2) in auto)
  ultimately show ?thesis using bm.release_free by simp
qed

end
