(* ===== verification/Kern_Coremap.thy ===== *)
theory Kern_Coremap
  imports Kern_Interfaces
begin

text \<open>
  Physical memory: \<open>kern/arch/mips/mips/ram.c\<close>, the coremap of \<open>kern/vm/coremap.c\<close> and the two
  kernel page allocation calls of \<open>kern/vm/vm.c\<close>.

  Addresses are \<open>32 word\<close>s. The coremap is the list of its entries; an address space
  pointer is an \<open>'as option\<close> (\<open>None\<close> is \<open>NULL\<close>). Every operation runs between
  \<open>lock_acquire(coremap_lock)\<close> and \<open>lock_release(coremap_lock)\<close> and is one step here. The branch of
  \<open>coremap_getpages\<close> for a full memory is the one the build compiles: the macro
  \<open>SWAPFILE_ENABLED\<close> it tests is defined nowhere, so the kernel panics.
\<close>

section \<open>Memory before the VM system\<close>

type_synonym addr = "32 word"

abbreviation PAGE_SIZE :: nat where "PAGE_SIZE \<equiv> 4096"
abbreviation MIPS_KSEG0 :: addr where "MIPS_KSEG0 \<equiv> 0x80000000"

record ram =
  firstpaddr :: addr
  lastpaddr :: addr

definition ram_bootstrap :: "addr \<Rightarrow> addr \<Rightarrow> ram" where
  \<comment> \<open>\<open>firstfree\<close> is set by \<open>start.S\<close>, \<open>ramsize\<close> comes from the machine\<close>
  "ram_bootstrap firstfree ramsize =
     \<lparr>firstpaddr = firstfree - MIPS_KSEG0,
      lastpaddr = (if ramsize > 508 * 1024 * 1024 then 508 * 1024 * 1024 else ramsize)\<rparr>"

definition ram_stealmem :: "nat \<Rightarrow> ram \<Rightarrow> addr \<times> ram" where
  "ram_stealmem npages r =
     (let sz = of_nat (npages * PAGE_SIZE) in
      if firstpaddr r + sz > lastpaddr r then (0, r)
      else (firstpaddr r, r\<lparr>firstpaddr := firstpaddr r + sz\<rparr>))"

definition ram_getsize :: "ram \<Rightarrow> (addr \<times> addr) \<times> ram" where
  "ram_getsize r = ((firstpaddr r, lastpaddr r), r\<lparr>firstpaddr := 0, lastpaddr := 0\<rparr>)"

section \<open>The coremap\<close>

datatype page_state = FREE | ALLOCATED | FIXED

record 'as coremap_page =
  cp_addrspace :: "'as option"
  cp_addr :: addr
  page_count :: nat
  cp_state :: page_state

record 'as coremap =
  cm_ram :: ram
  cm_pages :: "'as coremap_page list"
  coremap_initialized :: bool
  coremap_size :: nat
  coremap_pages_in_use :: addr
  last_page_used :: nat

definition coremap_entry :: "nat \<Rightarrow> page_state \<Rightarrow> 'as coremap_page" where
  \<comment> \<open>an entry with no owner\<close>
  "coremap_entry n st = \<lparr>cp_addrspace = None, cp_addr = 0, page_count = n, cp_state = st\<rparr>"

definition coremap_bootstrap :: "bool \<Rightarrow> 'as coremap \<Rightarrow> 'as coremap option" where
  \<comment> \<open>\<open>lock_ok\<close>: whether \<open>lock_create\<close> succeeds; a \<open>struct coremap_page\<close> takes 16 bytes. A table that ends
      beyond the memory it describes is written past its end, \<open>None\<close>.\<close>
  "coremap_bootstrap lock_ok c = do {
     let ((first, last), r) = ram_getsize (cm_ram c);
     let n = unat (last div of_nat PAGE_SIZE);
     let first' = first + of_nat (n * 16);
     let used = unat (first' div of_nat PAGE_SIZE);
     kassert (used \<le> n);
     kassert lock_ok;
     Some (c\<lparr>cm_ram := r, coremap_size := n,
             cm_pages := replicate used (coremap_entry 0 FIXED) @ replicate (n - used) (coremap_entry 0 FREE),
             coremap_pages_in_use := coremap_pages_in_use c + of_nat used,
             coremap_initialized := True\<rparr>)
   }"

function coremap_scan :: "'as coremap_page list \<Rightarrow> nat \<Rightarrow> nat \<Rightarrow> nat \<Rightarrow> nat \<Rightarrow> nat option option" where
  \<comment> \<open>the two loops of \<open>coremap_getfreepages\<close>: from page \<open>i\<close> up to \<open>limit\<close>, with \<open>pages\<close> free pages
      seen in a row; \<open>Some (Some i)\<close> is the last page of the run that was found\<close>
  "coremap_scan cm npages limit i pages =
     (if i < limit then do {
        p \<leftarrow> rd cm (int i);
        let pages' = (if cp_state p = FREE then pages + 1 else 0);
        (if pages' = npages then Some (Some i) else coremap_scan cm npages limit (Suc i) pages')
      }
      else Some None)"
  by pat_completeness auto

termination
  by (relation "measure (\<lambda>(cm, npages, limit, i, pages). limit - i)") auto

definition coremap_getfreepages :: "nat \<Rightarrow> 'as coremap \<Rightarrow> (nat option \<times> 'as coremap) option" where
  \<comment> \<open>\<open>None\<close> in the result is the return value -1\<close>
  "coremap_getfreepages npages c = do {
     r \<leftarrow> coremap_scan (cm_pages c) npages (coremap_size c) (last_page_used c) 0;
     (case r of
        Some i \<Rightarrow> Some (Some (i - (npages - 1)), c\<lparr>last_page_used := i\<rparr>)
      | None \<Rightarrow> do {
          r' \<leftarrow> coremap_scan (cm_pages c) npages (last_page_used c) 0 0;
          (case r' of
             Some i \<Rightarrow> Some (Some (i - (npages - 1)), c\<lparr>last_page_used := i\<rparr>)
           | None \<Rightarrow> Some (None, c))
        })
   }"

function coremap_fill :: "'as coremap_page list \<Rightarrow> nat \<Rightarrow> nat \<Rightarrow> nat \<Rightarrow> 'as coremap_page list option" where
  \<comment> \<open>\<open>for (i = 1; i < npages; i++)\<close>: the entries after the first of a block\<close>
  "coremap_fill cm page i npages =
     (if i < npages then do {
        cm' \<leftarrow> wr cm (int (page + i)) (coremap_entry 0 ALLOCATED);
        coremap_fill cm' page (Suc i) npages
      }
      else Some cm)"
  by pat_completeness auto

termination
  by (relation "measure (\<lambda>(cm, page, i, npages). npages - i)") auto

definition coremap_getpages :: "nat \<Rightarrow> 'as coremap \<Rightarrow> (addr \<times> 'as coremap) option" where
  "coremap_getpages npages c = do {
     kassert (npages \<noteq> 0);
     (if coremap_initialized c then do {
        (page, c') \<leftarrow> coremap_getfreepages npages c;
        page' \<leftarrow> page;
        cm1 \<leftarrow> wr (cm_pages c') (int page') (coremap_entry npages ALLOCATED);
        cm2 \<leftarrow> coremap_fill cm1 page' 1 npages;
        Some (of_nat (page' * PAGE_SIZE),
              c'\<lparr>cm_pages := cm2, coremap_pages_in_use := coremap_pages_in_use c' + of_nat npages\<rparr>)
      }
      else (let (paddr, r) = ram_stealmem npages (cm_ram c) in Some (paddr, c\<lparr>cm_ram := r\<rparr>)))
   }"

function coremap_clear :: "'as coremap_page list \<Rightarrow> nat \<Rightarrow> nat \<Rightarrow> nat \<Rightarrow> 'as coremap_page list option" where
  \<comment> \<open>\<open>for (i = 0; i < npages; i++)\<close> of \<open>coremap_freepages\<close>\<close>
  "coremap_clear cm page i npages =
     (if i < npages then do {
        p \<leftarrow> rd cm (int (page + i));
        cm' \<leftarrow> (if cp_state p = ALLOCATED \<or> cp_state p = FIXED
                then wr cm (int (page + i)) (coremap_entry 0 FREE) else Some cm);
        coremap_clear cm' page (Suc i) npages
      }
      else Some cm)"
  by pat_completeness auto

termination
  by (relation "measure (\<lambda>(cm, page, i, npages). npages - i)") auto

definition coremap_freepages :: "addr \<Rightarrow> 'as coremap \<Rightarrow> 'as coremap option" where
  "coremap_freepages paddr c = do {
     kassert (coremap_initialized c);
     let page = unat (paddr div of_nat PAGE_SIZE);
     p \<leftarrow> rd (cm_pages c) (int page);
     let npages = page_count p;
     (if npages \<noteq> 0 then do {
        cm' \<leftarrow> coremap_clear (cm_pages c) page 0 npages;
        Some (c\<lparr>cm_pages := cm', coremap_pages_in_use := coremap_pages_in_use c - of_nat npages\<rparr>)
      }
      else Some c)
   }"

definition coremap_ispagefixed :: "addr \<Rightarrow> 'as coremap \<Rightarrow> bool option" where
  "coremap_ispagefixed paddr c = do {
     p \<leftarrow> rd (cm_pages c) (int (unat (paddr div of_nat PAGE_SIZE)));
     Some (cp_state p = FIXED)
   }"

definition coremap_setpagefixed :: "addr \<Rightarrow> bool \<Rightarrow> 'as coremap \<Rightarrow> 'as coremap option" where
  "coremap_setpagefixed paddr fixed c = do {
     let page = int (unat (paddr div of_nat PAGE_SIZE));
     p \<leftarrow> rd (cm_pages c) page;
     (if cp_state p \<noteq> FREE then do {
        cm' \<leftarrow> wr (cm_pages c) page (p\<lparr>cp_state := (if fixed then FIXED else ALLOCATED)\<rparr>);
        Some (c\<lparr>cm_pages := cm'\<rparr>)
      }
      else Some c)
   }"

definition coremap_getpagevaddr :: "addr \<Rightarrow> 'as coremap \<Rightarrow> ('as option \<times> addr) option option" where
  \<comment> \<open>\<open>Some None\<close>: the page is free and the two output arguments are left as they were\<close>
  "coremap_getpagevaddr paddr c = do {
     p \<leftarrow> rd (cm_pages c) (int (unat (paddr div of_nat PAGE_SIZE)));
     Some (if cp_state p \<noteq> FREE then Some (cp_addrspace p, cp_addr p) else None)
   }"

definition coremap_setpagevaddr :: "addr \<Rightarrow> 'as option \<Rightarrow> addr \<Rightarrow> 'as coremap \<Rightarrow> 'as coremap option" where
  "coremap_setpagevaddr paddr addrspace vaddr c = do {
     let page = int (unat (paddr div of_nat PAGE_SIZE));
     p \<leftarrow> rd (cm_pages c) page;
     (if cp_state p \<noteq> FREE then do {
        cm' \<leftarrow> wr (cm_pages c) page (p\<lparr>cp_addrspace := addrspace, cp_addr := vaddr\<rparr>);
        Some (c\<lparr>cm_pages := cm'\<rparr>)
      }
      else Some c)
   }"

definition alloc_kpages :: "nat \<Rightarrow> 'as coremap \<Rightarrow> (addr \<times> 'as coremap) option" where
  "alloc_kpages npages c = do {
     (paddr, c') \<leftarrow> coremap_getpages npages c;
     Some (if paddr = 0 then 0 else paddr + MIPS_KSEG0, c')
   }"

definition free_kpages :: "addr \<Rightarrow> 'as coremap \<Rightarrow> 'as coremap option" where
  "free_kpages kvaddr c = coremap_freepages (kvaddr - MIPS_KSEG0) c"

section \<open>Invariant\<close>

declare coremap_scan.simps [simp del] coremap_fill.simps [simp del] coremap_clear.simps [simp del]

definition free_run :: "'as coremap_page list \<Rightarrow> nat \<Rightarrow> nat \<Rightarrow> bool" where
  "free_run cm s n \<longleftrightarrow> s + n \<le> length cm \<and> (\<forall>k \<in> {s..<s + n}. cp_state (cm ! k) = FREE)"

definition cm_avail :: "'as coremap \<Rightarrow> nat set" where
  "cm_avail c = {k. k < length (cm_pages c) \<and> cp_state (cm_pages c ! k) = FREE}"

definition block_ok :: "'as coremap_page list \<Rightarrow> nat \<Rightarrow> nat \<Rightarrow> bool" where
  \<comment> \<open>the \<open>n\<close> entries from \<open>k\<close> on are in use and only the first carries a count\<close>
  "block_ok cm k n \<longleftrightarrow> k + n \<le> length cm \<and> (\<forall>j < n. cp_state (cm ! (k + j)) \<noteq> FREE \<and> (0 < j \<longrightarrow> page_count (cm ! (k + j)) = 0))"

definition coremap_inv :: "'as coremap \<Rightarrow> bool" where
  "coremap_inv c \<longleftrightarrow> coremap_initialized c \<and> length (cm_pages c) = coremap_size c \<and>
     coremap_size c \<le> 2 ^ 19 \<and> last_page_used c < coremap_size c \<and>
     cp_state (cm_pages c ! 0) \<noteq> FREE \<and> page_count (cm_pages c ! 0) = 0 \<and>
     (\<forall>k < coremap_size c. cp_state (cm_pages c ! k) = FREE \<longrightarrow> cm_pages c ! k = coremap_entry 0 FREE) \<and>
     (\<forall>k < coremap_size c. block_ok (cm_pages c) k (page_count (cm_pages c ! k))) \<and>
     coremap_pages_in_use c = of_nat (coremap_size c - card (cm_avail c))"

section \<open>The search for free pages\<close>

lemma coremap_entry_simps [simp]:
  "cp_state (coremap_entry n st) = st" "page_count (coremap_entry n st) = n"
  "cp_addrspace (coremap_entry n st) = None" "cp_addr (coremap_entry n st) = 0"
  by (simp_all add: coremap_entry_def)

definition scan_post :: "'as coremap_page list \<Rightarrow> nat \<Rightarrow> nat \<Rightarrow> nat \<Rightarrow> nat option \<Rightarrow> bool" where
  \<comment> \<open>what a scan of the pages from \<open>start\<close> up to \<open>limit\<close> promises\<close>
  "scan_post cm npages limit start r \<longleftrightarrow> (case r of
     None \<Rightarrow> \<forall>s \<ge> start. s + npages \<le> limit \<longrightarrow> \<not> free_run cm s npages
   | Some e \<Rightarrow> e < limit \<and> start + npages \<le> e + 1 \<and> free_run cm (e + 1 - npages) npages \<and>
       (\<forall>s. start \<le> s \<and> s < e + 1 - npages \<longrightarrow> \<not> free_run cm s npages))"

lemma scan_post_later:
  assumes "scan_post cm npages limit start' r" "start \<le> start'"
    "\<And>s. start \<le> s \<Longrightarrow> s < start' \<Longrightarrow> \<not> free_run cm s npages"
  shows "scan_post cm npages limit start r"
proof (cases r)
  case None
  with assms show ?thesis by (auto simp: scan_post_def) (meson not_less)
next
  case (Some e)
  with assms show ?thesis by (auto simp: scan_post_def) (meson not_less)
qed

lemma coremap_scan_spec:
  assumes "limit \<le> length cm" "pages < npages" "pages \<le> i" "i \<le> limit" "free_run cm (i - pages) pages"
  shows "\<exists>r. coremap_scan cm npages limit i pages = Some r \<and> scan_post cm npages limit (i - pages) r"
  using assms
proof (induction cm npages limit i pages rule: coremap_scan.induct)
  case (1 cm npages limit i pages)
  show ?case
  proof (cases "i < limit")
    case False
    with "1.prems" show ?thesis by (subst coremap_scan.simps) (auto simp: scan_post_def)
  next
    case True
    with "1.prems"(1) have ri: "rd cm (int i) = Some (cm ! i)" by simp
    show ?thesis
    proof (cases "cp_state (cm ! i) = FREE")
      case free: True
      have run: "free_run cm (i - pages) (Suc pages)"
        using "1.prems" True free by (auto simp: free_run_def less_Suc_eq)
      show ?thesis
      proof (cases "Suc pages = npages")
        case last: True
        with True ri free run "1.prems"(3) show ?thesis
          by (subst coremap_scan.simps) (auto simp: scan_post_def Suc_diff_le)
      next
        case False
        with "1.IH" [OF True ri, of "Suc pages"] True free run "1.prems" ri show ?thesis
          by (subst coremap_scan.simps) simp
      qed
    next
      case used: False
      have *: "\<not> free_run cm s npages" if "i - pages \<le> s" "s < Suc i" for s
        using that used "1.prems"(2,3) by (auto simp: free_run_def intro!: bexI [of _ i])
      obtain r where r: "coremap_scan cm npages limit (Suc i) 0 = Some r" "scan_post cm npages limit (Suc i) r"
        using "1.IH" [OF True ri, of 0] True used "1.prems"(1,2) by (auto simp: free_run_def)
      moreover have "coremap_scan cm npages limit i pages = Some r"
        using r(1) True ri used "1.prems"(2) by (subst coremap_scan.simps) simp
      moreover have "scan_post cm npages limit (i - pages) r" by (rule scan_post_later [OF r(2)]) (use * in auto)
      ultimately show ?thesis by blast
    qed
  qed
qed

lemma coremap_getfreepages_spec:
  assumes "length (cm_pages c) = coremap_size c" "last_page_used c < coremap_size c" "0 < n"
  shows "\<exists>r c'. coremap_getfreepages n c = Some (r, c') \<and>
    (case r of
       None \<Rightarrow> c' = c \<and> (\<forall>s. free_run (cm_pages c) s n \<longrightarrow> s < last_page_used c \<and> last_page_used c < s + n)
     | Some s \<Rightarrow> free_run (cm_pages c) s n \<and> (last_page_used c \<le> s \<or> s + n \<le> last_page_used c) \<and>
         c' = c\<lparr>last_page_used := s + n - 1\<rparr>)"
proof -
  let ?cm = "cm_pages c" and ?l = "last_page_used c" and ?z = "coremap_size c"
  obtain r where r: "coremap_scan ?cm n ?z ?l 0 = Some r" "scan_post ?cm n ?z ?l r"
    using coremap_scan_spec [of ?z ?cm 0 n ?l] assms by (auto simp: free_run_def)
  obtain r' where r': "coremap_scan ?cm n ?l 0 0 = Some r'" "scan_post ?cm n ?l 0 r'"
    using coremap_scan_spec [of ?l ?cm 0 n 0] assms by (auto simp: free_run_def)
  show ?thesis
  proof (cases r)
    case (Some e)
    with r assms(3) show ?thesis by (auto simp: coremap_getfreepages_def scan_post_def)
  next
    case None
    show ?thesis
    proof (cases r')
      case (Some e)
      with None r r' assms(3) show ?thesis by (auto simp: coremap_getfreepages_def scan_post_def)
    next
      case None': None
      have "s < ?l \<and> ?l < s + n" if "free_run ?cm s n" for s
        using that r(2) r'(2) None None' assms(1) by (force simp: scan_post_def free_run_def not_le [symmetric])
      with None None' r(1) r'(1) show ?thesis by (auto simp: coremap_getfreepages_def)
    qed
  qed
qed

section \<open>Allocation and release\<close>

abbreviation frame_no :: "addr \<Rightarrow> nat" where "frame_no a \<equiv> unat (a div of_nat PAGE_SIZE)"

lemma unat_page [simp]: "s < 2 ^ 20 \<Longrightarrow> unat (of_nat s * 4096 :: addr) = s * PAGE_SIZE"
proof -
  assume "s < 2 ^ 20"
  then have "unat (of_nat (s * PAGE_SIZE) :: addr) = s * PAGE_SIZE" by (simp add: unat_of_nat del: of_nat_mult)
  then show ?thesis by simp
qed

lemma frame_no_page [simp]: "s < 2 ^ 20 \<Longrightarrow> unat (of_nat s * 4096 div 4096 :: addr) = s"
  by (simp add: unat_div)

lemma coremap_fill_nth:
  "page + npages \<le> length cm \<Longrightarrow> \<exists>cm'. coremap_fill cm page i npages = Some cm' \<and> length cm' = length cm \<and>
    (\<forall>k. cm' ! k = (if page + i \<le> k \<and> k < page + npages then coremap_entry 0 ALLOCATED else cm ! k))"
proof (induction cm page i npages rule: coremap_fill.induct)
  case (1 cm page i npages)
  show ?case
  proof (cases "i < npages")
    case False
    then show ?thesis by (subst coremap_fill.simps) auto
  next
    case True
    with "1.prems" have w: "wr cm (int (page + i)) (coremap_entry 0 ALLOCATED) = Some (cm[page + i := coremap_entry 0 ALLOCATED])"
      by (simp add: wr_def nat_int_add)
    from "1.IH" [OF True w] "1.prems" obtain cm' where cm':
      "coremap_fill (cm[page + i := coremap_entry 0 ALLOCATED]) page (Suc i) npages = Some cm'" "length cm' = length cm"
      "\<forall>k. cm' ! k = (if page + Suc i \<le> k \<and> k < page + npages then coremap_entry 0 ALLOCATED
        else cm[page + i := coremap_entry 0 ALLOCATED] ! k)" by auto
    with True w "1.prems" show ?thesis
      by (subst coremap_fill.simps) (auto simp: nth_list_update)
  qed
qed

lemma coremap_clear_nth:
  "page + npages \<le> length cm \<Longrightarrow> \<forall>j. i \<le> j \<and> j < npages \<longrightarrow> cp_state (cm ! (page + j)) \<noteq> FREE \<Longrightarrow>
   \<exists>cm'. coremap_clear cm page i npages = Some cm' \<and> length cm' = length cm \<and>
    (\<forall>k. cm' ! k = (if page + i \<le> k \<and> k < page + npages then coremap_entry 0 FREE else cm ! k))"
proof (induction "npages - i" arbitrary: cm i)
  case 0
  then show ?case by (subst coremap_clear.simps) auto
next
  case (Suc d)
  let ?cm = "cm[page + i := coremap_entry 0 FREE]"
  from Suc.hyps(2) have i: "i < npages" by simp
  have w: "wr cm (int (page + i)) (coremap_entry 0 FREE) = Some ?cm" "rd cm (int (page + i)) = Some (cm ! (page + i))"
    using i Suc.prems(1) by (simp_all add: wr_def rd_def nat_int_add)
  have "cp_state (cm ! (page + i)) = ALLOCATED \<or> cp_state (cm ! (page + i)) = FIXED"
    using Suc.prems(2) i page_state.exhaust by blast
  with w i have step: "coremap_clear cm page i npages = coremap_clear ?cm page (Suc i) npages"
    by (subst coremap_clear.simps) simp
  have "d = npages - Suc i" using Suc.hyps(2) by simp
  with Suc.hyps(1) [of "Suc i" ?cm] Suc.prems obtain cm' where
    "coremap_clear ?cm page (Suc i) npages = Some cm'" "length cm' = length cm"
    "\<forall>k. cm' ! k = (if page + Suc i \<le> k \<and> k < page + npages then coremap_entry 0 FREE else ?cm ! k)" by auto
  with step i Suc.prems(1) show ?case by (auto simp: nth_list_update)
qed

lemma coremap_getpages_cases:
  assumes inv: "coremap_inv c" and n: "0 < n"
  obtains (panic) "coremap_getpages n c = None"
      "\<forall>s. free_run (cm_pages c) s n \<longrightarrow> s < last_page_used c \<and> last_page_used c < s + n"
  | (found) s cm' where "coremap_getpages n c = Some (of_nat s * 4096, c\<lparr>last_page_used := s + n - 1,
        cm_pages := cm', coremap_pages_in_use := coremap_pages_in_use c + of_nat n\<rparr>)"
      "free_run (cm_pages c) s n" "length cm' = length (cm_pages c)" "0 < s" "last_page_used c \<le> s \<or> s + n \<le> last_page_used c"
      "\<And>k. cm' ! k = (if k = s then coremap_entry n ALLOCATED else if s < k \<and> k < s + n then coremap_entry 0 ALLOCATED
        else cm_pages c ! k)"
proof -
  from inv have b: "coremap_initialized c" "length (cm_pages c) = coremap_size c" "last_page_used c < coremap_size c"
    "cp_state (cm_pages c ! 0) \<noteq> FREE" by (auto simp: coremap_inv_def)
  obtain r c' where r: "coremap_getfreepages n c = Some (r, c')"
    "case r of None \<Rightarrow> c' = c \<and> (\<forall>s. free_run (cm_pages c) s n \<longrightarrow> s < last_page_used c \<and> last_page_used c < s + n)
     | Some s \<Rightarrow> free_run (cm_pages c) s n \<and> (last_page_used c \<le> s \<or> s + n \<le> last_page_used c) \<and>
         c' = c\<lparr>last_page_used := s + n - 1\<rparr>"
    using coremap_getfreepages_spec [OF b(2,3) n] by blast
  show thesis
  proof (cases r)
    case None
    with r b(1) n that(1) show thesis by (simp add: coremap_getpages_def)
  next
    case (Some s)
    with r have run: "free_run (cm_pages c) s n" and c': "c' = c\<lparr>last_page_used := s + n - 1\<rparr>"
      and side: "last_page_used c \<le> s \<or> s + n \<le> last_page_used c" by auto
    have s: "s < length (cm_pages c)" "s + n \<le> length (cm_pages c)" using run n by (auto simp: free_run_def)
    have "s \<noteq> 0" using run n b(4) by (auto simp: free_run_def)
    moreover obtain cm' where cm': "coremap_fill ((cm_pages c)[s := coremap_entry n ALLOCATED]) s 1 n = Some cm'"
      "length cm' = length (cm_pages c)"
      "\<forall>k. cm' ! k = (if s + 1 \<le> k \<and> k < s + n then coremap_entry 0 ALLOCATED else (cm_pages c)[s := coremap_entry n ALLOCATED] ! k)"
      using coremap_fill_nth [of s n "(cm_pages c)[s := coremap_entry n ALLOCATED]" 1] s by auto
    ultimately show thesis
      using that(2) [of s cm'] run side c' s b(1) n r(1) Some by (simp add: coremap_getpages_def nth_list_update)
  qed
qed

lemma coremap_invD:
  assumes "coremap_inv c"
  shows "coremap_initialized c" "length (cm_pages c) = coremap_size c" "coremap_size c \<le> 2 ^ 19" "last_page_used c < coremap_size c"
    "cp_state (cm_pages c ! 0) \<noteq> FREE" "page_count (cm_pages c ! 0) = 0"
    "\<And>k. k < coremap_size c \<Longrightarrow> cp_state (cm_pages c ! k) = FREE \<Longrightarrow> cm_pages c ! k = coremap_entry 0 FREE"
    "\<And>k. k < coremap_size c \<Longrightarrow> block_ok (cm_pages c) k (page_count (cm_pages c ! k))"
    "coremap_pages_in_use c = of_nat (coremap_size c - card (cm_avail c))"
  using assms by (auto simp: coremap_inv_def)

lemma cm_avail_subset: "cm_avail c \<subseteq> {..<length (cm_pages c)}"
  by (auto simp: cm_avail_def)

lemma cm_avail_finite [simp]: "finite (cm_avail c)"
  using cm_avail_subset finite_subset by blast

lemma cm_avail_card: "card (cm_avail c) \<le> length (cm_pages c)"
  using card_mono [OF _ cm_avail_subset] by fastforce

lemma free_run_avail: "free_run (cm_pages c) s n \<longleftrightarrow> s + n \<le> length (cm_pages c) \<and> {s..<s + n} \<subseteq> cm_avail c"
  by (auto simp: free_run_def cm_avail_def)

lemma coremap_inv_alloc:
  assumes inv: "coremap_inv c" and run: "free_run (cm_pages c) s n" "0 < n" "0 < s"
    and len: "length cm' = length (cm_pages c)"
    and cm': "\<And>k. cm' ! k = (if k = s then coremap_entry n ALLOCATED else if s < k \<and> k < s + n then coremap_entry 0 ALLOCATED
        else cm_pages c ! k)"
    and c': "c' = c\<lparr>last_page_used := s + n - 1, cm_pages := cm', coremap_pages_in_use := coremap_pages_in_use c + of_nat n\<rparr>"
  shows "coremap_inv c'" "cm_avail c' = cm_avail c - {s..<s + n}"
proof -
  note I = coremap_invD [OF inv]
  from run(1) I(2) have s: "s + n \<le> coremap_size c" "{s..<s + n} \<subseteq> cm_avail c"
    by (auto simp: free_run_avail)
  show av: "cm_avail c' = cm_avail c - {s..<s + n}"
    using cm' len run(2) by (auto simp: c' cm_avail_def)
  have card: "card (cm_avail c') = card (cm_avail c) - n" "n \<le> card (cm_avail c)"
    using av s(2) card_mono [OF cm_avail_finite s(2)] by (simp_all add: card_Diff_subset)
  have "coremap_size c - (card (cm_avail c) - n) = coremap_size c - card (cm_avail c) + n"
    using card(2) cm_avail_card [of c] I(2) by simp
  then have use: "coremap_pages_in_use c' = of_nat (coremap_size c' - card (cm_avail c'))"
    using I(9) card(1) by (simp add: c')
  have blk: "block_ok cm' k (page_count (cm' ! k))" if "k < coremap_size c" for k
  proof (cases "s \<le> k \<and> k < s + n")
    case True
    then show ?thesis using s(1) I(2) len cm' by (auto simp: block_ok_def)
  next
    case False
    then have "page_count (cm' ! k) = page_count (cm_pages c ! k)" using cm' run(2) by auto
    moreover have "cp_state (cm' ! i) \<noteq> FREE \<and> page_count (cm' ! i) = page_count (cm_pages c ! i)"
      if "cp_state (cm_pages c ! i) \<noteq> FREE" "i < coremap_size c" for i
      using that s(2) [THEN subsetD, of i] cm' run(2) by (auto simp: cm_avail_def)
    ultimately show ?thesis using I(8) [OF that] len I(2) by (fastforce simp: block_ok_def)
  qed
  show "coremap_inv c'"
    using I s(1) len run(2,3) blk use cm' by (simp add: coremap_inv_def c')
qed

lemma coremap_freepages_block:
  assumes inv: "coremap_inv c" and s: "frame_no a = s" "s < coremap_size c" "page_count (cm_pages c ! s) = n" "0 < n"
  obtains cm' where "coremap_freepages a c = Some (c\<lparr>cm_pages := cm', coremap_pages_in_use := coremap_pages_in_use c - of_nat n\<rparr>)"
    "length cm' = length (cm_pages c)" "\<And>k. cm' ! k = (if s \<le> k \<and> k < s + n then coremap_entry 0 FREE else cm_pages c ! k)"
proof -
  note I = coremap_invD [OF inv]
  from I(8) [OF s(2)] s(3) have b: "s + n \<le> length (cm_pages c)" "\<forall>j < n. cp_state (cm_pages c ! (s + j)) \<noteq> FREE"
    by (auto simp: block_ok_def)
  then obtain cm' where cm': "coremap_clear (cm_pages c) s 0 n = Some cm'" "length cm' = length (cm_pages c)"
    "\<forall>k. cm' ! k = (if s + 0 \<le> k \<and> k < s + n then coremap_entry 0 FREE else cm_pages c ! k)"
    using coremap_clear_nth [of s n "cm_pages c" 0] by auto
  show thesis
  proof (rule that [of cm'])
    show "coremap_freepages a c = Some (c\<lparr>cm_pages := cm', coremap_pages_in_use := coremap_pages_in_use c - of_nat n\<rparr>)"
      using cm'(1) s I(1,2) by (simp add: coremap_freepages_def rd_def)
  qed (use cm' in auto)
qed

lemma coremap_inv_free:
  assumes inv: "coremap_inv c" and s: "s < coremap_size c" "page_count (cm_pages c ! s) = n" "0 < n"
    and len: "length cm' = length (cm_pages c)"
    and cm': "\<And>k. cm' ! k = (if s \<le> k \<and> k < s + n then coremap_entry 0 FREE else cm_pages c ! k)"
    and c': "c' = c\<lparr>cm_pages := cm', coremap_pages_in_use := coremap_pages_in_use c - of_nat n\<rparr>"
  shows "coremap_inv c'" "cm_avail c' = cm_avail c \<union> {s..<s + n}"
proof -
  note I = coremap_invD [OF inv]
  from I(8) [OF s(1)] s(2) have b: "s + n \<le> coremap_size c"
    "\<And>j. j < n \<Longrightarrow> cp_state (cm_pages c ! (s + j)) \<noteq> FREE \<and> (0 < j \<longrightarrow> page_count (cm_pages c ! (s + j)) = 0)"
    using I(2) by (auto simp: block_ok_def)
  have used: "cp_state (cm_pages c ! k) \<noteq> FREE" if "s \<le> k" "k < s + n" for k
    using b(2) [of "k - s"] that by auto
  have s0: "0 < s" using I(6) s(2,3) by (cases s) auto
  show av: "cm_avail c' = cm_avail c \<union> {s..<s + n}"
    using cm' len b(1) I(2) by (auto simp: c' cm_avail_def)
  have "cm_avail c \<inter> {s..<s + n} = {}" using used by (auto simp: cm_avail_def)
  then have card: "card (cm_avail c') = card (cm_avail c) + n" using av by (simp add: card_Un_disjoint)
  moreover have "card (cm_avail c') \<le> coremap_size c" using cm_avail_card [of c'] len I(2) by (simp add: c')
  ultimately have *: "coremap_size c - card (cm_avail c) = coremap_size c - card (cm_avail c') + n" by simp
  have "coremap_pages_in_use c' = of_nat (coremap_size c - card (cm_avail c)) - of_nat n"
    using I(9) by (simp add: c')
  also have "\<dots> = of_nat (coremap_size c' - card (cm_avail c'))"
    unfolding * by (simp add: c')
  finally have use: "coremap_pages_in_use c' = of_nat (coremap_size c' - card (cm_avail c'))" .
  have blk: "block_ok cm' k (page_count (cm' ! k))" if k: "k < coremap_size c" for k
  proof (cases "s \<le> k \<and> k < s + n")
    case True
    then show ?thesis using cm' k len I(2) by (simp add: block_ok_def)
  next
    case False
    define m where "m = page_count (cm_pages c ! k)"
    have bk: "k + m \<le> coremap_size c"
      "\<And>j. j < m \<Longrightarrow> cp_state (cm_pages c ! (k + j)) \<noteq> FREE \<and> (0 < j \<longrightarrow> page_count (cm_pages c ! (k + j)) = 0)"
      using I(8) [OF k] I(2) by (auto simp: block_ok_def m_def)
    have "\<not> (s \<le> k + j \<and> k + j < s + n)" if "j < m" for j
    proof
      assume *: "s \<le> k + j \<and> k + j < s + n"
      with False have "k < s" by auto
      moreover have "s - k < m" using * that by linarith
      ultimately show False using bk(2) [of "s - k"] s by auto
    qed
    then have "\<And>j. j < m \<Longrightarrow> cm' ! (k + j) = cm_pages c ! (k + j)" using cm' by auto
    moreover have "page_count (cm' ! k) = m" using False cm' by (auto simp: m_def)
    ultimately show ?thesis using bk len I(2) by (simp add: block_ok_def)
  qed
  show "coremap_inv c'"
    using I len s0 blk use cm' by (simp add: coremap_inv_def c')
qed

lemma coremap_inv_mark:
  assumes inv: "coremap_inv c" and k: "k < coremap_size c" "cp_state (cm_pages c ! k) \<noteq> FREE"
    and p: "cp_state p \<noteq> FREE" "page_count p = page_count (cm_pages c ! k)"
    and c': "c' = c\<lparr>cm_pages := (cm_pages c)[k := p]\<rparr>"
  shows "coremap_inv c' \<and> cm_avail c' = cm_avail c \<and> (\<forall>i. page_count (cm_pages c' ! i) = page_count (cm_pages c ! i))"
proof -
  note I = coremap_invD [OF inv]
  have nth: "(cm_pages c)[k := p] ! i = (if i = k then p else cm_pages c ! i)" for i
    using k(1) I(2) by (simp add: nth_list_update)
  have av: "cm_avail c' = cm_avail c" using k p nth by (auto simp: cm_avail_def c')
  moreover have cnt: "\<forall>i. page_count (cm_pages c' ! i) = page_count (cm_pages c ! i)" using p nth by (simp add: c')
  moreover have "block_ok (cm_pages c') i n" if "block_ok (cm_pages c) i n" for i n
    using that p nth by (auto simp: block_ok_def c')
  ultimately show ?thesis using I k p nth av by (auto simp: coremap_inv_def c')
qed

lemma coremap_setpagefixed_inv:
  assumes "coremap_inv c" "coremap_setpagefixed a fixed c = Some c'"
  shows "coremap_inv c' \<and> cm_avail c' = cm_avail c \<and> (\<forall>k. page_count (cm_pages c' ! k) = page_count (cm_pages c ! k))"
  using assms coremap_invD(2) [OF assms(1)]
    coremap_inv_mark [OF assms(1), of "frame_no a" "(cm_pages c ! frame_no a)\<lparr>cp_state := (if fixed then FIXED else ALLOCATED)\<rparr>" c']
  by (auto simp: coremap_setpagefixed_def bind_Some rd_Some wr_Some Let_def split: if_splits)

lemma coremap_setpagevaddr_inv:
  assumes "coremap_inv c" "coremap_setpagevaddr a as v c = Some c'"
  shows "coremap_inv c' \<and> cm_avail c' = cm_avail c \<and> (\<forall>k. page_count (cm_pages c' ! k) = page_count (cm_pages c ! k))"
  using assms coremap_invD(2) [OF assms(1)]
    coremap_inv_mark [OF assms(1), of "frame_no a" "(cm_pages c ! frame_no a)\<lparr>cp_addrspace := as, cp_addr := v\<rparr>" c']
  by (auto simp: coremap_setpagevaddr_def bind_Some rd_Some wr_Some Let_def split: if_splits)

definition cm_block :: "'as coremap \<Rightarrow> addr \<Rightarrow> nat option" where
  "cm_block c a = (if unat a mod PAGE_SIZE = 0 \<and> frame_no a < length (cm_pages c) \<and> page_count (cm_pages c ! frame_no a) \<noteq> 0
     then Some (page_count (cm_pages c ! frame_no a)) else None)"

definition cm_frames :: "addr \<Rightarrow> nat \<Rightarrow> nat set" where
  "cm_frames a n = {frame_no a..<frame_no a + n}"

lemma aligned_eq: "unat a mod PAGE_SIZE = 0 \<Longrightarrow> a = of_nat (frame_no a) * 4096" for a :: addr
proof -
  assume "unat a mod PAGE_SIZE = 0"
  then have "unat a = frame_no a * PAGE_SIZE" using div_mult_mod_eq [of "unat a" PAGE_SIZE] by (simp add: unat_div)
  then have "of_nat (unat a) = (of_nat (frame_no a * PAGE_SIZE) :: addr)" by simp
  then show ?thesis by simp
qed

interpretation fp: frame_pool coremap_inv cm_avail cm_block cm_frames coremap_getpages coremap_freepages
proof
  fix c c' :: "'as coremap" and n a
  assume inv: "coremap_inv c"
  note I = coremap_invD [OF inv]
  { assume ok: "coremap_getpages n c = Some (a, c')"
    then have n: "0 < n" by (cases n) (auto simp: coremap_getpages_def)
    from inv n show "cm_frames a n \<subseteq> cm_avail c \<and> cm_block c a = None \<and> coremap_inv c' \<and> cm_avail c' = cm_avail c - cm_frames a n \<and>
      cm_block c' = (cm_block c)(a \<mapsto> n)"
    proof (cases rule: coremap_getpages_cases)
      case panic
      with ok show ?thesis by simp
    next
      case (found s cm')
      from found(2) n I(2,3) have s: "s < 2 ^ 20" "s < length (cm_pages c)" "s \<in> cm_avail c" by (auto simp: free_run_avail)
      from ok found(1) have a: "a = of_nat s * 4096" and c': "c' = c\<lparr>last_page_used := s + n - 1, cm_pages := cm',
        coremap_pages_in_use := coremap_pages_in_use c + of_nat n\<rparr>" by auto
      have fa: "frame_no a = s" "cm_frames a n = {s..<s + n}" using s by (simp_all add: a cm_frames_def)
      note new = coremap_inv_alloc [OF inv found(2) n found(4,3,6) c']
      have z: "page_count (cm_pages c ! k) = 0" if "k \<in> {s..<s + n}" for k
        using that found(2) I(2) I(7) [of k] by (simp add: free_run_def)
      have "cm_block c' b = ((cm_block c)(a \<mapsto> n)) b" for b
      proof (cases "b = a")
        case True
        then show ?thesis using fa s n found(3,6) by (simp add: cm_block_def c' a)
      next
        case False
        then have "unat b mod PAGE_SIZE = 0 \<Longrightarrow> frame_no b \<noteq> s" using aligned_eq [of b] a by auto
        then show ?thesis using False z found(3,6) by (auto simp: cm_block_def c')
      qed
      moreover have "cm_block c a = None" using z fa n by (simp add: cm_block_def)
      ultimately show ?thesis using new fa found(2) by (auto simp: free_run_avail)
    qed }
  { assume blk: "cm_block c a = Some n"
    then have n: "frame_no a < coremap_size c" "page_count (cm_pages c ! frame_no a) = n" "0 < n" "unat a mod PAGE_SIZE = 0"
      using I(2) by (auto simp: cm_block_def split: if_splits)
    have used: "cp_state (cm_pages c ! k) \<noteq> FREE" if "frame_no a \<le> k" "k < frame_no a + n" for k
      using I(8) [OF n(1)] n(2) that by (auto simp: block_ok_def dest!: spec [of _ "k - frame_no a"])
    show "cm_frames a n \<inter> cm_avail c = {}"
      using used by (auto simp: cm_frames_def cm_avail_def)
    obtain cm' where cm': "coremap_freepages a c = Some (c\<lparr>cm_pages := cm', coremap_pages_in_use := coremap_pages_in_use c - of_nat n\<rparr>)"
      "length cm' = length (cm_pages c)"
      "\<And>k. cm' ! k = (if frame_no a \<le> k \<and> k < frame_no a + n then coremap_entry 0 FREE else cm_pages c ! k)"
      using coremap_freepages_block [OF inv refl n(1-3)] by blast
    define c2 where "c2 = c\<lparr>cm_pages := cm', coremap_pages_in_use := coremap_pages_in_use c - of_nat n\<rparr>"
    note new = coremap_inv_free [OF inv n(1-3) cm'(2,3) c2_def]
    have z: "page_count (cm_pages c ! k) = 0" if "frame_no a < k" "k < frame_no a + n" for k
      using I(8) [OF n(1)] that n(2) by (auto simp: block_ok_def dest!: spec [of _ "k - frame_no a"])
    have "cm_block c2 b = ((cm_block c)(a := None)) b" for b
    proof (cases "b = a")
      case True
      then show ?thesis using n(3) cm'(3) by (simp add: cm_block_def c2_def)
    next
      case False
      then have "unat b mod PAGE_SIZE = 0 \<Longrightarrow> frame_no b \<noteq> frame_no a"
        using aligned_eq [of b] aligned_eq [OF n(4)] by metis
      then show ?thesis using False z [of "frame_no b"] cm'(2,3)
        by (cases "unat b mod PAGE_SIZE = 0") (auto simp: cm_block_def c2_def)
    qed
    with new cm'(1) show "\<exists>s'. coremap_freepages a c = Some s' \<and> coremap_inv s' \<and> cm_avail s' = cm_avail c \<union> cm_frames a n \<and>
      cm_block s' = (cm_block c)(a := None)"
      by (auto simp: c2_def cm_frames_def) }
qed

definition km_block :: "'as coremap \<Rightarrow> addr \<Rightarrow> nat option" where
  "km_block c kvaddr = (if kvaddr = 0 then None else cm_block c (kvaddr - MIPS_KSEG0))"

definition km_frames :: "addr \<Rightarrow> nat \<Rightarrow> nat set" where
  "km_frames kvaddr n = cm_frames (kvaddr - MIPS_KSEG0) n"

lemma coremap_getpages_addr:
  assumes "coremap_inv c" "coremap_getpages n c = Some (a, c')"
  shows "a \<noteq> 0 \<and> a + MIPS_KSEG0 \<noteq> 0"
proof -
  from assms(2) have n: "0 < n" by (cases n) (auto simp: coremap_getpages_def)
  from assms(1) n show ?thesis
  proof (cases rule: coremap_getpages_cases)
    case panic
    with assms(2) show ?thesis by simp
  next
    case (found s cm')
    with coremap_invD [OF assms(1)] n have s: "0 < s" "s < 2 ^ 19" by (auto simp: free_run_def)
    have a: "unat a = s * PAGE_SIZE" using found(1) assms(2) s by auto
    with s have "a \<noteq> 0" by auto
    moreover have "a \<noteq> - MIPS_KSEG0"
    proof
      assume "a = - MIPS_KSEG0"
      then have "unat a = 2 ^ 31" by simp
      with a s show False by simp
    qed
    ultimately show ?thesis by (metis add.commute eq_neg_iff_add_eq_0)
  qed
qed

interpretation kp: frame_pool coremap_inv cm_avail km_block km_frames alloc_kpages free_kpages
proof
  fix c c' :: "'as coremap" and n a
  assume inv: "coremap_inv c"
  { assume "alloc_kpages n c = Some (a, c')"
    with coremap_getpages_addr [OF inv] obtain p where p: "coremap_getpages n c = Some (p, c')" "a = p + MIPS_KSEG0" "a \<noteq> 0"
      by (auto simp: alloc_kpages_def bind_Some)
    from fp.alloc_ok [OF inv p(1)] p show "km_frames a n \<subseteq> cm_avail c \<and> km_block c a = None \<and> coremap_inv c' \<and>
      cm_avail c' = cm_avail c - km_frames a n \<and> km_block c' = (km_block c)(a \<mapsto> n)"
      by (auto simp: km_block_def km_frames_def fun_eq_iff) }
  { assume "km_block c a = Some n"
    then have blk: "cm_block c (a - MIPS_KSEG0) = Some n" "a \<noteq> 0" by (auto simp: km_block_def split: if_splits)
    from fp.block_used [OF inv blk(1)] show "km_frames a n \<inter> cm_avail c = {}" by (simp add: km_frames_def)
    from fp.release_ok [OF inv blk(1)] blk(2) show "\<exists>s'. free_kpages a c = Some s' \<and> coremap_inv s' \<and>
      cm_avail s' = cm_avail c \<union> km_frames a n \<and> km_block s' = (km_block c)(a := None)"
      by (auto simp: km_block_def km_frames_def free_kpages_def fun_eq_iff) }
qed

section \<open>Properties\<close>

lemma pred_div: "0 < k \<Longrightarrow> m mod k \<noteq> 0 \<Longrightarrow> (m - 1) div k = m div k" for m k :: nat
proof -
  assume "0 < k" "m mod k \<noteq> 0"
  moreover from this have "k * (m div k) \<le> m - 1" using mult_div_mod_eq [of k m] by linarith
  ultimately show ?thesis using dividend_less_times_div [of k m] by (intro div_nat_eqI) auto
qed

lemma coremap_bootstrap_table:
  assumes "unat (firstpaddr (cm_ram c)) + unat (lastpaddr (cm_ram c)) div PAGE_SIZE * 16 \<le> unat (lastpaddr (cm_ram c))"
    "coremap_pages_in_use c = 0"
  defines "n \<equiv> unat (lastpaddr (cm_ram c)) div PAGE_SIZE"
    and "used \<equiv> (unat (firstpaddr (cm_ram c)) + unat (lastpaddr (cm_ram c)) div PAGE_SIZE * 16) div PAGE_SIZE"
  shows "coremap_bootstrap True c = Some (c\<lparr>cm_ram := snd (ram_getsize (cm_ram c)), coremap_size := n,
      cm_pages := replicate used (coremap_entry 0 FIXED) @ replicate (n - used) (coremap_entry 0 FREE),
      coremap_pages_in_use := of_nat used, coremap_initialized := True\<rparr>)"
    and "used \<le> n"
proof -
  let ?lo = "firstpaddr (cm_ram c)" and ?hi = "lastpaddr (cm_ram c)"
  show le: "used \<le> n" using assms(1) by (simp add: n_def used_def div_le_mono)
  have l: "unat ?hi < 2 ^ 32" using unsigned_less [of ?hi] by simp
  have n: "unat (?hi div of_nat PAGE_SIZE) = n" by (simp add: n_def unat_div)
  have "unat (of_nat (n * 16) :: addr) = n * 16"
    using l by (simp add: n_def unat_of_nat del: of_nat_mult)
  moreover have "unat ?lo + n * 16 < 2 ^ 32" using assms(1) l by (simp add: n_def)
  ultimately have "unat (?lo + of_nat (n * 16)) = unat ?lo + n * 16"
    using unat_add_lem [of ?lo "of_nat (n * 16)"] by (simp del: of_nat_mult)
  then have "unat ((?lo + of_nat (n * 16)) div of_nat PAGE_SIZE) = used" by (simp add: used_def n_def unat_div)
  with le assms(2) show "coremap_bootstrap True c = Some (c\<lparr>cm_ram := snd (ram_getsize (cm_ram c)), coremap_size := n,
      cm_pages := replicate used (coremap_entry 0 FIXED) @ replicate (n - used) (coremap_entry 0 FREE),
      coremap_pages_in_use := of_nat used, coremap_initialized := True\<rparr>)"
    unfolding coremap_bootstrap_def ram_getsize_def Let_def kassert_bind split_conv snd_conv n
    by (simp only: if_True add_0)
qed

definition small_coremap :: "nat coremap" where
  \<comment> \<open>eight pages, the first two fixed, used by the examples below\<close>
  "small_coremap = \<lparr>cm_ram = \<lparr>firstpaddr = 0, lastpaddr = 0\<rparr>,
     cm_pages = replicate 2 (coremap_entry 0 FIXED) @ replicate 6 (coremap_entry 0 FREE),
     coremap_initialized = True, coremap_size = 8, coremap_pages_in_use = 2, last_page_used = 4\<rparr>"

lemma small_coremap_inv: "coremap_inv small_coremap"
proof -
  have "cm_avail small_coremap = {2..<8}"
    by (auto simp: cm_avail_def small_coremap_def nth_append split: if_splits)
  then show ?thesis
    by (auto simp: coremap_inv_def small_coremap_def block_ok_def nth_append split: if_splits)
qed

lemma coremap_boot_pages:
  assumes "u \<le> n" "0 < u" "n \<le> 2 ^ 19" "last_page_used c = 0" "coremap_size c = n" "coremap_initialized c"
    "cm_pages c = replicate u (coremap_entry 0 FIXED) @ replicate (n - u) (coremap_entry 0 FREE)" "coremap_pages_in_use c = of_nat u"
  shows "coremap_inv c" "cm_avail c = {u..<n}"
proof -
  show av: "cm_avail c = {u..<n}"
    using assms(1,7) by (auto simp: cm_avail_def nth_append)
  have "k < n \<Longrightarrow> page_count (cm_pages c ! k) = 0 \<and> (cp_state (cm_pages c ! k) = FREE \<longrightarrow> cm_pages c ! k = coremap_entry 0 FREE)" for k
    using assms(7) by (simp add: nth_append)
  moreover have "cm_pages c ! 0 = coremap_entry 0 FIXED" "length (cm_pages c) = n" using assms(1,2,7) by (simp_all add: nth_append)
  ultimately show "coremap_inv c" using assms av by (simp add: coremap_inv_def block_ok_def)
qed

lemma coremap_bootstrap_ok:
  assumes "lo = unat (firstpaddr (cm_ram c))" "hi = unat (lastpaddr (cm_ram c))" "hi \<le> 508 * 1024 * 1024"
    "PAGE_SIZE \<le> lo" "lo + hi div PAGE_SIZE * 16 \<le> hi" "last_page_used c = 0" "coremap_pages_in_use c = 0"
  shows "\<exists>c'. coremap_bootstrap True c = Some c' \<and> coremap_inv c' \<and> coremap_size c' = hi div PAGE_SIZE \<and>
    cm_avail c' = {(lo + hi div PAGE_SIZE * 16) div PAGE_SIZE ..< hi div PAGE_SIZE}"
proof -
  define n u where "n = hi div PAGE_SIZE" and "u = (lo + hi div PAGE_SIZE * 16) div PAGE_SIZE"
  let ?c = "c\<lparr>cm_ram := snd (ram_getsize (cm_ram c)), coremap_size := n,
      cm_pages := replicate u (coremap_entry 0 FIXED) @ replicate (n - u) (coremap_entry 0 FREE),
      coremap_pages_in_use := of_nat u, coremap_initialized := True\<rparr>"
  have boot: "coremap_bootstrap True c = Some ?c" "u \<le> n"
    using coremap_bootstrap_table [of c] assms by (simp_all add: n_def u_def)
  moreover have "0 < u" "n \<le> 2 ^ 19" using assms(3,4) by (simp_all add: n_def u_def div_greater_zero_iff)
  ultimately have "coremap_inv ?c" "cm_avail ?c = {u..<n}"
    using coremap_boot_pages [of u n ?c] assms(6) by simp_all
  with boot(1) show ?thesis by (simp add: n_def u_def)
qed



text \<open>C39. The table itself is not protected: when its size is not a multiple of the page size, the page that
  holds its last entries is marked free, so a later allocation can hand out memory the coremap lives in.\<close>

theorem coremap_bootstrap_frees_own_page:
  assumes "lo = unat (firstpaddr (cm_ram c))" "hi = unat (lastpaddr (cm_ram c))" "hi \<le> 508 * 1024 * 1024"
    "PAGE_SIZE \<le> lo" "lo mod PAGE_SIZE = 0" "lo + hi div PAGE_SIZE * 16 < hi div PAGE_SIZE * PAGE_SIZE" "last_page_used c = 0"
    "coremap_pages_in_use c = 0" "hi div PAGE_SIZE mod 256 \<noteq> 0"
  shows "\<exists>c' x. coremap_bootstrap True c = Some c' \<and> lo \<le> x \<and> x < lo + coremap_size c' * 16 \<and>
    cp_state (cm_pages c' ! (x div PAGE_SIZE)) = FREE"
proof -
  let ?n = "hi div PAGE_SIZE"
  let ?x = "lo + ?n * 16 - 1" and ?u = "(lo + ?n * 16) div PAGE_SIZE"
  have "lo + ?n * 16 \<le> hi" using assms(6) div_times_less_eq_dividend [of hi PAGE_SIZE] by linarith
  then obtain c' where c': "coremap_bootstrap True c = Some c'" "coremap_size c' = ?n" "cm_avail c' = {?u..<?n}"
    using coremap_bootstrap_ok [OF assms(1-4) _ assms(7,8)] by blast
  have "?n mod 256 * 16 = ?n * 16 mod PAGE_SIZE" using mod_mult_mult2 [of ?n 16 256] by simp
  also have "\<dots> = (lo + ?n * 16) mod PAGE_SIZE" using mod_add_left_eq [of lo PAGE_SIZE "?n * 16"] assms(5) by simp
  finally have "(lo + ?n * 16) mod PAGE_SIZE \<noteq> 0" "0 < ?n" using assms(9) by (auto intro: ccontr)
  then have "?x div PAGE_SIZE = ?u" by (intro pred_div) simp_all
  moreover have "?u < ?n" using assms(6) by (simp add: less_mult_imp_div_less)
  ultimately have "?x div PAGE_SIZE \<in> cm_avail c'" using c'(3) by simp
  moreover have "lo \<le> ?x" "?x < lo + coremap_size c' * 16" using \<open>0 < ?n\<close> c'(2) by auto
  ultimately show ?thesis using c'(1) by (auto simp: cm_avail_def)
qed

theorem coremap_bootstrap_frees_own_page_witness:
  "\<exists>c' x. coremap_bootstrap True (small_coremap\<lparr>cm_ram := \<lparr>firstpaddr = 0x20000, lastpaddr = 0x80000\<rparr>,
      last_page_used := 0, coremap_pages_in_use := 0\<rparr>) = Some c' \<and> 0x20000 \<le> x \<and> x < 0x20000 + coremap_size c' * 16 \<and>
    cp_state (cm_pages c' ! (x div PAGE_SIZE)) = FREE"
  using coremap_bootstrap_frees_own_page [of "0x20000" "small_coremap\<lparr>cm_ram := \<lparr>firstpaddr = 0x20000, lastpaddr = 0x80000\<rparr>,
      last_page_used := 0, coremap_pages_in_use := 0\<rparr>" "0x80000"] by simp

text \<open>C16. \<open>coremap_getpages\<close> on an initialised coremap: if some run of \<open>npages\<close> free pages lies on one side of
  \<open>last_page_used\<close>, a run of free pages is found and becomes one allocated block whose first entry
  carries the count, every other entry stays as it was, the counter of used pages grows by \<open>npages\<close> and the
  address is page-aligned and not \<open>NULL\<close>; otherwise the kernel panics. The invariant is kept.\<close>

theorem coremap_getpages_spec:
  assumes "coremap_inv c" "0 < n"
  shows "if \<exists>s. free_run (cm_pages c) s n \<and> (last_page_used c \<le> s \<or> s + n \<le> last_page_used c)
    then \<exists>s c'. coremap_getpages n c = Some (of_nat (s * PAGE_SIZE), c') \<and> coremap_inv c' \<and> 0 < s \<and>
      free_run (cm_pages c) s n \<and> length (cm_pages c') = length (cm_pages c) \<and>
      (\<forall>k. cm_pages c' ! k = (if k = s then coremap_entry n ALLOCATED
         else if s < k \<and> k < s + n then coremap_entry 0 ALLOCATED else cm_pages c ! k)) \<and>
      coremap_pages_in_use c' = coremap_pages_in_use c + of_nat n
    else coremap_getpages n c = None"
  using assms
proof (cases rule: coremap_getpages_cases)
  case panic
  then have "\<not> (\<exists>s. free_run (cm_pages c) s n \<and> (last_page_used c \<le> s \<or> s + n \<le> last_page_used c))"
    by (meson leD)
  with panic(1) show ?thesis by simp
next
  case (found s cm')
  let ?c = "c\<lparr>last_page_used := s + n - 1, cm_pages := cm', coremap_pages_in_use := coremap_pages_in_use c + of_nat n\<rparr>"
  have "coremap_inv ?c" by (rule coremap_inv_alloc(1) [OF assms(1) found(2) assms(2) found(4,3,6) refl])
  moreover have "coremap_getpages n c = Some (of_nat (s * PAGE_SIZE), ?c)" using found(1) by simp
  moreover have "\<forall>k. cm_pages ?c ! k = (if k = s then coremap_entry n ALLOCATED
      else if s < k \<and> k < s + n then coremap_entry 0 ALLOCATED else cm_pages c ! k)" using found(6) by simp
  moreover have "length (cm_pages ?c) = length (cm_pages c)" "coremap_pages_in_use ?c = coremap_pages_in_use c + of_nat n"
    using found(3) by simp_all
  moreover have "\<exists>s. free_run (cm_pages c) s n \<and> (last_page_used c \<le> s \<or> s + n \<le> last_page_used c)"
    using found(2,5) by blast
  ultimately show ?thesis using found(2,4) by (metis (no_types, lifting))
qed

text \<open>C22. Freeing the block that \<open>coremap_getpages\<close> returned gives back the coremap as it was before the
  allocation, entry for entry, and the counter of used pages.\<close>

theorem coremap_free_restores:
  assumes "coremap_inv c" "coremap_getpages n c = Some (a, c')"
  shows "\<exists>c''. coremap_freepages a c' = Some c'' \<and> coremap_inv c'' \<and> cm_pages c'' = cm_pages c \<and>
    coremap_pages_in_use c'' = coremap_pages_in_use c"
proof -
  note I = coremap_invD [OF assms(1)]
  from assms(2) have n: "0 < n" by (cases n) (auto simp: coremap_getpages_def)
  from assms(1) n show ?thesis
  proof (cases rule: coremap_getpages_cases)
    case panic
    with assms(2) show ?thesis by simp
  next
    case (found s cm')
    with assms(2) have c': "c' = c\<lparr>last_page_used := s + n - 1, cm_pages := cm',
      coremap_pages_in_use := coremap_pages_in_use c + of_nat n\<rparr>" and a: "a = of_nat s * 4096" by auto
    have inv': "coremap_inv c'" by (rule coremap_inv_alloc(1) [OF assms(1) found(2) n found(4,3,6) c'])
    have s: "s < coremap_size c'" "s < 2 ^ 20" using found(2) n I(2,3) by (auto simp: free_run_def c')
    have pc: "page_count (cm_pages c' ! s) = n" "frame_no a = s" using found(6) s(2) by (simp_all add: c' a)
    obtain cm'' where cm'': "coremap_freepages a c' = Some (c'\<lparr>cm_pages := cm'', coremap_pages_in_use := coremap_pages_in_use c' - of_nat n\<rparr>)"
      "length cm'' = length (cm_pages c')" "\<And>k. cm'' ! k = (if s \<le> k \<and> k < s + n then coremap_entry 0 FREE else cm_pages c' ! k)"
      using coremap_freepages_block [OF inv' pc(2) s(1) pc(1) n] by blast
    have "cm'' = cm_pages c"
      using cm''(2,3) found(2,3,6) I(2,7) n by (intro nth_equalityI) (auto simp: c' free_run_def)
    moreover have "coremap_inv (c'\<lparr>cm_pages := cm'', coremap_pages_in_use := coremap_pages_in_use c' - of_nat n\<rparr>)"
      by (rule coremap_inv_free(1) [OF inv' s(1) pc(1) n cm''(2,3) refl])
    ultimately show ?thesis using cm''(1) by (simp add: c')
  qed
qed

theorem coremap_getpages_spec_witness:
  "(\<exists>s c'. coremap_getpages 3 small_coremap = Some (of_nat (s * PAGE_SIZE), c') \<and> coremap_inv c' \<and> 0 < s \<and>
      free_run (cm_pages small_coremap) s 3) \<and> coremap_getpages 6 small_coremap = None"
proof -
  have "2 \<le> s" if "free_run (cm_pages small_coremap) s n" "0 < n" for s n
    using that by (auto simp: free_run_def small_coremap_def nth_append dest!: bspec [of _ _ s] split: if_splits)
  moreover have "s + n \<le> 8" if "free_run (cm_pages small_coremap) s n" for s n
    using that by (simp add: free_run_def small_coremap_def)
  ultimately have no: "\<not> (\<exists>s. free_run (cm_pages small_coremap) s 6 \<and> (last_page_used small_coremap \<le> s \<or> s + 6 \<le> last_page_used small_coremap))"
    by (fastforce simp: small_coremap_def)
  have yes: "\<exists>s. free_run (cm_pages small_coremap) s 3 \<and> (last_page_used small_coremap \<le> s \<or> s + 3 \<le> last_page_used small_coremap)"
    by (rule exI [of _ 4]) (auto simp: free_run_def small_coremap_def nth_append)
  show ?thesis
    using coremap_getpages_spec [OF small_coremap_inv, of 3] coremap_getpages_spec [OF small_coremap_inv, of 6]
    unfolding if_P [OF yes] if_not_P [OF no] by auto
qed

theorem coremap_free_restores_witness:
  "\<exists>a c' c''. coremap_getpages 2 small_coremap = Some (a, c') \<and> coremap_freepages a c' = Some c'' \<and>
    cm_pages c'' = cm_pages small_coremap"
proof -
  have "coremap_getpages 2 small_coremap \<noteq> None" by code_simp
  then obtain a c' where "coremap_getpages 2 small_coremap = Some (a, c')" by auto
  with coremap_free_restores [OF small_coremap_inv this] show ?thesis by blast
qed

end
