(* ===== verification/Kern_Copyinout.thy ===== *)
theory Kern_Copyinout
  imports Kern_Prelude
begin

text \<open>
  \<open>kern/lib/copyinout.c\<close>: moving data between kernel buffers and user memory.

  User memory is a function from addresses to bytes; \<open>um_ok\<close> tells for each address whether an access ends
  normally or in a fatal fault, which \<open>copyfail\<close> turns into \<open>EFAULT\<close> by its \<open>longjmp\<close>. A
  kernel buffer is a list of bytes. \<open>memcpy\<close> copies forwards, so what was copied before a fault stays.
\<close>

section \<open>Definitions\<close>

type_synonym byte = "8 word"
type_synonym uaddr = "32 word"

record umem =
  um_data :: "uaddr \<Rightarrow> byte"
  um_ok :: "uaddr \<Rightarrow> bool"

abbreviation USERTOP :: uaddr where "USERTOP \<equiv> 0x80000000"

definition copycheck :: "uaddr \<Rightarrow> nat \<Rightarrow> nat res" where
  \<comment> \<open>the result is \<open>*stoplen\<close>\<close>
  "copycheck userptr len =
     (let bot = userptr;
          top = bot + of_nat len - 1
      in if top < bot then Inl EFAULT
         else if bot \<ge> USERTOP then Inl EFAULT
         else if top \<ge> USERTOP then Inr (unat (USERTOP - bot))
         else Inr len)"

function copyin_loop :: "umem \<Rightarrow> uaddr \<Rightarrow> nat \<Rightarrow> nat \<Rightarrow> byte list \<Rightarrow> bool \<times> byte list" where
  \<comment> \<open>\<open>memcpy\<close> from user memory, from byte \<open>i\<close> on; \<open>False\<close> is a fault\<close>
  "copyin_loop um src len i dest =
     (if i < len then
        (if um_ok um (src + of_nat i)
         then copyin_loop um src len (Suc i) (dest[i := um_data um (src + of_nat i)])
         else (False, dest))
      else (True, dest))"
  by pat_completeness auto

termination
  by (relation "measure (\<lambda>(um, src, len, i, dest). len - i)") auto

definition copyin :: "umem \<Rightarrow> uaddr \<Rightarrow> byte list \<Rightarrow> nat \<Rightarrow> (unit res \<times> byte list) option" where
  \<comment> \<open>a kernel buffer shorter than \<open>len\<close> is overrun, \<open>None\<close>\<close>
  "copyin um usersrc dest len =
     (case copycheck usersrc len of
        Inl e \<Rightarrow> Some (Inl e, dest)
      | Inr stoplen \<Rightarrow>
          if stoplen \<noteq> len then Some (Inl EFAULT, dest)
          else do {
            kassert (len \<le> length dest);
            let (ok, dest') = copyin_loop um usersrc len 0 dest;
            Some (if ok then Inr () else Inl EFAULT, dest')
          })"

function copyout_loop :: "byte list \<Rightarrow> uaddr \<Rightarrow> nat \<Rightarrow> nat \<Rightarrow> umem \<Rightarrow> bool \<times> umem" where
  "copyout_loop src dst len i um =
     (if i < len then
        (if um_ok um (dst + of_nat i)
         then copyout_loop src dst len (Suc i) (um\<lparr>um_data := (um_data um)(dst + of_nat i := src ! i)\<rparr>)
         else (False, um))
      else (True, um))"
  by pat_completeness auto

termination
  by (relation "measure (\<lambda>(src, dst, len, i, um). len - i)") auto

definition copyout :: "byte list \<Rightarrow> uaddr \<Rightarrow> nat \<Rightarrow> umem \<Rightarrow> (unit res \<times> umem) option" where
  "copyout src userdest len um =
     (case copycheck userdest len of
        Inl e \<Rightarrow> Some (Inl e, um)
      | Inr stoplen \<Rightarrow>
          if stoplen \<noteq> len then Some (Inl EFAULT, um)
          else do {
            kassert (len \<le> length src);
            let (ok, um') = copyout_loop src userdest len 0 um;
            Some (if ok then Inr () else Inl EFAULT, um')
          })"

function copystr :: "(nat \<Rightarrow> byte option) \<Rightarrow> (nat \<Rightarrow> byte \<Rightarrow> 'm \<Rightarrow> 'm option) \<Rightarrow> nat \<Rightarrow> nat \<Rightarrow> nat \<Rightarrow> 'm
    \<Rightarrow> nat res option \<times> 'm" where
  \<comment> \<open>\<open>ld i\<close> is \<open>src[i]\<close> and \<open>st i c\<close> stores \<open>dest[i] = c\<close>, \<open>None\<close> is a fault; the result is
      \<open>*gotlen\<close> and the first component is \<open>None\<close> when a fault stopped the copy\<close>
  "copystr ld st maxlen stoplen i m =
     (if i < maxlen \<and> i < stoplen then
        (case ld i of
           None \<Rightarrow> (None, m)
         | Some c \<Rightarrow>
             (case st i c m of
                None \<Rightarrow> (None, m)
              | Some m' \<Rightarrow>
                  if c = 0 then (Some (Inr (i + 1)), m')
                  else copystr ld st maxlen stoplen (Suc i) m'))
      else if stoplen < maxlen then (Some (Inl EFAULT), m)
      else (Some (Inl ENAMETOOLONG), m))"
  by pat_completeness auto

termination
  by (relation "measure (\<lambda>(ld, st, maxlen, stoplen, i, m). maxlen - i)") auto

definition copyinstr :: "umem \<Rightarrow> uaddr \<Rightarrow> byte list \<Rightarrow> nat \<Rightarrow> (nat res \<times> byte list) option" where
  "copyinstr um usersrc dest len =
     (case copycheck usersrc len of
        Inl e \<Rightarrow> Some (Inl e, dest)
      | Inr stoplen \<Rightarrow> do {
          kassert (len \<le> length dest);
          let (r, dest') = copystr
            (\<lambda>i. if um_ok um (usersrc + of_nat i) then Some (um_data um (usersrc + of_nat i)) else None)
            (\<lambda>i c d. Some (d[i := c])) len stoplen 0 dest;
          Some (case r of None \<Rightarrow> Inl EFAULT | Some r' \<Rightarrow> r', dest')
        })"

definition copyoutstr :: "byte list \<Rightarrow> uaddr \<Rightarrow> nat \<Rightarrow> umem \<Rightarrow> (nat res \<times> umem) option" where
  "copyoutstr src userdest len um =
     (case copycheck userdest len of
        Inl e \<Rightarrow> Some (Inl e, um)
      | Inr stoplen \<Rightarrow> do {
          kassert (0 \<in> set src \<or> len \<le> length src);
          let (r, um') = copystr (\<lambda>i. Some (src ! i))
            (\<lambda>i c u. if um_ok u (userdest + of_nat i)
                     then Some (u\<lparr>um_data := (um_data u)(userdest + of_nat i := c)\<rparr>) else None) len stoplen 0 um;
          Some (case r of None \<Rightarrow> Inl EFAULT | Some r' \<Rightarrow> r', um')
        })"

section \<open>The bounds check\<close>

declare copyin_loop.simps [simp del] copyout_loop.simps [simp del] copystr.simps [simp del]

lemma unat_less_USERTOP: "a < USERTOP \<longleftrightarrow> unat a < 2 ^ 31" for a :: uaddr
  by (simp add: word_less_nat_alt)

lemma copycheck_eq:
  assumes "0 < len" "len < 2 ^ 32"
  shows "copycheck a len =
    (if 2 ^ 31 \<le> unat a \<or> 2 ^ 32 < unat a + len then Inl EFAULT
     else if 2 ^ 31 < unat a + len then Inr (2 ^ 31 - unat a) else Inr len)"
proof -
  have eq: "(of_nat len - 1 :: uaddr) = of_nat (len - 1)" using assms(1) by (simp add: of_nat_diff)
  have len: "unat (of_nat len - 1 :: uaddr) = len - 1"
    unfolding eq using assms by (simp add: unat_of_nat del: of_nat_diff)
  have "a + of_nat len - 1 = a + (of_nat len - 1)" by simp
  then have top: "unat (a + of_nat len - 1) = (if unat a + len \<le> 2 ^ 32 then unat a + len - 1 else unat a + len - 1 - 2 ^ 32)"
    using len assms by (simp only: unat_plus_if') (auto simp: not_le not_less)
  have sub: "unat (USERTOP - a) = 2 ^ 31 - unat a" if "a < USERTOP"
    using that by (simp add: unat_sub_if' word_less_nat_alt)
  show ?thesis
  proof (cases "unat a + len \<le> 2 ^ 32")
    case True
    with top sub assms show ?thesis
      by (auto simp: copycheck_def Let_def word_less_nat_alt word_le_nat_alt)
  next
    case False
    with top assms have "a + of_nat len - 1 < a" by (simp add: word_less_nat_alt)
    with False show ?thesis by (simp add: copycheck_def)
  qed
qed

lemma copycheck_zero: "copycheck a 0 = Inl EFAULT \<or> copycheck a 0 = Inr (2 ^ 31)"
proof (cases "a = 0")
  case True
  then show ?thesis by (simp add: copycheck_def)
next
  case False
  then have "unat (a - 1) < unat a" by (simp add: unat_minus_one unat_gt_0)
  then show ?thesis by (simp add: copycheck_def Let_def word_less_nat_alt)
qed

section \<open>Copying blocks\<close>

definition um_bytes :: "umem \<Rightarrow> uaddr \<Rightarrow> nat \<Rightarrow> byte list" where
  "um_bytes um a len = map (\<lambda>i. um_data um (a + of_nat i)) [0..<len]"

definition user_range :: "umem \<Rightarrow> uaddr \<Rightarrow> nat \<Rightarrow> bool" where
  \<comment> \<open>a non-empty region of user space that can be accessed without a fatal fault\<close>
  "user_range um a len \<longleftrightarrow> 0 < len \<and> unat a + len \<le> 2 ^ 31 \<and> (\<forall>i \<in> {0..<len}. um_ok um (a + of_nat i))"

lemma user_range_iff:
  "user_range um a len \<longleftrightarrow> 0 < len \<and> unat a + len \<le> 2 ^ 31 \<and> (\<forall>i < len. um_ok um (a + of_nat i))"
  by (auto simp: user_range_def)

lemma um_bytes_length [simp]: "length (um_bytes um a len) = len"
  by (simp add: um_bytes_def)

lemma offset_iff: "i < 2 ^ 32 \<Longrightarrow> x = a + of_nat i \<longleftrightarrow> unat (x - a) = i" for x a :: uaddr
proof -
  assume "i < 2 ^ 32"
  then have "unat (of_nat i :: uaddr) = i" by (simp add: unat_of_nat)
  then show ?thesis
    by (metis add.commute add_diff_cancel_left' diff_add_cancel word_unat_eq_iff)
qed

lemma copyin_loop_ok:
  "\<forall>j. i \<le> j \<and> j < len \<longrightarrow> um_ok um (src + of_nat j) \<Longrightarrow> i \<le> len \<Longrightarrow> len \<le> length dest \<Longrightarrow>
   copyin_loop um src len i dest = (True, take i dest @ map (\<lambda>j. um_data um (src + of_nat j)) [i..<len] @ drop len dest)"
proof (induction um src len i dest rule: copyin_loop.induct)
  case (1 um src len i dest)
  show ?case
  proof (cases "i < len")
    case True
    with "1.prems" have "copyin_loop um src len i dest =
        copyin_loop um src len (Suc i) (dest[i := um_data um (src + of_nat i)])"
      by (subst copyin_loop.simps) simp
    also have "\<dots> = (True, take (Suc i) (dest[i := um_data um (src + of_nat i)]) @
        map (\<lambda>j. um_data um (src + of_nat j)) [Suc i..<len] @ drop len (dest[i := um_data um (src + of_nat i)]))"
      using True "1.prems" by (intro "1.IH") auto
    also have "take (Suc i) (dest[i := um_data um (src + of_nat i)]) = take i dest @ [um_data um (src + of_nat i)]"
      using True "1.prems" by (simp add: take_Suc_conv_app_nth)
    finally show ?thesis using True by (simp add: upt_conv_Cons)
  next
    case False
    with "1.prems" show ?thesis by (subst copyin_loop.simps) simp
  qed
qed

lemma copyin_loop_length: "length (snd (copyin_loop um src len i dest)) = length dest"
  by (induction um src len i dest rule: copyin_loop.induct) (subst copyin_loop.simps, simp)

lemma copyin_loop_fault:
  "i \<le> j \<Longrightarrow> j < len \<Longrightarrow> \<not> um_ok um (src + of_nat j) \<Longrightarrow> \<not> fst (copyin_loop um src len i dest)"
proof (induction um src len i dest rule: copyin_loop.induct)
  case (1 um src len i dest)
  show ?case
  proof (cases "um_ok um (src + of_nat i)")
    case True
    with "1.prems" have "i < len" "Suc i \<le> j" by (auto simp: Suc_le_eq nat_less_le)
    with True "1.IH" "1.prems" show ?thesis by (subst copyin_loop.simps) simp
  next
    case False
    with "1.prems" show ?thesis by (subst copyin_loop.simps) simp
  qed
qed

lemma copyout_loop_frame:
  "copyout_loop src dst len i um = (ok, um') \<Longrightarrow> len < 2 ^ 32 \<Longrightarrow>
   um_ok um' = um_ok um \<and> (\<forall>x. len \<le> unat (x - dst) \<longrightarrow> um_data um' x = um_data um x)"
proof (induction src dst len i um rule: copyout_loop.induct)
  case (1 src dst len i um)
  show ?case
  proof (cases "i < len \<and> um_ok um (dst + of_nat i)")
    case True
    have ne: "x \<noteq> dst + of_nat i" if "len \<le> unat (x - dst)" for x
      using that True "1.prems"(2) offset_iff [of i x dst] by auto
    from True "1.prems"(1) have
      "copyout_loop src dst len (Suc i) (um\<lparr>um_data := (um_data um)(dst + of_nat i := src ! i)\<rparr>) = (ok, um')"
      by (subst (asm) copyout_loop.simps) simp
    from "1.IH" [OF _ _ this] True "1.prems"(2) ne show ?thesis by auto
  next
    case False
    with "1.prems"(1) show ?thesis by (subst (asm) copyout_loop.simps) (auto split: if_splits)
  qed
qed

lemma copyout_loop_ok:
  "\<forall>j. i \<le> j \<and> j < len \<longrightarrow> um_ok um (dst + of_nat j) \<Longrightarrow> len < 2 ^ 32 \<Longrightarrow>
   copyout_loop src dst len i um = (True, um\<lparr>um_data := (\<lambda>x.
     if i \<le> unat (x - dst) \<and> unat (x - dst) < len then src ! unat (x - dst) else um_data um x)\<rparr>)"
proof (induction src dst len i um rule: copyout_loop.induct)
  case (1 src dst len i um)
  show ?case
  proof (cases "i < len")
    case True
    let ?um = "um\<lparr>um_data := (um_data um)(dst + of_nat i := src ! i)\<rparr>"
    have "copyout_loop src dst len i um = copyout_loop src dst len (Suc i) ?um"
      using True "1.prems"(1) by (subst copyout_loop.simps) simp
    also have "\<dots> = (True, ?um\<lparr>um_data := (\<lambda>x.
        if Suc i \<le> unat (x - dst) \<and> unat (x - dst) < len then src ! unat (x - dst) else um_data ?um x)\<rparr>)"
      using True "1.prems" by (intro "1.IH") auto
    also have "(\<lambda>x. if Suc i \<le> unat (x - dst) \<and> unat (x - dst) < len then src ! unat (x - dst) else um_data ?um x) =
        (\<lambda>x. if i \<le> unat (x - dst) \<and> unat (x - dst) < len then src ! unat (x - dst) else um_data um x)"
      using True "1.prems"(2) by (auto simp: fun_eq_iff offset_iff not_less_eq_eq)
    finally show ?thesis by simp
  next
    case False
    then have "(\<lambda>x. if i \<le> unat (x - dst) \<and> unat (x - dst) < len then src ! unat (x - dst) else um_data um x) = um_data um"
      by (auto simp: fun_eq_iff)
    with False show ?thesis by (subst copyout_loop.simps) simp
  qed
qed

lemma copyout_loop_fault:
  "i \<le> j \<Longrightarrow> j < len \<Longrightarrow> \<not> um_ok um (dst + of_nat j) \<Longrightarrow> \<not> fst (copyout_loop src dst len i um)"
proof (induction src dst len i um rule: copyout_loop.induct)
  case (1 src dst len i um)
  show ?case
  proof (cases "um_ok um (dst + of_nat i)")
    case True
    with "1.prems" have "i < len" "Suc i \<le> j" by (auto simp: Suc_le_eq nat_less_le)
    with True "1.IH" "1.prems" show ?thesis by (subst copyout_loop.simps) simp
  next
    case False
    with "1.prems" show ?thesis by (subst copyout_loop.simps) simp
  qed
qed

lemma copycheck_full:
  "len < 2 ^ 32 \<Longrightarrow> copycheck a len = Inr len \<longleftrightarrow> 0 < len \<and> unat a + len \<le> 2 ^ 31"
  using copycheck_zero [of a] copycheck_eq [of len a] by (cases "len = 0") (auto split: if_splits)

lemma copycheck_cases:
  obtains (fault) "copycheck a len = Inl EFAULT" | (part) s where "copycheck a len = Inr s" "s \<noteq> len"
  | (full) "copycheck a len = Inr len"
proof (cases "copycheck a len")
  case (Inl e)
  then have "e = EFAULT" by (auto simp: copycheck_def Let_def split: if_splits)
  with Inl that(1) show thesis by simp
next
  case (Inr s)
  with that(2,3) show thesis by (cases "s = len") auto
qed

lemma copyin_eq:
  assumes "len < 2 ^ 32" "len \<le> length dest"
  shows "\<exists>dest'. copyin um src dest len = Some (if user_range um src len then Inr () else Inl EFAULT, dest') \<and>
    length dest' = length dest \<and> (user_range um src len \<longrightarrow> dest' = um_bytes um src len @ drop len dest)"
proof (cases "copycheck src len = Inr len")
  case False
  then have "\<not> user_range um src len" using copycheck_full [OF assms(1)] by (auto simp: user_range_def)
  with False show ?thesis by (cases rule: copycheck_cases [of src len]) (simp_all add: copyin_def)
next
  case chk: True
  then have b: "0 < len" "unat src + len \<le> 2 ^ 31" using copycheck_full [OF assms(1)] by auto
  show ?thesis
  proof (cases "user_range um src len")
    case True
    then have "copyin_loop um src len 0 dest = (True, um_bytes um src len @ drop len dest)"
      using copyin_loop_ok [of 0 len um src dest] assms(2) by (simp add: user_range_def um_bytes_def)
    with True chk assms(2) show ?thesis by (simp add: copyin_def)
  next
    case False
    with b obtain j where "j < len" "\<not> um_ok um (src + of_nat j)" by (auto simp: user_range_def)
    then have "\<not> fst (copyin_loop um src len 0 dest)" using copyin_loop_fault by blast
    with False chk assms(2) copyin_loop_length [of um src len 0 dest] show ?thesis
      by (cases "copyin_loop um src len 0 dest") (simp add: copyin_def)
  qed
qed

lemma copyout_eq:
  assumes "len < 2 ^ 32" "len \<le> length src"
  shows "\<exists>um'. copyout src dst len um = Some (if user_range um dst len then Inr () else Inl EFAULT, um') \<and>
    um_ok um' = um_ok um \<and> (\<forall>x. 2 ^ 31 \<le> unat x \<or> len \<le> unat (x - dst) \<longrightarrow> um_data um' x = um_data um x) \<and>
    (user_range um dst len \<longrightarrow> um_bytes um' dst len = take len src)"
proof (cases "copycheck dst len = Inr len")
  case False
  then have "\<not> user_range um dst len" using copycheck_full [OF assms(1)] by (auto simp: user_range_def)
  with False show ?thesis by (cases rule: copycheck_cases [of dst len]) (simp_all add: copyout_def)
next
  case chk: True
  then have b: "0 < len" "unat dst + len \<le> 2 ^ 31" using copycheck_full [OF assms(1)] by auto
  have out: "len \<le> unat (x - dst)" if "2 ^ 31 \<le> unat x" for x
    using that b by (auto simp: unat_sub_if')
  obtain ok um' where loop: "copyout_loop src dst len 0 um = (ok, um')" by fastforce
  have frame: "um_ok um' = um_ok um" "\<forall>x. 2 ^ 31 \<le> unat x \<or> len \<le> unat (x - dst) \<longrightarrow> um_data um' x = um_data um x"
    using copyout_loop_frame [OF loop assms(1)] out by auto
  show ?thesis
  proof (cases "user_range um dst len")
    case True
    then have um': "ok" "um' = um\<lparr>um_data := (\<lambda>x. if unat (x - dst) < len then src ! unat (x - dst) else um_data um x)\<rparr>"
      using copyout_loop_ok [of 0 len um dst src] assms(1) loop by (simp_all add: user_range_def)
    have "unat (of_nat i :: uaddr) = i" if "i < len" for i using that assms(1) by (simp add: unat_of_nat)
    then have "um_bytes um' dst len = take len src"
      using assms(2) by (intro nth_equalityI) (simp_all add: um_bytes_def um'(2))
    with True chk assms(2) loop frame um'(1) show ?thesis by (simp add: copyout_def)
  next
    case False
    with b obtain j where "j < len" "\<not> um_ok um (dst + of_nat j)" by (auto simp: user_range_def)
    then have "\<not> ok" using copyout_loop_fault [of 0 j len um dst src] loop by simp
    with False chk assms(2) loop frame show ?thesis by (simp add: copyout_def)
  qed
qed

section \<open>Copying strings\<close>

abbreviation list_store :: "nat \<Rightarrow> byte \<Rightarrow> byte list \<Rightarrow> byte list option" where
  "list_store i c d \<equiv> Some (d[i := c])"

definition plain :: "(nat \<Rightarrow> byte option) \<Rightarrow> nat \<Rightarrow> bool" where
  \<comment> \<open>character \<open>i\<close> can be read and does not end the string\<close>
  "plain ld i \<longleftrightarrow> (\<exists>c. ld i = Some c \<and> c \<noteq> 0)"

lemma copystr_step:
  "plain ld i \<Longrightarrow> i < maxlen \<Longrightarrow> i < stoplen \<Longrightarrow>
   copystr ld list_store maxlen stoplen i d = copystr ld list_store maxlen stoplen (Suc i) (d[i := the (ld i)])"
  by (subst copystr.simps) (auto simp: plain_def)

lemma copystr_skip:
  assumes "\<forall>j. i \<le> j \<and> j < k \<longrightarrow> plain ld j" "i \<le> k" "k \<le> maxlen" "k \<le> stoplen" "k \<le> length d"
  shows "copystr ld list_store maxlen stoplen i d =
    copystr ld list_store maxlen stoplen k (take i d @ map (\<lambda>j. the (ld j)) [i..<k] @ drop k d)"
  using assms
proof (induction "k - i" arbitrary: i d)
  case 0
  then show ?case by simp
next
  case (Suc n)
  then have i: "i < k" by simp
  have "copystr ld list_store maxlen stoplen i d = copystr ld list_store maxlen stoplen (Suc i) (d[i := the (ld i)])"
    using Suc.prems i by (intro copystr_step) auto
  also have "\<dots> = copystr ld list_store maxlen stoplen k (take (Suc i) (d[i := the (ld i)]) @
      map (\<lambda>j. the (ld j)) [Suc i..<k] @ drop k (d[i := the (ld i)]))"
    using Suc i by (intro Suc.hyps(1)) auto
  also have "take (Suc i) (d[i := the (ld i)]) = take i d @ [the (ld i)]"
    using i Suc.prems(5) by (simp add: take_Suc_conv_app_nth)
  finally show ?case using i by (simp add: upt_conv_Cons)
qed

lemma copystr_cases:
  assumes "len \<le> length d"
  obtains (found) k where "k < len" "k < stop" "\<forall>j < k. plain ld j" "ld k = Some 0"
      "copystr ld list_store len stop 0 d = (Some (Inr (Suc k)), map (\<lambda>j. the (ld j)) [0..<Suc k] @ drop (Suc k) d)"
  | (fault) k d' where "k < len" "k < stop" "\<forall>j < k. plain ld j" "ld k = None" "length d' = length d"
      "copystr ld list_store len stop 0 d = (None, d')"
  | (none) d' where "\<forall>j < min len stop. plain ld j" "length d' = length d"
      "copystr ld list_store len stop 0 d = (Some (Inl (if stop < len then EFAULT else ENAMETOOLONG)), d')"
proof (cases "\<forall>j < min len stop. plain ld j")
  case True
  then have "copystr ld list_store len stop 0 d =
    copystr ld list_store len stop (min len stop) (map (\<lambda>j. the (ld j)) [0..<min len stop] @ drop (min len stop) d)"
    using copystr_skip [of 0 "min len stop" ld len stop d] assms by simp
  then show thesis using none [of "map (\<lambda>j. the (ld j)) [0..<min len stop] @ drop (min len stop) d"] True assms
    by (simp add: copystr.simps [of _ _ _ _ "min len stop"])
next
  case False
  then have "\<exists>j. j < min len stop \<and> \<not> plain ld j" by blast
  then obtain k where k: "k < min len stop" "\<not> plain ld k"
    and least: "\<forall>j < k. \<not> (j < min len stop \<and> \<not> plain ld j)"
    using exists_least_iff [of "\<lambda>j. j < min len stop \<and> \<not> plain ld j"] by blast
  have before: "\<forall>j < k. plain ld j" using least k(1) by auto
  let ?d = "map (\<lambda>j. the (ld j)) [0..<k] @ drop k d"
  have skip: "copystr ld list_store len stop 0 d = copystr ld list_store len stop k ?d"
    using copystr_skip [of 0 k ld len stop d] before k(1) assms by simp
  show thesis
  proof (cases "ld k")
    case None
    with skip k(1) before assms fault [of k ?d] show thesis by (simp add: copystr.simps [of _ _ _ _ k])
  next
    case (Some c)
    with k(2) have c: "c = 0" by (simp add: plain_def)
    have "?d[k := 0] = map (\<lambda>j. the (ld j)) [0..<Suc k] @ drop (Suc k) d"
      using k(1) assms Some c by (simp add: list_update_append Cons_nth_drop_Suc [symmetric])
    with Some c skip k(1) before found [of k] show thesis by (simp add: copystr.simps [of _ _ _ _ k])
  qed
qed

definition ustr :: "umem \<Rightarrow> uaddr \<Rightarrow> nat \<Rightarrow> bool" where
  \<comment> \<open>a string of \<open>k\<close> characters and its terminator, all in accessible user memory\<close>
  "ustr um a k \<longleftrightarrow> unat a + k < 2 ^ 31 \<and> (\<forall>i \<in> {0..k}. um_ok um (a + of_nat i)) \<and>
     (\<forall>i \<in> {0..<k}. um_data um (a + of_nat i) \<noteq> 0) \<and> um_data um (a + of_nat k) = 0"

lemma ustr_unique: "ustr um a k \<Longrightarrow> ustr um a l \<Longrightarrow> k = l"
  by (cases k l rule: linorder_cases) (auto simp: ustr_def)

lemma copyinstr_eq:
  assumes "0 < len" "len \<le> 2 ^ 31" "len \<le> length dest"
  shows "\<exists>r dest'. copyinstr um src dest len = Some (r, dest') \<and> length dest' = length dest \<and>
    (case r of
       Inr n \<Rightarrow> 0 < n \<and> n \<le> len \<and> ustr um src (n - 1) \<and> take n dest' = um_bytes um src n
     | Inl e \<Rightarrow> (\<forall>k < len. \<not> ustr um src k) \<and>
         e = (if unat src + len \<le> 2 ^ 31 \<and> (\<forall>i < len. um_ok um (src + of_nat i)) then ENAMETOOLONG else EFAULT))"
proof -
  let ?ld = "\<lambda>i. if um_ok um (src + of_nat i) then Some (um_data um (src + of_nat i)) else None"
  have plain: "plain ?ld i \<longleftrightarrow> um_ok um (src + of_nat i) \<and> um_data um (src + of_nat i) \<noteq> 0" for i
    by (simp add: plain_def)
  have lt: "len < 2 ^ 32" using assms(2) by simp
  show ?thesis
  proof (cases "unat src < 2 ^ 31")
    case False
    then show ?thesis using copycheck_eq [OF assms(1) lt, of src] assms(1) by (auto simp: copyinstr_def ustr_def)
  next
    case True
    define stop where "stop = (if 2 ^ 31 < unat src + len then 2 ^ 31 - unat src else len)"
    have chk: "copycheck src len = Inr stop"
      using copycheck_eq [OF assms(1) lt, of src] True assms(2) by (auto simp: stop_def)
    have stop: "unat src + stop \<le> 2 ^ 31" "stop \<le> len" "stop < len \<Longrightarrow> unat src + stop = 2 ^ 31"
      using True by (auto simp: stop_def)
    from assms(3) show ?thesis
    proof (cases rule: copystr_cases [where ld = ?ld and stop = stop])
      case (found k)
      from found(3,4) stop found(2) have "ustr um src k"
        by (auto simp: ustr_def plain less_Suc_eq_le split: if_splits) (metis le_neq_implies_less)+
      moreover have "map (\<lambda>j. the (?ld j)) [0..<Suc k] = um_bytes um src (Suc k)"
        using calculation by (auto simp: um_bytes_def ustr_def)
      ultimately show ?thesis using found chk assms(3) by (simp add: copyinstr_def)
    next
      case (fault k d')
      have "\<not> ustr um src l" for l
        using fault(3,4) by (cases "l < k") (auto simp: ustr_def plain split: if_splits)
      with fault chk assms(3) show ?thesis by (auto simp: copyinstr_def split: if_splits)
    next
      case (none d')
      have "\<not> ustr um src l" if "l < len" for l
        using none(1) stop that by (cases "l < stop") (auto simp: ustr_def plain)
      moreover have "stop = len \<Longrightarrow> \<forall>i < len. um_ok um (src + of_nat i)" using none(1) by (simp add: plain)
      ultimately show ?thesis using none chk assms(3) stop
        by (cases "stop = len") (auto simp: copyinstr_def)
    qed
  qed
qed

section \<open>Properties\<close>

text \<open>C23. \<open>copyin\<close> succeeds exactly when the region is not empty, lies wholly below \<open>USERTOP\<close> and
  can be read without a fatal fault; it then puts exactly those bytes at the start of the kernel buffer. In
  every other case it returns \<open>EFAULT\<close>.\<close>

theorem copyin_spec:
  assumes "len < 2 ^ 32" "len \<le> length dest"
  shows "\<exists>r dest'. copyin um src dest len = Some (r, dest') \<and> length dest' = length dest \<and>
    (if 0 < len \<and> unat src + len \<le> 2 ^ 31 \<and> (\<forall>i < len. um_ok um (src + of_nat i))
     then r = Inr () \<and> dest' = map (\<lambda>i. um_data um (src + of_nat i)) [0..<len] @ drop len dest
     else r = Inl EFAULT)"
  unfolding user_range_iff [symmetric] um_bytes_def [symmetric]
  using copyin_eq [OF assms, of um src] by (cases "user_range um src len") auto

theorem copyin_spec_witness:
  "\<exists>dest'. copyin \<lparr>um_data = (\<lambda>a. if a = 0x400000 then 7 else 0), um_ok = (\<lambda>a. a < 0x500000)\<rparr> 0x400000 [1, 1, 1] 2 =
     Some (Inr (), dest') \<and> dest' = [7, 0, 1]"
  using copyin_spec [of 2 "[1, 1, 1]" "\<lparr>um_data = (\<lambda>a. if a = 0x400000 then 7 else 0), um_ok = (\<lambda>a. a < 0x500000)\<rparr>" "0x400000"]
  by (auto simp: upt_rec less_2_cases_iff)

text \<open>C17. \<open>copyout\<close> never changes memory at or above \<open>USERTOP\<close> nor outside the region it was given,
  whatever its result; it succeeds exactly when the region is a non-empty accessible region of user space, and
  then the region holds the bytes of the kernel buffer, so that a \<open>copyin\<close> of it gives them back.\<close>

theorem copyout_spec:
  assumes "len < 2 ^ 32" "len \<le> length src"
  shows "\<exists>r um'. copyout src dst len um = Some (r, um') \<and>
    (\<forall>x. USERTOP \<le> x \<or> len \<le> unat (x - dst) \<longrightarrow> um_data um' x = um_data um x) \<and>
    (if 0 < len \<and> unat dst + len \<le> 2 ^ 31 \<and> (\<forall>i < len. um_ok um (dst + of_nat i))
     then r = Inr () \<and> copyin um' dst (replicate len 0) len = Some (Inr (), take len src)
     else r = Inl EFAULT)"
proof -
  obtain um' where um': "copyout src dst len um = Some (if user_range um dst len then Inr () else Inl EFAULT, um')"
    "um_ok um' = um_ok um" "\<forall>x. 2 ^ 31 \<le> unat x \<or> len \<le> unat (x - dst) \<longrightarrow> um_data um' x = um_data um x"
    "user_range um dst len \<longrightarrow> um_bytes um' dst len = take len src"
    using copyout_eq [OF assms, of dst um] by blast
  have "user_range um' dst len = user_range um dst len" using um'(2) by (simp add: user_range_def)
  then have "copyin um' dst (replicate len 0) len = Some (Inr (), take len src)" if "user_range um dst len"
    using that copyin_eq [OF assms(1), of "replicate len 0" um' dst] um'(4) by auto
  with um'(1,3) show ?thesis
    unfolding user_range_iff [symmetric] by (cases "user_range um dst len") (auto simp: word_le_nat_alt)
qed

theorem copyout_spec_witness:
  "\<exists>um'. copyout [5, 6] 0x7ffffffe 2 \<lparr>um_data = (\<lambda>_. 0), um_ok = (\<lambda>_. True)\<rparr> = Some (Inr (), um') \<and>
     um_data um' 0x80000000 = 0 \<and> copyin um' 0x7ffffffe [0, 0] 2 = Some (Inr (), [5, 6])"
proof -
  have "replicate 2 (0 :: byte) = [0, 0]" "take 2 [5, 6 :: byte] = [5, 6]" by (simp_all add: numeral_2_eq_2)
  with copyout_spec [of 2 "[5, 6]" "0x7ffffffe" "\<lparr>um_data = (\<lambda>_. 0), um_ok = (\<lambda>_. True)\<rparr>"]
  show ?thesis by auto
qed

text \<open>C24. \<open>copyinstr\<close> returns the length, terminator included, exactly when a terminated string of
  at most \<open>len\<close> bytes starts at the user address, with all of it in accessible user memory, and the buffer
  then starts with that string; it returns \<open>ENAMETOOLONG\<close> when the first \<open>len\<close> bytes are all
  accessible and none is the terminator, and \<open>EFAULT\<close> otherwise.\<close>

theorem copyinstr_spec:
  assumes "0 < len" "len \<le> 2 ^ 31" "len \<le> length dest"
  shows "\<exists>r dest'. copyinstr um src dest len = Some (r, dest') \<and> length dest' = length dest \<and>
    (case r of
       Inr n \<Rightarrow> 0 < n \<and> n \<le> len \<and> ustr um src (n - 1) \<and> take n dest' = um_bytes um src n
     | Inl e \<Rightarrow> (\<forall>k < len. \<not> ustr um src k) \<and>
         e = (if unat src + len \<le> 2 ^ 31 \<and> (\<forall>i < len. um_ok um (src + of_nat i)) then ENAMETOOLONG else EFAULT))"
  by (rule copyinstr_eq [OF assms])

theorem copyinstr_spec_witness:
  "\<exists>n dest'. copyinstr \<lparr>um_data = (\<lambda>a. if a = 0x1000 then 65 else 0), um_ok = (\<lambda>a. a < 0x2000)\<rparr> 0x1000 [9, 9, 9] 3 =
     Some (Inr n, dest') \<and> 0 < n \<and> n \<le> 3"
proof -
  let ?um = "\<lparr>um_data = (\<lambda>a. if a = 0x1000 then 65 else 0), um_ok = (\<lambda>a. a < 0x2000)\<rparr>"
  have str: "ustr ?um 0x1000 1" by (auto simp: ustr_def le_Suc_eq)
  obtain r dest' where r: "copyinstr ?um 0x1000 [9, 9, 9] 3 = Some (r, dest')"
    "case r of Inr n \<Rightarrow> 0 < n \<and> n \<le> 3 \<and> ustr ?um 0x1000 (n - 1) \<and> take n dest' = um_bytes ?um 0x1000 n
     | Inl e \<Rightarrow> (\<forall>k < 3. \<not> ustr ?um 0x1000 k) \<and>
         e = (if unat (0x1000 :: uaddr) + 3 \<le> 2 ^ 31 \<and> (\<forall>i < 3. um_ok ?um (0x1000 + of_nat i)) then ENAMETOOLONG else EFAULT)"
    using copyinstr_spec [of 3 "[9, 9, 9]" ?um "0x1000"] by auto
  show ?thesis
  proof (cases r)
    case (Inl e)
    with r(2) have "\<not> ustr ?um 0x1000 1" by simp
    with str show ?thesis by contradiction
  next
    case (Inr n)
    with r show ?thesis by auto
  qed
qed

text \<open>C40. A copy of zero bytes always fails: \<open>copycheck\<close> computes the last byte as \<open>bot + len - 1\<close>,
  which for \<open>len = 0\<close> lies below \<open>bot\<close> or wraps to the top of memory.\<close>

theorem copy_zero_bytes_fails:
  "copyin um src dest 0 = Some (Inl EFAULT, dest) \<and> copyout buf dst 0 um = Some (Inl EFAULT, um)"
  using copycheck_zero [of src] copycheck_zero [of dst] by (auto simp: copyin_def copyout_def)

end
