(* ===== verification/Kern_Uio.thy ===== *)
theory Kern_Uio
  imports Kern_Copyinout
begin

text \<open>
  \<open>kern/userprog/uio.c\<close>: data transfer between a kernel buffer and the region a \<open>struct uio\<close> describes.

  The union in \<open>struct iovec\<close> is two fields: \<open>iov_kbase\<close> indexes the kernel block \<open>iov_kbuf\<close> and
  \<open>iov_ubase\<close> is a user address in \<open>uio_um\<close>, the user memory of the running thread. \<open>uio_cur\<close> is
  that thread's address space (\<open>curthread->t_vmspace\<close>). \<open>off_t\<close> is a signed and \<open>size_t\<close> an
  unsigned 32-bit number.
\<close>

section \<open>Definitions\<close>

datatype uio_rw = UIO_READ | UIO_WRITE
datatype uio_seg = UIO_USERSPACE | UIO_SYSSPACE | UIO_USERISPACE

record uio =
  iov_kbuf :: "byte list"
  iov_kbase :: nat
  iov_ubase :: uaddr
  iov_len :: nat
  uio_offset :: int
  uio_resid :: nat
  uio_segflg :: uio_seg
  uio_rw :: uio_rw
  uio_space :: "nat option"
  uio_cur :: "nat option"
  uio_um :: umem

definition subblk :: "'a list \<Rightarrow> nat \<Rightarrow> nat \<Rightarrow> 'a list" where
  "subblk xs i n = take n (drop i xs)"

definition blit :: "'a list \<Rightarrow> nat \<Rightarrow> 'a list \<Rightarrow> 'a list" where
  \<comment> \<open>the block \<open>xs\<close> with \<open>ys\<close> stored from index \<open>i\<close> on\<close>
  "blit xs i ys = take i xs @ ys @ drop (i + length ys) xs"

definition uio_advance :: "nat \<Rightarrow> uio \<Rightarrow> uio" where
  \<comment> \<open>\<open>iov->iov_len -= size; uio->uio_resid -= size; uio->uio_offset += size;\<close>\<close>
  "uio_advance sz u = u\<lparr>iov_len := iov_len u - sz,
     uio_resid := nat ((int (uio_resid u) - int sz) mod 2 ^ 32),
     uio_offset := swrap32 (uio_offset u + int sz)\<rparr>"

definition uiomove_kern :: "byte list \<Rightarrow> nat \<Rightarrow> nat \<Rightarrow> uio \<Rightarrow> (byte list \<times> uio) option" where
  \<comment> \<open>the case \<open>UIO_SYSSPACE\<close>; a transfer outside one of the two blocks is \<open>None\<close>\<close>
  "uiomove_kern buf pos sz u = do {
     kassert (pos + sz \<le> length buf \<and> iov_kbase u + sz \<le> length (iov_kbuf u));
     (case uio_rw u of
        UIO_READ \<Rightarrow> Some (buf, u\<lparr>iov_kbuf := blit (iov_kbuf u) (iov_kbase u) (subblk buf pos sz),
                            iov_kbase := iov_kbase u + sz\<rparr>)
      | UIO_WRITE \<Rightarrow> Some (blit buf pos (subblk (iov_kbuf u) (iov_kbase u) sz), u\<lparr>iov_kbase := iov_kbase u + sz\<rparr>))
   }"

definition uiomove_user :: "byte list \<Rightarrow> nat \<Rightarrow> nat \<Rightarrow> uio \<Rightarrow> (unit res \<times> byte list \<times> uio) option" where
  \<comment> \<open>the cases \<open>UIO_USERSPACE\<close> and \<open>UIO_USERISPACE\<close>\<close>
  "uiomove_user buf pos sz u = do {
     kassert (pos + sz \<le> length buf);
     (case uio_rw u of
        UIO_READ \<Rightarrow> do {
          (r, um') \<leftarrow> copyout (subblk buf pos sz) (iov_ubase u) sz (uio_um u);
          Some (case r of Inl e \<Rightarrow> (Inl e, buf, u\<lparr>uio_um := um'\<rparr>)
                | Inr _ \<Rightarrow> (Inr (), buf, u\<lparr>uio_um := um', iov_ubase := iov_ubase u + of_nat sz\<rparr>))
        }
      | UIO_WRITE \<Rightarrow> do {
          (r, d) \<leftarrow> copyin (uio_um u) (iov_ubase u) (subblk buf pos sz) sz;
          Some (case r of Inl e \<Rightarrow> (Inl e, blit buf pos d, u)
                | Inr _ \<Rightarrow> (Inr (), blit buf pos d, u\<lparr>iov_ubase := iov_ubase u + of_nat sz\<rparr>))
        })
   }"

function uiomove_loop :: "nat \<Rightarrow> byte list \<Rightarrow> nat \<Rightarrow> uio \<Rightarrow> (unit res \<times> byte list \<times> uio) option" where
  "uiomove_loop n buf pos u =
     (if n > 0 \<and> uio_resid u > 0 then
        let sz = min (iov_len u) n in
        if sz = 0 then None
        else (case uio_segflg u of
            UIO_SYSSPACE \<Rightarrow> do {
              (buf', u') \<leftarrow> uiomove_kern buf pos sz u;
              uiomove_loop (n - sz) buf' (pos + sz) (uio_advance sz u')
            }
          | _ \<Rightarrow> do {
              (r, buf', u') \<leftarrow> uiomove_user buf pos sz u;
              (case r of Inl e \<Rightarrow> Some (Inl e, buf', u')
               | Inr _ \<Rightarrow> uiomove_loop (n - sz) buf' (pos + sz) (uio_advance sz u'))
            })
      else Some (Inr (), buf, u))"
  by pat_completeness auto

termination
  by (relation "measure fst") (auto simp: Let_def)

definition uiomove :: "byte list \<Rightarrow> nat \<Rightarrow> nat \<Rightarrow> uio \<Rightarrow> (unit res \<times> byte list \<times> uio) option" where
  \<comment> \<open>\<open>uiomove(buf + pos, n, uio)\<close>; the result holds the kernel buffer and the \<open>uio\<close> afterwards\<close>
  "uiomove buf pos n u = do {
     kassert (if uio_segflg u = UIO_SYSSPACE then uio_space u = None else uio_space u = uio_cur u);
     uiomove_loop n buf pos u
   }"

function uiomovezeros :: "nat \<Rightarrow> uio \<Rightarrow> (unit res \<times> uio) option" where
  "uiomovezeros n u = do {
     kassert (uio_rw u = UIO_READ);
     (if n > 0 then
        let amt = min 16 n in do {
          (r, _, u') \<leftarrow> uiomove (replicate 16 0) 0 amt u;
          (case r of Inl e \<Rightarrow> Some (Inl e, u') | Inr _ \<Rightarrow> uiomovezeros (n - amt) u')
        }
      else Some (Inr (), u))
   }"
  by pat_completeness auto

termination
  by (relation "measure fst") (auto simp: Let_def)

definition mk_kuio :: "byte list \<Rightarrow> nat \<Rightarrow> nat \<Rightarrow> int \<Rightarrow> uio_rw \<Rightarrow> uio \<Rightarrow> uio" where
  \<comment> \<open>\<open>mk_kuio(uio, kbuf + base, len, pos, rw)\<close>: fills in an uninitialised \<open>uio\<close>\<close>
  "mk_kuio kbuf base len pos rw u =
     u\<lparr>iov_kbuf := kbuf, iov_kbase := base, iov_len := len, uio_offset := pos, uio_resid := len,
       uio_segflg := UIO_SYSSPACE, uio_rw := rw, uio_space := None\<rparr>"

section \<open>The region of a uio as a window into memory\<close>

declare uiomove_loop.simps [simp del] uiomovezeros.simps [simp del]

definition iov_pos :: "uio \<Rightarrow> nat" where
  "iov_pos u = (if uio_segflg u = UIO_SYSSPACE then iov_kbase u else unat (iov_ubase u))"

definition iov_mem :: "uio \<Rightarrow> nat \<Rightarrow> byte" where
  "iov_mem u i = (if uio_segflg u = UIO_SYSSPACE then (if i < length (iov_kbuf u) then iov_kbuf u ! i else 0)
     else (if i < 2 ^ 31 then um_data (uio_um u) (of_nat i) else 0))"

definition iov_can :: "uio \<Rightarrow> nat \<Rightarrow> bool" where
  "iov_can u i \<longleftrightarrow> (if uio_segflg u = UIO_SYSSPACE then i < length (iov_kbuf u) else i < 2 ^ 31 \<and> um_ok (uio_um u) (of_nat i))"

definition uio_ready :: "nat \<Rightarrow> uio \<Rightarrow> bool" where
  \<comment> \<open>the next \<open>n\<close> bytes can be transferred\<close>
  "uio_ready n u \<longleftrightarrow> n \<le> iov_len u \<and> n \<le> uio_resid u \<and> uio_resid u < 2 ^ 32 \<and> 0 \<le> uio_offset u \<and> uio_offset u + int n < 2 ^ 31 \<and>
     (if uio_segflg u = UIO_SYSSPACE then uio_space u = None else uio_space u = uio_cur u) \<and>
     (\<forall>i \<in> {iov_pos u..<iov_pos u + n}. iov_can u i)"

definition uio_moved :: "nat \<Rightarrow> uio \<Rightarrow> uio \<Rightarrow> bool" where
  \<comment> \<open>\<open>u'\<close> is \<open>u\<close> after a transfer of \<open>n\<close> bytes\<close>
  "uio_moved n u u' \<longleftrightarrow> iov_pos u' = iov_pos u + n \<and> iov_len u' = iov_len u - n \<and> uio_resid u' = uio_resid u - n \<and>
     uio_offset u' = uio_offset u + int n \<and> uio_segflg u' = uio_segflg u \<and> uio_rw u' = uio_rw u \<and>
     uio_space u' = uio_space u \<and> uio_cur u' = uio_cur u \<and> iov_can u' = iov_can u"

definition mem_put :: "nat \<Rightarrow> byte list \<Rightarrow> (nat \<Rightarrow> byte) \<Rightarrow> nat \<Rightarrow> byte" where
  "mem_put p bs m = (\<lambda>i. if p \<le> i \<and> i < p + length bs then bs ! (i - p) else m i)"

definition mem_get :: "nat \<Rightarrow> nat \<Rightarrow> (nat \<Rightarrow> byte) \<Rightarrow> byte list" where
  "mem_get p n m = map m [p..<p + n]"

lemma iov_mem_cong:
  "uio_segflg u = uio_segflg v \<Longrightarrow> iov_kbuf u = iov_kbuf v \<Longrightarrow> uio_um u = uio_um v \<Longrightarrow> iov_mem u = iov_mem v"
  by (simp add: iov_mem_def fun_eq_iff)

lemma subblk_length [simp]: "i + n \<le> length xs \<Longrightarrow> length (subblk xs i n) = n"
  by (simp add: subblk_def)

lemma subblk_nth [simp]: "i + n \<le> length xs \<Longrightarrow> k < n \<Longrightarrow> subblk xs i n ! k = xs ! (i + k)"
  by (simp add: subblk_def)

lemma subblk_all [simp]: "subblk xs 0 (length xs) = xs"
  by (simp add: subblk_def)

lemma blit_length [simp]: "i + length ys \<le> length xs \<Longrightarrow> length (blit xs i ys) = length xs"
  by (simp add: blit_def)

lemma blit_nth: "i + length ys \<le> length xs \<Longrightarrow> k < length xs \<Longrightarrow>
  blit xs i ys ! k = (if i \<le> k \<and> k < i + length ys then ys ! (k - i) else xs ! k)"
  by (auto simp: blit_def nth_append min_def)

lemma blit_all [simp]: "length ys = length xs \<Longrightarrow> blit xs 0 ys = ys"
  by (simp add: blit_def)

lemma mem_get_length [simp]: "length (mem_get p n m) = n"
  by (simp add: mem_get_def)

lemma mem_get_nth [simp]: "k < n \<Longrightarrow> mem_get p n m ! k = m (p + k)"
  by (simp add: mem_get_def)

lemma mem_put_Nil [simp]: "mem_put p [] m = m"
  by (auto simp: mem_put_def fun_eq_iff)

lemma mem_put_put: "q = p + length xs \<Longrightarrow> mem_put q ys (mem_put p xs m) = mem_put p (xs @ ys) m"
  by (auto simp: mem_put_def fun_eq_iff nth_append)

lemma uio_moved_refl [simp]: "uio_moved 0 u u"
  by (simp add: uio_moved_def)

lemma uio_moved_trans: "uio_moved m u v \<Longrightarrow> uio_moved n v w \<Longrightarrow> uio_moved (m + n) u w"
  by (simp add: uio_moved_def)

lemma uio_moved_ready: "uio_moved m u v \<Longrightarrow> uio_ready (m + n) u \<Longrightarrow> uio_ready n v"
  by (auto simp: uio_moved_def uio_ready_def)

lemma uio_ready_mono: "uio_ready n u \<Longrightarrow> m \<le> n \<Longrightarrow> uio_ready m u"
  by (auto simp: uio_ready_def)

lemma advance_wrap:
  assumes "n \<le> uio_resid u" "uio_resid u < 2 ^ 32" "0 \<le> uio_offset u" "uio_offset u + int n < 2 ^ 31"
  shows "uio_advance n u = u\<lparr>iov_len := iov_len u - n, uio_resid := uio_resid u - n, uio_offset := uio_offset u + int n\<rparr>"
proof -
  have "nat ((int (uio_resid u) - int n) mod 2 ^ 32) = uio_resid u - n"
    using assms by (subst mod_pos_pos_trivial) auto
  then show ?thesis using assms(3,4) by (simp add: uio_advance_def)
qed

lemma uiomove_loop_zero [simp]: "uiomove_loop 0 buf pos u = Some (Inr (), buf, u)"
  by (subst uiomove_loop.simps) simp

lemma kern_move:
  assumes "uio_segflg u = UIO_SYSSPACE" "uio_ready n u" "pos + n \<le> length buf" "0 < n"
  shows "\<exists>buf' u'. uiomove_kern buf pos n u = Some (buf', u') \<and> uio_moved n u (uio_advance n u') \<and>
    (case uio_rw u of
       UIO_READ \<Rightarrow> buf' = buf \<and> iov_mem (uio_advance n u') = mem_put (iov_pos u) (subblk buf pos n) (iov_mem u)
     | UIO_WRITE \<Rightarrow> iov_mem (uio_advance n u') = iov_mem u \<and> buf' = blit buf pos (mem_get (iov_pos u) n (iov_mem u)))"
proof -
  from assms(1,2,4) have b: "iov_kbase u + n \<le> length (iov_kbuf u)"
    by (cases n) (auto simp: uio_ready_def iov_pos_def iov_can_def Suc_le_eq dest: bspec [of _ _ "iov_kbase u + (n - 1)"])
  have w: "subblk (iov_kbuf u) (iov_kbase u) n = mem_get (iov_pos u) n (iov_mem u)"
    using b assms(1) by (intro nth_equalityI) (simp_all add: iov_mem_def iov_pos_def)
  have r: "iov_mem (u\<lparr>iov_kbuf := blit (iov_kbuf u) (iov_kbase u) (subblk buf pos n)\<rparr>) =
      mem_put (iov_pos u) (subblk buf pos n) (iov_mem u)"
    using b assms(1,3) by (auto simp: iov_mem_def iov_pos_def mem_put_def fun_eq_iff blit_nth)
  have adv: "uio_advance n v = v\<lparr>iov_len := iov_len v - n, uio_resid := uio_resid v - n, uio_offset := uio_offset v + int n\<rparr>"
    if "uio_resid v = uio_resid u" "uio_offset v = uio_offset u" for v
    using assms(2) that by (intro advance_wrap) (auto simp: uio_ready_def)
  show ?thesis
  proof (cases "uio_rw u")
    case UIO_READ
    let ?u = "u\<lparr>iov_kbuf := blit (iov_kbuf u) (iov_kbase u) (subblk buf pos n), iov_kbase := iov_kbase u + n\<rparr>"
    have "uiomove_kern buf pos n u = Some (buf, ?u)" using UIO_READ b assms(3) by (simp add: uiomove_kern_def)
    moreover have "iov_mem (uio_advance n ?u) = mem_put (iov_pos u) (subblk buf pos n) (iov_mem u)"
      unfolding r [symmetric] by (rule iov_mem_cong) (simp_all add: adv)
    moreover have "uio_moved n u (uio_advance n ?u)"
      using b assms(1,3) by (simp add: adv uio_moved_def iov_pos_def iov_can_def fun_eq_iff)
    ultimately show ?thesis using UIO_READ by simp
  next
    case UIO_WRITE
    let ?u = "u\<lparr>iov_kbase := iov_kbase u + n\<rparr>"
    have "uiomove_kern buf pos n u = Some (blit buf pos (subblk (iov_kbuf u) (iov_kbase u) n), ?u)"
      using UIO_WRITE b assms(3) by (simp add: uiomove_kern_def)
    moreover have "iov_mem (uio_advance n ?u) = iov_mem u" by (rule iov_mem_cong) (simp_all add: adv)
    moreover have "uio_moved n u (uio_advance n ?u)"
      using assms(1) by (simp add: adv uio_moved_def iov_pos_def iov_can_def fun_eq_iff)
    ultimately show ?thesis using UIO_WRITE w by simp
  qed
qed

lemma user_move:
  assumes "uio_segflg u \<noteq> UIO_SYSSPACE" "uio_ready n u" "pos + n \<le> length buf" "0 < n"
  shows "\<exists>buf' u'. uiomove_user buf pos n u = Some (Inr (), buf', u') \<and> uio_moved n u (uio_advance n u') \<and>
    (case uio_rw u of
       UIO_READ \<Rightarrow> buf' = buf \<and> iov_mem (uio_advance n u') = mem_put (iov_pos u) (subblk buf pos n) (iov_mem u)
     | UIO_WRITE \<Rightarrow> iov_mem (uio_advance n u') = iov_mem u \<and> buf' = blit buf pos (mem_get (iov_pos u) n (iov_mem u)))"
proof -
  let ?a = "iov_ubase u" and ?um = "uio_um u"
  from assms(1,2,4) have last: "iov_can u (unat ?a + n - 1)" and n: "n < 2 ^ 32"
    by (auto simp: uio_ready_def iov_pos_def)
  then have top: "unat ?a + n \<le> 2 ^ 31" using assms(1,4) by (auto simp: iov_can_def)
  have addr: "?a + of_nat i = of_nat (unat ?a + i)" for i by simp
  have range: "user_range ?um ?a n"
    using assms(1,2,4) top by (auto simp: user_range_def uio_ready_def iov_pos_def iov_can_def addr simp del: of_nat_add)
  have base: "unat (?a + of_nat n) = unat ?a + n"
    using top unat_add_lem [of ?a "of_nat n"] n by (simp add: unat_of_nat)
  have w: "um_bytes ?um ?a n = mem_get (iov_pos u) n (iov_mem u)"
    using assms(1) top by (intro nth_equalityI) (auto simp: um_bytes_def iov_mem_def iov_pos_def)
  have adv: "uio_advance n v = v\<lparr>iov_len := iov_len v - n, uio_resid := uio_resid v - n, uio_offset := uio_offset v + int n\<rparr>"
    if "uio_resid v = uio_resid u" "uio_offset v = uio_offset u" for v
    using assms(2) that by (intro advance_wrap) (auto simp: uio_ready_def)
  show ?thesis
  proof (cases "uio_rw u")
    case UIO_READ
    obtain um' where um': "copyout (subblk buf pos n) ?a n ?um = Some (Inr (), um')" "um_ok um' = um_ok ?um"
      "\<forall>x. 2 ^ 31 \<le> unat x \<or> n \<le> unat (x - ?a) \<longrightarrow> um_data um' x = um_data ?um x" "um_bytes um' ?a n = subblk buf pos n"
      using copyout_eq [of n "subblk buf pos n" ?a ?um] range n assms(3) by auto
    have "iov_mem (u\<lparr>uio_um := um'\<rparr>) i = mem_put (iov_pos u) (subblk buf pos n) (iov_mem u) i" for i
    proof (cases "unat ?a \<le> i \<and> i < unat ?a + n")
      case True
      then have "um_data um' (?a + of_nat (i - unat ?a)) = subblk buf pos n ! (i - unat ?a)"
        by (simp flip: um'(4)) (simp add: um_bytes_def less_diff_conv2)
      moreover have "?a + of_nat (i - unat ?a) = of_nat i" using True by simp
      ultimately show ?thesis using True assms(1,3) top by (simp add: iov_mem_def mem_put_def iov_pos_def)
    next
      case False
      have "um_data um' (of_nat i) = um_data ?um (of_nat i)" if "i < 2 ^ 31"
      proof -
        have "unat (of_nat i :: uaddr) = i" using that by (simp add: unat_of_nat)
        then have "n \<le> unat (of_nat i - ?a)" using False that top by (auto simp: unat_sub_if')
        with um'(3) show ?thesis by blast
      qed
      with False assms(1,3) show ?thesis by (auto simp: iov_mem_def mem_put_def iov_pos_def)
    qed
    then have mem: "iov_mem (u\<lparr>uio_um := um'\<rparr>) = mem_put (iov_pos u) (subblk buf pos n) (iov_mem u)" by blast
    let ?u = "u\<lparr>uio_um := um', iov_ubase := ?a + of_nat n\<rparr>"
    have "uiomove_user buf pos n u = Some (Inr (), buf, ?u)"
      using UIO_READ um'(1) assms(3) by (simp add: uiomove_user_def)
    moreover have "iov_mem (uio_advance n ?u) = mem_put (iov_pos u) (subblk buf pos n) (iov_mem u)"
      unfolding mem [symmetric] by (rule iov_mem_cong) (simp_all add: adv)
    moreover have "uio_moved n u (uio_advance n ?u)"
      using base assms(1) um'(2) by (simp add: adv uio_moved_def iov_pos_def iov_can_def fun_eq_iff)
    ultimately show ?thesis using UIO_READ by simp
  next
    case UIO_WRITE
    let ?u = "u\<lparr>iov_ubase := ?a + of_nat n\<rparr>"
    have "copyin ?um ?a (subblk buf pos n) n = Some (Inr (), um_bytes ?um ?a n)"
      using copyin_eq [of n "subblk buf pos n" ?um ?a] range n assms(3) by auto
    then have "uiomove_user buf pos n u = Some (Inr (), blit buf pos (um_bytes ?um ?a n), ?u)"
      using UIO_WRITE assms(3) by (simp add: uiomove_user_def)
    moreover have "iov_mem (uio_advance n ?u) = iov_mem u" by (rule iov_mem_cong) (simp_all add: adv)
    moreover have "uio_moved n u (uio_advance n ?u)"
      using base assms(1) by (simp add: adv uio_moved_def iov_pos_def iov_can_def fun_eq_iff)
    ultimately show ?thesis using UIO_WRITE w by simp
  qed
qed

lemma uiomove_ready:
  assumes "uio_ready n u" "pos + n \<le> length buf"
  shows "\<exists>buf' u'. uiomove buf pos n u = Some (Inr (), buf', u') \<and> uio_moved n u u' \<and>
    (case uio_rw u of
       UIO_READ \<Rightarrow> buf' = buf \<and> iov_mem u' = mem_put (iov_pos u) (subblk buf pos n) (iov_mem u)
     | UIO_WRITE \<Rightarrow> iov_mem u' = iov_mem u \<and> buf' = blit buf pos (mem_get (iov_pos u) n (iov_mem u)))"
proof (cases "n = 0")
  case True
  with assms(1) show ?thesis
    by (auto simp: uiomove_def uio_ready_def subblk_def blit_def mem_get_def split: uio_rw.splits)
next
  case False
  with assms(1) have b: "0 < uio_resid u" "min (iov_len u) n = n" by (auto simp: uio_ready_def)
  have sp: "if uio_segflg u = UIO_SYSSPACE then uio_space u = None else uio_space u = uio_cur u"
    using assms(1) by (simp add: uio_ready_def)
  show ?thesis
  proof (cases "uio_segflg u = UIO_SYSSPACE")
    case True
    from kern_move [OF True assms] False b sp True show ?thesis
      by (subst uiomove_def, subst uiomove_loop.simps) auto
  next
    case user: False
    then have *: "(case uio_segflg u of UIO_SYSSPACE \<Rightarrow> x | _ \<Rightarrow> y) = y" for x y :: "(unit res \<times> byte list \<times> uio) option"
      by (cases "uio_segflg u") simp_all
    from user_move [OF user assms] False b sp user show ?thesis
      by (subst uiomove_def, subst uiomove_loop.simps) (auto simp: *)
  qed
qed

lemma uiomovezeros_ready:
  "uio_ready n u \<Longrightarrow> uio_rw u = UIO_READ \<Longrightarrow>
   \<exists>u'. uiomovezeros n u = Some (Inr (), u') \<and> uio_moved n u u' \<and> iov_mem u' = mem_put (iov_pos u) (replicate n 0) (iov_mem u)"
proof (induction n u rule: uiomovezeros.induct)
  case (1 n u)
  show ?case
  proof (cases "n = 0")
    case True
    with "1.prems" show ?thesis by (subst uiomovezeros.simps) simp
  next
    case False
    let ?amt = "min 16 n"
    have sub: "subblk (replicate 16 (0 :: byte)) 0 ?amt = replicate ?amt 0" by (simp add: subblk_def)
    obtain b u' where u': "uiomove (replicate 16 0) 0 ?amt u = Some (Inr (), b, u')" "uio_moved ?amt u u'"
      "iov_mem u' = mem_put (iov_pos u) (replicate ?amt 0) (iov_mem u)"
      using uiomove_ready [OF uio_ready_mono [OF "1.prems"(1)], of ?amt 0 "replicate 16 0"] "1.prems"(2)
      by (auto simp: sub)
    have ready: "uio_ready (n - ?amt) u'" using uio_moved_ready [OF u'(2), of "n - ?amt"] "1.prems"(1) by simp
    have rw: "uio_rw u' = UIO_READ" "iov_pos u' = iov_pos u + ?amt" using u'(2) "1.prems"(2) by (simp_all add: uio_moved_def)
    obtain u'' where u'': "uiomovezeros (n - ?amt) u' = Some (Inr (), u'')" "uio_moved (n - ?amt) u' u''"
      "iov_mem u'' = mem_put (iov_pos u') (replicate (n - ?amt) 0) (iov_mem u')"
      using "1.IH" [OF _ _ refl u'(1) refl refl refl ready rw(1)] "1.prems"(2) False by auto
    have "uio_moved n u u''" using uio_moved_trans [OF u'(2) u''(2)] by simp
    moreover have "iov_mem u'' = mem_put (iov_pos u) (replicate n 0) (iov_mem u)"
      using u''(3) u'(3) rw(2) mem_put_put [of "iov_pos u'" "iov_pos u" "replicate ?amt 0" "replicate (n - ?amt) 0" "iov_mem u"]
      by (simp flip: replicate_add)
    moreover have "uiomovezeros n u = Some (Inr (), u'')"
      using False "1.prems"(2) u'(1) u''(1) by (subst uiomovezeros.simps) simp
    ultimately show ?thesis by blast
  qed
qed

lemma mk_kuio_ready:
  assumes "n < 2 ^ 31" "base + n \<le> length kbuf" "0 \<le> pos" "pos + int n < 2 ^ 31"
  shows "uio_ready n (mk_kuio kbuf base n pos rw u)" "iov_pos (mk_kuio kbuf base n pos rw u) = base"
  using assms by (auto simp: uio_ready_def mk_kuio_def iov_pos_def iov_can_def)

section \<open>Properties\<close>

text \<open>C25. For a region that is accessible and big enough, \<open>uiomove\<close> transfers exactly \<open>n\<close> bytes
  between the kernel buffer and the region, in the direction of \<open>uio_rw\<close>, for kernel and for user regions
  alike: it advances the region and \<open>uio_offset\<close> by \<open>n\<close>, takes \<open>n\<close> off \<open>uio_resid\<close> and changes no other byte.\<close>

theorem uiomove_spec:
  assumes "uio_ready n u" "pos + n \<le> length buf"
  shows "\<exists>buf' u'. uiomove buf pos n u = Some (Inr (), buf', u') \<and> iov_pos u' = iov_pos u + n \<and>
    uio_offset u' = uio_offset u + int n \<and> uio_resid u' = uio_resid u - n \<and> iov_len u' = iov_len u - n \<and>
    (case uio_rw u of
       UIO_READ \<Rightarrow> buf' = buf \<and>
         iov_mem u' = (\<lambda>i. if iov_pos u \<le> i \<and> i < iov_pos u + n then buf ! (pos + (i - iov_pos u)) else iov_mem u i)
     | UIO_WRITE \<Rightarrow> iov_mem u' = iov_mem u \<and> length buf' = length buf \<and>
         (\<forall>k < length buf. buf' ! k = (if pos \<le> k \<and> k < pos + n then iov_mem u (iov_pos u + (k - pos)) else buf ! k)))"
proof -
  obtain buf' u' where u': "uiomove buf pos n u = Some (Inr (), buf', u')" "uio_moved n u u'"
    "case uio_rw u of
       UIO_READ \<Rightarrow> buf' = buf \<and> iov_mem u' = mem_put (iov_pos u) (subblk buf pos n) (iov_mem u)
     | UIO_WRITE \<Rightarrow> iov_mem u' = iov_mem u \<and> buf' = blit buf pos (mem_get (iov_pos u) n (iov_mem u))"
    using uiomove_ready [OF assms] by blast
  with assms(2) show ?thesis
    by (cases "uio_rw u") (auto simp: uio_moved_def mem_put_def fun_eq_iff blit_nth)
qed

definition example_uio :: uio where
  \<comment> \<open>a user region of four bytes at \<open>0x1000\<close>\<close>
  "example_uio = \<lparr>iov_kbuf = [], iov_kbase = 0, iov_ubase = 0x1000, iov_len = 4, uio_offset = 0, uio_resid = 4,
     uio_segflg = UIO_USERSPACE, uio_rw = UIO_READ, uio_space = Some 1, uio_cur = Some 1,
     uio_um = \<lparr>um_data = (\<lambda>_. 0), um_ok = (\<lambda>_. True)\<rparr>\<rparr>"

theorem uiomove_spec_witness:
  "\<exists>buf' u'. uiomove [1, 2, 3, 4] 1 3 example_uio = Some (Inr (), buf', u') \<and> uio_resid u' = 1 \<and> iov_mem u' 0x1002 = 4"
proof -
  have "uio_ready 3 example_uio" by (simp add: uio_ready_def example_uio_def iov_pos_def iov_can_def)
  moreover have "iov_pos example_uio = 0x1000" "uio_resid example_uio = 4" "uio_rw example_uio = UIO_READ"
    by (simp_all add: example_uio_def iov_pos_def)
  ultimately show ?thesis using uiomove_spec [of 3 example_uio 1 "[1, 2, 3, 4]"] by auto
qed

end
