(* ===== verification/Kern_Disk.thy ===== *)
theory Kern_Disk
  imports Kern_Uio
begin

text \<open>
  Block I/O: the disk driver \<open>kern/dev/lamebus/lhd.c\<close> and the block routines of \<open>kern/fs/sfs/sfs_io.c\<close>.

  The disk hardware is data of the model: the sectors, the transfer buffer of the card and \<open>lh_outcomes\<close>, the
  completion codes it will report for the next operations (\<open>LHD_OK\<close> once the list is empty). An operation that
  completes with \<open>LHD_OK\<close> moves one sector between the buffer and the disk; any other leaves
  both as they are. The two semaphores of the driver only order the operations of several threads and have no
  effect on the single thread that is modelled here.
\<close>

section \<open>The disk driver\<close>

datatype lhd_outcome = LHD_OK | LHD_INVSECT | LHD_MEDIA

record disk =
  d_blocks :: nat
  sectors :: "byte list list"
  lh_buf :: "byte list"
  lh_outcomes :: "lhd_outcome list"

abbreviation (input) LHD_SECTSIZE :: nat where "LHD_SECTSIZE \<equiv> 512"

fun lhd_code_to_errno :: "lhd_outcome \<Rightarrow> unit res" where
  "lhd_code_to_errno LHD_OK = Inr ()"
| "lhd_code_to_errno LHD_INVSECT = Inl EINVAL"
| "lhd_code_to_errno LHD_MEDIA = Inl EIO"

definition lhd_op :: "uio_rw \<Rightarrow> nat \<Rightarrow> disk \<Rightarrow> (unit res \<times> disk) option" where
  \<comment> \<open>write the sector and the status register, wait, and read \<open>lh_result\<close>\<close>
  "lhd_op rw sector d = do {
     let code = (case lh_outcomes d of [] \<Rightarrow> LHD_OK | c # _ \<Rightarrow> c);
     let d' = d\<lparr>lh_outcomes := tl (lh_outcomes d)\<rparr>;
     (if code = LHD_OK then do {
        data \<leftarrow> rd (sectors d) (int sector);
        Some (lhd_code_to_errno code,
              if rw = UIO_WRITE then d'\<lparr>sectors := (sectors d)[sector := lh_buf d]\<rparr> else d'\<lparr>lh_buf := data\<rparr>)
      }
      else Some (lhd_code_to_errno code, d'))
   }"

function lhd_loop :: "nat \<Rightarrow> nat \<Rightarrow> nat \<Rightarrow> disk \<Rightarrow> uio \<Rightarrow> (unit res \<times> disk \<times> uio) option" where
  \<comment> \<open>\<open>for (i=0; i<len; i++)\<close> of \<open>lhd_io\<close>\<close>
  "lhd_loop sector len i d u =
     (if i < len then do {
        (w, d1, u1) \<leftarrow> (if uio_rw u = UIO_WRITE then do {
             (r, b, u') \<leftarrow> uiomove (lh_buf d) 0 LHD_SECTSIZE u;
             Some (r, d\<lparr>lh_buf := b\<rparr>, u')
           } else Some (Inr (), d, u));
        (case w of
           Inl e \<Rightarrow> Some (Inl e, d1, u1)
         | Inr _ \<Rightarrow> do {
             (result, d2) \<leftarrow> lhd_op (uio_rw u1) (sector + i) d1;
             (result', u2) \<leftarrow> (if result = Inr () \<and> uio_rw u1 = UIO_READ then do {
                  (r, _, u') \<leftarrow> uiomove (lh_buf d2) 0 LHD_SECTSIZE u1;
                  Some (r, u')
                } else Some (result, u1));
             (case result' of
                Inl e \<Rightarrow> Some (Inl e, d2, u2)
              | Inr _ \<Rightarrow> lhd_loop sector len (Suc i) d2 u2)
           })
      }
      else Some (Inr (), d, u))"
  by pat_completeness auto

termination
  by (relation "measure (\<lambda>(sector, len, i, d, u). len - i)") auto

definition lhd_io :: "disk \<Rightarrow> uio \<Rightarrow> (unit res \<times> disk \<times> uio) option" where
  "lhd_io d u =
     (let sector = u32 (cdiv (uio_offset u) (int LHD_SECTSIZE));
          sectoff = u32 (cmod (uio_offset u) (int LHD_SECTSIZE));
          len = uio_resid u div LHD_SECTSIZE;
          lenoff = uio_resid u mod LHD_SECTSIZE
      in if sectoff \<noteq> 0 \<or> lenoff \<noteq> 0 then Some (Inl EINVAL, d, u)
         else if (sector + len) mod 2 ^ 32 > d_blocks d then Some (Inl EINVAL, d, u)
         else lhd_loop sector len 0 d u)"

section \<open>Block routines of SFS\<close>

abbreviation (input) SFS_BLOCKSIZE :: nat where "SFS_BLOCKSIZE \<equiv> 512"

function sfs_rwblock_try :: "nat \<Rightarrow> disk \<Rightarrow> uio \<Rightarrow> (unit res \<times> disk \<times> uio) option" where
  \<comment> \<open>the code from \<open>retry:\<close> on, after \<open>tries\<close> tries\<close>
  "sfs_rwblock_try tries d u = do {
     (result, d', u') \<leftarrow> lhd_io d u;
     kassert (result \<noteq> Inl EINVAL);
     (if result = Inl EIO \<and> tries < 10 then sfs_rwblock_try (Suc tries) d' u'
      else Some (result, d', u'))
   }"
  by pat_completeness auto

termination
  by (relation "measure (\<lambda>(tries, d, u). 10 - tries)") auto

definition sfs_rwblock :: "disk \<Rightarrow> uio \<Rightarrow> (unit res \<times> disk \<times> uio) option" where
  "sfs_rwblock d u = sfs_rwblock_try 0 d u"

definition blank_uio :: uio where
  \<comment> \<open>a \<open>struct uio\<close> on the stack before \<open>mk_kuio\<close> fills it in\<close>
  "blank_uio = \<lparr>iov_kbuf = [], iov_kbase = 0, iov_ubase = 0, iov_len = 0, uio_offset = 0, uio_resid = 0,
     uio_segflg = UIO_SYSSPACE, uio_rw = UIO_READ, uio_space = None, uio_cur = None,
     uio_um = \<lparr>um_data = (\<lambda>_. 0), um_ok = (\<lambda>_. False)\<rparr>\<rparr>"

definition SFSUIO :: "byte list \<Rightarrow> nat \<Rightarrow> nat \<Rightarrow> uio_rw \<Rightarrow> uio" where
  "SFSUIO data base block rw = mk_kuio data base SFS_BLOCKSIZE (swrap32 (int block * int SFS_BLOCKSIZE)) rw blank_uio"

definition sfs_rblock :: "disk \<Rightarrow> byte list \<Rightarrow> nat \<Rightarrow> nat \<Rightarrow> (unit res \<times> disk \<times> byte list) option" where
  \<comment> \<open>\<open>sfs_rblock(sfs, data + base, block)\<close>\<close>
  "sfs_rblock d data base block = do {
     (r, d', u) \<leftarrow> sfs_rwblock d (SFSUIO data base block UIO_READ);
     Some (r, d', iov_kbuf u)
   }"

definition sfs_wblock :: "disk \<Rightarrow> byte list \<Rightarrow> nat \<Rightarrow> nat \<Rightarrow> (unit res \<times> disk) option" where
  "sfs_wblock d data base block = do {
     (r, d', u) \<leftarrow> sfs_rwblock d (SFSUIO data base block UIO_WRITE);
     Some (r, d')
   }"

section \<open>One block\<close>

declare lhd_loop.simps [simp del] sfs_rwblock_try.simps [simp del]

definition disk_ok :: "disk \<Rightarrow> bool" where
  "disk_ok d \<longleftrightarrow> length (sectors d) = d_blocks d \<and> (\<forall>s \<in> set (sectors d). length s = SFS_BLOCKSIZE) \<and>
     length (lh_buf d) = SFS_BLOCKSIZE \<and> d_blocks d * SFS_BLOCKSIZE < 2 ^ 31 \<and> LHD_INVSECT \<notin> set (lh_outcomes d)"

definition block_uio :: "disk \<Rightarrow> nat \<Rightarrow> uio \<Rightarrow> bool" where
  \<comment> \<open>\<open>u\<close> asks for the transfer of block \<open>b\<close>\<close>
  "block_uio d b u \<longleftrightarrow> b < d_blocks d \<and> uio_offset u = int (b * SFS_BLOCKSIZE) \<and> uio_resid u = SFS_BLOCKSIZE \<and> uio_ready SFS_BLOCKSIZE u"

lemma set_tlD: "x \<in> set (tl xs) \<Longrightarrow> x \<in> set xs"
  by (cases xs) simp_all

lemma disk_ok_sector: "disk_ok d \<Longrightarrow> b < d_blocks d \<Longrightarrow> length (sectors d ! b) = SFS_BLOCKSIZE"
  by (auto simp: disk_ok_def)

lemma lhd_io_block:
  assumes "disk_ok d" "block_uio d b u"
  shows "lhd_io d u = lhd_loop b 1 0 d u"
proof -
  have "b * SFS_BLOCKSIZE < 2 ^ 31" "b < d_blocks d" "d_blocks d < 2 ^ 31" using assms by (auto simp: disk_ok_def block_uio_def)
  then show ?thesis using assms(2) by (simp add: lhd_io_def block_uio_def Let_def cdiv_def cmod_def u32_def)
qed

lemma lhd_write_block:
  assumes d: "disk_ok d" and u: "block_uio d b u" and rw: "uio_rw u = UIO_WRITE"
  shows "\<exists>d' u'. lhd_io d u = Some (if lh_outcomes d \<noteq> [] \<and> hd (lh_outcomes d) = LHD_MEDIA then Inl EIO else Inr (), d', u') \<and>
    uio_moved SFS_BLOCKSIZE u u' \<and> iov_mem u' = iov_mem u \<and> disk_ok d' \<and> d_blocks d' = d_blocks d \<and>
    lh_outcomes d' = tl (lh_outcomes d) \<and>
    sectors d' = (if lh_outcomes d \<noteq> [] \<and> hd (lh_outcomes d) = LHD_MEDIA then sectors d
      else (sectors d)[b := mem_get (iov_pos u) SFS_BLOCKSIZE (iov_mem u)])"
proof -
  have len: "length (lh_buf d) = SFS_BLOCKSIZE" "b < length (sectors d)" using d u by (auto simp: disk_ok_def block_uio_def)
  obtain u' where u': "uiomove (lh_buf d) 0 SFS_BLOCKSIZE u = Some (Inr (), mem_get (iov_pos u) SFS_BLOCKSIZE (iov_mem u), u')"
    "uio_moved SFS_BLOCKSIZE u u'" "iov_mem u' = iov_mem u"
    using uiomove_ready [of SFS_BLOCKSIZE u 0 "lh_buf d"] u rw len(1) by (auto simp: block_uio_def)
  have rw': "uio_rw u' = UIO_WRITE" using u'(2) rw by (simp add: uio_moved_def)
  let ?data = "mem_get (iov_pos u) SFS_BLOCKSIZE (iov_mem u)"
  show ?thesis
  proof (cases "lh_outcomes d")
    case Nil
    have "lhd_loop b 1 0 d u = Some (Inr (), d\<lparr>lh_buf := ?data, sectors := (sectors d)[b := ?data]\<rparr>, u')"
      using Nil rw rw' u'(1) len by (subst lhd_loop.simps, subst lhd_loop.simps) (simp add: lhd_op_def)
    then show ?thesis using Nil u' d unfolding lhd_io_block [OF d u]
      by (auto simp: disk_ok_def dest: set_update_subset_insert [THEN subsetD])
  next
    case (Cons c cs)
    with d have c: "c = LHD_OK \<or> c = LHD_MEDIA" by (cases c) (auto simp: disk_ok_def)
    show ?thesis
    proof (cases "c = LHD_MEDIA")
      case True
      then have "lhd_loop b 1 0 d u = Some (Inl EIO, d\<lparr>lh_buf := ?data, lh_outcomes := cs\<rparr>, u')"
        using Cons rw rw' u'(1) len by (subst lhd_loop.simps) (simp add: lhd_op_def)
      then show ?thesis using Cons True u' d unfolding lhd_io_block [OF d u] by (auto simp: disk_ok_def)
    next
      case False
      with c have "lhd_loop b 1 0 d u = Some (Inr (), d\<lparr>lh_buf := ?data, lh_outcomes := cs, sectors := (sectors d)[b := ?data]\<rparr>, u')"
        using Cons rw rw' u'(1) len by (subst lhd_loop.simps, subst lhd_loop.simps) (simp add: lhd_op_def)
      then show ?thesis using Cons False u' d unfolding lhd_io_block [OF d u]
        by (auto simp: disk_ok_def dest: set_update_subset_insert [THEN subsetD])
    qed
  qed
qed

lemma lhd_read_block:
  assumes d: "disk_ok d" and u: "block_uio d b u" and rw: "uio_rw u = UIO_READ"
  shows "\<exists>d' u'. disk_ok d' \<and> d_blocks d' = d_blocks d \<and> lh_outcomes d' = tl (lh_outcomes d) \<and> sectors d' = sectors d \<and>
    (if lh_outcomes d \<noteq> [] \<and> hd (lh_outcomes d) = LHD_MEDIA then lhd_io d u = Some (Inl EIO, d', u)
     else lhd_io d u = Some (Inr (), d', u') \<and> uio_moved SFS_BLOCKSIZE u u' \<and>
       iov_mem u' = mem_put (iov_pos u) (sectors d ! b) (iov_mem u))"
proof -
  have len: "length (sectors d ! b) = SFS_BLOCKSIZE" "b < length (sectors d)" using d u by (auto simp: disk_ok_def block_uio_def)
  have sub: "subblk (sectors d ! b) 0 SFS_BLOCKSIZE = sectors d ! b" using len(1) subblk_all [of "sectors d ! b"] by simp
  obtain u' where u': "uiomove (sectors d ! b) 0 SFS_BLOCKSIZE u = Some (Inr (), sectors d ! b, u')"
    "uio_moved SFS_BLOCKSIZE u u'" "iov_mem u' = mem_put (iov_pos u) (sectors d ! b) (iov_mem u)"
    using uiomove_ready [of SFS_BLOCKSIZE u 0 "sectors d ! b"] u rw len(1) by (auto simp: block_uio_def sub)
  show ?thesis
  proof (cases "lh_outcomes d \<noteq> [] \<and> hd (lh_outcomes d) = LHD_MEDIA")
    case True
    then have "lhd_loop b 1 0 d u = Some (Inl EIO, d\<lparr>lh_outcomes := tl (lh_outcomes d)\<rparr>, u)"
      using rw by (subst lhd_loop.simps) (auto simp: lhd_op_def split: list.splits)
    then show ?thesis using True d unfolding lhd_io_block [OF d u] by (auto simp: disk_ok_def dest: set_tlD)
  next
    case False
    with d have "(case lh_outcomes d of [] \<Rightarrow> LHD_OK | c # _ \<Rightarrow> c) = LHD_OK"
      by (cases "lh_outcomes d"; cases "hd (lh_outcomes d)") (auto simp: disk_ok_def)
    then have "lhd_loop b 1 0 d u = Some (Inr (), d\<lparr>lh_outcomes := tl (lh_outcomes d), lh_buf := sectors d ! b\<rparr>, u')"
      using rw u'(1) len by (subst lhd_loop.simps, subst lhd_loop.simps) (simp add: lhd_op_def)
    then show ?thesis using False u' d len unfolding lhd_io_block [OF d u] by (auto simp: disk_ok_def dest: set_tlD)
  qed
qed

section \<open>Reading and writing a block\<close>

lemma sfs_rwblock_write:
  assumes d: "disk_ok d" and u: "block_uio d b u" and rw: "uio_rw u = UIO_WRITE"
  shows "\<exists>d' u'. sfs_rwblock d u = Some (Inr (), d', u') \<and>
    uio_moved SFS_BLOCKSIZE u u' \<and> iov_mem u' = iov_mem u \<and> disk_ok d' \<and> d_blocks d' = d_blocks d \<and>
    lh_outcomes d' = tl (lh_outcomes d) \<and>
    sectors d' = (if lh_outcomes d \<noteq> [] \<and> hd (lh_outcomes d) = LHD_MEDIA then sectors d
      else (sectors d)[b := mem_get (iov_pos u) SFS_BLOCKSIZE (iov_mem u)])"
proof -
  obtain d' u' where *: "lhd_io d u = Some (if lh_outcomes d \<noteq> [] \<and> hd (lh_outcomes d) = LHD_MEDIA then Inl EIO else Inr (), d', u')"
    "uio_moved SFS_BLOCKSIZE u u'" "iov_mem u' = iov_mem u" "disk_ok d'" "d_blocks d' = d_blocks d"
    "lh_outcomes d' = tl (lh_outcomes d)"
    "sectors d' = (if lh_outcomes d \<noteq> [] \<and> hd (lh_outcomes d) = LHD_MEDIA then sectors d
      else (sectors d)[b := mem_get (iov_pos u) SFS_BLOCKSIZE (iov_mem u)])"
    using lhd_write_block [OF assms] by blast
  have "sfs_rwblock d u = Some (Inr (), d', u')"
  proof (cases "lh_outcomes d \<noteq> [] \<and> hd (lh_outcomes d) = LHD_MEDIA")
    case False
    with *(1) show ?thesis by (simp add: sfs_rwblock_def sfs_rwblock_try.simps [of 0])
  next
    case True
    have "b < d_blocks d'" "b * SFS_BLOCKSIZE < 2 ^ 31" "uio_offset u' = int (Suc b * SFS_BLOCKSIZE)" "uio_resid u' = 0" "d_blocks d' < 2 ^ 31"
      using *(2,4,5) u by (auto simp: block_uio_def uio_moved_def disk_ok_def)
    then have "lhd_io d' u' = Some (Inr (), d', u')"
      by (simp add: lhd_io_def Let_def cdiv_def cmod_def u32_def lhd_loop.simps zdiv_int [symmetric])
    with True *(1) show ?thesis
      by (simp add: sfs_rwblock_def sfs_rwblock_try.simps [of 0] sfs_rwblock_try.simps [of "Suc 0"])
  qed
  with * show ?thesis by blast
qed

lemma sfs_rwblock_try_read:
  "disk_ok d \<Longrightarrow> block_uio d b u \<Longrightarrow> uio_rw u = UIO_READ \<Longrightarrow>
   \<exists>r d' u'. sfs_rwblock_try n d u = Some (r, d', u') \<and> disk_ok d' \<and> d_blocks d' = d_blocks d \<and> sectors d' = sectors d \<and>
    (if r = Inr () then uio_moved SFS_BLOCKSIZE u u' \<and> iov_mem u' = mem_put (iov_pos u) (sectors d ! b) (iov_mem u)
     else r = Inl EIO \<and> u' = u) \<and> (lh_outcomes d = [] \<longrightarrow> r = Inr () \<and> lh_outcomes d' = [])"
proof (induction n d u rule: sfs_rwblock_try.induct)
  case (1 n d u)
  show ?case
  proof (cases "lh_outcomes d \<noteq> [] \<and> hd (lh_outcomes d) = LHD_MEDIA")
    case False
    with lhd_read_block [OF "1.prems"] show ?thesis
      by (subst sfs_rwblock_try.simps) auto
  next
    case True
    then obtain d' where d': "lhd_io d u = Some (Inl EIO, d', u)" "disk_ok d'" "d_blocks d' = d_blocks d" "sectors d' = sectors d"
      using lhd_read_block [OF "1.prems"] by auto
    have "block_uio d' b u" using "1.prems"(2) d'(3) by (simp add: block_uio_def)
    show ?thesis
    proof (cases "n < 10")
      case n: True
      then obtain r e v where e: "sfs_rwblock_try (Suc n) d' u = Some (r, e, v)" "disk_ok e" "d_blocks e = d_blocks d" "sectors e = sectors d"
        "if r = Inr () then uio_moved SFS_BLOCKSIZE u v \<and> iov_mem v = mem_put (iov_pos u) (sectors d ! b) (iov_mem u)
         else r = Inl EIO \<and> v = u"
        using "1.IH" [OF d'(1) refl refl, of "()"] d' \<open>block_uio d' b u\<close> "1.prems"(3) by auto
      moreover have "sfs_rwblock_try n d u = Some (r, e, v)"
        using d'(1) n e(1) by (subst sfs_rwblock_try.simps) simp
      ultimately show ?thesis using True by blast
    next
      case False
      with d' True show ?thesis by (subst sfs_rwblock_try.simps) auto
    qed
  qed
qed

lemma SFSUIO_block:
  assumes "disk_ok d" "b < d_blocks d" "base + SFS_BLOCKSIZE \<le> length data"
  shows "block_uio d b (SFSUIO data base b rw)" "uio_rw (SFSUIO data base b rw) = rw" "iov_pos (SFSUIO data base b rw) = base"
    "iov_mem (SFSUIO data base b rw) = (\<lambda>i. if i < length data then data ! i else 0)" "uio_segflg (SFSUIO data base b rw) = UIO_SYSSPACE"
proof -
  have "b * SFS_BLOCKSIZE + SFS_BLOCKSIZE \<le> d_blocks d * SFS_BLOCKSIZE" "d_blocks d * SFS_BLOCKSIZE < 2 ^ 31"
    using assms(1,2) mult_le_mono1 [of "Suc b" "d_blocks d" SFS_BLOCKSIZE] by (auto simp: disk_ok_def)
  then have "b * SFS_BLOCKSIZE + SFS_BLOCKSIZE < 2 ^ 31" by linarith
  then have pos: "swrap32 (int b * int SFS_BLOCKSIZE) = int (b * SFS_BLOCKSIZE)" "int (b * SFS_BLOCKSIZE) + int SFS_BLOCKSIZE < 2 ^ 31" by simp_all
  have "uio_ready SFS_BLOCKSIZE (SFSUIO data base b rw)"
    unfolding SFSUIO_def pos(1) using pos(2) assms(3) by (intro mk_kuio_ready) simp_all
  then show "block_uio d b (SFSUIO data base b rw)"
    using assms(2) pos(1) by (simp add: block_uio_def SFSUIO_def mk_kuio_def)
qed (simp_all add: SFSUIO_def mk_kuio_def iov_pos_def iov_mem_def fun_eq_iff)

lemma sfs_wblock_ok:
  assumes "disk_ok d" "b < d_blocks d" "base + SFS_BLOCKSIZE \<le> length data"
  shows "\<exists>d'. sfs_wblock d data base b = Some (Inr (), d') \<and> disk_ok d' \<and> d_blocks d' = d_blocks d \<and>
    lh_outcomes d' = tl (lh_outcomes d) \<and>
    sectors d' = (if lh_outcomes d \<noteq> [] \<and> hd (lh_outcomes d) = LHD_MEDIA then sectors d
      else (sectors d)[b := subblk data base SFS_BLOCKSIZE])"
proof -
  note S = SFSUIO_block [OF assms, of UIO_WRITE]
  have "mem_get base SFS_BLOCKSIZE (\<lambda>i. if i < length data then data ! i else 0) = subblk data base SFS_BLOCKSIZE"
    using assms(3) by (intro nth_equalityI) simp_all
  with sfs_rwblock_write [OF assms(1) S(1,2)] S(3,4) show ?thesis by (auto simp: sfs_wblock_def)
qed

lemma sfs_rblock_ok:
  assumes "disk_ok d" "b < d_blocks d" "base + SFS_BLOCKSIZE \<le> length data"
  shows "\<exists>r d' data'. sfs_rblock d data base b = Some (r, d', data') \<and> disk_ok d' \<and> d_blocks d' = d_blocks d \<and> sectors d' = sectors d \<and>
    (if r = Inr () then data' = blit data base (sectors d ! b) else r = Inl EIO \<and> data' = data) \<and>
    (lh_outcomes d = [] \<longrightarrow> r = Inr () \<and> lh_outcomes d' = [])"
proof -
  note S = SFSUIO_block [OF assms, of UIO_READ]
  obtain r d' u' where r: "sfs_rwblock d (SFSUIO data base b UIO_READ) = Some (r, d', u')"
    "disk_ok d'" "d_blocks d' = d_blocks d" "sectors d' = sectors d" "lh_outcomes d = [] \<longrightarrow> r = Inr () \<and> lh_outcomes d' = []"
    "if r = Inr () then uio_moved SFS_BLOCKSIZE (SFSUIO data base b UIO_READ) u' \<and>
       iov_mem u' = mem_put base (sectors d ! b) (\<lambda>i. if i < length data then data ! i else 0)
     else r = Inl EIO \<and> u' = SFSUIO data base b UIO_READ"
    using sfs_rwblock_try_read [OF assms(1) S(1,2), of 0] unfolding sfs_rwblock_def S(3,4) by blast
  have "iov_kbuf u' = blit data base (sectors d ! b)" if "r = Inr ()"
  proof (rule nth_equalityI)
    have len: "length (sectors d ! b) = SFS_BLOCKSIZE" by (rule disk_ok_sector [OF assms(1,2)])
    from r(6) that have m: "uio_segflg u' = UIO_SYSSPACE" "iov_can u' = iov_can (SFSUIO data base b UIO_READ)"
      "iov_mem u' = mem_put base (sectors d ! b) (\<lambda>i. if i < length data then data ! i else 0)"
      using S(5) by (auto simp: uio_moved_def)
    from m(1,2) have lt: "(i < length (iov_kbuf u')) = (i < length data)" for i
      by (auto simp: iov_can_def fun_eq_iff SFSUIO_def mk_kuio_def)
    have l: "length (iov_kbuf u') = length data" using lt [of "length data"] lt [of "length (iov_kbuf u')"] by simp
    with assms(3) len show "length (iov_kbuf u') = length (blit data base (sectors d ! b))" by simp
    fix i assume "i < length (iov_kbuf u')"
    with l m(1) fun_cong [OF m(3), of i] len assms(3) show "iov_kbuf u' ! i = blit data base (sectors d ! b) ! i"
      by (simp add: iov_mem_def mem_put_def blit_nth)
  qed
  moreover have "iov_kbuf (SFSUIO data base b UIO_READ) = data" by (simp add: SFSUIO_def mk_kuio_def)
  ultimately show ?thesis using r by (auto simp: sfs_rblock_def)
qed

lemma sfs_rblock_buf:
  assumes "disk_ok d" "b < d_blocks d" "length data = SFS_BLOCKSIZE" "lh_outcomes d = []"
  shows "\<exists>d'. sfs_rblock d data 0 b = Some (Inr (), d', sectors d ! b) \<and> disk_ok d' \<and> d_blocks d' = d_blocks d \<and>
    sectors d' = sectors d \<and> lh_outcomes d' = []"
  using sfs_rblock_ok [OF assms(1,2), of 0 data] assms(3,4) disk_ok_sector [OF assms(1,2)] by auto

lemma sfs_wblock_buf:
  assumes "disk_ok d" "b < d_blocks d" "length data = SFS_BLOCKSIZE" "lh_outcomes d = []"
  shows "\<exists>d'. sfs_wblock d data 0 b = Some (Inr (), d') \<and> disk_ok d' \<and> d_blocks d' = d_blocks d \<and>
    sectors d' = (sectors d)[b := data] \<and> lh_outcomes d' = []"
  using sfs_wblock_ok [OF assms(1,2), of 0 data] assms(3,4) subblk_all [of data] by auto

section \<open>Properties\<close>

text \<open>C26. On a disk that works, what \<open>sfs_wblock\<close> wrote is what \<open>sfs_rblock\<close> reads back, and
  every other block keeps its contents.\<close>

theorem sfs_block_roundtrip:
  assumes "disk_ok d" "lh_outcomes d = []" "b < d_blocks d" "length data = SFS_BLOCKSIZE" "length buf = SFS_BLOCKSIZE"
  shows "\<exists>d' d''. sfs_wblock d data 0 b = Some (Inr (), d') \<and> sfs_rblock d' buf 0 b = Some (Inr (), d'', data) \<and>
    (\<forall>c. c \<noteq> b \<longrightarrow> sectors d'' ! c = sectors d ! c)"
proof -
  obtain d' where d': "sfs_wblock d data 0 b = Some (Inr (), d')" "disk_ok d'" "d_blocks d' = d_blocks d"
    "sectors d' = (sectors d)[b := data]" "lh_outcomes d' = []"
    using sfs_wblock_buf [OF assms(1,3,4,2)] by blast
  have "b < length (sectors d)" using assms(1,3) by (simp add: disk_ok_def)
  with d' sfs_rblock_buf [OF d'(2), of b buf] assms(3,5) show ?thesis by auto
qed

definition example_disk :: disk where
  "example_disk = \<lparr>d_blocks = 3, sectors = replicate 3 (replicate SFS_BLOCKSIZE 0), lh_buf = replicate SFS_BLOCKSIZE 0, lh_outcomes = []\<rparr>"

theorem sfs_block_roundtrip_witness:
  "\<exists>d' d''. sfs_wblock example_disk (replicate SFS_BLOCKSIZE 7) 0 1 = Some (Inr (), d') \<and>
    sfs_rblock d' (replicate SFS_BLOCKSIZE 0) 0 1 = Some (Inr (), d'', replicate SFS_BLOCKSIZE 7)"
  using sfs_block_roundtrip [of example_disk 1 "replicate SFS_BLOCKSIZE 7" "replicate SFS_BLOCKSIZE 0"]
  by (auto simp: example_disk_def disk_ok_def)

text \<open>C36. A write that the disk refuses is lost without an error. The driver has already consumed the data of
  the \<open>uio\<close> when the disk reports a media error, so the retry in \<open>sfs_rwblock\<close> asks for zero sectors, which
  succeeds: \<open>sfs_wblock\<close> returns 0 and no block was written.\<close>

theorem sfs_wblock_loses_failed_write:
  assumes "disk_ok d" "lh_outcomes d = LHD_MEDIA # rest" "b < d_blocks d" "length data = SFS_BLOCKSIZE"
  shows "\<exists>d'. sfs_wblock d data 0 b = Some (Inr (), d') \<and> sectors d' = sectors d \<and> lh_outcomes d' = rest"
  using sfs_wblock_ok [OF assms(1,3), of 0 data] assms(2,4) by auto

theorem sfs_wblock_loses_failed_write_witness:
  "\<exists>d'. sfs_wblock (example_disk\<lparr>lh_outcomes := [LHD_MEDIA]\<rparr>) (replicate SFS_BLOCKSIZE 7) 0 1 = Some (Inr (), d') \<and>
    sectors d' = sectors example_disk"
  using sfs_wblock_loses_failed_write [of "example_disk\<lparr>lh_outcomes := [LHD_MEDIA]\<rparr>" "[]" 1 "replicate SFS_BLOCKSIZE 7"]
  by (auto simp: example_disk_def disk_ok_def)

end
