(* ===== verification/Kern_SFS.thy ===== *)
theory Kern_SFS
  imports Kern_Bitmap Kern_Array Kern_Disk
begin

text \<open>
  SFS, the file system of \<open>kern/fs/sfs\<close>: its data structures, space allocation, block mapping and file I/O
  (the first half of \<open>sfs_vnode.c\<close>).

  The structures that live in a disk block (\<open>struct sfs_inode\<close>, the indirect block) are read and written as
  blocks of 512 bytes; numbers are stored big-endian, as on the MIPS. The in-memory inode of a vnode is passed to
  the operations as a value of type \<open>sfs_vnode\<close> and returned updated; the vnode table and the
  operations that work on several vnodes are in \<open>Kern_SFS_Dir\<close>.
\<close>

section \<open>Data\<close>

abbreviation (input) SFS_NDIRECT :: nat where "SFS_NDIRECT \<equiv> 15"
abbreviation (input) SFS_DBPERIDB :: nat where "SFS_DBPERIDB \<equiv> 128"
abbreviation (input) SFS_TYPE_INVAL :: nat where "SFS_TYPE_INVAL \<equiv> 0"
abbreviation (input) SFS_TYPE_FILE :: nat where "SFS_TYPE_FILE \<equiv> 1"
abbreviation (input) SFS_TYPE_DIR :: nat where "SFS_TYPE_DIR \<equiv> 2"

record sfs_super =
  sp_magic :: nat
  sp_nblocks :: nat
  sp_volname :: "byte list"
  sp_reserved :: "byte list"

record sfs_inode =
  sfi_size :: nat
  sfi_type :: nat
  sfi_linkcount :: nat
  sfi_direct :: "nat list"
  sfi_indirect :: nat
  sfi_waste :: "byte list"

record sfs_vnode =
  vn_refcount :: int
  vn_opencount :: int
  sv_isdir :: bool
  sv_i :: sfs_inode
  sv_ino :: nat
  sv_dirty :: bool

record sfs_fs =
  sfs_super :: sfs_super
  sfs_superdirty :: bool
  sfs_device :: disk
  sfs_vnodes :: "nat array"
  sfs_freemap :: bitmap
  sfs_freemapdirty :: bool
  sfs_heap :: "nat \<Rightarrow> sfs_vnode option"

section \<open>Big-endian numbers and blocks of numbers\<close>

fun put_be :: "nat \<Rightarrow> nat \<Rightarrow> byte list" where
  "put_be 0 n = []"
| "put_be (Suc k) n = put_be k (n div 256) @ [of_nat n]"

definition get_be :: "byte list \<Rightarrow> nat" where
  "get_be bs = foldl (\<lambda>n b. n * 256 + unat b) 0 bs"

fun words_of_bytes :: "byte list \<Rightarrow> nat list" where
  "words_of_bytes (a # b # c # d # bs) = get_be [a, b, c, d] # words_of_bytes bs"
| "words_of_bytes bs = []"

definition bytes_of_words :: "nat list \<Rightarrow> byte list" where
  "bytes_of_words ns = concat (map (put_be 4) ns)"

definition inode_to_block :: "sfs_inode \<Rightarrow> byte list" where
  \<comment> \<open>the memory of a \<open>struct sfs_inode\<close>\<close>
  "inode_to_block i = put_be 4 (sfi_size i) @ put_be 2 (sfi_type i) @ put_be 2 (sfi_linkcount i) @
     bytes_of_words (sfi_direct i) @ put_be 4 (sfi_indirect i) @ sfi_waste i"

definition inode_of_block :: "byte list \<Rightarrow> sfs_inode" where
  "inode_of_block b = \<lparr>sfi_size = get_be (subblk b 0 4), sfi_type = get_be (subblk b 4 2),
     sfi_linkcount = get_be (subblk b 6 2), sfi_direct = words_of_bytes (subblk b 8 60),
     sfi_indirect = get_be (subblk b 68 4), sfi_waste = drop 72 b\<rparr>"

section \<open>Inodes and space allocation\<close>

definition zeroblock :: "byte list" where
  "zeroblock = replicate SFS_BLOCKSIZE 0"

definition sfs_clearblock :: "sfs_fs \<Rightarrow> nat \<Rightarrow> (unit res \<times> sfs_fs) option" where
  "sfs_clearblock fs block = do {
     (r, d) \<leftarrow> sfs_wblock (sfs_device fs) zeroblock 0 block;
     Some (r, fs\<lparr>sfs_device := d\<rparr>)
   }"

definition sfs_sync_inode :: "sfs_fs \<Rightarrow> sfs_vnode \<Rightarrow> (unit res \<times> sfs_fs \<times> sfs_vnode) option" where
  "sfs_sync_inode fs sv =
     (if sv_dirty sv then do {
        (r, d) \<leftarrow> sfs_wblock (sfs_device fs) (inode_to_block (sv_i sv)) 0 (sv_ino sv);
        let fs' = fs\<lparr>sfs_device := d\<rparr>;
        (case r of Inl e \<Rightarrow> Some (Inl e, fs', sv) | Inr _ \<Rightarrow> Some (Inr (), fs', sv\<lparr>sv_dirty := False\<rparr>))
      }
      else Some (Inr (), fs, sv))"

definition sfs_balloc :: "sfs_fs \<Rightarrow> (nat res \<times> sfs_fs) option" where
  "sfs_balloc fs = do {
     (r, map') \<leftarrow> bitmap_alloc (sfs_freemap fs);
     (case r of
        Inl e \<Rightarrow> Some (Inl e, fs\<lparr>sfs_freemap := map'\<rparr>)
      | Inr diskblock \<Rightarrow> do {
          let fs1 = fs\<lparr>sfs_freemap := map', sfs_freemapdirty := True\<rparr>;
          kassert (diskblock < sp_nblocks (sfs_super fs1));
          (c, fs2) \<leftarrow> sfs_clearblock fs1 diskblock;
          (case c of Inl e \<Rightarrow> Some (Inl e, fs2) | Inr _ \<Rightarrow> Some (Inr diskblock, fs2))
        })
   }"

definition sfs_bfree :: "sfs_fs \<Rightarrow> nat \<Rightarrow> sfs_fs option" where
  "sfs_bfree fs diskblock = do {
     map' \<leftarrow> bitmap_unmark (sfs_freemap fs) diskblock;
     Some (fs\<lparr>sfs_freemap := map', sfs_freemapdirty := True\<rparr>)
   }"

definition sfs_bused :: "sfs_fs \<Rightarrow> nat \<Rightarrow> bool option" where
  "sfs_bused fs diskblock = do {
     kassert (diskblock < sp_nblocks (sfs_super fs));
     w \<leftarrow> bitmap_isset (sfs_freemap fs) diskblock;
     Some (w \<noteq> 0)
   }"

section \<open>Block mapping\<close>

definition sfs_check_block :: "sfs_fs \<Rightarrow> nat \<Rightarrow> unit option" where
  \<comment> \<open>\<open>if (block != 0 && !sfs_bused(sfs, block)) panic(...)\<close>\<close>
  "sfs_check_block fs block = (if block \<noteq> 0 then do { b \<leftarrow> sfs_bused fs block; kassert b } else Some ())"

definition sfs_bmap_direct :: "sfs_fs \<Rightarrow> sfs_vnode \<Rightarrow> nat \<Rightarrow> bool \<Rightarrow> (nat res \<times> sfs_fs \<times> sfs_vnode) option" where
  \<comment> \<open>the case \<open>fileblock < SFS_NDIRECT\<close>\<close>
  "sfs_bmap_direct fs sv fileblock doalloc = do {
     block \<leftarrow> rd (sfi_direct (sv_i sv)) (int fileblock);
     (if block = 0 \<and> doalloc then do {
        (result, fs') \<leftarrow> sfs_balloc fs;
        (case result of
           Inl e \<Rightarrow> Some (Inl e, fs', sv)
         | Inr b \<Rightarrow> do {
             let sv' = sv\<lparr>sv_i := (sv_i sv)\<lparr>sfi_direct := (sfi_direct (sv_i sv))[fileblock := b]\<rparr>, sv_dirty := True\<rparr>;
             sfs_check_block fs' b;
             Some (Inr b, fs', sv')
           })
      }
      else do {
        sfs_check_block fs block;
        Some (Inr block, fs, sv)
      })
   }"

definition sfs_bmap_idbuf :: "sfs_fs \<Rightarrow> sfs_vnode \<Rightarrow> nat \<Rightarrow> bool \<Rightarrow> nat list \<Rightarrow> nat \<Rightarrow> (nat res \<times> sfs_fs \<times> sfs_vnode) option" where
  \<comment> \<open>the rest of the function once \<open>idbuf\<close> holds the indirect block \<open>idblock\<close>\<close>
  "sfs_bmap_idbuf fs sv idoff doalloc idbuf idblock = do {
     block \<leftarrow> rd idbuf (int idoff);
     (if block = 0 \<and> doalloc then do {
        (result, fs') \<leftarrow> sfs_balloc fs;
        (case result of
           Inl e \<Rightarrow> Some (Inl e, fs', sv)
         | Inr b \<Rightarrow> do {
             (w, d) \<leftarrow> sfs_wblock (sfs_device fs') (bytes_of_words (idbuf[idoff := b])) 0 idblock;
             let fs'' = fs'\<lparr>sfs_device := d\<rparr>;
             (case w of
                Inl e \<Rightarrow> Some (Inl e, fs'', sv)
              | Inr _ \<Rightarrow> do { sfs_check_block fs'' b; Some (Inr b, fs'', sv) })
           })
      }
      else do {
        sfs_check_block fs block;
        Some (Inr block, fs, sv)
      })
   }"

definition sfs_bmap :: "sfs_fs \<Rightarrow> sfs_vnode \<Rightarrow> nat \<Rightarrow> bool \<Rightarrow> (nat res \<times> sfs_fs \<times> sfs_vnode) option" where
  "sfs_bmap fs sv fileblock doalloc =
     (if fileblock < SFS_NDIRECT then sfs_bmap_direct fs sv fileblock doalloc
      else let fb = fileblock - SFS_NDIRECT; idnum = fb div SFS_DBPERIDB; idoff = fb mod SFS_DBPERIDB in
        if idnum > 0 then Some (Inl EINVAL, fs, sv)
        else let idblock = sfi_indirect (sv_i sv) in
          if idblock = 0 \<and> \<not> doalloc then Some (Inr 0, fs, sv)
          else if idblock = 0 then do {
            (result, fs') \<leftarrow> sfs_balloc fs;
            (case result of
               Inl e \<Rightarrow> Some (Inl e, fs', sv)
             | Inr b \<Rightarrow>
                 sfs_bmap_idbuf fs' (sv\<lparr>sv_i := (sv_i sv)\<lparr>sfi_indirect := b\<rparr>, sv_dirty := True\<rparr>) idoff doalloc
                   (replicate SFS_DBPERIDB 0) b)
          }
          else do {
            (result, d, idbuf) \<leftarrow> sfs_rblock (sfs_device fs) zeroblock 0 idblock;
            let fs' = fs\<lparr>sfs_device := d\<rparr>;
            (case result of
               Inl e \<Rightarrow> Some (Inl e, fs', sv)
             | Inr _ \<Rightarrow> sfs_bmap_idbuf fs' sv idoff doalloc (words_of_bytes idbuf) idblock)
          })"

section \<open>File I/O\<close>

type_synonym sfs_io_result = "unit res \<times> sfs_fs \<times> sfs_vnode \<times> uio"

definition sfs_partialio :: "sfs_fs \<Rightarrow> sfs_vnode \<Rightarrow> uio \<Rightarrow> nat \<Rightarrow> nat \<Rightarrow> sfs_io_result option" where
  "sfs_partialio fs sv u skipstart len = do {
     let doalloc = (uio_rw u = UIO_WRITE);
     kassert (skipstart + len \<le> SFS_BLOCKSIZE);
     let fileblock = u32 (cdiv (uio_offset u) (int SFS_BLOCKSIZE));
     (result, fs1, sv1) \<leftarrow> sfs_bmap fs sv fileblock doalloc;
     (case result of
        Inl e \<Rightarrow> Some (Inl e, fs1, sv1, u)
      | Inr diskblock \<Rightarrow> do {
          (r, fs2, iobuf) \<leftarrow> (if diskblock = 0 then do {
               kassert (uio_rw u = UIO_READ);
               Some (Inr (), fs1, zeroblock)
             }
             else do {
               (r, d, buf) \<leftarrow> sfs_rblock (sfs_device fs1) zeroblock 0 diskblock;
               Some (r, fs1\<lparr>sfs_device := d\<rparr>, buf)
             });
          (case r of
             Inl e \<Rightarrow> Some (Inl e, fs2, sv1, u)
           | Inr _ \<Rightarrow> do {
               (m, iobuf', u') \<leftarrow> uiomove iobuf skipstart len u;
               (case m of
                  Inl e \<Rightarrow> Some (Inl e, fs2, sv1, u')
                | Inr _ \<Rightarrow>
                    if uio_rw u' = UIO_WRITE then do {
                      (w, d) \<leftarrow> sfs_wblock (sfs_device fs2) iobuf' 0 diskblock;
                      Some (w, fs2\<lparr>sfs_device := d\<rparr>, sv1, u')
                    }
                    else Some (Inr (), fs2, sv1, u'))
             })
        })
   }"

definition sfs_blockio :: "sfs_fs \<Rightarrow> sfs_vnode \<Rightarrow> uio \<Rightarrow> sfs_io_result option" where
  "sfs_blockio fs sv u = do {
     let doalloc = (uio_rw u = UIO_WRITE);
     let fileblock = u32 (cdiv (uio_offset u) (int SFS_BLOCKSIZE));
     (result, fs1, sv1) \<leftarrow> sfs_bmap fs sv fileblock doalloc;
     (case result of
        Inl e \<Rightarrow> Some (Inl e, fs1, sv1, u)
      | Inr diskblock \<Rightarrow>
          if diskblock = 0 then do {
            kassert (uio_rw u = UIO_READ);
            (r, u') \<leftarrow> uiomovezeros SFS_BLOCKSIZE u;
            Some (r, fs1, sv1, u')
          }
          else do {
            let saveoff = uio_offset u;
            let diskoff = swrap32 (int diskblock * int SFS_BLOCKSIZE);
            kassert (uio_resid u \<ge> SFS_BLOCKSIZE);
            let saveres = uio_resid u;
            (r, d, u1) \<leftarrow> sfs_rwblock (sfs_device fs1) (u\<lparr>uio_offset := diskoff, uio_resid := SFS_BLOCKSIZE\<rparr>);
            Some (r, fs1\<lparr>sfs_device := d\<rparr>, sv1,
              u1\<lparr>uio_offset := swrap32 (uio_offset u1 - diskoff + saveoff),
                 uio_resid := u32 (int (uio_resid u1) - int SFS_BLOCKSIZE + int saveres)\<rparr>)
          })
   }"

fun sfs_io_blocks :: "nat \<Rightarrow> sfs_fs \<Rightarrow> sfs_vnode \<Rightarrow> uio \<Rightarrow> sfs_io_result option" where
  \<comment> \<open>\<open>for (i=0; i<nblocks; i++)\<close>\<close>
  "sfs_io_blocks 0 fs sv u = Some (Inr (), fs, sv, u)"
| "sfs_io_blocks (Suc n) fs sv u = do {
     (r, fs', sv', u') \<leftarrow> sfs_blockio fs sv u;
     (case r of Inl e \<Rightarrow> Some (Inl e, fs', sv', u') | Inr _ \<Rightarrow> sfs_io_blocks n fs' sv' u')
   }"

definition sfs_io_lead :: "sfs_fs \<Rightarrow> sfs_vnode \<Rightarrow> uio \<Rightarrow> sfs_io_result option" where
  \<comment> \<open>the leading partial block\<close>
  "sfs_io_lead fs sv u =
     (let blkoff = u32 (cmod (uio_offset u) (int SFS_BLOCKSIZE)) in
      if blkoff \<noteq> 0 then sfs_partialio fs sv u blkoff (min (SFS_BLOCKSIZE - blkoff) (uio_resid u))
      else Some (Inr (), fs, sv, u))"

definition sfs_io_rest :: "sfs_fs \<Rightarrow> sfs_vnode \<Rightarrow> uio \<Rightarrow> sfs_io_result option" where
  \<comment> \<open>the whole blocks and the partial block at the end\<close>
  "sfs_io_rest fs sv u =
     (if uio_resid u = 0 then Some (Inr (), fs, sv, u)
      else do {
        kassert (cmod (uio_offset u) (int SFS_BLOCKSIZE) = 0);
        (r, fs', sv', u') \<leftarrow> sfs_io_blocks (uio_resid u div SFS_BLOCKSIZE) fs sv u;
        (case r of
           Inl e \<Rightarrow> Some (Inl e, fs', sv', u')
         | Inr _ \<Rightarrow> do {
             kassert (uio_resid u' < SFS_BLOCKSIZE);
             (if uio_resid u' > 0 then sfs_partialio fs' sv' u' 0 (uio_resid u') else Some (Inr (), fs', sv', u'))
           })
      })"

definition sfs_io_out :: "nat \<Rightarrow> sfs_io_result \<Rightarrow> sfs_io_result" where
  \<comment> \<open>the code from \<open>out:\<close> on\<close>
  "sfs_io_out extraresid = (\<lambda>(r, fs, sv, u).
     let sv' = (if uio_rw u = UIO_WRITE \<and> uio_offset u > swrap32 (int (sfi_size (sv_i sv)))
                then sv\<lparr>sv_i := (sv_i sv)\<lparr>sfi_size := u32 (uio_offset u)\<rparr>, sv_dirty := True\<rparr> else sv)
     in (r, fs, sv', u\<lparr>uio_resid := u32 (int (uio_resid u) + int extraresid)\<rparr>))"

definition sfs_io_body :: "sfs_fs \<Rightarrow> sfs_vnode \<Rightarrow> uio \<Rightarrow> sfs_io_result option" where
  "sfs_io_body fs sv u = do {
     (r, fs', sv', u') \<leftarrow> sfs_io_lead fs sv u;
     (case r of Inl e \<Rightarrow> Some (Inl e, fs', sv', u') | Inr _ \<Rightarrow> sfs_io_rest fs' sv' u')
   }"

definition sfs_io :: "sfs_fs \<Rightarrow> sfs_vnode \<Rightarrow> uio \<Rightarrow> sfs_io_result option" where
  "sfs_io fs sv u =
     (let sz = swrap32 (int (sfi_size (sv_i sv)));
          endpos = swrap32 (uio_offset u + int (uio_resid u))
      in if uio_rw u = UIO_READ then
           if uio_offset u \<ge> sz then Some (Inr (), fs, sv, u)
           else if endpos > sz then
             let extraresid = u32 (endpos - sz) in do {
               kassert (uio_resid u > extraresid);
               out \<leftarrow> sfs_io_body fs sv (u\<lparr>uio_resid := uio_resid u - extraresid\<rparr>);
               Some (sfs_io_out extraresid out)
             }
           else map_option (sfs_io_out 0) (sfs_io_body fs sv u)
         else map_option (sfs_io_out 0) (sfs_io_body fs sv u))"

end
