(* ===== verification/Kern_SFS_Bmap.thy ===== *)
theory Kern_SFS_Bmap
  imports Kern_SFS
begin

text \<open>
  Correctness of the on-disk encoding, of the block allocator and of the block mapping of SFS.

  \<open>fmap fs i k\<close> is the disk block that holds block \<open>k\<close> of the file with inode \<open>i\<close> (0 for a hole) and
  \<open>cont fs i\<close> the contents of the file. \<open>keeps\<close> says what an operation on one file leaves alone: every
  block that is in use and does not belong to the file.
\<close>

section \<open>Encoding\<close>

lemma put_be_length [simp]: "length (put_be k n) = k"
  by (induction k n rule: put_be.induct) simp_all

lemma get_be_snoc: "get_be (bs @ [b]) = get_be bs * 256 + unat b"
  by (simp add: get_be_def)

lemma get_put_be: "get_be (put_be k n) = n mod 256 ^ k"
proof (induction k n rule: put_be.induct)
  case (1 n)
  then show ?case by (simp add: get_be_def)
next
  case (2 k n)
  have "unat (of_nat n :: byte) = n mod 256" by (simp add: unat_of_nat)
  with 2 show ?case
    by (simp add: get_be_snoc mod_mult2_eq mult.commute)
qed

lemma get_put_be_id [simp]: "n < 256 ^ k \<Longrightarrow> get_be (put_be k n) = n"
  by (simp add: get_put_be)

lemma get_be_less: "get_be bs < 256 ^ length bs"
proof (induction bs rule: rev_induct)
  case Nil
  then show ?case by (simp add: get_be_def)
next
  case (snoc b bs)
  have "unat b < 256" using unsigned_less [of b] by simp
  moreover have "(get_be bs + 1) * 256 \<le> 256 ^ length bs * 256" using snoc by (intro mult_le_mono1) simp
  ultimately show ?case by (simp add: get_be_snoc)
qed

lemma put_get_be: "put_be (length bs) (get_be bs) = bs"
proof (induction bs rule: rev_induct)
  case Nil
  then show ?case by simp
next
  case (snoc b bs)
  have "unat b < 256" using unsigned_less [of b] by simp
  then have "(get_be bs * 256 + unat b) div 256 = get_be bs" by simp
  moreover have "unat (of_nat (get_be bs * 256 + unat b) :: byte) = unat b"
    using \<open>unat b < 256\<close> by (simp add: unat_of_nat del: of_nat_add of_nat_mult)
  then have "(of_nat (get_be bs * 256 + unat b) :: byte) = b" by (simp only: word_unat_eq_iff)
  ultimately show ?case using snoc by (simp add: get_be_snoc)
qed

lemma put_be_4: "\<exists>a b c d. put_be 4 n = [a, b, c, d]"
proof -
  have "length (put_be 4 n) = Suc (Suc (Suc (Suc 0)))" by simp
  then show ?thesis unfolding length_Suc_conv by auto
qed

lemma put_be_zero: "put_be k 0 = replicate k 0"
  by (induction k) (simp_all add: replicate_append_same)

lemma bytes_of_words_Nil [simp]: "bytes_of_words [] = []"
  by (simp add: bytes_of_words_def)

lemma bytes_of_words_Cons: "bytes_of_words (n # ns) = put_be 4 n @ bytes_of_words ns"
  by (simp add: bytes_of_words_def)

lemma bytes_of_words_length [simp]: "length (bytes_of_words ns) = 4 * length ns"
  by (induction ns) (simp_all add: bytes_of_words_Cons)

lemma words_of_bytes_append: "words_of_bytes (put_be 4 n @ bs) = n mod 2 ^ 32 # words_of_bytes bs"
proof -
  obtain a b c d where *: "put_be 4 n = [a, b, c, d]" using put_be_4 by blast
  have "get_be [a, b, c, d] = n mod 2 ^ 32" using get_put_be [of 4 n] by (simp add: *)
  then show ?thesis by (simp add: *)
qed

lemma words_bytes_id: "\<forall>n \<in> set ns. n < 2 ^ 32 \<Longrightarrow> words_of_bytes (bytes_of_words ns) = ns"
  by (induction ns) (simp_all add: bytes_of_words_Cons words_of_bytes_append)

lemma words_of_bytes_length [simp]: "length (words_of_bytes bs) = length bs div 4"
  by (induction bs rule: words_of_bytes.induct) simp_all

lemma words_of_bytes_less: "n \<in> set (words_of_bytes bs) \<Longrightarrow> n < 2 ^ 32"
proof (induction bs rule: words_of_bytes.induct)
  case (1 a b c d bs)
  then show ?case using get_be_less [of "[a, b, c, d]"] by auto
qed simp_all

lemma bytes_words_id: "4 dvd length bs \<Longrightarrow> bytes_of_words (words_of_bytes bs) = bs"
proof (induction bs rule: words_of_bytes.induct)
  case (1 a b c d bs)
  have "length [a, b, c, d] = 4" by simp
  then have "put_be 4 (get_be [a, b, c, d]) = [a, b, c, d]" using put_get_be [of "[a, b, c, d]"] by (simp only:)
  moreover have "4 dvd length bs" using 1(2) by (simp add: dvd_def) presburger
  ultimately show ?case using 1(1) by (simp add: bytes_of_words_Cons)
qed (simp_all, presburger+)

lemma words_zeroblock: "words_of_bytes zeroblock = replicate SFS_DBPERIDB 0"
proof -
  have "bytes_of_words (replicate SFS_DBPERIDB 0) = zeroblock"
  proof -
    have *: "bytes_of_words (replicate m 0) = replicate (4 * m) 0" for m
      by (induction m) (simp_all add: bytes_of_words_Cons put_be_zero replicate_add [symmetric])
    show ?thesis using * [of SFS_DBPERIDB] by (simp add: zeroblock_def)
  qed
  then show ?thesis using words_bytes_id [of "replicate SFS_DBPERIDB 0"] by simp
qed

section \<open>The file system invariant\<close>

abbreviation nblk :: "sfs_fs \<Rightarrow> nat" where "nblk fs \<equiv> sp_nblocks (sfs_super fs)"
abbreviation blk :: "sfs_fs \<Rightarrow> nat \<Rightarrow> byte list" where "blk fs c \<equiv> sectors (sfs_device fs) ! c"

definition in_use :: "sfs_fs \<Rightarrow> nat \<Rightarrow> bool" where
  "in_use fs c \<longleftrightarrow> c < nblk fs \<and> bm_used (sfs_freemap fs) c"

definition fs_ok :: "sfs_fs \<Rightarrow> bool" where
  \<comment> \<open>the disk works, the free map covers the volume and block 0, the superblock, is never free\<close>
  "fs_ok fs \<longleftrightarrow> disk_ok (sfs_device fs) \<and> lh_outcomes (sfs_device fs) = [] \<and> bitmap_inv (sfs_freemap fs) \<and>
     nblk fs \<le> d_blocks (sfs_device fs) \<and> nblk fs \<le> nbits (sfs_freemap fs) \<and>
     (\<forall>c. nblk fs \<le> c \<and> c < nbits (sfs_freemap fs) \<longrightarrow> bm_used (sfs_freemap fs) c) \<and> in_use fs 0"

definition same_meta :: "sfs_fs \<Rightarrow> sfs_fs \<Rightarrow> bool" where
  "same_meta fs fs' \<longleftrightarrow> sfs_super fs' = sfs_super fs \<and> sfs_superdirty fs' = sfs_superdirty fs \<and>
     sfs_vnodes fs' = sfs_vnodes fs \<and> sfs_heap fs' = sfs_heap fs \<and> length (sectors (sfs_device fs')) = length (sectors (sfs_device fs))"

lemma same_meta_refl [simp]: "same_meta fs fs"
  by (simp add: same_meta_def)

lemma same_meta_trans: "same_meta a b \<Longrightarrow> same_meta b c \<Longrightarrow> same_meta a c"
  by (simp add: same_meta_def)

lemma same_meta_nblk: "same_meta fs fs' \<Longrightarrow> nblk fs' = nblk fs"
  by (simp add: same_meta_def)

lemma fs_ok_blk: "fs_ok fs \<Longrightarrow> c < nblk fs \<Longrightarrow> length (blk fs c) = SFS_BLOCKSIZE \<and> c < d_blocks (sfs_device fs) \<and> c < length (sectors (sfs_device fs))"
  using disk_ok_sector [of "sfs_device fs" c] by (auto simp: fs_ok_def disk_ok_def)

lemma fs_ok_nblk: "fs_ok fs \<Longrightarrow> nblk fs < 2 ^ 22"
  by (auto simp: fs_ok_def disk_ok_def)

lemma fs_ok_device:
  assumes "fs_ok fs" "disk_ok d" "lh_outcomes d = []" "d_blocks d = d_blocks (sfs_device fs)"
  shows "fs_ok (fs\<lparr>sfs_device := d\<rparr>)"
  using assms by (simp add: fs_ok_def in_use_def)

lemma sfs_read_ok:
  assumes "fs_ok fs" "c < nblk fs" "length buf = SFS_BLOCKSIZE"
  obtains d where "sfs_rblock (sfs_device fs) buf 0 c = Some (Inr (), d, blk fs c)" "fs_ok (fs\<lparr>sfs_device := d\<rparr>)"
    "sectors d = sectors (sfs_device fs)" "same_meta fs (fs\<lparr>sfs_device := d\<rparr>)"
proof -
  from fs_ok_blk [OF assms(1,2)] assms obtain d where "sfs_rblock (sfs_device fs) buf 0 c = Some (Inr (), d, blk fs c)"
    "disk_ok d" "d_blocks d = d_blocks (sfs_device fs)" "sectors d = sectors (sfs_device fs)" "lh_outcomes d = []"
    using sfs_rblock_buf [of "sfs_device fs" c buf] by (auto simp: fs_ok_def)
  then show thesis using that fs_ok_device [OF assms(1)] by (simp add: same_meta_def)
qed

lemma sfs_write_ok:
  assumes "fs_ok fs" "c < nblk fs" "length buf = SFS_BLOCKSIZE"
  obtains d where "sfs_wblock (sfs_device fs) buf 0 c = Some (Inr (), d)" "fs_ok (fs\<lparr>sfs_device := d\<rparr>)"
    "sectors d = (sectors (sfs_device fs))[c := buf]" "same_meta fs (fs\<lparr>sfs_device := d\<rparr>)"
proof -
  from fs_ok_blk [OF assms(1,2)] assms obtain d where "sfs_wblock (sfs_device fs) buf 0 c = Some (Inr (), d)"
    "disk_ok d" "d_blocks d = d_blocks (sfs_device fs)" "sectors d = (sectors (sfs_device fs))[c := buf]" "lh_outcomes d = []"
    using sfs_wblock_buf [of "sfs_device fs" c buf] by (auto simp: fs_ok_def)
  then show thesis using that fs_ok_device [OF assms(1)] by (simp add: same_meta_def)
qed

section \<open>Allocating a block\<close>

lemma zeroblock_length [simp]: "length zeroblock = SFS_BLOCKSIZE"
  by (simp add: zeroblock_def)

definition sfs_full :: "sfs_fs \<Rightarrow> bool" where
  "sfs_full fs \<longleftrightarrow> (\<forall>c < nblk fs. in_use fs c)"

lemma sfs_balloc_cases:
  assumes "fs_ok fs"
  obtains (full) "sfs_balloc fs = Some (Inl ENOSPC, fs)" "sfs_full fs"
  | (fresh) b fs' where "sfs_balloc fs = Some (Inr b, fs')" "fs_ok fs'" "0 < b" "b < nblk fs" "\<not> in_use fs b"
      "in_use fs' = (in_use fs)(b := True)" "sectors (sfs_device fs') = (sectors (sfs_device fs))[b := zeroblock]" "same_meta fs fs'"
proof -
  from assms have inv: "bitmap_inv (sfs_freemap fs)" and pad: "\<forall>c. nblk fs \<le> c \<and> c < nbits (sfs_freemap fs) \<longrightarrow> bm_used (sfs_freemap fs) c"
    and nb: "nblk fs \<le> nbits (sfs_freemap fs)" and z: "in_use fs 0" by (auto simp: fs_ok_def)
  from inv show thesis
  proof (cases rule: bm.alloc_cases)
    case (1 b m)
    from 1(2,3) pad have b: "b < nblk fs" by (meson not_le)
    from 1(3) z have "\<not> in_use fs b" "b \<noteq> 0" by (auto simp: in_use_def intro!: gr0I)
    let ?fs = "fs\<lparr>sfs_freemap := m, sfs_freemapdirty := True\<rparr>"
    have use: "in_use ?fs = (in_use fs)(b := True)" using b 1(6) by (auto simp: in_use_def fun_eq_iff)
    have ok: "fs_ok ?fs" using assms 1(5-7) b by (auto simp: fs_ok_def in_use_def)
    obtain d where d: "sfs_wblock (sfs_device ?fs) zeroblock 0 b = Some (Inr (), d)" "fs_ok (?fs\<lparr>sfs_device := d\<rparr>)"
      "sectors d = (sectors (sfs_device ?fs))[b := zeroblock]" "same_meta ?fs (?fs\<lparr>sfs_device := d\<rparr>)"
      using sfs_write_ok [OF ok, of b zeroblock] b by auto
    have "sfs_balloc fs = Some (Inr b, ?fs\<lparr>sfs_device := d\<rparr>)"
      using 1(1) b d(1) by (simp add: sfs_balloc_def sfs_clearblock_def)
    moreover have "in_use (?fs\<lparr>sfs_device := d\<rparr>) = (in_use fs)(b := True)" using use by (simp add: in_use_def fun_eq_iff)
    ultimately show thesis using fresh [of b "?fs\<lparr>sfs_device := d\<rparr>"] d b \<open>\<not> in_use fs b\<close> \<open>b \<noteq> 0\<close>
      by (simp add: same_meta_def)
  next
    case 2
    then have "sfs_balloc fs = Some (Inl ENOSPC, fs)" by (simp add: sfs_balloc_def)
    with full 2(2) nb show thesis by (simp add: in_use_def sfs_full_def)
  qed
qed

lemma sfs_check_block_ok: "fs_ok fs \<Longrightarrow> c = 0 \<or> in_use fs c \<Longrightarrow> sfs_check_block fs c = Some ()"
  using bitmap_isset_ok [of "sfs_freemap fs" c]
  by (auto simp: sfs_check_block_def sfs_bused_def in_use_def fs_ok_def kassert_def)

lemma sfs_bfree_ok:
  assumes "fs_ok fs" "in_use fs c" "c \<noteq> 0"
  obtains fs' where "sfs_bfree fs c = Some fs'" "fs_ok fs'" "in_use fs' = (in_use fs)(c := False)"
    "sectors (sfs_device fs') = sectors (sfs_device fs)" "same_meta fs fs'"
proof -
  from assms obtain m where m: "bitmap_unmark (sfs_freemap fs) c = Some m" "bitmap_inv m"
    "bm_used m = (bm_used (sfs_freemap fs))(c := False)" "nbits m = nbits (sfs_freemap fs)"
    using bitmap_unmark_ok [of "sfs_freemap fs" c] by (auto simp: fs_ok_def in_use_def)
  let ?fs = "fs\<lparr>sfs_freemap := m, sfs_freemapdirty := True\<rparr>"
  have "fs_ok ?fs" using assms m by (auto simp: fs_ok_def in_use_def)
  moreover have "in_use ?fs = (in_use fs)(c := False)" using m(3) by (auto simp: in_use_def fun_eq_iff)
  ultimately show thesis using that [of ?fs] m(1) by (simp add: sfs_bfree_def same_meta_def)
qed

section \<open>Files\<close>

definition fmap :: "sfs_fs \<Rightarrow> sfs_inode \<Rightarrow> nat \<Rightarrow> nat" where
  "fmap fs i k = (if k < SFS_NDIRECT then sfi_direct i ! k
     else if k < SFS_NDIRECT + SFS_DBPERIDB \<and> sfi_indirect i \<noteq> 0 then words_of_bytes (blk fs (sfi_indirect i)) ! (k - SFS_NDIRECT)
     else 0)"

definition file_blocks :: "sfs_fs \<Rightarrow> sfs_inode \<Rightarrow> nat set" where
  "file_blocks fs i = (fmap fs i ` UNIV \<union> {sfi_indirect i}) - {0}"

definition inode_ok :: "sfs_fs \<Rightarrow> sfs_inode \<Rightarrow> bool" where
  \<comment> \<open>the blocks of the file are in use and no block has two places in it\<close>
  "inode_ok fs i \<longleftrightarrow> length (sfi_direct i) = SFS_NDIRECT \<and> (\<forall>c \<in> file_blocks fs i. in_use fs c) \<and>
     (\<forall>j k. fmap fs i j = fmap fs i k \<and> fmap fs i j \<noteq> 0 \<longrightarrow> j = k) \<and>
     (\<forall>k. fmap fs i k = sfi_indirect i \<longrightarrow> fmap fs i k = 0)"

definition cont :: "sfs_fs \<Rightarrow> sfs_inode \<Rightarrow> nat \<Rightarrow> byte" where
  "cont fs i off = (let c = fmap fs i (off div SFS_BLOCKSIZE) in if c = 0 then 0 else blk fs c ! (off mod SFS_BLOCKSIZE))"

definition keeps :: "sfs_fs \<Rightarrow> sfs_inode \<Rightarrow> sfs_fs \<Rightarrow> sfs_inode \<Rightarrow> bool" where
  "keeps fs i fs' i' \<longleftrightarrow> fs_ok fs' \<and> inode_ok fs' i' \<and> same_meta fs fs' \<and>
     sfi_type i' = sfi_type i \<and> sfi_linkcount i' = sfi_linkcount i \<and> sfi_waste i' = sfi_waste i \<and>
     (\<forall>c. in_use fs c \<and> c \<notin> file_blocks fs i \<longrightarrow> in_use fs' c \<and> c \<notin> file_blocks fs' i' \<and> blk fs' c = blk fs c)"

lemma keeps_refl: "fs_ok fs \<Longrightarrow> inode_ok fs i \<Longrightarrow> keeps fs i fs i"
  by (simp add: keeps_def)

lemma keeps_trans: "keeps a i b j \<Longrightarrow> keeps b j c k \<Longrightarrow> keeps a i c k"
  by (simp add: keeps_def same_meta_trans) (metis same_meta_trans)

lemma file_blocks_fmap [intro]: "fmap fs i k \<noteq> 0 \<Longrightarrow> fmap fs i k \<in> file_blocks fs i"
  by (auto simp: file_blocks_def)

lemma file_blocks_indirect [intro]: "sfi_indirect i \<noteq> 0 \<Longrightarrow> sfi_indirect i \<in> file_blocks fs i"
  by (auto simp: file_blocks_def)

lemma inode_ok_in_use: "inode_ok fs i \<Longrightarrow> c \<in> file_blocks fs i \<Longrightarrow> in_use fs c \<and> c \<noteq> 0"
  by (simp add: inode_ok_def file_blocks_def)

lemma inode_ok_indirect: "inode_ok fs i \<Longrightarrow> fmap fs i k \<noteq> 0 \<Longrightarrow> fmap fs i k \<noteq> sfi_indirect i"
  unfolding inode_ok_def by metis

lemma inode_ok_inj: "inode_ok fs i \<Longrightarrow> fmap fs i j = fmap fs i k \<Longrightarrow> fmap fs i j \<noteq> 0 \<Longrightarrow> j = k"
  unfolding inode_ok_def by metis

definition quiet :: "sfs_fs \<Rightarrow> sfs_vnode \<Rightarrow> sfs_fs \<Rightarrow> sfs_vnode \<Rightarrow> bool" where
  \<comment> \<open>a step that may give the file blocks but leaves its bytes and everything else alone\<close>
  "quiet fs sv fs' sv' \<longleftrightarrow> keeps fs (sv_i sv) fs' (sv_i sv') \<and> cont fs' (sv_i sv') = cont fs (sv_i sv) \<and>
     sfi_size (sv_i sv') = sfi_size (sv_i sv) \<and> sv' = sv\<lparr>sv_i := sv_i sv', sv_dirty := sv_dirty sv'\<rparr> \<and>
     (sv_dirty sv \<longrightarrow> sv_dirty sv') \<and> (sv_dirty sv' \<or> sv_i sv' = sv_i sv)"

lemma quiet_trans: "quiet a i b j \<Longrightarrow> quiet b j c k \<Longrightarrow> quiet a i c k"
  unfolding quiet_def by (metis (no_types, lifting) keeps_trans sfs_vnode.update_convs(4,6) sfs_vnode.surjective)

lemma quiet_device:
  assumes "fs_ok fs" "inode_ok fs (sv_i sv)" "fs_ok (fs\<lparr>sfs_device := d\<rparr>)" "sectors d = sectors (sfs_device fs)"
  shows "quiet fs sv (fs\<lparr>sfs_device := d\<rparr>) sv" "fmap (fs\<lparr>sfs_device := d\<rparr>) i = fmap fs i" "cont (fs\<lparr>sfs_device := d\<rparr>) i = cont fs i"
proof -
  have [simp]: "fmap (fs\<lparr>sfs_device := d\<rparr>) j = fmap fs j" for j by (simp add: fun_eq_iff fmap_def assms(4))
  moreover have [simp]: "cont (fs\<lparr>sfs_device := d\<rparr>) j = cont fs j" for j by (simp add: fun_eq_iff cont_def Let_def assms(4))
  moreover have "in_use (fs\<lparr>sfs_device := d\<rparr>) = in_use fs" by (simp add: fun_eq_iff in_use_def)
  moreover have "file_blocks (fs\<lparr>sfs_device := d\<rparr>) j = file_blocks fs j" for j by (simp add: file_blocks_def)
  ultimately show "quiet fs sv (fs\<lparr>sfs_device := d\<rparr>) sv" using assms by (simp add: quiet_def keeps_def inode_ok_def same_meta_def)
qed (simp_all add: fun_eq_iff fmap_def cont_def Let_def assms(4))

lemma file_blocks_grow:
  assumes "fmap fs' i' = (fmap fs i)(k := b) \<and> sfi_indirect i' = sfi_indirect i \<and> fmap fs i k = 0 \<or>
    fmap fs' i' = fmap fs i \<and> sfi_indirect i = 0 \<and> sfi_indirect i' = b" and "b \<noteq> 0"
  shows "file_blocks fs' i' = insert b (file_blocks fs i)"
  using assms(1)
proof
  assume g: "fmap fs' i' = (fmap fs i)(k := b) \<and> sfi_indirect i' = sfi_indirect i \<and> fmap fs i k = 0"
  then have "fmap fs' i' ` UNIV = insert b (fmap fs i ` (UNIV - {k}))" by (auto simp: fun_upd_image)
  moreover have "fmap fs i ` UNIV = insert 0 (fmap fs i ` (UNIV - {k}))" using g by (metis UNIV_I image_insert insert_Diff)
  ultimately show ?thesis using g \<open>b \<noteq> 0\<close> by (simp add: file_blocks_def) blast
next
  assume "fmap fs' i' = fmap fs i \<and> sfi_indirect i = 0 \<and> sfi_indirect i' = b"
  then show ?thesis using \<open>b \<noteq> 0\<close> by (auto simp: file_blocks_def)
qed

lemma keeps_grow:
  assumes ok: "fs_ok fs'" "inode_ok fs i" "same_meta fs fs'" "in_use fs' = (in_use fs)(b := True)" "\<not> in_use fs b" "b \<noteq> 0"
    and grow: "fmap fs' i' = (fmap fs i)(k := b) \<and> sfi_indirect i' = sfi_indirect i \<and> fmap fs i k = 0 \<or>
      fmap fs' i' = fmap fs i \<and> sfi_indirect i = 0 \<and> sfi_indirect i' = b"
    and meta: "sfi_type i' = sfi_type i" "sfi_linkcount i' = sfi_linkcount i" "sfi_waste i' = sfi_waste i" "length (sfi_direct i') = 15"
    and blk: "blk fs' b = zeroblock" "\<And>c. in_use fs c \<Longrightarrow> c \<noteq> sfi_indirect i \<or> c = 0 \<Longrightarrow> blk fs' c = blk fs c"
  shows "keeps fs i fs' i'" "cont fs' i' = cont fs i"
proof -
  have fb: "file_blocks fs' i' = insert b (file_blocks fs i)" using file_blocks_grow [OF grow \<open>b \<noteq> 0\<close>] .
  have b: "b \<notin> file_blocks fs i" using inode_ok_in_use [OF ok(2)] ok(5) by blast
  then have fm: "fmap fs i j \<noteq> b" for j using file_blocks_fmap \<open>b \<noteq> 0\<close> by metis
  have ib: "sfi_indirect i \<noteq> b" using b \<open>b \<noteq> 0\<close> by blast
  have "inode_ok fs' i'"
    using grow
  proof
    assume g: "fmap fs' i' = (fmap fs i)(k := b) \<and> sfi_indirect i' = sfi_indirect i \<and> fmap fs i k = 0"
    have "j = l" if "fmap fs' i' j = fmap fs' i' l" "fmap fs' i' j \<noteq> 0" for j l
      using that inode_ok_inj [OF ok(2), of j l] g fm by (auto split: if_splits)
    moreover have "fmap fs' i' j = 0" if "fmap fs' i' j = sfi_indirect i'" for j
      using that inode_ok_indirect [OF ok(2), of j] g ib by (auto split: if_splits)
    ultimately show ?thesis using fb inode_ok_in_use [OF ok(2)] ok(4) meta(4) unfolding inode_ok_def by auto
  next
    assume g: "fmap fs' i' = fmap fs i \<and> sfi_indirect i = 0 \<and> sfi_indirect i' = b"
    then show ?thesis using fb inode_ok_in_use [OF ok(2)] inode_ok_inj [OF ok(2)] ok(4) meta(4) fm unfolding inode_ok_def by auto
  qed
  moreover have "blk fs' c = blk fs c" if "in_use fs c" "c \<notin> file_blocks fs i" for c
    using that blk(2) [of c] file_blocks_indirect [of i fs] by metis
  ultimately show "keeps fs i fs' i'" using ok meta fb by (auto simp: keeps_def)
  have "cont fs' i' off = cont fs i off" for off
  proof (cases "fmap fs i (off div 512) = 0")
    case True
    then have "fmap fs' i' (off div 512) = 0 \<or> fmap fs' i' (off div 512) = b" using grow by (auto split: if_splits)
    with True blk(1) show ?thesis by (auto simp: cont_def Let_def zeroblock_def)
  next
    case False
    let ?c = "fmap fs i (off div 512)"
    have "?c \<noteq> sfi_indirect i" "in_use fs ?c" using inode_ok_indirect [OF ok(2) False] inode_ok_in_use [OF ok(2)] file_blocks_fmap [OF False] by auto
    moreover have "fmap fs' i' (off div 512) = ?c" using grow False by auto
    ultimately show ?thesis using blk(2) [of ?c] by (simp add: cont_def Let_def)
  qed
  then show "cont fs' i' = cont fs i" by blast
qed

section \<open>Block mapping\<close>

definition bmap_grown :: "sfs_fs \<Rightarrow> sfs_vnode \<Rightarrow> nat \<Rightarrow> nat \<Rightarrow> sfs_fs \<Rightarrow> sfs_vnode \<Rightarrow> bool" where
  "bmap_grown fs sv k b fs' sv' \<longleftrightarrow> quiet fs sv fs' sv' \<and> fmap fs' (sv_i sv') = (fmap fs (sv_i sv))(k := b) \<and>
     fmap fs (sv_i sv) k = 0 \<and> b \<noteq> 0 \<and> b \<in> file_blocks fs' (sv_i sv') \<and> blk fs' b = zeroblock"

lemma bmap_grownI:
  assumes "keeps fs (sv_i sv) fs' (sv_i sv')" "cont fs' (sv_i sv') = cont fs (sv_i sv)" "sfi_size (sv_i sv') = sfi_size (sv_i sv)"
    "sv' = sv\<lparr>sv_i := sv_i sv', sv_dirty := sv_dirty sv'\<rparr>" "sv_dirty sv \<longrightarrow> sv_dirty sv'" "sv_dirty sv' \<or> sv_i sv' = sv_i sv"
    "fmap fs' (sv_i sv') = (fmap fs (sv_i sv))(k := b)" "fmap fs (sv_i sv) k = 0" "b \<noteq> 0" "blk fs' b = zeroblock"
  shows "bmap_grown fs sv k b fs' sv'"
  using assms file_blocks_fmap [of fs' "sv_i sv'" k] by (simp add: bmap_grown_def quiet_def)

lemma inode_ok_check: "fs_ok fs \<Longrightarrow> inode_ok fs i \<Longrightarrow> sfs_check_block fs (fmap fs i k) = Some ()"
  using sfs_check_block_ok [of fs "fmap fs i k"] inode_ok_in_use [of fs i "fmap fs i k"] by blast

lemma sfs_bmap_direct_cases:
  assumes ok: "fs_ok fs" "inode_ok fs (sv_i sv)" and k: "k < 15"
  obtains (mapped) "\<not> doalloc \<or> fmap fs (sv_i sv) k \<noteq> 0" "sfs_bmap_direct fs sv k doalloc = Some (Inr (fmap fs (sv_i sv) k), fs, sv)"
  | (fresh) b fs' sv' where "doalloc" "sfs_bmap_direct fs sv k doalloc = Some (Inr b, fs', sv')" "bmap_grown fs sv k b fs' sv'"
  | (full) "doalloc" "fmap fs (sv_i sv) k = 0" "sfs_bmap_direct fs sv k doalloc = Some (Inl ENOSPC, fs, sv)" "sfs_full fs"
proof -
  let ?i = "sv_i sv"
  have len: "length (sfi_direct ?i) = 15" using ok by (simp add: inode_ok_def)
  then have rdk: "rd (sfi_direct ?i) (int k) = Some (fmap fs ?i k)" using k by (simp add: fmap_def)
  show thesis
  proof (cases "fmap fs ?i k = 0 \<and> doalloc")
    case False
    then show ?thesis using mapped rdk inode_ok_check [OF ok] by (auto simp: sfs_bmap_direct_def)
  next
    case True
    from ok(1) show ?thesis
    proof (cases rule: sfs_balloc_cases)
      case full
      with that(3) True rdk show ?thesis by (simp add: sfs_bmap_direct_def)
    next
      case (fresh b fs')
      let ?i' = "?i\<lparr>sfi_direct := (sfi_direct ?i)[k := b]\<rparr>" and ?sv = "sv\<lparr>sv_i := ?i\<lparr>sfi_direct := (sfi_direct ?i)[k := b]\<rparr>, sv_dirty := True\<rparr>"
      have ns: "in_use fs c \<Longrightarrow> blk fs' c = blk fs c" for c using fresh by (metis nth_list_update_neq)
      have ind: "sfi_indirect ?i \<noteq> 0 \<Longrightarrow> blk fs' (sfi_indirect ?i) = blk fs (sfi_indirect ?i)"
        using ns inode_ok_in_use [OF ok(2)] file_blocks_indirect by blast
      have bb: "blk fs' b = zeroblock" using fresh fs_ok_blk [OF ok(1), of b] by simp
      have fm: "fmap fs' ?i' = (fmap fs ?i)(k := b)" using k len ind by (auto simp: fun_eq_iff fmap_def nth_list_update)
      have "keeps fs ?i fs' ?i'" "cont fs' ?i' = cont fs ?i"
        using keeps_grow [OF fresh(2) ok(2) fresh(8,6,5), of ?i' k] fm bb ns True fresh(3) len by simp_all
      moreover have "sfs_check_block fs' b = Some ()" using fresh sfs_check_block_ok [of fs' b] by simp
      ultimately show ?thesis using that(2) [of b fs' ?sv] fm True rdk fresh(1,3) bb
        by (simp add: sfs_bmap_direct_def bmap_grownI)
    qed
  qed
qed

lemma sfs_bmap_idbuf_cases:
  assumes ok: "fs_ok fs" "inode_ok fs (sv_i sv)" and k: "k < 128" and ind: "sfi_indirect (sv_i sv) \<noteq> 0"
  obtains (mapped) "\<not> doalloc \<or> fmap fs (sv_i sv) (15 + k) \<noteq> 0"
      "sfs_bmap_idbuf fs sv k doalloc (words_of_bytes (blk fs (sfi_indirect (sv_i sv)))) (sfi_indirect (sv_i sv)) = Some (Inr (fmap fs (sv_i sv) (15 + k)), fs, sv)"
  | (fresh) b fs' sv' where "doalloc"
      "sfs_bmap_idbuf fs sv k doalloc (words_of_bytes (blk fs (sfi_indirect (sv_i sv)))) (sfi_indirect (sv_i sv)) = Some (Inr b, fs', sv')"
      "bmap_grown fs sv (15 + k) b fs' sv'"
  | (full) "doalloc" "fmap fs (sv_i sv) (15 + k) = 0"
      "sfs_bmap_idbuf fs sv k doalloc (words_of_bytes (blk fs (sfi_indirect (sv_i sv)))) (sfi_indirect (sv_i sv)) = Some (Inl ENOSPC, fs, sv)" "sfs_full fs"
proof -
  let ?i = "sv_i sv" and ?id = "sfi_indirect (sv_i sv)"
  let ?w = "words_of_bytes (blk fs ?id)"
  have use: "in_use fs ?id" "?id \<noteq> 0" using inode_ok_in_use [OF ok(2)] file_blocks_indirect [OF ind] ind by auto
  then have il: "?id < nblk fs" "length (blk fs ?id) = 512" using fs_ok_blk [OF ok(1)] by (auto simp: in_use_def)
  then have wl: "length ?w = 128" by (simp add: words_of_bytes_length)
  then have rdk: "rd ?w (int k) = Some (fmap fs ?i (15 + k))" using k ind by (simp add: fmap_def)
  show thesis
  proof (cases "fmap fs ?i (15 + k) = 0 \<and> doalloc")
    case False
    then show ?thesis using mapped rdk inode_ok_check [OF ok] by (auto simp: sfs_bmap_idbuf_def)
  next
    case True
    from ok(1) show ?thesis
    proof (cases rule: sfs_balloc_cases)
      case full
      with that(3) True rdk show ?thesis by (simp add: sfs_bmap_idbuf_def)
    next
      case (fresh b fs1)
      let ?w' = "?w[k := b]"
      have nb: "b \<noteq> ?id" using fresh(5) use by blast
      have il': "?id < nblk fs1" using il fresh(8) by (simp add: same_meta_def)
      obtain d where d: "sfs_wblock (sfs_device fs1) (bytes_of_words ?w') 0 ?id = Some (Inr (), d)" "fs_ok (fs1\<lparr>sfs_device := d\<rparr>)"
        "sectors d = (sectors (sfs_device fs1))[?id := bytes_of_words ?w']" "same_meta fs1 (fs1\<lparr>sfs_device := d\<rparr>)"
        using sfs_write_ok [OF fresh(2) il', of "bytes_of_words ?w'"] wl by (auto simp: bytes_of_words_length)
      let ?fs = "fs1\<lparr>sfs_device := d\<rparr>"
      have use': "in_use ?fs = (in_use fs)(b := True)" using fresh(6) by (simp add: in_use_def fun_eq_iff)
      have ns: "in_use fs c \<Longrightarrow> c \<noteq> ?id \<Longrightarrow> blk ?fs c = blk fs c" for c
        using fresh(5,7) d(3) by (cases "c = b") simp_all
      have "?id < length (sectors (sfs_device fs1))" using fs_ok_blk [OF fresh(2) il'] by simp
      then have ib: "blk ?fs ?id = bytes_of_words ?w'" using d(3) by simp
      have lt: "\<forall>n \<in> set ?w'. n < 2 ^ 32" using words_of_bytes_less [of _ "blk fs ?id"] fresh(4) fs_ok_nblk [OF ok(1)]
        by (auto dest!: set_update_subset_insert [THEN subsetD])
      have bb: "blk ?fs b = zeroblock" using fresh(4,7) d(3) nb fs_ok_blk [OF ok(1), of b] by simp
      have fm: "fmap ?fs ?i = (fmap fs ?i)(15 + k := b)" using k ind wl ib words_bytes_id [OF lt]
        by (auto simp: fun_eq_iff fmap_def nth_list_update)
      have len: "length (sfi_direct ?i) = 15" using ok by (simp add: inode_ok_def)
      have kc: "keeps fs ?i ?fs ?i" "cont ?fs ?i = cont fs ?i"
        using keeps_grow [OF d(2) ok(2) same_meta_trans [OF fresh(8) d(4)] use' fresh(5), of ?i "15 + k"] fm bb ns True fresh(3) len ind by simp_all
      have "bmap_grown fs sv (15 + k) b ?fs sv" using True fresh(3) by (intro bmap_grownI kc fm bb) simp_all
      moreover have "sfs_check_block ?fs b = Some ()" using use' sfs_check_block_ok [OF d(2), of b] by simp
      then have "sfs_bmap_idbuf fs sv k doalloc ?w ?id = Some (Inr b, ?fs, sv)"
        using True rdk fresh(1) d(1) by (simp add: sfs_bmap_idbuf_def)
      ultimately show ?thesis using that(2) True by blast
    qed
  qed
qed

lemma quiet_refl: "fs_ok fs \<Longrightarrow> inode_ok fs (sv_i sv) \<Longrightarrow> quiet fs sv fs sv"
  by (simp add: quiet_def keeps_refl)

lemma quiet_ok: "quiet fs sv fs' sv' \<Longrightarrow> fs_ok fs' \<and> inode_ok fs' (sv_i sv')"
  by (simp add: quiet_def keeps_def)

lemma bmap_grown_quiet: "bmap_grown fs sv k b fs' sv' \<Longrightarrow> quiet fs sv fs' sv'"
  by (simp add: bmap_grown_def)

lemma bmap_grown_after:
  "quiet fs sv fs1 sv1 \<Longrightarrow> fmap fs1 (sv_i sv1) = fmap fs (sv_i sv) \<Longrightarrow> bmap_grown fs1 sv1 k b fs' sv' \<Longrightarrow> bmap_grown fs sv k b fs' sv'"
  by (auto simp: bmap_grown_def elim: quiet_trans)

lemma indirect_grown:
  assumes ok: "fs_ok fs" "inode_ok fs (sv_i sv)" and ind: "sfi_indirect (sv_i sv) = 0"
    and fresh: "fs_ok fs'" "0 < b" "b < nblk fs" "\<not> in_use fs b" "in_use fs' = (in_use fs)(b := True)"
      "sectors (sfs_device fs') = (sectors (sfs_device fs))[b := zeroblock]" "same_meta fs fs'"
    and sv': "sv' = sv\<lparr>sv_i := (sv_i sv)\<lparr>sfi_indirect := b\<rparr>, sv_dirty := True\<rparr>"
  shows "quiet fs sv fs' sv'" "fmap fs' (sv_i sv') = fmap fs (sv_i sv)" "blk fs' b = zeroblock"
proof -
  have ns: "in_use fs c \<Longrightarrow> blk fs' c = blk fs c" for c using fresh by (metis nth_list_update_neq)
  show bb: "blk fs' b = zeroblock" using fresh fs_ok_blk [OF ok(1), of b] by simp
  show fm: "fmap fs' (sv_i sv') = fmap fs (sv_i sv)" using ind fresh(2) bb by (auto simp: fun_eq_iff fmap_def sv' words_zeroblock)
  have len: "length (sfi_direct (sv_i sv)) = 15" using ok by (simp add: inode_ok_def)
  have "keeps fs (sv_i sv) fs' (sv_i sv')" "cont fs' (sv_i sv') = cont fs (sv_i sv)"
    using keeps_grow [OF fresh(1) ok(2) fresh(7,5,4), of "sv_i sv'"] fm bb ns fresh(2) len ind by (simp_all add: sv')
  then show "quiet fs sv fs' sv'" by (simp add: quiet_def sv')
qed

lemma sfs_bmap_cases:
  assumes ok: "fs_ok fs" "inode_ok fs (sv_i sv)"
  obtains (far) "143 \<le> k" "sfs_bmap fs sv k doalloc = Some (Inl EINVAL, fs, sv)"
  | (mapped) d where "k < 143" "\<not> doalloc \<or> fmap fs (sv_i sv) k \<noteq> 0"
      "sfs_bmap fs sv k doalloc = Some (Inr (fmap fs (sv_i sv) k), fs\<lparr>sfs_device := d\<rparr>, sv)"
      "fs_ok (fs\<lparr>sfs_device := d\<rparr>)" "sectors d = sectors (sfs_device fs)"
  | (fresh) b fs' sv' where "k < 143" "doalloc" "sfs_bmap fs sv k doalloc = Some (Inr b, fs', sv')" "bmap_grown fs sv k b fs' sv'"
  | (full) fs' sv' where "k < 143" "doalloc" "fmap fs (sv_i sv) k = 0" "sfs_bmap fs sv k doalloc = Some (Inl ENOSPC, fs', sv')" "quiet fs sv fs' sv'" "sfs_full fs'"
proof (cases "k < 15")
  case True
  from ok True show ?thesis
  proof (cases rule: sfs_bmap_direct_cases [where doalloc = doalloc])
    case mapped
    then show ?thesis using that(2) [of "sfs_device fs"] ok True by (simp add: sfs_bmap_def)
  next
    case (fresh b fs' sv')
    then show ?thesis using that(3) [of b fs' sv'] True by (simp add: sfs_bmap_def)
  next
    case full
    then show ?thesis using that(4) [of fs sv] True quiet_refl [OF ok] by (simp add: sfs_bmap_def)
  qed
next
  case False
  let ?i = "sv_i sv"
  show ?thesis
  proof (cases "143 \<le> k")
    case True
    then have "0 < (k - 15) div 128" by (simp add: div_greater_zero_iff)
    then show ?thesis using True far False by (simp add: sfs_bmap_def)
  next
    case near: False
    then have k: "k - 15 < 128" "15 + (k - 15) = k" "k < 143" "(k - 15) div 128 = 0" "(k - 15) mod 128 = k - 15" using False by auto
    show ?thesis
    proof (cases "sfi_indirect ?i = 0")
      case ind: True
      show ?thesis
      proof (cases doalloc)
        case False
        then show ?thesis using mapped [of "sfs_device fs"] ok ind k \<open>\<not> k < 15\<close> by (simp add: sfs_bmap_def Let_def fmap_def)
      next
        case alloc: True
        from ok(1) show ?thesis
        proof (cases rule: sfs_balloc_cases)
          case full
          moreover have "fmap fs ?i k = 0" using ind \<open>\<not> k < 15\<close> by (simp add: fmap_def)
          ultimately show ?thesis using that(4) [of fs sv] k ind alloc \<open>\<not> k < 15\<close> quiet_refl [OF ok] by (simp add: sfs_bmap_def Let_def)
        next
          case (fresh b fs1)
          let ?sv = "sv\<lparr>sv_i := (sv_i sv)\<lparr>sfi_indirect := b\<rparr>, sv_dirty := True\<rparr>"
          note g = indirect_grown [OF ok ind fresh(2-8) refl]
          have b: "sfs_bmap fs sv k doalloc = sfs_bmap_idbuf fs1 ?sv (k - 15) doalloc (words_of_bytes (blk fs1 (sfi_indirect (sv_i ?sv)))) (sfi_indirect (sv_i ?sv))"
            using g(3) fresh(1) k ind alloc \<open>\<not> k < 15\<close> by (simp add: sfs_bmap_def Let_def words_zeroblock)
          have ind': "sfi_indirect (sv_i ?sv) \<noteq> 0" using fresh(3) by simp
          have z: "fmap fs ?i k = 0" using ind \<open>\<not> k < 15\<close> by (simp add: fmap_def)
          note ok' = quiet_ok [OF g(1), THEN conjunct1] quiet_ok [OF g(1), THEN conjunct2]
          from ok' k(1) ind' show ?thesis
          proof (cases rule: sfs_bmap_idbuf_cases [where doalloc = doalloc])
            case mapped
            then show ?thesis using alloc z g(2) k(2) by simp
          next
            case (fresh b' fs' sv')
            then show ?thesis using that(3) [of b' fs' sv'] k b alloc bmap_grown_after [OF g(1,2)] by simp
          next
            case full
            then show ?thesis using that(4) [of fs1 ?sv] k b alloc z g(1) by simp
          qed
        qed
      qed
    next
      case ind: False
      have "in_use fs (sfi_indirect ?i)" using inode_ok_in_use [OF ok(2) file_blocks_indirect [OF ind]] by simp
      then have "sfi_indirect ?i < nblk fs" by (simp add: in_use_def)
      then obtain d where d: "sfs_rblock (sfs_device fs) zeroblock 0 (sfi_indirect ?i) = Some (Inr (), d, blk fs (sfi_indirect ?i))"
        "fs_ok (fs\<lparr>sfs_device := d\<rparr>)" "sectors d = sectors (sfs_device fs)" using sfs_read_ok [OF ok(1), of _ zeroblock] by auto
      let ?fs = "fs\<lparr>sfs_device := d\<rparr>"
      note q = quiet_device [OF ok d(2,3)]
      note ok' = quiet_ok [OF q(1), THEN conjunct1] quiet_ok [OF q(1), THEN conjunct2]
      have b: "sfs_bmap fs sv k doalloc = sfs_bmap_idbuf ?fs sv (k - 15) doalloc (words_of_bytes (blk ?fs (sfi_indirect ?i))) (sfi_indirect ?i)"
        using d k ind \<open>\<not> k < 15\<close> by (simp add: sfs_bmap_def Let_def)
      from ok' k(1) ind show ?thesis
      proof (cases rule: sfs_bmap_idbuf_cases [where doalloc = doalloc])
        case mapped
        then show ?thesis using that(2) [of d] k b d q(2) by simp
      next
        case (fresh b' fs' sv')
        then show ?thesis using that(3) [of b' fs' sv'] k b bmap_grown_after [OF q(1,2)] by simp
      next
        case full
        then show ?thesis using that(4) [of ?fs sv] k b q(1,2) by simp
      qed
    qed
  qed
qed

lemma sfs_bmap_ok:
  assumes "fs_ok fs" "inode_ok fs (sv_i sv)"
  shows "\<exists>r fs' sv'. sfs_bmap fs sv k doalloc = Some (r, fs', sv') \<and> quiet fs sv fs' sv' \<and>
    (case r of
       Inl e \<Rightarrow> (if 143 \<le> k then e = EINVAL else e = ENOSPC \<and> doalloc \<and> fmap fs (sv_i sv) k = 0 \<and> sfs_full fs')
     | Inr b \<Rightarrow> k < 143 \<and> b = fmap fs' (sv_i sv') k \<and> (doalloc \<longrightarrow> in_use fs' b \<and> b \<noteq> 0) \<and>
         (fmap fs (sv_i sv) k \<noteq> 0 \<or> \<not> doalloc \<longrightarrow> b = fmap fs (sv_i sv) k))"
  using assms
proof (cases rule: sfs_bmap_cases [where k = k and doalloc = doalloc])
  case far
  then show ?thesis using quiet_refl [OF assms] by simp
next
  case (mapped d)
  note q = quiet_device [OF assms mapped(4,5)]
  have "in_use (fs\<lparr>sfs_device := d\<rparr>) (fmap fs (sv_i sv) k)" if "fmap fs (sv_i sv) k \<noteq> 0"
    using inode_ok_in_use [OF assms(2) file_blocks_fmap [OF that]] by (simp add: in_use_def)
  with mapped q show ?thesis by auto
next
  case (fresh b fs' sv')
  have "in_use fs' b" using fresh(4) quiet_ok [of fs sv fs' sv'] inode_ok_in_use [of fs' "sv_i sv'" b] by (simp add: bmap_grown_def)
  with fresh show ?thesis by (simp add: bmap_grown_def)
next
  case (full fs' sv')
  then show ?thesis by simp
qed

text \<open>
  C11. \<open>sfs_bmap\<close> on a consistent file system. A file block from 143 on is refused with EINVAL; otherwise the
  result is the disk block that the inode and its indirect block map the file block to afterwards, which is the block
  mapped before if there was one, and a real block whenever the caller asked for allocation. The only other
  outcome is ENOSPC, for an unmapped file block, and then no block of the volume is free. In every case the bytes and the size of the file and
  every block in use outside the file are unchanged, and the file system and the inode stay consistent.
\<close>

theorem sfs_bmap_spec:
  assumes "fs_ok fs" "inode_ok fs (sv_i sv)"
  shows "\<exists>r fs' sv'. sfs_bmap fs sv k doalloc = Some (r, fs', sv') \<and> quiet fs sv fs' sv' \<and>
    (case r of
       Inl e \<Rightarrow> (if 143 \<le> k then e = EINVAL else e = ENOSPC \<and> doalloc \<and> fmap fs (sv_i sv) k = 0 \<and> sfs_full fs')
     | Inr b \<Rightarrow> k < 143 \<and> b = fmap fs' (sv_i sv') k \<and> (doalloc \<longrightarrow> in_use fs' b \<and> b \<noteq> 0) \<and>
         (fmap fs (sv_i sv) k \<noteq> 0 \<or> \<not> doalloc \<longrightarrow> b = fmap fs (sv_i sv) k))"
  using sfs_bmap_ok [OF assms] .

definition example_sfs :: sfs_fs where
  \<comment> \<open>a volume of 16 blocks: superblock, root directory, free map and the inode of one file\<close>
  "example_sfs = \<lparr>sfs_super = \<lparr>sp_magic = 0xabadf001, sp_nblocks = 16, sp_volname = replicate 32 0, sp_reserved = replicate 472 0\<rparr>,
     sfs_superdirty = False,
     sfs_device = \<lparr>d_blocks = 16, sectors = replicate 16 (replicate SFS_BLOCKSIZE 0), lh_buf = replicate SFS_BLOCKSIZE 0, lh_outcomes = []\<rparr>,
     sfs_vnodes = \<lparr>arr_num = 0, arr_max = 0, arr_v = None\<rparr>,
     sfs_freemap = \<lparr>nbits = 16, bm_v = [15, 0]\<rparr>, sfs_freemapdirty = False, sfs_heap = (\<lambda>_. None)\<rparr>"

definition example_file :: sfs_vnode where
  "example_file = \<lparr>vn_refcount = 1, vn_opencount = 1, sv_isdir = False,
     sv_i = \<lparr>sfi_size = 0, sfi_type = SFS_TYPE_FILE, sfi_linkcount = 1, sfi_direct = replicate SFS_NDIRECT 0, sfi_indirect = 0, sfi_waste = replicate 440 0\<rparr>,
     sv_ino = 3, sv_dirty = False\<rparr>"

lemma example_sfs_ok: "fs_ok example_sfs"
  by (auto simp: example_sfs_def fs_ok_def disk_ok_def bitmap_inv_def bm_used_def in_use_def)

lemma example_fmap: "fmap fs (sv_i example_file) k = 0"
  by (simp add: example_file_def fmap_def)

lemma example_file_ok: "inode_ok example_sfs (sv_i example_file)"
  using example_fmap by (simp add: inode_ok_def file_blocks_def) (simp add: example_file_def)

theorem sfs_bmap_spec_witness:
  "\<exists>r fs' sv'. sfs_bmap example_sfs example_file 20 True = Some (r, fs', sv') \<and> quiet example_sfs example_file fs' sv' \<and>
    (case r of Inl e \<Rightarrow> e = ENOSPC \<and> sfs_full fs' | Inr b \<Rightarrow> b = fmap fs' (sv_i sv') 20 \<and> b \<noteq> 0)"
  using sfs_bmap_spec [OF example_sfs_ok example_file_ok, of 20 True]
  by (elim exE) (rename_tac r fs' sv', rule_tac x = r in exI, auto split: sum.splits)

end
