(* ===== verification/Kern_SFS_File.thy ===== *)
theory Kern_SFS_File
  imports Kern_SFS_Bmap
begin

text \<open>
  Correctness of SFS file I/O (\<open>sfs_partialio\<close>, \<open>sfs_blockio\<close>, \<open>sfs_io\<close>): on a consistent file system these
  routines implement reads and writes of an array of bytes. The abstraction of a file is \<open>cont fs i\<close>, the function from
  offsets to bytes (zero where no block is mapped), together with \<open>sfi_size\<close>.
\<close>

section \<open>The abstract effect of a transfer\<close>

definition file_step :: "(nat \<Rightarrow> byte) \<Rightarrow> sfs_fs \<Rightarrow> sfs_vnode \<Rightarrow> sfs_fs \<Rightarrow> sfs_vnode \<Rightarrow> bool" where
  \<comment> \<open>the file has the bytes \<open>c\<close> afterwards and everything else is as before\<close>
  "file_step c fs sv fs' sv' \<longleftrightarrow> keeps fs (sv_i sv) fs' (sv_i sv') \<and> cont fs' (sv_i sv') = c \<and>
     sfi_size (sv_i sv') = sfi_size (sv_i sv) \<and> sv' = sv\<lparr>sv_i := sv_i sv', sv_dirty := sv_dirty sv'\<rparr> \<and>
     (sv_dirty sv \<longrightarrow> sv_dirty sv') \<and> (sv_dirty sv' \<or> sv_i sv' = sv_i sv)"

lemma quiet_file_step: "quiet fs sv fs' sv' \<longleftrightarrow> file_step (cont fs (sv_i sv)) fs sv fs' sv'"
  by (auto simp: quiet_def file_step_def)

lemma file_step_trans: "file_step c1 a i b j \<Longrightarrow> file_step c2 b j c k \<Longrightarrow> file_step c2 a i c k"
  unfolding file_step_def by (metis (no_types, lifting) keeps_trans sfs_vnode.update_convs(4,6) sfs_vnode.surjective)

lemma file_step_ok: "file_step c fs sv fs' sv' \<Longrightarrow> fs_ok fs' \<and> inode_ok fs' (sv_i sv') \<and> cont fs' (sv_i sv') = c"
  by (simp add: file_step_def keeps_def)

definition xfer :: "nat \<Rightarrow> sfs_fs \<Rightarrow> sfs_vnode \<Rightarrow> uio \<Rightarrow> sfs_fs \<Rightarrow> sfs_vnode \<Rightarrow> uio \<Rightarrow> bool" where
  \<comment> \<open>\<open>n\<close> bytes have been transferred at the offset of the \<open>uio\<close>\<close>
  "xfer n fs sv u fs' sv' u' \<longleftrightarrow> uio_moved n u u' \<and>
     (case uio_rw u of
        UIO_READ \<Rightarrow> quiet fs sv fs' sv' \<and> iov_mem u' = mem_put (iov_pos u) (mem_get (nat (uio_offset u)) n (cont fs (sv_i sv))) (iov_mem u)
      | UIO_WRITE \<Rightarrow> iov_mem u' = iov_mem u \<and>
          file_step (mem_put (nat (uio_offset u)) (mem_get (iov_pos u) n (iov_mem u)) (cont fs (sv_i sv))) fs sv fs' sv')"

lemma mem_get_append: "mem_get p m c @ mem_get (p + m) n c = mem_get p (m + n) c"
  using upt_add_eq_append [of p "p + m" n] by (simp add: mem_get_def add.assoc flip: map_append)

lemma mem_get_0 [simp]: "mem_get p 0 c = []"
  by (simp add: mem_get_def)

lemma xfer_ok: "xfer n fs sv u fs' sv' u' \<Longrightarrow> fs_ok fs' \<and> inode_ok fs' (sv_i sv')"
  using quiet_ok file_step_ok unfolding xfer_def by (auto split: uio_rw.splits)

lemma xfer_refl: "fs_ok fs \<Longrightarrow> inode_ok fs (sv_i sv) \<Longrightarrow> xfer 0 fs sv u fs sv u"
  using quiet_refl by (simp add: xfer_def quiet_file_step split: uio_rw.splits)

lemma xfer_quiet: "quiet fs sv fs' sv' \<Longrightarrow> xfer 0 fs sv u fs' sv' u"
  by (simp add: xfer_def quiet_file_step split: uio_rw.splits)

lemma xfer_trans:
  assumes "xfer m fs sv u fs1 sv1 u1" "xfer n fs1 sv1 u1 fs2 sv2 u2" "0 \<le> uio_offset u"
  shows "xfer (m + n) fs sv u fs2 sv2 u2"
proof -
  have mv: "uio_moved m u u1" "uio_moved n u1 u2" using assms by (simp_all add: xfer_def)
  then have u1: "iov_pos u1 = iov_pos u + m" "nat (uio_offset u1) = nat (uio_offset u) + m" "uio_rw u1 = uio_rw u"
    using assms(3) by (simp_all add: uio_moved_def nat_add_distrib)
  show ?thesis
  proof (cases "uio_rw u")
    case UIO_READ
    then have a: "quiet fs sv fs1 sv1" "iov_mem u1 = mem_put (iov_pos u) (mem_get (nat (uio_offset u)) m (cont fs (sv_i sv))) (iov_mem u)"
      "quiet fs1 sv1 fs2 sv2" "iov_mem u2 = mem_put (iov_pos u1) (mem_get (nat (uio_offset u1)) n (cont fs1 (sv_i sv1))) (iov_mem u1)"
      using assms(1,2) u1 by (simp_all add: xfer_def)
    have "cont fs1 (sv_i sv1) = cont fs (sv_i sv)" using a(1) by (simp add: quiet_def)
    then have "iov_mem u2 = mem_put (iov_pos u) (mem_get (nat (uio_offset u)) (m + n) (cont fs (sv_i sv))) (iov_mem u)"
      unfolding a(4) a(2) u1 by (subst mem_put_put) (simp_all add: mem_get_append)
    with UIO_READ show ?thesis using quiet_trans [OF a(1,3)] uio_moved_trans [OF mv] by (simp add: xfer_def)
  next
    case UIO_WRITE
    then have a: "iov_mem u1 = iov_mem u" "file_step (mem_put (nat (uio_offset u)) (mem_get (iov_pos u) m (iov_mem u)) (cont fs (sv_i sv))) fs sv fs1 sv1"
      "iov_mem u2 = iov_mem u1" "file_step (mem_put (nat (uio_offset u1)) (mem_get (iov_pos u1) n (iov_mem u1)) (cont fs1 (sv_i sv1))) fs1 sv1 fs2 sv2"
      using assms(1,2) u1 by (simp_all add: xfer_def)
    have "mem_put (nat (uio_offset u1)) (mem_get (iov_pos u1) n (iov_mem u1)) (cont fs1 (sv_i sv1)) =
        mem_put (nat (uio_offset u)) (mem_get (iov_pos u) (m + n) (iov_mem u)) (cont fs (sv_i sv))"
      unfolding a(1) u1 using file_step_ok [OF a(2)] by (simp add: mem_put_put mem_get_append)
    with UIO_WRITE a show ?thesis using file_step_trans [OF a(2,4)] uio_moved_trans [OF mv] by (simp add: xfer_def)
  qed
qed

section \<open>One block of a file\<close>

definition fblock :: "sfs_fs \<Rightarrow> sfs_inode \<Rightarrow> nat \<Rightarrow> byte list" where
  "fblock fs i k = (if fmap fs i k = 0 then zeroblock else blk fs (fmap fs i k))"

lemma fmap_length: "fs_ok fs \<Longrightarrow> inode_ok fs i \<Longrightarrow> fmap fs i k \<noteq> 0 \<Longrightarrow> fmap fs i k < nblk fs \<and> length (blk fs (fmap fs i k)) = 512"
  using inode_ok_in_use [of fs i "fmap fs i k"] fs_ok_blk [of fs "fmap fs i k"] by (auto simp: in_use_def)

lemma fblock_length: "fs_ok fs \<Longrightarrow> inode_ok fs i \<Longrightarrow> length (fblock fs i k) = 512"
  by (simp add: fblock_def fmap_length)

lemma cont_fblock: "j < 512 \<Longrightarrow> cont fs i (k * 512 + j) = fblock fs i k ! j"
  by (simp add: cont_def fblock_def Let_def zeroblock_def)

lemma mem_get_fblock:
  assumes "fs_ok fs" "inode_ok fs i" "s + n \<le> 512"
  shows "mem_get (k * 512 + s) n (cont fs i) = subblk (fblock fs i k) s n"
  using assms fblock_length [OF assms(1,2), of k] cont_fblock [of _ fs i k]
  by (intro nth_equalityI) (simp_all add: add.assoc)

lemma mem_put_fblock:
  assumes "fs_ok fs" "inode_ok fs i" "s + length bs \<le> 512"
  shows "mem_put (k * 512) (blit (fblock fs i k) s bs) (cont fs i) = mem_put (k * 512 + s) bs (cont fs i)"
proof
  fix j
  show "mem_put (k * 512) (blit (fblock fs i k) s bs) (cont fs i) j = mem_put (k * 512 + s) bs (cont fs i) j"
    using fblock_length [OF assms(1,2), of k] assms(3) cont_fblock [of "j - k * 512" fs i k]
    by (auto simp: mem_put_def blit_nth)
qed

lemma write_block_step:
  assumes ok: "fs_ok fs" "inode_ok fs (sv_i sv)" and c: "fmap fs (sv_i sv) k \<noteq> 0" and len: "length data = 512"
    and d: "fs_ok (fs\<lparr>sfs_device := d\<rparr>)" "sectors d = (sectors (sfs_device fs))[fmap fs (sv_i sv) k := data]"
  shows "file_step (mem_put (k * 512) data (cont fs (sv_i sv))) fs sv (fs\<lparr>sfs_device := d\<rparr>) sv"
proof -
  let ?i = "sv_i sv" and ?fs = "fs\<lparr>sfs_device := d\<rparr>"
  let ?c = "fmap fs ?i k"
  have b: "blk ?fs e = (if e = ?c then data else blk fs e)" for e
    using d(2) fs_ok_blk [OF ok(1), of ?c] fmap_length [OF ok c] by simp
  have fm: "fmap ?fs ?i = fmap fs ?i" using inode_ok_indirect [OF ok(2) c] b [of "sfi_indirect ?i"] by (auto simp: fun_eq_iff fmap_def)
  have fb: "file_blocks ?fs ?i = file_blocks fs ?i" using fm by (simp add: file_blocks_def)
  have use: "in_use ?fs = in_use fs" by (simp add: fun_eq_iff in_use_def)
  have "inode_ok ?fs ?i" using ok(2) unfolding inode_ok_def fm fb use .
  moreover have "blk ?fs e = blk fs e" if "e \<notin> file_blocks fs ?i" for e using that file_blocks_fmap [OF c] b by auto
  moreover have "length (sectors d) = length (sectors (sfs_device fs))" using d(2) by simp
  ultimately have "keeps fs ?i ?fs ?i" using d(1) fb use by (simp add: keeps_def same_meta_def)
  moreover have "cont ?fs ?i off = mem_put (k * 512) data (cont fs ?i) off" for off
  proof (cases "off div 512 = k")
    case True
    then have "k * 512 \<le> off" "off < k * 512 + 512" "off mod 512 = off - k * 512" by (auto simp: minus_div_mult_eq_mod [symmetric])
    with True c b len show ?thesis by (simp add: cont_def fm mem_put_def Let_def)
  next
    case False
    then have "\<not> (k * 512 \<le> off \<and> off < k * 512 + 512)" by auto
    moreover have "fmap fs ?i (off div 512) \<noteq> ?c" using inode_ok_inj [OF ok(2), of k "off div 512"] c False by auto
    ultimately show ?thesis using b len by (auto simp: cont_def fm mem_put_def Let_def)
  qed
  ultimately show ?thesis by (simp add: file_step_def fun_eq_iff)
qed

section \<open>Transfers\<close>

definition io_done :: "nat \<Rightarrow> sfs_fs \<Rightarrow> sfs_vnode \<Rightarrow> uio \<Rightarrow> sfs_io_result option \<Rightarrow> bool" where
  \<comment> \<open>all of \<open>n\<close> bytes were transferred, or a prefix of them and the volume is full or the file too big\<close>
  "io_done n fs sv u out \<longleftrightarrow> (\<exists>r fs' sv' u' m. out = Some (r, fs', sv', u') \<and> xfer m fs sv u fs' sv' u' \<and> m \<le> n \<and>
     (case r of Inr _ \<Rightarrow> m = n
      | Inl e \<Rightarrow> e = ENOSPC \<and> uio_rw u = UIO_WRITE \<and> sfs_full fs' \<or> e = EINVAL \<and> 143 * 512 < uio_offset u + int n))"

lemma io_done_then:
  assumes a: "io_done m fs sv u (Some (r, fs1, sv1, u1))" and u: "0 \<le> uio_offset u"
    and n: "r = Inr () \<Longrightarrow> xfer m fs sv u fs1 sv1 u1 \<Longrightarrow> io_done n fs1 sv1 u1 (g fs1 sv1 u1)"
  shows "io_done (m + n) fs sv u (case r of Inl e \<Rightarrow> Some (Inl e, fs1, sv1, u1) | Inr _ \<Rightarrow> g fs1 sv1 u1)"
proof (cases r)
  case (Inl e)
  then show ?thesis using a by (auto simp: io_done_def)
next
  case (Inr x)
  then have x: "xfer m fs sv u fs1 sv1 u1" using a by (auto simp: io_done_def)
  from n Inr x obtain r2 fs2 sv2 u2 k where k: "g fs1 sv1 u1 = Some (r2, fs2, sv2, u2)" "xfer k fs1 sv1 u1 fs2 sv2 u2" "k \<le> n"
    "case r2 of Inr _ \<Rightarrow> k = n | Inl e \<Rightarrow> e = ENOSPC \<and> uio_rw u1 = UIO_WRITE \<and> sfs_full fs2 \<or> e = EINVAL \<and> 143 * 512 < uio_offset u1 + int n"
    by (auto simp: io_done_def)
  moreover have "uio_rw u1 = uio_rw u" "uio_offset u1 = uio_offset u + int m" using x by (simp_all add: xfer_def uio_moved_def)
  ultimately show ?thesis using xfer_trans [OF x k(2) u] Inr unfolding io_done_def
    by (intro exI [of _ r2] exI [of _ fs2] exI [of _ sv2] exI [of _ u2] exI [of _ "m + k"]) (auto split: sum.splits)
qed

lemma uio_fileblock:
  assumes "uio_ready n u" "nat (uio_offset u) = k * 512 + s" "s < 512"
  shows "u32 (cdiv (uio_offset u) (int SFS_BLOCKSIZE)) = k" "u32 (cmod (uio_offset u) (int SFS_BLOCKSIZE)) = s" "cmod (uio_offset u) (int SFS_BLOCKSIZE) = int s"
proof -
  have o: "uio_offset u = int (k * 512 + s)" "0 \<le> uio_offset u" "uio_offset u < 2 ^ 31" using assms by (auto simp: uio_ready_def)
  then have "k < 2 ^ 31" by auto
  then show "u32 (cdiv (uio_offset u) (int SFS_BLOCKSIZE)) = k" using assms(3) unfolding o(1) by (simp add: cdiv_pos u32_id flip: zdiv_int)
  show "cmod (uio_offset u) (int SFS_BLOCKSIZE) = int s" using assms(3) unfolding o(1) by (simp add: cmod_pos)
  then show "u32 (cmod (uio_offset u) (int SFS_BLOCKSIZE)) = s" using assms(3) by (simp add: u32_id)
qed

lemma read_block_xfer:
  assumes "uio_rw u = UIO_READ" "fs_ok fs" "inode_ok fs (sv_i sv)" "s + n \<le> 512" "nat (uio_offset u) = k * 512 + s"
    "quiet fs sv fs' sv'" "uio_moved n u u'" "iov_mem u' = mem_put (iov_pos u) (subblk (fblock fs (sv_i sv) k) s n) (iov_mem u)"
  shows "xfer n fs sv u fs' sv' u'"
  using assms by (simp add: xfer_def mem_get_fblock)

lemma write_block_xfer:
  assumes "uio_rw u = UIO_WRITE" "quiet fs sv fs1 sv1" "s + n \<le> 512" "nat (uio_offset u) = k * 512 + s"
    "fmap fs1 (sv_i sv1) k \<noteq> 0" "uio_moved n u u'" "iov_mem u' = iov_mem u" "fs_ok (fs1\<lparr>sfs_device := d\<rparr>)"
    "sectors d = (sectors (sfs_device fs1))[fmap fs1 (sv_i sv1) k := blit (fblock fs1 (sv_i sv1) k) s (mem_get (iov_pos u) n (iov_mem u))]"
  shows "xfer n fs sv u (fs1\<lparr>sfs_device := d\<rparr>) sv1 u'"
proof -
  let ?bs = "mem_get (iov_pos u) n (iov_mem u)"
  note ok = quiet_ok [OF assms(2), THEN conjunct1] quiet_ok [OF assms(2), THEN conjunct2]
  have "file_step (mem_put (k * 512) (blit (fblock fs1 (sv_i sv1) k) s ?bs) (cont fs1 (sv_i sv1))) fs1 sv1 (fs1\<lparr>sfs_device := d\<rparr>) sv1"
    using assms(3,5,8,9) fblock_length [OF ok, of k] by (intro write_block_step ok) simp_all
  then have "file_step (mem_put (k * 512 + s) ?bs (cont fs (sv_i sv))) fs1 sv1 (fs1\<lparr>sfs_device := d\<rparr>) sv1"
    using mem_put_fblock [OF ok, of s ?bs k] assms(2,3) by (simp add: quiet_def)
  with assms show ?thesis using file_step_trans [of _ fs sv fs1 sv1] by (auto simp: xfer_def quiet_file_step)
qed

lemma bmap_io:
  assumes "fs_ok fs" "inode_ok fs (sv_i sv)"
  obtains (err) e fs1 sv1 where "sfs_bmap fs sv k w = Some (Inl e, fs1, sv1)" "quiet fs sv fs1 sv1"
      "e = ENOSPC \<and> w \<and> fmap fs (sv_i sv) k = 0 \<and> sfs_full fs1 \<or> e = EINVAL \<and> 143 \<le> k"
  | (zero) fs1 sv1 where "sfs_bmap fs sv k w = Some (Inr 0, fs1, sv1)" "quiet fs sv fs1 sv1" "fmap fs (sv_i sv) k = 0" "\<not> w"
  | (real) fs1 sv1 where "sfs_bmap fs sv k w = Some (Inr (fmap fs1 (sv_i sv1) k), fs1, sv1)" "quiet fs sv fs1 sv1" "fmap fs1 (sv_i sv1) k \<noteq> 0"
      "fmap fs1 (sv_i sv1) k < nblk fs1" "length (blk fs1 (fmap fs1 (sv_i sv1) k)) = 512"
proof -
  from sfs_bmap_ok [OF assms, of k w] obtain r fs1 sv1 where r: "sfs_bmap fs sv k w = Some (r, fs1, sv1)" "quiet fs sv fs1 sv1"
    "case r of Inl e \<Rightarrow> (if 143 \<le> k then e = EINVAL else e = ENOSPC \<and> w \<and> fmap fs (sv_i sv) k = 0 \<and> sfs_full fs1)
     | Inr b \<Rightarrow> k < 143 \<and> b = fmap fs1 (sv_i sv1) k \<and> (w \<longrightarrow> in_use fs1 b \<and> b \<noteq> 0) \<and> (fmap fs (sv_i sv) k \<noteq> 0 \<or> \<not> w \<longrightarrow> b = fmap fs (sv_i sv) k)"
    by blast
  show thesis
  proof (cases r)
    case (Inl e)
    with r show ?thesis by (intro err [of e fs1 sv1]) (auto split: if_splits)
  next
    case (Inr b)
    show ?thesis
    proof (cases "b = 0")
      case True
      with Inr r show ?thesis by (intro zero [of fs1 sv1]) auto
    next
      case False
      with Inr r quiet_ok [OF r(2)] fmap_length [of fs1 "sv_i sv1" k] show ?thesis by (intro real [of fs1 sv1]) auto
    qed
  qed
qed

lemma quiet_fblock:
  assumes q: "quiet fs sv fs1 sv1" and ok: "fs_ok fs" "inode_ok fs (sv_i sv)"
  shows "fblock fs1 (sv_i sv1) k = fblock fs (sv_i sv) k"
proof (rule nth_equalityI)
  have l: "length (fblock fs (sv_i sv) k) = 512" "length (fblock fs1 (sv_i sv1) k) = 512"
    using fblock_length [OF ok] fblock_length [of fs1 "sv_i sv1"] quiet_ok [OF q] by simp_all
  then show "length (fblock fs1 (sv_i sv1) k) = length (fblock fs (sv_i sv) k)" by simp
  fix j assume "j < length (fblock fs1 (sv_i sv1) k)"
  with l have "j < 512" by simp
  then show "fblock fs1 (sv_i sv1) k ! j = fblock fs (sv_i sv) k ! j"
    using q cont_fblock [of j fs "sv_i sv" k] cont_fblock [of j fs1 "sv_i sv1" k] by (simp add: quiet_def)
qed

lemma io_doneI: "out = Some (Inr (), fs', sv', u') \<Longrightarrow> xfer n fs sv u fs' sv' u' \<Longrightarrow> io_done n fs sv u out"
  by (auto simp: io_done_def)

lemma io_done_errI: "out = Some (Inl e, fs', sv', u) \<Longrightarrow> quiet fs sv fs' sv' \<Longrightarrow>
    e = ENOSPC \<and> uio_rw u = UIO_WRITE \<and> sfs_full fs' \<or> e = EINVAL \<and> 143 * 512 < uio_offset u + int n \<Longrightarrow> io_done n fs sv u out"
  unfolding io_done_def using xfer_quiet by (intro exI [of _ "Inl e"] exI [of _ fs'] exI [of _ sv'] exI [of _ u] exI [of _ 0]) auto

definition io_atomic :: "nat \<Rightarrow> nat \<Rightarrow> sfs_fs \<Rightarrow> sfs_vnode \<Rightarrow> uio \<Rightarrow> sfs_io_result option \<Rightarrow> bool" where
  \<comment> \<open>a transfer in file block \<open>k\<close> is complete or has no effect\<close>
  "io_atomic k n fs sv u out \<longleftrightarrow> (\<exists>fs' sv' u'. out = Some (Inr (), fs', sv', u') \<and> xfer n fs sv u fs' sv' u') \<or>
     (\<exists>e fs' sv'. out = Some (Inl e, fs', sv', u) \<and> quiet fs sv fs' sv' \<and>
        (e = ENOSPC \<and> uio_rw u = UIO_WRITE \<and> fmap fs (sv_i sv) k = 0 \<and> sfs_full fs' \<or> e = EINVAL \<and> 143 * 512 < uio_offset u + int n))"

lemma io_atomicI: "out = Some (Inr (), fs', sv', u') \<Longrightarrow> xfer n fs sv u fs' sv' u' \<Longrightarrow> io_atomic k n fs sv u out"
  by (simp add: io_atomic_def)

lemma io_atomic_errI: "out = Some (Inl e, fs', sv', u) \<Longrightarrow> quiet fs sv fs' sv' \<Longrightarrow>
    e = ENOSPC \<and> uio_rw u = UIO_WRITE \<and> fmap fs (sv_i sv) k = 0 \<and> sfs_full fs' \<or> e = EINVAL \<and> 143 * 512 < uio_offset u + int n \<Longrightarrow>
    io_atomic k n fs sv u out"
  by (simp add: io_atomic_def)

lemma io_atomic_done: "io_atomic k n fs sv u out \<Longrightarrow> io_done n fs sv u out"
  unfolding io_atomic_def by (auto intro: io_doneI io_done_errI)

lemma sfs_partialio_atomic:
  assumes ok: "fs_ok fs" "inode_ok fs (sv_i sv)" and u: "uio_ready n u" "nat (uio_offset u) = k * 512 + s" "s < 512" "s + n \<le> 512" "0 < s + n"
  shows "io_atomic k n fs sv u (sfs_partialio fs sv u s n)"
  using ok
proof (cases rule: bmap_io [where k = k and w = "uio_rw u = UIO_WRITE"])
  case (err e fs1 sv1)
  have "143 * 512 < uio_offset u + int n" if "143 \<le> k" using that u(2,5) by linarith
  then show ?thesis using err uio_fileblock(1) [OF u(1-3)] u(4)
    by (intro io_atomic_errI [of _ e fs1 sv1]) (auto simp: sfs_partialio_def Let_def)
next
  case (zero fs1 sv1)
  have rd: "uio_rw u = UIO_READ" using zero(4) by (cases "uio_rw u") simp_all
  obtain u' where u': "uiomove zeroblock s n u = Some (Inr (), zeroblock, u')" "uio_moved n u u'"
    "iov_mem u' = mem_put (iov_pos u) (subblk zeroblock s n) (iov_mem u)"
    using uiomove_ready [OF u(1), of s zeroblock] u(4) rd by auto
  have rw': "uio_rw u' = UIO_READ" using u'(2) rd by (simp add: uio_moved_def)
  have "sfs_partialio fs sv u s n = Some (Inr (), fs1, sv1, u')"
    using zero(1) rd rw' uio_fileblock(1) [OF u(1-3)] u(4) u'(1) by (simp add: sfs_partialio_def Let_def)
  moreover have "xfer n fs sv u fs1 sv1 u'"
    using read_block_xfer [OF rd ok u(4,2) zero(2) u'(2)] u'(3) zero(3) by (simp add: fblock_def)
  ultimately show ?thesis by (rule io_atomicI)
next
  case (real fs1 sv1)
  let ?b = "fmap fs1 (sv_i sv1) k"
  have fb: "blk fs1 ?b = fblock fs1 (sv_i sv1) k" using real(3) by (simp add: fblock_def)
  obtain d where d: "sfs_rblock (sfs_device fs1) zeroblock 0 ?b = Some (Inr (), d, fblock fs1 (sv_i sv1) k)" "fs_ok (fs1\<lparr>sfs_device := d\<rparr>)"
    "sectors d = sectors (sfs_device fs1)"
    using sfs_read_ok [of fs1 ?b zeroblock] quiet_ok [OF real(2)] real(4) fb by auto
  let ?fs = "fs1\<lparr>sfs_device := d\<rparr>"
  have q: "quiet fs sv ?fs sv1" "fmap ?fs (sv_i sv1) = fmap fs1 (sv_i sv1)" "fblock ?fs (sv_i sv1) k = fblock fs1 (sv_i sv1) k"
    using quiet_device [of fs1 sv1 d] quiet_ok [OF real(2)] d(2,3) quiet_trans [OF real(2)] by (simp_all add: fblock_def)
  have len: "length (fblock fs1 (sv_i sv1) k) = 512" using real(5) fb by simp
  obtain buf u' where u': "uiomove (fblock fs1 (sv_i sv1) k) s n u = Some (Inr (), buf, u')" "uio_moved n u u'"
    "case uio_rw u of
       UIO_READ \<Rightarrow> buf = fblock fs1 (sv_i sv1) k \<and> iov_mem u' = mem_put (iov_pos u) (subblk (fblock fs1 (sv_i sv1) k) s n) (iov_mem u)
     | UIO_WRITE \<Rightarrow> iov_mem u' = iov_mem u \<and> buf = blit (fblock fs1 (sv_i sv1) k) s (mem_get (iov_pos u) n (iov_mem u))"
    using uiomove_ready [OF u(1), of s "fblock fs1 (sv_i sv1) k"] u(4) len by auto
  have rw': "uio_rw u' = uio_rw u" using u'(2) by (simp add: uio_moved_def)
  show ?thesis
  proof (cases "uio_rw u")
    case UIO_READ
    have "sfs_partialio fs sv u s n = Some (Inr (), ?fs, sv1, u')"
      using real(1,3) UIO_READ rw' uio_fileblock(1) [OF u(1-3)] u(4) u'(1) d(1) by (simp add: sfs_partialio_def Let_def)
    moreover have "xfer n fs sv u ?fs sv1 u'"
      using read_block_xfer [OF UIO_READ ok u(4,2) q(1) u'(2)] u'(3) UIO_READ quiet_fblock [OF real(2) ok] by simp
    ultimately show ?thesis by (rule io_atomicI)
  next
    case UIO_WRITE
    then have buf: "iov_mem u' = iov_mem u" "buf = blit (fblock fs1 (sv_i sv1) k) s (mem_get (iov_pos u) n (iov_mem u))" using u'(3) by simp_all
    have nb: "?b < nblk ?fs" using real(4) by simp
    obtain e where e: "sfs_wblock (sfs_device ?fs) buf 0 ?b = Some (Inr (), e)" "fs_ok (?fs\<lparr>sfs_device := e\<rparr>)"
      "sectors e = (sectors (sfs_device ?fs))[?b := buf]"
      using sfs_write_ok [OF d(2) nb, of buf] len u(4) buf(2) by auto
    have "sfs_partialio fs sv u s n = Some (Inr (), ?fs\<lparr>sfs_device := e\<rparr>, sv1, u')"
      using real(1,3) UIO_WRITE rw' uio_fileblock(1) [OF u(1-3)] u(4) u'(1) d(1) e(1) by (simp add: sfs_partialio_def Let_def)
    moreover have "xfer n fs sv u (?fs\<lparr>sfs_device := e\<rparr>) sv1 u'"
      using q real(3) e buf by (intro write_block_xfer [OF UIO_WRITE q(1) u(4,2) _ u'(2) buf(1) e(2)]) simp_all
    ultimately show ?thesis by (rule io_atomicI)
  qed
qed

lemma sfs_partialio_ok:
  assumes "fs_ok fs" "inode_ok fs (sv_i sv)" "uio_ready n u" "nat (uio_offset u) = k * 512 + s" "s < 512" "s + n \<le> 512" "0 < s + n"
  shows "io_done n fs sv u (sfs_partialio fs sv u s n)"
  using sfs_partialio_atomic [OF assms] by (rule io_atomic_done)

lemma iov_offset [simp]: "iov_pos (u\<lparr>uio_offset := b\<rparr>) = iov_pos u" "iov_mem (u\<lparr>uio_offset := b\<rparr>) = iov_mem u" "iov_can (u\<lparr>uio_offset := b\<rparr>) = iov_can u"
  by (simp_all add: iov_pos_def iov_mem_def iov_can_def fun_eq_iff)

lemma iov_resid [simp]: "iov_pos (u\<lparr>uio_resid := b\<rparr>) = iov_pos u" "iov_mem (u\<lparr>uio_resid := b\<rparr>) = iov_mem u" "iov_can (u\<lparr>uio_resid := b\<rparr>) = iov_can u"
  by (simp_all add: iov_pos_def iov_mem_def iov_can_def fun_eq_iff)

lemma xfer_resid: "xfer n fs sv (u\<lparr>uio_resid := a\<rparr>) fs' sv' w \<Longrightarrow> uio_resid u = n + x \<Longrightarrow> xfer n fs sv u fs' sv' (w\<lparr>uio_resid := x\<rparr>)"
  by (cases "uio_rw u") (simp_all add: xfer_def uio_moved_def)

lemma blockio_redirect:
  assumes fs: "fs_ok fs" and b: "b < nblk fs" and u: "uio_ready 512 u"
  defines "v \<equiv> u\<lparr>uio_offset := swrap32 (int b * int SFS_BLOCKSIZE), uio_resid := SFS_BLOCKSIZE\<rparr>"
  shows "block_uio (sfs_device fs) b v" "uio_offset v = swrap32 (int b * int SFS_BLOCKSIZE)"
    "uio_moved 512 v w \<Longrightarrow> uio_moved 512 u (w\<lparr>uio_offset := swrap32 (uio_offset w - swrap32 (int b * int SFS_BLOCKSIZE) + uio_offset u),
       uio_resid := u32 (int (uio_resid w) - int SFS_BLOCKSIZE + int (uio_resid u))\<rparr>)"
proof -
  have "b < d_blocks (sfs_device fs)" "disk_ok (sfs_device fs)" using fs_ok_blk [OF fs b] fs by (simp_all add: fs_ok_def)
  then have lt: "b * 512 + 512 < 2 ^ 31" "b < d_blocks (sfs_device fs)" by (auto simp: disk_ok_def)
  then have so: "swrap32 (int b * int SFS_BLOCKSIZE) = int (b * SFS_BLOCKSIZE)" by (subst swrap32_id) auto
  then have so': "swrap32 (int b * 512) = int b * 512" by simp
  show "block_uio (sfs_device fs) b v" using u lt unfolding block_uio_def v_def so
    by (auto simp: uio_ready_def)
  show "uio_offset v = swrap32 (int b * int SFS_BLOCKSIZE)" by (simp add: v_def)
  assume w: "uio_moved 512 v w"
  have r: "512 \<le> uio_resid u" "uio_resid u < 2 ^ 32" "0 \<le> uio_offset u" "uio_offset u + 512 < 2 ^ 31" using u by (auto simp: uio_ready_def)
  then have "u32 (int (uio_resid u) - 512) = uio_resid u - 512" using u32_id [of "int (uio_resid u - 512)"] by (simp add: of_nat_diff)
  moreover have "swrap32 (uio_offset u + 512) = uio_offset u + 512" using r by (intro swrap32_id) auto
  ultimately show "uio_moved 512 u (w\<lparr>uio_offset := swrap32 (uio_offset w - swrap32 (int b * int SFS_BLOCKSIZE) + uio_offset u),
       uio_resid := u32 (int (uio_resid w) - int SFS_BLOCKSIZE + int (uio_resid u))\<rparr>)"
    using w so' unfolding so by (simp add: uio_moved_def v_def add.commute)
qed

lemma sfs_blockio_ok:
  assumes ok: "fs_ok fs" "inode_ok fs (sv_i sv)" and u: "uio_ready 512 u" "nat (uio_offset u) = k * 512"
  shows "io_done 512 fs sv u (sfs_blockio fs sv u)"
proof -
  have k: "u32 (cdiv (uio_offset u) (int SFS_BLOCKSIZE)) = k" using uio_fileblock(1) [OF u(1), of k 0] u(2) by simp
  have o: "nat (uio_offset u) = k * 512 + 0" "0 + 512 \<le> (512 :: nat)" using u(2) by simp_all
  from ok show ?thesis
  proof (cases rule: bmap_io [where k = k and w = "uio_rw u = UIO_WRITE"])
    case (err e fs1 sv1)
    have "143 * 512 < uio_offset u + int 512" if "143 \<le> k" using that u(2) by linarith
    then show ?thesis using err k by (intro io_done_errI [of _ e fs1 sv1]) (auto simp: sfs_blockio_def Let_def)
  next
    case (zero fs1 sv1)
    have rd: "uio_rw u = UIO_READ" using zero(4) by (cases "uio_rw u") simp_all
    obtain u' where u': "uiomovezeros 512 u = Some (Inr (), u')" "uio_moved 512 u u'" "iov_mem u' = mem_put (iov_pos u) (replicate 512 0) (iov_mem u)"
      using uiomovezeros_ready [OF u(1) rd] by blast
    have "sfs_blockio fs sv u = Some (Inr (), fs1, sv1, u')" using zero(1) rd k u'(1) by (simp add: sfs_blockio_def Let_def)
    moreover have "xfer 512 fs sv u fs1 sv1 u'"
      using read_block_xfer [OF rd ok o(2,1) zero(2) u'(2)] u'(3) zero(3) by (simp add: fblock_def zeroblock_def subblk_def)
    ultimately show ?thesis by (rule io_doneI)
  next
    case (real fs1 sv1)
    let ?b = "fmap fs1 (sv_i sv1) k"
    let ?v = "u\<lparr>uio_offset := swrap32 (int ?b * int SFS_BLOCKSIZE), uio_resid := SFS_BLOCKSIZE\<rparr>"
    have fs1: "fs_ok fs1" "disk_ok (sfs_device fs1)" "lh_outcomes (sfs_device fs1) = []" using quiet_ok [OF real(2)] by (auto simp: fs_ok_def)
    note v = blockio_redirect [OF fs1(1) real(4) u(1)]
    have ge: "uio_resid u \<ge> SFS_BLOCKSIZE" using u(1) by (simp add: uio_ready_def)
    have fb: "fblock fs1 (sv_i sv1) k = blk fs1 ?b" using real(3) by (simp add: fblock_def)
    let ?fin = "\<lambda>w. w\<lparr>uio_offset := swrap32 (uio_offset w - swrap32 (int ?b * int SFS_BLOCKSIZE) + uio_offset u),
       uio_resid := u32 (int (uio_resid w) - int SFS_BLOCKSIZE + int (uio_resid u))\<rparr>"
    have eq: "sfs_blockio fs sv u = Some (Inr (), fs1\<lparr>sfs_device := d\<rparr>, sv1, ?fin w)"
      if "sfs_rwblock (sfs_device fs1) ?v = Some (Inr (), d, w)" for d w
      using that real(1,3) k ge by (simp add: sfs_blockio_def Let_def)
    show ?thesis
    proof (cases "uio_rw u")
      case UIO_READ
      then obtain d w where d: "sfs_rwblock (sfs_device fs1) ?v = Some (Inr (), d, w)" "disk_ok d" "d_blocks d = d_blocks (sfs_device fs1)"
        "sectors d = sectors (sfs_device fs1)" "lh_outcomes d = []" "uio_moved 512 ?v w" "iov_mem w = mem_put (iov_pos u) (blk fs1 ?b) (iov_mem u)"
        using sfs_rwblock_try_read [OF fs1(2) v(1), of 0] fs1(3) by (auto simp: sfs_rwblock_def)
      have ok1: "fs_ok (fs1\<lparr>sfs_device := d\<rparr>)" by (rule fs_ok_device [OF fs1(1) d(2,5,3)])
      have q: "quiet fs sv (fs1\<lparr>sfs_device := d\<rparr>) sv1"
        using quiet_device(1) [of fs1 sv1 d] quiet_ok [OF real(2)] ok1 d(4) quiet_trans [OF real(2)] by simp
      have "subblk (fblock fs (sv_i sv) k) 0 512 = blk fs1 ?b" using quiet_fblock [OF real(2) ok, of k] fb real(5) by (simp add: subblk_def)
      then have "xfer 512 fs sv u (fs1\<lparr>sfs_device := d\<rparr>) sv1 (?fin w)"
        using read_block_xfer [OF UIO_READ ok o(2,1) q v(3) [OF d(6)]] d(7) by simp
      with eq [OF d(1)] show ?thesis by (rule io_doneI)
    next
      case UIO_WRITE
      then obtain d w where d: "sfs_rwblock (sfs_device fs1) ?v = Some (Inr (), d, w)" "disk_ok d" "d_blocks d = d_blocks (sfs_device fs1)"
        "sectors d = (sectors (sfs_device fs1))[?b := mem_get (iov_pos u) 512 (iov_mem u)]" "lh_outcomes d = []" "uio_moved 512 ?v w" "iov_mem w = iov_mem u"
        using sfs_rwblock_write [OF fs1(2) v(1)] fs1(3) by auto
      have ok1: "fs_ok (fs1\<lparr>sfs_device := d\<rparr>)" by (rule fs_ok_device [OF fs1(1) d(2,5,3)])
      have "xfer 512 fs sv u (fs1\<lparr>sfs_device := d\<rparr>) sv1 (?fin w)"
        using d(4,7) real(3,5) fb by (intro write_block_xfer [OF UIO_WRITE real(2) o(2,1) _ v(3) [OF d(6)] _ ok1]) simp_all
      with eq [OF d(1)] show ?thesis by (rule io_doneI)
    qed
  qed
qed

section \<open>Whole requests\<close>

lemma io_done_bind:
  assumes "io_done m fs sv u X" "0 \<le> uio_offset u"
    "\<And>fs1 sv1 u1. xfer m fs sv u fs1 sv1 u1 \<Longrightarrow> io_done n fs1 sv1 u1 (g fs1 sv1 u1)" "k = m + n"
  shows "io_done k fs sv u (X \<bind> (\<lambda>(r, fs1, sv1, u1). case r of Inl e \<Rightarrow> Some (Inl e, fs1, sv1, u1) | Inr _ \<Rightarrow> g fs1 sv1 u1))"
proof -
  from assms(1) obtain r fs1 sv1 u1 where X: "X = Some (r, fs1, sv1, u1)" by (auto simp: io_done_def)
  with io_done_then [of m fs sv u r fs1 sv1 u1 n g] assms show ?thesis by simp
qed

lemma sfs_io_blocks_ok:
  "fs_ok fs \<Longrightarrow> inode_ok fs (sv_i sv) \<Longrightarrow> uio_ready (n * 512) u \<Longrightarrow> nat (uio_offset u) = k * 512 \<Longrightarrow>
   io_done (n * 512) fs sv u (sfs_io_blocks n fs sv u)"
proof (induction n arbitrary: fs sv u k)
  case 0
  then show ?case by (intro io_doneI [of _ fs sv u]) (simp_all add: xfer_refl)
next
  case (Suc n)
  have ready: "uio_ready 512 u" using Suc.prems(3) by (rule uio_ready_mono) simp
  have pos: "0 \<le> uio_offset u" using ready by (simp add: uio_ready_def)
  have "io_done (n * 512) fs1 sv1 u1 (sfs_io_blocks n fs1 sv1 u1)" if x: "xfer 512 fs sv u fs1 sv1 u1" for fs1 sv1 u1
  proof (rule Suc.IH [where k = "Suc k"])
    have mv: "uio_moved 512 u u1" using x by (simp add: xfer_def)
    with Suc.prems(3) show "uio_ready (n * 512) u1" by (intro uio_moved_ready [OF mv]) (simp add: add.commute)
    from mv Suc.prems(4) pos show "nat (uio_offset u1) = Suc k * 512" by (simp add: uio_moved_def nat_add_distrib)
  qed (use xfer_ok [OF x] in simp_all)
  then show ?case unfolding sfs_io_blocks.simps
    by (intro io_done_bind [OF sfs_blockio_ok [OF Suc.prems(1,2) ready Suc.prems(4)] pos]) simp_all
qed

lemma sfs_io_rest_ok:
  assumes ok: "fs_ok fs" "inode_ok fs (sv_i sv)" and u: "uio_ready (uio_resid u) u" "uio_resid u = 0 \<or> nat (uio_offset u) mod 512 = 0"
  shows "io_done (uio_resid u) fs sv u (sfs_io_rest fs sv u)"
proof (cases "uio_resid u = 0")
  case True
  then show ?thesis using ok by (intro io_doneI [of _ fs sv u]) (simp_all add: xfer_refl sfs_io_rest_def)
next
  case False
  let ?n = "uio_resid u div 512"
  obtain k where k: "nat (uio_offset u) = k * 512" using u(2) False by (metis dvdE dvd_eq_mod_eq_0 mult.commute)
  have pos: "0 \<le> uio_offset u" using u(1) by (simp add: uio_ready_def)
  have al: "cmod (uio_offset u) (int SFS_BLOCKSIZE) = 0" using uio_fileblock(3) [OF u(1), of k 0] k by simp
  have ready: "uio_ready (?n * 512) u" using u(1) by (rule uio_ready_mono) simp
  have rest: "io_done (uio_resid u mod 512) fs1 sv1 u1 (kassert (uio_resid u1 < SFS_BLOCKSIZE) \<bind>
      (\<lambda>_. if uio_resid u1 > 0 then sfs_partialio fs1 sv1 u1 0 (uio_resid u1) else Some (Inr (), fs1, sv1, u1)))"
    if x: "xfer (?n * 512) fs sv u fs1 sv1 u1" for fs1 sv1 u1
  proof -
    have mv: "uio_moved (?n * 512) u u1" using x by (simp add: xfer_def)
    then have r: "uio_resid u1 = uio_resid u mod 512" "nat (uio_offset u1) = (k + ?n) * 512 + 0"
      using k pos by (simp_all add: uio_moved_def nat_add_distrib minus_div_mult_eq_mod add_mult_distrib)
    have "uio_ready (uio_resid u mod 512) u1" using u(1) by (intro uio_moved_ready [OF mv]) simp
    with r xfer_ok [OF x] show ?thesis using sfs_partialio_ok [of fs1 sv1 "uio_resid u mod 512" u1 "k + ?n" 0]
      by (cases "uio_resid u mod 512 = 0") (auto intro: io_doneI xfer_refl)
  qed
  have eq: "sfs_io_rest fs sv u = sfs_io_blocks ?n fs sv u \<bind> (\<lambda>(r, fs1, sv1, u1). case r of Inl e \<Rightarrow> Some (Inl e, fs1, sv1, u1)
      | Inr _ \<Rightarrow> kassert (uio_resid u1 < SFS_BLOCKSIZE) \<bind>
          (\<lambda>_. if uio_resid u1 > 0 then sfs_partialio fs1 sv1 u1 0 (uio_resid u1) else Some (Inr (), fs1, sv1, u1)))"
    using False al by (simp add: sfs_io_rest_def)
  show ?thesis unfolding eq by (rule io_done_bind [OF sfs_io_blocks_ok [OF ok ready k] pos rest]) simp_all
qed

lemma sfs_io_body_ok:
  assumes ok: "fs_ok fs" "inode_ok fs (sv_i sv)" and u: "uio_ready (uio_resid u) u"
  shows "io_done (uio_resid u) fs sv u (sfs_io_body fs sv u)"
proof -
  obtain k s where o: "nat (uio_offset u) = k * 512 + s" "s < 512"
    using that [of "nat (uio_offset u) div 512" "nat (uio_offset u) mod 512"] by simp
  let ?m = "if s = 0 then 0 else min (512 - s) (uio_resid u)"
  have pos: "0 \<le> uio_offset u" using u by (simp add: uio_ready_def)
  note s = uio_fileblock [OF u o]
  have lead: "io_done ?m fs sv u (sfs_io_lead fs sv u)"
  proof (cases "s = 0")
    case True
    with ok s(2) show ?thesis by (intro io_doneI [of _ fs sv u]) (simp_all add: xfer_refl sfs_io_lead_def)
  next
    case False
    moreover have "uio_ready ?m u" using u by (rule uio_ready_mono) simp
    moreover have "s + ?m \<le> 512" using False o(2) by simp
    ultimately show ?thesis using s(2) sfs_partialio_ok [OF ok _ o, of ?m] by (simp add: sfs_io_lead_def Let_def)
  qed
  have rest: "io_done (uio_resid u - ?m) fs1 sv1 u1 (sfs_io_rest fs1 sv1 u1)" if x: "xfer ?m fs sv u fs1 sv1 u1" for fs1 sv1 u1
  proof -
    have mv: "uio_moved ?m u u1" using x by (simp add: xfer_def)
    then have r: "uio_resid u1 = uio_resid u - ?m" "nat (uio_offset u1) = nat (uio_offset u) + ?m"
      using pos by (simp_all add: uio_moved_def nat_add_distrib)
    have "uio_ready (uio_resid u1) u1" using u r(1) by (intro uio_moved_ready [OF mv]) simp
    moreover have "uio_resid u1 = 0 \<or> nat (uio_offset u1) mod 512 = 0"
    proof (cases "uio_resid u1 = 0")
      case False
      then have "nat (uio_offset u1) = (k + 1) * 512 \<or> nat (uio_offset u1) = k * 512" using r o by (auto simp: min_def split: if_splits)
      then show ?thesis by auto
    qed simp
    ultimately show ?thesis using sfs_io_rest_ok [of fs1 sv1 u1] xfer_ok [OF x] r(1) by simp
  qed
  show ?thesis unfolding sfs_io_body_def by (rule io_done_bind [OF lead pos rest]) simp_all
qed

lemma sfs_io_body_small:
  assumes ok: "fs_ok fs" "inode_ok fs (sv_i sv)" and u: "uio_ready (uio_resid u) u" "nat (uio_offset u) = k * 512 + s"
    and n: "s + uio_resid u \<le> 512" "0 < uio_resid u" "uio_resid u < 512"
  shows "io_atomic k (uio_resid u) fs sv u (sfs_io_body fs sv u)"
proof -
  have s: "s < 512" "0 < s + uio_resid u" using n by simp_all
  note f = uio_fileblock [OF u s(1)]
  have p: "io_atomic k (uio_resid u) fs sv u (sfs_partialio fs sv u s (uio_resid u))" by (rule sfs_partialio_atomic [OF ok u s(1) n(1) s(2)])
  have "sfs_io_body fs sv u = sfs_partialio fs sv u s (uio_resid u)"
  proof (cases "s = 0")
    case True
    then show ?thesis using f n by (simp add: sfs_io_body_def sfs_io_lead_def sfs_io_rest_def)
  next
    case False
    then have b: "sfs_io_body fs sv u = sfs_partialio fs sv u s (uio_resid u) \<bind> (\<lambda>(r, fs', sv', u'). case r of Inl e \<Rightarrow> Some (Inl e, fs', sv', u') | Inr _ \<Rightarrow> sfs_io_rest fs' sv' u')"
      using f n by (simp add: sfs_io_body_def sfs_io_lead_def Let_def min_absorb2)
    from p consider fs' sv' u' where "sfs_partialio fs sv u s (uio_resid u) = Some (Inr (), fs', sv', u')" "xfer (uio_resid u) fs sv u fs' sv' u'"
      | e fs' sv' where "sfs_partialio fs sv u s (uio_resid u) = Some (Inl e, fs', sv', u)" unfolding io_atomic_def by blast
    then show ?thesis unfolding b by cases (simp_all add: sfs_io_rest_def xfer_def uio_moved_def)
  qed
  with p show ?thesis by simp
qed

section \<open>Properties\<close>

definition sized :: "nat \<Rightarrow> sfs_vnode \<Rightarrow> sfs_vnode" where
  "sized s sv = (if sfi_size (sv_i sv) = s then sv else sv\<lparr>sv_i := (sv_i sv)\<lparr>sfi_size := s\<rparr>, sv_dirty := True\<rparr>)"

lemma sfs_io_write_ok:
  assumes ok: "fs_ok fs" "inode_ok fs (sv_i sv)" and u: "uio_ready (uio_resid u) u" "uio_rw u = UIO_WRITE" and sz: "sfi_size (sv_i sv) < 2 ^ 31"
  shows "\<exists>r fs' sv1 u' m. sfs_io fs sv u = Some (r, fs', sized (max (sfi_size (sv_i sv)) (nat (uio_offset u) + m)) sv1, u') \<and>
    m \<le> uio_resid u \<and> xfer m fs sv u fs' sv1 u' \<and>
    (case r of Inr _ \<Rightarrow> m = uio_resid u | Inl e \<Rightarrow> e = ENOSPC \<and> sfs_full fs' \<or> e = EINVAL \<and> 143 * 512 < uio_offset u + int (uio_resid u))"
proof -
  from sfs_io_body_ok [OF ok u(1)] obtain r fs' sv1 u' m where b: "sfs_io_body fs sv u = Some (r, fs', sv1, u')" "xfer m fs sv u fs' sv1 u'" "m \<le> uio_resid u"
    "case r of Inr _ \<Rightarrow> m = uio_resid u
     | Inl e \<Rightarrow> e = ENOSPC \<and> uio_rw u = UIO_WRITE \<and> sfs_full fs' \<or> e = EINVAL \<and> 143 * 512 < uio_offset u + int (uio_resid u)"
    unfolding io_done_def by blast
  have o: "uio_offset u' = int (nat (uio_offset u) + m)" "nat (uio_offset u) + m < 2 ^ 31" "uio_rw u' = UIO_WRITE" "uio_resid u' < 2 ^ 32"
    using b(2,3) u by (auto simp: xfer_def uio_moved_def uio_ready_def)
  have s1: "sfi_size (sv_i sv1) = sfi_size (sv_i sv)" using b(2) u(2) by (simp add: xfer_def file_step_def)
  have "sfs_io_out 0 (r, fs', sv1, u') = (r, fs', sized (max (sfi_size (sv_i sv)) (nat (uio_offset u) + m)) sv1, u')"
  proof -
    have "swrap32 (int (sfi_size (sv_i sv1))) = int (sfi_size (sv_i sv))" using sz s1 by (subst swrap32_id) auto
    moreover have "u32 (uio_offset u') = nat (uio_offset u) + m" unfolding o(1) using o(2) by (simp add: u32_id del: of_nat_add)
    moreover have "u32 (int (uio_resid u')) = uio_resid u'" using o(4) by (simp add: u32_id)
    ultimately show ?thesis using o(1,3) s1 by (auto simp: sfs_io_out_def sized_def max_def)
  qed
  then have "sfs_io fs sv u = Some (r, fs', sized (max (sfi_size (sv_i sv)) (nat (uio_offset u) + m)) sv1, u')"
    using b(1) u(2) by (simp add: sfs_io_def)
  moreover have "case r of Inr _ \<Rightarrow> m = uio_resid u | Inl e \<Rightarrow> e = ENOSPC \<and> sfs_full fs' \<or> e = EINVAL \<and> 143 * 512 < uio_offset u + int (uio_resid u)"
    using b(4) by (cases r) auto
  ultimately show ?thesis using b(2,3) by blast
qed

lemma sfs_io_read_ok:
  assumes ok: "fs_ok fs" "inode_ok fs (sv_i sv)" and u: "uio_ready (uio_resid u) u" "uio_rw u = UIO_READ" and sz: "sfi_size (sv_i sv) \<le> 143 * 512"
  shows "\<exists>fs' sv' u'. sfs_io fs sv u = Some (Inr (), fs', sv', u') \<and>
    xfer (min (uio_resid u) (sfi_size (sv_i sv) - nat (uio_offset u))) fs sv u fs' sv' u'"
proof -
  let ?sz = "sfi_size (sv_i sv)"
  have o: "0 \<le> uio_offset u" "uio_offset u + int (uio_resid u) < 2 ^ 31" using u(1) by (auto simp: uio_ready_def)
  have s: "swrap32 (int ?sz) = int ?sz" using sz by (subst swrap32_id) auto
  have e: "swrap32 (uio_offset u + int (uio_resid u)) = uio_offset u + int (uio_resid u)" using o by (subst swrap32_id) auto
  show ?thesis
  proof (cases "uio_offset u \<ge> int ?sz")
    case True
    then have "sfs_io fs sv u = Some (Inr (), fs, sv, u)" using s u(2) by (simp add: sfs_io_def)
    moreover have "?sz - nat (uio_offset u) = 0" using True by linarith
    ultimately show ?thesis using xfer_refl [OF ok] by simp
  next
    case False
    let ?n = "min (uio_resid u) (?sz - nat (uio_offset u))"
    define x where "x = uio_resid u - ?n"
    then have x: "uio_resid u = ?n + x" "0 < ?n \<or> uio_resid u = 0" "x < 2 ^ 32" using False o by auto
    then have xx: "u32 (int x) = x" by (simp add: u32_id)
    have more: "(uio_offset u + int (uio_resid u) > int ?sz) = (0 < x)" "0 < x \<Longrightarrow> uio_offset u + int (uio_resid u) - int ?sz = int x"
      using False o unfolding x_def by auto
    let ?v = "u\<lparr>uio_resid := uio_resid u - x\<rparr>"
    have n: "uio_resid u - x = ?n" using x(1) by simp
    have v: "uio_ready (uio_resid ?v) ?v" using u(1) n by (auto simp: uio_ready_def)
    from sfs_io_body_ok [OF ok v] obtain r fs' sv' w m where b: "sfs_io_body fs sv ?v = Some (r, fs', sv', w)" "xfer m fs sv ?v fs' sv' w"
      "case r of Inr _ \<Rightarrow> m = uio_resid ?v
       | Inl e \<Rightarrow> e = ENOSPC \<and> uio_rw ?v = UIO_WRITE \<and> sfs_full fs' \<or> e = EINVAL \<and> 143 * 512 < uio_offset ?v + int (uio_resid ?v)"
      unfolding io_done_def by blast
    have nv: "uio_resid ?v = ?n" "uio_offset ?v = uio_offset u" "uio_rw ?v = UIO_READ" using n(1) u(2) by simp_all
    have "\<not> 143 * 512 < uio_offset u + int ?n" using sz False o by auto
    with b(3) have r: "r = Inr ()" "m = ?n" unfolding nv by (cases r; simp)+
    have w: "uio_rw w = UIO_READ" "uio_resid w = 0" using b(2) u(2) r(2) n(1) by (auto simp: xfer_def uio_moved_def)
    have out: "sfs_io_out x (r, fs', sv', w) = (Inr (), fs', sv', w\<lparr>uio_resid := x\<rparr>)" using r w xx by (simp add: sfs_io_out_def)
    have "sfs_io fs sv u = Some (Inr (), fs', sv', w\<lparr>uio_resid := x\<rparr>)"
    proof (cases "0 < x")
      case True
      moreover have "x < uio_resid u" using x(1,2) True by auto
      ultimately show ?thesis using s e u(2) b(1) out more xx False by (simp add: sfs_io_def Let_def)
    next
      case no: False
      then show ?thesis using s e u(2) b(1) out more False by (simp add: sfs_io_def Let_def)
    qed
    moreover have "xfer ?n fs sv u fs' sv' (w\<lparr>uio_resid := x\<rparr>)" using xfer_resid [OF b(2)] r(2) x(1) by simp
    ultimately show ?thesis by blast
  qed
qed

lemma sized_simps [simp]:
  "cont fs (sv_i (sized s sv)) = cont fs (sv_i sv)" "file_blocks fs (sv_i (sized s sv)) = file_blocks fs (sv_i sv)"
  "inode_ok fs (sv_i (sized s sv)) = inode_ok fs (sv_i sv)" "sfi_size (sv_i (sized s sv)) = s"
  "sfi_type (sv_i (sized s sv)) = sfi_type (sv_i sv)" "sfi_linkcount (sv_i (sized s sv)) = sfi_linkcount (sv_i sv)" "sv_ino (sized s sv) = sv_ino sv"
proof -
  have fm: "fmap fs (sv_i (sized s sv)) = fmap fs (sv_i sv)" by (simp add: fun_eq_iff fmap_def sized_def)
  then show "cont fs (sv_i (sized s sv)) = cont fs (sv_i sv)" by (simp add: fun_eq_iff cont_def)
  show fb: "file_blocks fs (sv_i (sized s sv)) = file_blocks fs (sv_i sv)" unfolding file_blocks_def fm by (simp add: sized_def)
  show "inode_ok fs (sv_i (sized s sv)) = inode_ok fs (sv_i sv)" unfolding inode_ok_def fm fb by (simp add: sized_def)
qed (simp_all add: sized_def)

definition isolated :: "sfs_fs \<Rightarrow> sfs_inode \<Rightarrow> sfs_fs \<Rightarrow> sfs_inode \<Rightarrow> bool" where
  \<comment> \<open>nothing outside the file was touched: blocks in use elsewhere are still in use, not part of the file and unchanged\<close>
  "isolated fs i fs' i' \<longleftrightarrow> (\<forall>c. in_use fs c \<and> c \<notin> file_blocks fs i \<longrightarrow> in_use fs' c \<and> c \<notin> file_blocks fs' i' \<and> blk fs' c = blk fs c)"

text \<open>
  C1. Writing. On a consistent file system \<open>sfs_io\<close> with a write request always returns, and it has the effect of
  storing a prefix of the \<open>m\<close> first bytes of the region at the offset in the file's array of bytes, with the size
  grown to the end of the prefix; \<open>uio_resid\<close> says how many bytes are left. The prefix is everything when the call
  succeeds, and otherwise the volume is full (ENOSPC) or the request passes the biggest file of 143 blocks (EINVAL).
  Other files are untouched and the file system stays consistent.
\<close>

theorem sfs_io_write_spec:
  assumes "fs_ok fs" "inode_ok fs (sv_i sv)" "uio_ready (uio_resid u) u" "uio_rw u = UIO_WRITE" "sfi_size (sv_i sv) < 2 ^ 31"
  shows "\<exists>r fs' sv' u' m. sfs_io fs sv u = Some (r, fs', sv', u') \<and> m \<le> uio_resid u \<and> uio_resid u' = uio_resid u - m \<and>
    cont fs' (sv_i sv') = mem_put (nat (uio_offset u)) (mem_get (iov_pos u) m (iov_mem u)) (cont fs (sv_i sv)) \<and>
    sfi_size (sv_i sv') = max (sfi_size (sv_i sv)) (nat (uio_offset u) + m) \<and>
    fs_ok fs' \<and> inode_ok fs' (sv_i sv') \<and> isolated fs (sv_i sv) fs' (sv_i sv') \<and>
    (case r of Inr _ \<Rightarrow> m = uio_resid u
     | Inl e \<Rightarrow> e = ENOSPC \<and> sfs_full fs' \<or> e = EINVAL \<and> 143 * 512 < uio_offset u + int (uio_resid u))"
proof -
  let ?s = "\<lambda>m. max (sfi_size (sv_i sv)) (nat (uio_offset u) + m)"
  obtain r fs' sv1 u' m where r: "sfs_io fs sv u = Some (r, fs', sized (?s m) sv1, u')" "m \<le> uio_resid u" "xfer m fs sv u fs' sv1 u'"
    "case r of Inr _ \<Rightarrow> m = uio_resid u | Inl e \<Rightarrow> e = ENOSPC \<and> sfs_full fs' \<or> e = EINVAL \<and> 143 * 512 < uio_offset u + int (uio_resid u)"
    using sfs_io_write_ok [OF assms] by blast
  from r(3) assms(4) have f: "uio_moved m u u'" "file_step (mem_put (nat (uio_offset u)) (mem_get (iov_pos u) m (iov_mem u)) (cont fs (sv_i sv))) fs sv fs' sv1"
    by (simp_all add: xfer_def)
  then have "isolated fs (sv_i sv) fs' (sv_i (sized (?s m) sv1))" "uio_resid u' = uio_resid u - m"
    by (simp_all add: isolated_def file_step_def keeps_def uio_moved_def)
  with r file_step_ok [OF f(2)] show ?thesis
    by (intro exI [of _ r] exI [of _ fs'] exI [of _ "sized (?s m) sv1"] exI [of _ u'] exI [of _ m]) simp
qed

definition kuio :: "byte list \<Rightarrow> int \<Rightarrow> uio_rw \<Rightarrow> uio" where
  "kuio buf pos rw = mk_kuio buf 0 (length buf) pos rw blank_uio"

lemma kuio_simps [simp]:
  "uio_resid (kuio buf pos rw) = length buf" "uio_offset (kuio buf pos rw) = pos" "uio_rw (kuio buf pos rw) = rw" "iov_pos (kuio buf pos rw) = 0"
  by (simp_all add: kuio_def mk_kuio_def iov_pos_def)

lemma kuio_ready: "0 \<le> pos \<Longrightarrow> pos + int (length buf) < 2 ^ 31 \<Longrightarrow> uio_ready (length buf) (kuio buf pos rw)"
  unfolding kuio_def by (rule mk_kuio_ready) auto

lemma kuio_mem_get: "n \<le> length buf \<Longrightarrow> mem_get 0 n (iov_mem (kuio buf pos rw)) = take n buf"
  by (intro nth_equalityI) (simp_all add: iov_mem_def kuio_def mk_kuio_def)

theorem sfs_io_write_spec_witness:
  "\<exists>r fs' sv' u' m. sfs_io example_sfs example_file (kuio [7, 8, 9] 1000 UIO_WRITE) = Some (r, fs', sv', u') \<and> m \<le> 3 \<and>
    cont fs' (sv_i sv') = mem_put 1000 (take m [7, 8, 9]) (cont example_sfs (sv_i example_file)) \<and> (r = Inr () \<longrightarrow> m = 3)"
proof -
  let ?u = "kuio [7, 8, 9] 1000 UIO_WRITE"
  have sz: "sfi_size (sv_i example_file) < 2 ^ 31" by (simp add: example_file_def)
  have u: "uio_ready (uio_resid ?u) ?u" "uio_rw ?u = UIO_WRITE" "uio_resid ?u = 3" using kuio_ready [of 1000 "[7, 8, 9]"] by simp_all
  obtain r fs' sv' u' m where r: "sfs_io example_sfs example_file ?u = Some (r, fs', sv', u')" "m \<le> uio_resid ?u"
    "cont fs' (sv_i sv') = mem_put (nat (uio_offset ?u)) (mem_get (iov_pos ?u) m (iov_mem ?u)) (cont example_sfs (sv_i example_file))"
    "case r of Inr _ \<Rightarrow> m = uio_resid ?u | Inl e \<Rightarrow> e = ENOSPC \<and> sfs_full fs' \<or> e = EINVAL \<and> 143 * 512 < uio_offset ?u + int (uio_resid ?u)"
    using sfs_io_write_spec [OF example_sfs_ok example_file_ok u(1,2) sz] by blast
  have "r = Inr () \<longrightarrow> m = 3" using r(4) u(3) by (cases r) simp_all
  moreover have "m \<le> 3" using r(2) u(3) by simp
  moreover have "cont fs' (sv_i sv') = mem_put 1000 (take m [7, 8, 9]) (cont example_sfs (sv_i example_file))"
    using r(3) kuio_mem_get [of m "[7, 8, 9]" 1000 UIO_WRITE] \<open>m \<le> 3\<close> by simp
  ultimately show ?thesis using r(1) by blast
qed

text \<open>
  C13. Reading. If the file is no longer than 143 blocks, a read request returns success and fills the region with the bytes of
  the file from the offset up to its end, \<open>min (uio_resid u) (size - offset)\<close> of them; the rest of memory and the
  whole file are unchanged.
\<close>

theorem sfs_io_read_spec:
  assumes "fs_ok fs" "inode_ok fs (sv_i sv)" "uio_ready (uio_resid u) u" "uio_rw u = UIO_READ" "sfi_size (sv_i sv) \<le> 143 * 512"
  shows "\<exists>fs' sv' u' n. sfs_io fs sv u = Some (Inr (), fs', sv', u') \<and> n = min (uio_resid u) (sfi_size (sv_i sv) - nat (uio_offset u)) \<and>
    uio_resid u' = uio_resid u - n \<and>
    iov_mem u' = mem_put (iov_pos u) (mem_get (nat (uio_offset u)) n (cont fs (sv_i sv))) (iov_mem u) \<and>
    cont fs' (sv_i sv') = cont fs (sv_i sv) \<and> sfi_size (sv_i sv') = sfi_size (sv_i sv) \<and>
    fs_ok fs' \<and> inode_ok fs' (sv_i sv') \<and> isolated fs (sv_i sv) fs' (sv_i sv')"
  using sfs_io_read_ok [OF assms] assms(4) by (auto simp: xfer_def quiet_def keeps_def isolated_def uio_moved_def)

theorem sfs_io_read_spec_witness:
  "\<exists>fs' sv' u'. sfs_io example_sfs example_file (kuio [7, 8, 9] 0 UIO_READ) = Some (Inr (), fs', sv', u') \<and> uio_resid u' = 3"
  using sfs_io_read_spec [OF example_sfs_ok example_file_ok, of "kuio [7, 8, 9] 0 UIO_READ"] kuio_ready [of 0 "[7, 8, 9]" UIO_READ]
  by (auto simp: example_file_def)

lemma kuio_moved_buf:
  assumes "uio_moved n (kuio buf pos UIO_READ) u" "iov_mem u = mem_put 0 bs (iov_mem (kuio buf pos UIO_READ))" "length bs = length buf"
  shows "iov_kbuf u = bs"
proof (rule nth_equalityI)
  have s: "uio_segflg u = UIO_SYSSPACE" "iov_can u = iov_can (kuio buf pos UIO_READ)" using assms(1) by (auto simp: uio_moved_def kuio_def mk_kuio_def)
  then have lt: "(i < length (iov_kbuf u)) = (i < length buf)" for i by (auto simp: iov_can_def fun_eq_iff kuio_def mk_kuio_def)
  show l: "length (iov_kbuf u) = length bs" using lt [of "length buf"] lt [of "length (iov_kbuf u)"] assms(3) by simp
  fix i assume "i < length (iov_kbuf u)"
  with l s(1) fun_cong [OF assms(2), of i] show "iov_kbuf u ! i = bs ! i" by (simp add: iov_mem_def mem_put_def)
qed

lemma write_read_back:
  assumes "fs_ok fs" "inode_ok fs (sv_i sv)" "sfi_size (sv_i sv) \<le> 143 * 512" "0 \<le> pos" "pos + int (length data) \<le> 143 * 512" "length buf = length data"
    and sv1: "sv' = sized (max (sfi_size (sv_i sv)) (nat pos + length data)) sv1" "xfer (length data) fs sv (kuio data pos UIO_WRITE) fs' sv1 u'"
  shows "\<exists>fs'' sv'' u''. sfs_io fs' sv' (kuio buf pos UIO_READ) = Some (Inr (), fs'', sv'', u'') \<and> iov_kbuf u'' = data \<and> uio_resid u'' = 0"
proof -
  let ?n = "length data" and ?r = "kuio buf pos UIO_READ"
  have ready: "uio_ready (uio_resid ?r) ?r" "uio_rw ?r = UIO_READ" using kuio_ready [of pos buf] assms(4-6) by simp_all
  have f: "file_step (mem_put (nat pos) (take ?n data) (cont fs (sv_i sv))) fs sv fs' sv1"
    using sv1 kuio_mem_get [of ?n data pos UIO_WRITE] by (simp add: xfer_def)
  have ok: "fs_ok fs'" "inode_ok fs' (sv_i sv')" "cont fs' (sv_i sv') = mem_put (nat pos) data (cont fs (sv_i sv))"
    using file_step_ok [OF f] sv1(1) by simp_all
  have sz': "sfi_size (sv_i sv') = max (sfi_size (sv_i sv)) (nat pos + ?n)" "sfi_size (sv_i sv') \<le> 143 * 512"
    using sv1(1) assms(3-5) by simp_all
  then have m: "min (uio_resid ?r) (sfi_size (sv_i sv') - nat (uio_offset ?r)) = ?n" using assms(6) by simp
  obtain fs'' sv'' u'' where x: "sfs_io fs' sv' ?r = Some (Inr (), fs'', sv'', u'')" "xfer ?n fs' sv' ?r fs'' sv'' u''"
    using sfs_io_read_ok [OF ok(1,2) ready sz'(2)] unfolding m by blast
  have "mem_get (nat pos) ?n (cont fs' (sv_i sv')) = data" by (intro nth_equalityI) (simp_all add: ok(3) mem_put_def)
  with x(2) have mv: "uio_moved ?n ?r u''" "iov_mem u'' = mem_put 0 data (iov_mem ?r)" by (simp_all add: xfer_def)
  have "iov_kbuf u'' = data" by (rule kuio_moved_buf [OF mv]) (simp add: assms(6))
  moreover have "uio_resid u'' = 0" using mv(1) assms(6) by (simp add: uio_moved_def)
  ultimately show ?thesis using x(1) by blast
qed

text \<open>C18. Write and read back: a write of \<open>data\<close> at \<open>pos\<close> inside the 143 blocks a file can have
  succeeds unless the volume gets full, and after it a read of as many bytes at \<open>pos\<close> into any buffer succeeds and
  the buffer holds \<open>data\<close>.\<close>

theorem sfs_io_write_read:
  assumes "fs_ok fs" "inode_ok fs (sv_i sv)" "sfi_size (sv_i sv) \<le> 143 * 512" "0 \<le> pos" "pos + int (length data) \<le> 143 * 512" "length buf = length data"
  shows "\<exists>r fs' sv' u'. sfs_io fs sv (kuio data pos UIO_WRITE) = Some (r, fs', sv', u') \<and>
    (r = Inl ENOSPC \<and> sfs_full fs' \<or>
     r = Inr () \<and> (\<exists>fs'' sv'' u''. sfs_io fs' sv' (kuio buf pos UIO_READ) = Some (Inr (), fs'', sv'', u'') \<and> iov_kbuf u'' = data \<and> uio_resid u'' = 0))"
proof -
  let ?w = "kuio data pos UIO_WRITE"
  have ready: "uio_ready (uio_resid ?w) ?w" "uio_rw ?w = UIO_WRITE" using kuio_ready [of pos data] assms(4,5) by simp_all
  have sz: "sfi_size (sv_i sv) < 2 ^ 31" using assms(3) by simp
  obtain r fs' sv1 u' m where r: "sfs_io fs sv ?w = Some (r, fs', sized (max (sfi_size (sv_i sv)) (nat (uio_offset ?w) + m)) sv1, u')"
    "xfer m fs sv ?w fs' sv1 u'" "case r of Inr _ \<Rightarrow> m = uio_resid ?w | Inl e \<Rightarrow> e = ENOSPC \<and> sfs_full fs' \<or> e = EINVAL \<and> 143 * 512 < uio_offset ?w + int (uio_resid ?w)"
    using sfs_io_write_ok [OF assms(1,2) ready sz] by blast
  show ?thesis
  proof (cases r)
    case (Inl e)
    with r assms(5) show ?thesis by auto
  next
    case (Inr x)
    with r have m: "m = length data" by simp
    with Inr r write_read_back [OF assms refl] show ?thesis by simp
  qed
qed

theorem sfs_io_write_read_witness:
  "\<exists>r fs' sv' u'. sfs_io example_sfs example_file (kuio [7, 8, 9] 511 UIO_WRITE) = Some (r, fs', sv', u') \<and>
    (r = Inl ENOSPC \<and> sfs_full fs' \<or>
     r = Inr () \<and> (\<exists>fs'' sv'' u''. sfs_io fs' sv' (kuio [0, 0, 0] 511 UIO_READ) = Some (Inr (), fs'', sv'', u'') \<and> iov_kbuf u'' = [7, 8, 9] \<and> uio_resid u'' = 0))"
  by (intro sfs_io_write_read example_sfs_ok example_file_ok) (simp_all add: example_file_def)

lemma sfs_bmap_far: "143 \<le> k \<Longrightarrow> sfs_bmap fs sv k w = Some (Inl EINVAL, fs, sv)"
proof -
  assume "143 \<le> k"
  moreover from this have "0 < (k - 15) div 128" by (simp add: div_greater_zero_iff)
  ultimately show ?thesis by (simp add: sfs_bmap_def)
qed

lemma sfs_io_body_far:
  assumes "uio_ready (uio_resid u) u" "0 < uio_resid u" "143 * 512 \<le> uio_offset u"
  shows "sfs_io_body fs sv u = Some (Inl EINVAL, fs, sv, u)"
proof -
  obtain k s where o: "nat (uio_offset u) = k * 512 + s" "s < 512"
    using that [of "nat (uio_offset u) div 512" "nat (uio_offset u) mod 512"] by simp
  have k: "143 \<le> k" using o assms(3) by linarith
  note f = uio_fileblock [OF assms(1) o]
  have p: "sfs_partialio fs sv u s' n = Some (Inl EINVAL, fs, sv, u)" if "s' + n \<le> 512" for s' n
    using that f(1) sfs_bmap_far [OF k] by (simp add: sfs_partialio_def Let_def)
  have b: "sfs_blockio fs sv u = Some (Inl EINVAL, fs, sv, u)" using f(1) sfs_bmap_far [OF k] by (simp add: sfs_blockio_def Let_def)
  show ?thesis
  proof (cases "s = 0")
    case False
    then show ?thesis using f(2) o(2) p [of s] by (simp add: sfs_io_body_def sfs_io_lead_def Let_def)
  next
    case True
    then have "sfs_io_body fs sv u = sfs_io_rest fs sv u" using f(2) by (simp add: sfs_io_body_def sfs_io_lead_def)
    also have "\<dots> = Some (Inl EINVAL, fs, sv, u)"
      using True f(3) b p [of 0] assms(2) by (cases "uio_resid u div 512") (simp_all add: sfs_io_rest_def div_eq_0_iff)
    finally show ?thesis .
  qed
qed

text \<open>C37. A write that is refused can still change the file: a write of at least one byte at an offset past
  the 143 blocks of the biggest file fails with EINVAL and transfers nothing, but the size of a shorter file becomes that offset.\<close>

theorem sfs_io_refused_write_extends:
  assumes "uio_ready (uio_resid u) u" "0 < uio_resid u" "uio_rw u = UIO_WRITE" "143 * 512 \<le> uio_offset u" "int (sfi_size (sv_i sv)) < uio_offset u"
  shows "sfs_io fs sv u = Some (Inl EINVAL, fs, sv\<lparr>sv_i := (sv_i sv)\<lparr>sfi_size := nat (uio_offset u)\<rparr>, sv_dirty := True\<rparr>, u)"
proof -
  have o: "0 \<le> uio_offset u" "uio_offset u < 2 ^ 31" "uio_resid u < 2 ^ 32" using assms(1) by (auto simp: uio_ready_def)
  then have "swrap32 (int (sfi_size (sv_i sv))) = int (sfi_size (sv_i sv))" using assms(5) by (subst swrap32_id) auto
  with o assms(3,5) show ?thesis using sfs_io_body_far [OF assms(1,2,4), of fs sv] by (simp add: sfs_io_def sfs_io_out_def u32_id)
qed

theorem sfs_io_refused_write_extends_witness:
  "sfs_io example_sfs example_file (kuio [7] 100000 UIO_WRITE) =
     Some (Inl EINVAL, example_sfs, example_file\<lparr>sv_i := (sv_i example_file)\<lparr>sfi_size := 100000\<rparr>, sv_dirty := True\<rparr>, kuio [7] 100000 UIO_WRITE)"
  using sfs_io_refused_write_extends [of "kuio [7] 100000 UIO_WRITE" example_file example_sfs] kuio_ready [of 100000 "[7]" UIO_WRITE]
  by (simp add: example_file_def)

end
