(* ===== verification/Kern_Libc.thy ===== *)
theory Kern_Libc
  imports Kern_Uio
begin

text \<open>
  The string and memory routines the kernel shares with \<open>lib/libc\<close>: \<open>memcpy\<close>, \<open>memmove\<close>, \<open>bzero\<close>,
  \<open>strlen\<close>, \<open>strcmp\<close>, \<open>strcpy\<close>, \<open>strcat\<close>, \<open>strchr\<close>, \<open>strrchr\<close>, \<open>strtok_r\<close> and \<open>atoi\<close>.

  The block routines work on one memory, a list of bytes in which a pointer is an index, so that source and destination may
  overlap. For the string routines a pointer to a string is the list of the bytes from the pointer to the end of its block;
  an access past the end is \<open>None\<close>. \<open>sizeof(long)\<close> is 4.
\<close>

section \<open>Blocks of memory\<close>

definition copy_unit :: "nat \<Rightarrow> byte list \<Rightarrow> nat \<Rightarrow> nat \<Rightarrow> byte list option" where
  \<comment> \<open>\<open>*d = *s\<close> for objects of \<open>w\<close> bytes\<close>
  "copy_unit w m d s = do {
     kassert (d + w \<le> length m \<and> s + w \<le> length m);
     Some (blit m d (subblk m s w))
   }"

function copy_up :: "nat \<Rightarrow> nat \<Rightarrow> nat \<Rightarrow> nat \<Rightarrow> nat \<Rightarrow> byte list \<Rightarrow> byte list option" where
  \<comment> \<open>\<open>for (i=0; i<n; i++) d[i] = s[i];\<close> from \<open>i\<close> on\<close>
  "copy_up w n i dst src m =
     (if i < n then do { m' \<leftarrow> copy_unit w m (dst + i * w) (src + i * w); copy_up w n (Suc i) dst src m' } else Some m)"
  by pat_completeness auto

termination
  by (relation "measure (\<lambda>(w, n, i, dst, src, m). n - i)") auto

fun copy_down :: "nat \<Rightarrow> nat \<Rightarrow> nat \<Rightarrow> nat \<Rightarrow> byte list \<Rightarrow> byte list option" where
  \<comment> \<open>\<open>for (i=n; i>0; i--) d[i-1] = s[i-1];\<close>\<close>
  "copy_down w 0 dst src m = Some m"
| "copy_down w (Suc i) dst src m = do { m' \<leftarrow> copy_unit w m (dst + i * w) (src + i * w); copy_down w i dst src m' }"

definition memcpy :: "byte list \<Rightarrow> nat \<Rightarrow> nat \<Rightarrow> nat \<Rightarrow> byte list option" where
  "memcpy m dst src len =
     (if dst mod 4 = 0 \<and> src mod 4 = 0 \<and> len mod 4 = 0 then copy_up 4 (len div 4) 0 dst src m
      else copy_up 1 len 0 dst src m)"

definition memmove :: "byte list \<Rightarrow> nat \<Rightarrow> nat \<Rightarrow> nat \<Rightarrow> byte list option" where
  "memmove m dst src len =
     (if dst < src then memcpy m dst src len
      else if dst mod 4 = 0 \<and> src mod 4 = 0 \<and> len mod 4 = 0 then copy_down 4 (len div 4) dst src m
      else copy_down 1 len dst src m)"

function zero_up :: "nat \<Rightarrow> nat \<Rightarrow> nat \<Rightarrow> nat \<Rightarrow> byte list \<Rightarrow> byte list option" where
  "zero_up w n i p m =
     (if i < n then do {
        kassert (p + i * w + w \<le> length m);
        zero_up w n (Suc i) p (blit m (p + i * w) (replicate w 0))
      } else Some m)"
  by pat_completeness auto

termination
  by (relation "measure (\<lambda>(w, n, i, p, m). n - i)") auto

definition bzero :: "byte list \<Rightarrow> nat \<Rightarrow> nat \<Rightarrow> byte list option" where
  "bzero m p len = (if p mod 4 = 0 \<and> len mod 4 = 0 then zero_up 4 (len div 4) 0 p m else zero_up 1 len 0 p m)"

section \<open>Strings\<close>

function strlen_loop :: "byte list \<Rightarrow> nat \<Rightarrow> nat option" where
  "strlen_loop s ret = do { c \<leftarrow> rd s (int ret); if c \<noteq> 0 then strlen_loop s (Suc ret) else Some ret }"
  by pat_completeness auto

termination
  by (relation "measure (\<lambda>(s, ret). length s - ret)") (auto simp: kern_simps)

definition strlen :: "byte list \<Rightarrow> nat option" where
  "strlen s = strlen_loop s 0"

function strcmp_loop :: "byte list \<Rightarrow> byte list \<Rightarrow> nat \<Rightarrow> nat option" where
  \<comment> \<open>\<open>for (i=0; a[i]!=0 && a[i]==b[i]; i++);\<close>\<close>
  "strcmp_loop a b i = do {
     x \<leftarrow> rd a (int i);
     (if x = 0 then Some i
      else do { y \<leftarrow> rd b (int i); if x = y then strcmp_loop a b (Suc i) else Some i })
   }"
  by pat_completeness auto

termination
  by (relation "measure (\<lambda>(a, b, i). length a - i)") (auto simp: kern_simps)

definition strcmp :: "byte list \<Rightarrow> byte list \<Rightarrow> int option" where
  \<comment> \<open>\<open>char\<close> is signed\<close>
  "strcmp a b = do {
     i \<leftarrow> strcmp_loop a b 0;
     x \<leftarrow> rd a (int i);
     y \<leftarrow> rd b (int i);
     Some (if sint x > sint y then 1 else if x = y then 0 else - 1)
   }"

function strcpy_loop :: "byte list \<Rightarrow> nat \<Rightarrow> byte list \<Rightarrow> nat \<Rightarrow> byte list option" where
  \<comment> \<open>\<open>strcpy(dest + off, src)\<close> from character \<open>i\<close> on; the two are different objects\<close>
  "strcpy_loop dest off src i = do {
     c \<leftarrow> rd src (int i);
     (if c \<noteq> 0 then do { dest' \<leftarrow> wr dest (int (off + i)) c; strcpy_loop dest' off src (Suc i) }
      else wr dest (int (off + i)) 0)
   }"
  by pat_completeness auto

termination
  by (relation "measure (\<lambda>(dest, off, src, i). length src - i)") (auto simp: kern_simps)

definition strcpy :: "byte list \<Rightarrow> nat \<Rightarrow> byte list \<Rightarrow> byte list option" where
  "strcpy dest off src = strcpy_loop dest off src 0"

definition strcat :: "byte list \<Rightarrow> byte list \<Rightarrow> byte list option" where
  "strcat dest src = do { off \<leftarrow> strlen dest; strcpy dest off src }"

function strchr_from :: "byte list \<Rightarrow> nat \<Rightarrow> byte \<Rightarrow> nat option option" where
  \<comment> \<open>the loop of \<open>strchr\<close> with \<open>s\<close> at index \<open>i\<close>; the inner option is \<open>NULL\<close> or the index\<close>
  "strchr_from s i ch = do {
     c \<leftarrow> rd s (int i);
     (if c \<noteq> 0 then (if c = ch then Some (Some i) else strchr_from s (Suc i) ch)
      else Some (if c = ch then Some i else None))
   }"
  by pat_completeness auto

termination
  by (relation "measure (\<lambda>(s, i, ch). length s - i)") (auto simp: kern_simps)

definition strchr :: "byte list \<Rightarrow> byte \<Rightarrow> nat option option" where
  "strchr s ch = strchr_from s 0 ch"

fun strrchr_loop :: "byte list \<Rightarrow> nat \<Rightarrow> byte \<Rightarrow> nat option option" where
  "strrchr_loop s 0 ch = Some None"
| "strrchr_loop s (Suc i) ch = do { c \<leftarrow> rd s (int i); if c = ch then Some (Some i) else strrchr_loop s i ch }"

definition strrchr :: "byte list \<Rightarrow> byte \<Rightarrow> nat option option" where
  "strrchr s ch = do { n \<leftarrow> strlen s; strrchr_loop s (n + 1) ch }"

function strtok_skip :: "bool \<Rightarrow> byte list \<Rightarrow> byte list \<Rightarrow> nat \<Rightarrow> nat option" where
  \<comment> \<open>\<open>while (*p && strchr(seps, *p)) p++\<close> for \<open>sep\<close>, with the negated test otherwise\<close>
  "strtok_skip sep buf seps p = do {
     c \<leftarrow> rd buf (int p);
     (if c = 0 then Some p
      else do {
        f \<leftarrow> strchr seps c;
        (if (f \<noteq> None) = sep then strtok_skip sep buf seps (Suc p) else Some p)
      })
   }"
  by pat_completeness auto

termination
  by (relation "measure (\<lambda>(sep, buf, seps, p). length buf - p)") (auto simp: kern_simps)

definition strtok_r :: "byte list \<Rightarrow> nat option \<Rightarrow> byte list \<Rightarrow> nat option \<Rightarrow> (nat option \<times> byte list \<times> nat option) option" where
  \<comment> \<open>the result is the word, the buffer and \<open>*context\<close> afterwards\<close>
  "strtok_r buf string seps context =
     (case (if string \<noteq> None then string else context) of
        None \<Rightarrow> Some (None, buf, None)
      | Some h \<Rightarrow> do {
          head \<leftarrow> strtok_skip True buf seps h;
          c \<leftarrow> rd buf (int head);
          (if c = 0 then Some (None, buf, None)
           else do {
             tail \<leftarrow> strtok_skip False buf seps head;
             t \<leftarrow> rd buf (int tail);
             (if t = 0 then Some (Some head, buf, None)
              else do {
                buf' \<leftarrow> wr buf (int tail) 0;
                Some (Some head, buf', Some (tail + 1))
              })
           })
        })"

section \<open>Numbers\<close>

definition digits :: "byte list" where
  "digits = [48, 49, 50, 51, 52, 53, 54, 55, 56, 57, 0]"

function atoi_skip :: "byte list \<Rightarrow> nat \<Rightarrow> nat option" where
  "atoi_skip s i = do { c \<leftarrow> rd s (int i); if c = 32 \<or> c = 9 then atoi_skip s (Suc i) else Some i }"
  by pat_completeness auto

termination
  by (relation "measure (\<lambda>(s, i). length s - i)") (auto simp: kern_simps)

function atoi_digits :: "byte list \<Rightarrow> nat \<Rightarrow> 32 word \<Rightarrow> 32 word option" where
  "atoi_digits s i val = do {
     c \<leftarrow> rd s (int i);
     (if c \<noteq> 0 then do {
        f \<leftarrow> strchr digits c;
        (case f of None \<Rightarrow> Some val | Some digit \<Rightarrow> atoi_digits s (Suc i) (val * 10 + of_nat digit))
      }
      else Some val)
   }"
  by pat_completeness auto

termination
  by (relation "measure (\<lambda>(s, i, val). length s - i)") (auto simp: kern_simps)

definition atoi :: "byte list \<Rightarrow> int option" where
  "atoi s = do {
     i \<leftarrow> atoi_skip s 0;
     c \<leftarrow> rd s (int i);
     (let neg = (c = 45); j = (if c = 45 \<or> c = 43 then i + 1 else i) in do {
        val \<leftarrow> atoi_digits s j 0;
        Some (sint (if neg then - val else val))
      })
   }"

section \<open>Moving blocks\<close>

declare copy_up.simps [simp del] zero_up.simps [simp del] strlen_loop.simps [simp del] strcmp_loop.simps [simp del]
  strcpy_loop.simps [simp del] strchr_from.simps [simp del] strtok_skip.simps [simp del] atoi_skip.simps [simp del] atoi_digits.simps [simp del]

lemma blit_up:
  assumes "dst + (k + w) \<le> length m" "src + (k + w) \<le> length m" "dst \<le> src \<or> src + (k + w) \<le> dst"
  shows "blit (blit m dst (subblk m src k)) (dst + k) (subblk (blit m dst (subblk m src k)) (src + k) w) = blit m dst (subblk m src (k + w))"
  using assms by (intro nth_equalityI) (auto simp: blit_nth)

lemma blit_down:
  assumes "dst + (k + w) \<le> length m" "src + (k + w) \<le> length m" "src \<le> dst"
  shows "blit (blit m (dst + k) (subblk m (src + k) w)) dst (subblk (blit m (dst + k) (subblk m (src + k) w)) src k) = blit m dst (subblk m src (k + w))"
  using assms by (intro nth_equalityI) (auto simp: blit_nth)

lemma subblk_0 [simp]: "subblk m i 0 = []"
  by (simp add: subblk_def)

lemma blit_Nil [simp]: "blit m i [] = m"
  by (simp add: blit_def)

lemma copy_up_ok:
  assumes "dst + n * w \<le> length m" "src + n * w \<le> length m" "dst \<le> src \<or> src + n * w \<le> dst"
  shows "i \<le> n \<Longrightarrow> copy_up w n i dst src (blit m dst (subblk m src (i * w))) = Some (blit m dst (subblk m src (n * w)))"
proof (induction "n - i" arbitrary: i)
  case 0
  then show ?case by (subst copy_up.simps) simp
next
  case (Suc k)
  then have i: "i < n" "k = n - Suc i" by auto
  then have le: "i * w + w \<le> n * w" using mult_le_mono1 [of "Suc i" n w] by simp
  let ?m = "blit m dst (subblk m src (i * w))"
  have len: "length ?m = length m" using assms le by simp
  have dis: "dst \<le> src \<or> src + (i * w + w) \<le> dst" using assms(3) le by linarith
  have "copy_unit w ?m (dst + i * w) (src + i * w) = Some (blit m dst (subblk m src (Suc i * w)))"
    using blit_up [of dst "i * w" w m src, OF _ _ dis] assms le len by (simp add: copy_unit_def add.commute)
  then show ?case using Suc.hyps(1) [OF i(2)] i(1) by (subst copy_up.simps) simp
qed

lemma copy_down_ok:
  "dst + n * w \<le> length m \<Longrightarrow> src + n * w \<le> length m \<Longrightarrow> src \<le> dst \<Longrightarrow>
   copy_down w n dst src m = Some (blit m dst (subblk m src (n * w)))"
proof (induction n arbitrary: m)
  case (Suc n)
  let ?m = "blit m (dst + n * w) (subblk m (src + n * w) w)"
  have "copy_unit w m (dst + n * w) (src + n * w) = Some ?m" using Suc.prems by (simp add: copy_unit_def)
  moreover have "copy_down w n dst src ?m = Some (blit ?m dst (subblk ?m src (n * w)))" using Suc.prems by (intro Suc.IH) simp_all
  ultimately show ?case using blit_down [of dst "n * w" w m src] Suc.prems by (simp add: add.commute)
qed simp

lemma memcpy_ok:
  assumes "dst + len \<le> length m" "src + len \<le> length m" "dst \<le> src \<or> src + len \<le> dst"
  shows "memcpy m dst src len = Some (blit m dst (subblk m src len))"
proof (cases "dst mod 4 = 0 \<and> src mod 4 = 0 \<and> len mod 4 = 0")
  case True
  then have "len div 4 * 4 = len" by auto
  with True assms copy_up_ok [of dst "len div 4" 4 m src 0] show ?thesis by (simp add: memcpy_def)
next
  case False
  then show ?thesis using assms copy_up_ok [of dst len 1 m src 0] by (auto simp: memcpy_def)
qed

lemma memmove_ok:
  assumes "dst + len \<le> length m" "src + len \<le> length m"
  shows "memmove m dst src len = Some (blit m dst (subblk m src len))"
proof (cases "dst < src")
  case True
  then show ?thesis using memcpy_ok [OF assms] by (simp add: memmove_def)
next
  case False
  show ?thesis
  proof (cases "dst mod 4 = 0 \<and> src mod 4 = 0 \<and> len mod 4 = 0")
    case al: True
    then have "len div 4 * 4 = len" by auto
    with al assms False copy_down_ok [of dst "len div 4" 4 m src] show ?thesis by (simp add: memmove_def)
  next
    case na: False
    then show ?thesis using assms False copy_down_ok [of dst len 1 m src] by (auto simp: memmove_def)
  qed
qed

lemma zero_up_ok:
  assumes "p + n * w \<le> length m"
  shows "i \<le> n \<Longrightarrow> zero_up w n i p (blit m p (replicate (i * w) 0)) = Some (blit m p (replicate (n * w) 0))"
proof (induction "n - i" arbitrary: i)
  case 0
  then show ?case by (subst zero_up.simps) simp
next
  case (Suc k)
  then have i: "i < n" "k = n - Suc i" by auto
  then have le: "i * w + w \<le> n * w" using mult_le_mono1 [of "Suc i" n w] by simp
  have "blit (blit m p (replicate (i * w) 0)) (p + i * w) (replicate w 0) = blit m p (replicate (Suc i * w) 0)"
    using assms le by (intro nth_equalityI) (auto simp: blit_nth)
  then show ?case using Suc.hyps(1) [OF i(2)] i(1) assms le by (subst zero_up.simps) simp
qed

lemma bzero_ok:
  assumes "p + len \<le> length m"
  shows "bzero m p len = Some (blit m p (replicate len 0))"
proof (cases "p mod 4 = 0 \<and> len mod 4 = 0")
  case True
  then have "len div 4 * 4 = len" by auto
  with True assms zero_up_ok [of p "len div 4" 4 m 0] show ?thesis by (simp add: bzero_def)
next
  case False
  then show ?thesis using assms zero_up_ok [of p len 1 m 0] by (auto simp: bzero_def)
qed

text \<open>C28. \<open>memmove\<close>, which copies words or bytes and upwards or downwards depending on alignment and on the relative position of the two
  regions, is the same function as a simultaneous assignment of the whole region, for all pointers, overlapping or not.\<close>

theorem memmove_simultaneous:
  assumes "dst + len \<le> length m" "src + len \<le> length m"
  shows "\<exists>m'. memmove m dst src len = Some m' \<and> length m' = length m \<and>
    (\<forall>k < length m. m' ! k = (if dst \<le> k \<and> k < dst + len then m ! (src + (k - dst)) else m ! k))"
  using memmove_ok [OF assms] assms by (auto simp: blit_nth)

theorem memmove_simultaneous_witness:
  "\<exists>m'. memmove [1, 2, 3, 4, 5] 2 0 3 = Some m' \<and> m' ! 4 = 3 \<and> m' ! 1 = 2"
  using memmove_simultaneous [of 2 3 "[1, 2, 3, 4, 5]" 0] by auto

section \<open>C strings\<close>

definition cstr :: "byte list \<Rightarrow> byte list" where
  \<comment> \<open>the characters before the terminator\<close>
  "cstr s = takeWhile (\<lambda>c. c \<noteq> 0) s"

lemma cstr_Cons [simp]: "cstr (c # s) = (if c = 0 then [] else c # cstr s)"
  by (simp add: cstr_def)

lemma cstr_append [simp]: "0 \<notin> set xs \<Longrightarrow> cstr (xs @ 0 # ys) = xs"
  by (induction xs) (auto simp: cstr_def)

lemma rd_Cons_Suc: "rd (c # s) (int (Suc i)) = rd s (int i)"
  by (simp add: rd_def nat_add_distrib)

lemma rd_Cons_0 [simp]: "rd (c # s) 0 = Some c"
  by (simp add: rd_def)

lemma rd_Nil [simp]: "rd [] i = None"
  by (simp add: rd_def)

lemma strlen_shift: "strlen_loop (c # s) (Suc i) = map_option Suc (strlen_loop s i)"
proof (induction s i rule: strlen_loop.induct)
  case (1 s i)
  show ?case
  proof (cases "rd s (int i)")
    case None
    then show ?thesis using strlen_loop.simps [of "c # s" "Suc i"] strlen_loop.simps [of s i] rd_Cons_Suc [of c s i] by simp
  next
    case (Some x)
    then show ?thesis using "1.IH" [OF Some] strlen_loop.simps [of "c # s" "Suc i"] strlen_loop.simps [of s i] rd_Cons_Suc [of c s i] by simp
  qed
qed

lemma strlen_Cons [simp]: "strlen (c # s) = (if c = 0 then Some 0 else map_option Suc (strlen s))"
  using strlen_loop.simps [of "c # s" 0] by (simp add: strlen_def strlen_shift)

lemma strlen_Nil [simp]: "strlen [] = None"
  using strlen_loop.simps [of "[]" 0] by (simp add: strlen_def)

lemma strlen_eq: "strlen s = (if 0 \<in> set s then Some (length (cstr s)) else None)"
  by (induction s) (auto simp: cstr_def)

lemma strcmp_shift: "strcmp_loop (x # a) (y # b) (Suc i) = map_option Suc (strcmp_loop a b i)"
proof (induction a b i rule: strcmp_loop.induct)
  case (1 a b i)
  note s = strcmp_loop.simps [of "x # a" "y # b" "Suc i"] strcmp_loop.simps [of a b i] rd_Cons_Suc [of x a i] rd_Cons_Suc [of y b i]
  show ?case
  proof (cases "rd a (int i)")
    case None
    with s show ?thesis by simp
  next
    case (Some u)
    show ?thesis
    proof (cases "rd b (int i)")
      case None
      with s Some show ?thesis by simp
    next
      case b: (Some v)
      then show ?thesis using "1.IH" [OF Some _ b] s Some by simp
    qed
  qed
qed

lemma strcmp_Cons: "strcmp (x # a) (y # b) = (if x = 0 \<or> x \<noteq> y then Some (if sint x > sint y then 1 else if x = y then 0 else - 1) else strcmp a b)"
proof (cases "x = 0 \<or> x \<noteq> y")
  case True
  then show ?thesis using strcmp_loop.simps [of "x # a" "y # b" 0] by (auto simp: strcmp_def)
next
  case False
  then have xy: "x \<noteq> 0" "y = x" by auto
  then have "strcmp_loop (x # a) (x # b) 0 = map_option Suc (strcmp_loop a b 0)"
    using strcmp_loop.simps [of "x # a" "x # b" 0] by (simp add: strcmp_shift)
  with xy show ?thesis
    by (cases "strcmp_loop a b 0") (simp_all add: strcmp_def rd_Cons_Suc del: of_nat_Suc)
qed

lemma strcmp_total: "0 \<in> set a \<Longrightarrow> 0 \<in> set b \<Longrightarrow> \<exists>r. strcmp a b = Some r \<and> (r = 0 \<longleftrightarrow> cstr a = cstr b) \<and>
    (r < 0 \<longleftrightarrow> (cstr a @ [0], cstr b @ [0]) \<in> lexord {(x, y). sint x < sint y})"
proof (induction a arbitrary: b)
  case (Cons x a)
  then obtain y c where b: "b = y # c" by (cases b) auto
  have ne: "sint x = sint y \<longleftrightarrow> x = y" by (rule word_eq_iff_signed [symmetric])
  show ?case
  proof (cases "x = 0 \<or> x \<noteq> y")
    case True
    then show ?thesis unfolding b strcmp_Cons using ne by auto
  next
    case False
    then show ?thesis using Cons.IH [of c] Cons.prems unfolding b strcmp_Cons by auto
  qed
qed simp

lemma strcmp_eq_0: "0 \<in> set a \<Longrightarrow> 0 \<in> set b \<Longrightarrow> \<exists>r. strcmp a b = Some r \<and> (r = 0 \<longleftrightarrow> cstr a = cstr b)"
  using strcmp_total by blast

lemma blit_Cons: "p < length d \<Longrightarrow> blit d p (c # xs) = blit (d[p := c]) (Suc p) xs"
  by (simp add: blit_def take_Suc_conv_app_nth)

lemma rd_nat: "rd s (int i) = (if i < length s then Some (s ! i) else None)"
  by (simp add: rd_def)

lemma wr_nat: "wr s (int i) x = (if i < length s then Some (s[i := x]) else None)"
  by (simp add: wr_def)

lemma cstr_nth: "0 \<in> set s \<Longrightarrow> length (cstr s) < length s \<and> s ! length (cstr s) = 0 \<and> (\<forall>i < length (cstr s). s ! i = cstr s ! i \<and> s ! i \<noteq> 0)"
  by (induction s) (auto simp: nth_Cons split: nat.splits)

lemma strcpy_loop_ok:
  assumes "0 \<in> set src"
  shows "i \<le> length (cstr src) \<Longrightarrow> off + length (cstr src) < length dest \<Longrightarrow>
    strcpy_loop dest off src i = Some (blit dest (off + i) (drop i (cstr src) @ [0]))"
proof (induction "length (cstr src) - i" arbitrary: i dest)
  case 0
  then show ?case using cstr_nth [OF assms] blit_Cons [of "off + i" dest 0 "[]"]
    by (subst strcpy_loop.simps) (simp add: rd_nat wr_nat del: of_nat_add)
next
  case (Suc k)
  then have i: "i < length (cstr src)" "k = length (cstr src) - Suc i" by auto
  have d: "drop i (cstr src) = cstr src ! i # drop (Suc i) (cstr src)" using i(1) by (simp add: Cons_nth_drop_Suc)
  have "strcpy_loop (dest[off + i := cstr src ! i]) off src (Suc i) =
      Some (blit (dest[off + i := cstr src ! i]) (off + Suc i) (drop (Suc i) (cstr src) @ [0]))"
    using Suc.hyps(1) [OF i(2)] i(1) Suc.prems by simp
  moreover have "src ! i = cstr src ! i" "cstr src ! i \<noteq> 0" "i < length src" using cstr_nth [OF assms] i(1) by force+
  ultimately show ?case using i(1) Suc.prems d blit_Cons [of "off + i" dest "cstr src ! i"]
    by (subst strcpy_loop.simps) (simp add: rd_nat wr_nat del: of_nat_add)
qed

lemma strcpy_ok: "0 \<in> set src \<Longrightarrow> off + length (cstr src) < length dest \<Longrightarrow> strcpy dest off src = Some (blit dest off (cstr src @ [0]))"
  using strcpy_loop_ok [of src 0 off dest] by (simp add: strcpy_def)

lemma cstr_blit: "0 \<notin> set xs \<Longrightarrow> 0 \<notin> set (take off d) \<Longrightarrow> off \<le> length d \<Longrightarrow> cstr (blit d off (xs @ [0])) = take off d @ xs"
  using cstr_append [of "take off d @ xs"] by (simp add: blit_def)

lemma cstr_no_nul [simp]: "0 \<notin> set (cstr s)"
  by (induction s) (auto simp: cstr_def)

lemma take_cstr: "take (length (cstr s)) s = cstr s"
  by (induction s) (auto simp: cstr_def)

lemma strcat_ok:
  assumes "0 \<in> set dest" "0 \<in> set src" "length (cstr dest) + length (cstr src) < length dest"
  shows "\<exists>d. strcat dest src = Some d \<and> cstr d = cstr dest @ cstr src \<and> length d = length dest"
proof -
  have "length (cstr dest) \<le> length dest" using cstr_nth [OF assms(1)] by simp
  moreover have "0 \<notin> set (take (length (cstr dest)) dest)" by (simp add: take_cstr)
  ultimately show ?thesis
    using assms strcpy_ok [OF assms(2), of "length (cstr dest)" dest] cstr_blit [of "cstr src" "length (cstr dest)" dest]
    by (auto simp: strcat_def strlen_eq take_cstr)
qed

lemma strchr_shift: "strchr_from (c # s) (Suc i) ch = map_option (map_option Suc) (strchr_from s i ch)"
proof (induction s i ch rule: strchr_from.induct)
  case (1 s i ch)
  note s = strchr_from.simps [of "c # s" "Suc i" ch] strchr_from.simps [of s i ch] rd_Cons_Suc [of c s i]
  show ?case
  proof (cases "rd s (int i)")
    case None
    with s show ?thesis by simp
  next
    case (Some x)
    with s "1.IH" [OF Some] show ?thesis by (cases "x = 0"; cases "x = ch") simp_all
  qed
qed

lemma strchr_Cons [simp]: "strchr (c # s) ch = (if c = ch then Some (Some 0) else if c = 0 then Some None else map_option (map_option Suc) (strchr s ch))"
  using strchr_from.simps [of "c # s" 0 ch] by (simp add: strchr_def strchr_shift)

lemma strchr_Nil [simp]: "strchr [] ch = None"
  using strchr_from.simps [of "[]" 0 ch] by (simp add: strchr_def)

lemma strchr_eq: "0 \<in> set s \<Longrightarrow> ch \<noteq> 0 \<Longrightarrow>
    strchr s ch = Some (if ch \<in> set (cstr s) then Some (length (takeWhile (\<lambda>c. c \<noteq> ch) s)) else None)"
  by (induction s) auto

lemma strrchr_loop_ok:
  "i \<le> length s \<Longrightarrow> strrchr_loop s i ch = Some (if ch \<in> set (take i s) then Some (GREATEST k. k < i \<and> s ! k = ch) else None)"
proof (induction i)
  case (Suc i)
  have t: "take (Suc i) s = take i s @ [s ! i]" using Suc.prems by (simp add: take_Suc_conv_app_nth)
  show ?case
  proof (cases "s ! i = ch")
    case True
    have "(GREATEST k. k < Suc i \<and> s ! k = ch) = i" by (rule Greatest_equality) (auto simp: True)
    with True Suc.prems t show ?thesis by (simp add: rd_nat)
  next
    case False
    then have "(\<lambda>k. k < Suc i \<and> s ! k = ch) = (\<lambda>k. k < i \<and> s ! k = ch)" by (auto simp: less_Suc_eq fun_eq_iff)
    with False Suc t show ?thesis by (simp add: rd_nat)
  qed
qed simp

lemma strrchr_last:
  assumes "0 \<in> set s" "ch \<noteq> 0" "ch \<in> set (cstr s)"
  shows "\<exists>k. strrchr s ch = Some (Some k) \<and> k < length (cstr s) \<and> cstr s ! k = ch \<and> (\<forall>j. k < j \<and> j < length (cstr s) \<longrightarrow> cstr s ! j \<noteq> ch)"
proof -
  let ?n = "length (cstr s)" and ?P = "\<lambda>k. k < length (cstr s) + 1 \<and> s ! k = ch"
  note n = cstr_nth [OF assms(1)]
  have t: "take (?n + 1) s = cstr s @ [0]" using n by (simp add: take_Suc_conv_app_nth take_cstr)
  obtain k0 where "k0 < ?n" "cstr s ! k0 = ch" using assms(3) by (auto simp: in_set_conv_nth)
  then have ex: "?P k0" using n by simp
  have bd: "\<And>k. ?P k \<Longrightarrow> k \<le> ?n" by simp
  let ?k = "GREATEST k. ?P k"
  have k: "?P ?k" and mx: "\<And>j. ?P j \<Longrightarrow> j \<le> ?k" using GreatestI_nat [of ?P k0 ?n] Greatest_le_nat [of ?P _ ?n] ex bd by blast+
  have kn: "?k < ?n" using k n assms(2) by (metis Suc_eq_plus1 less_Suc_eq)
  have "strrchr s ch = Some (Some ?k)" using strrchr_loop_ok [of "?n + 1" s ch] n assms(1,3) t by (simp add: strrchr_def strlen_eq)
  moreover have "cstr s ! j \<noteq> ch" if "?k < j" "j < ?n" for j using mx [of j] that n by auto
  moreover have "cstr s ! ?k = ch" using k kn n by auto
  ultimately show ?thesis using kn by blast
qed

section \<open>Decimal numbers\<close>

definition dec_value :: "nat list \<Rightarrow> nat" where
  "dec_value ds = foldl (\<lambda>v d. v * 10 + d) 0 ds"

definition dec_string :: "nat list \<Rightarrow> byte list" where
  "dec_string ds = map (\<lambda>d. 48 + of_nat d) ds"

lemma strchr_digit: "d < 10 \<Longrightarrow> strchr digits (48 + of_nat d) = Some (Some d)"
proof -
  assume "d < 10"
  then have "d \<in> {0, 1, 2, 3, 4, 5, 6, 7, 8, 9}" by auto
  then show ?thesis by (auto simp: digits_def)
qed

lemma digit_nonzero: "d < 10 \<Longrightarrow> 48 + of_nat d \<noteq> (0 :: byte) \<and> 48 + of_nat d \<notin> {32, 9, 45, 43 :: byte}"
proof -
  assume "d < 10"
  then have "d \<in> {0, 1, 2, 3, 4, 5, 6, 7, 8, 9}" by auto
  then show ?thesis by auto
qed

lemma atoi_digits_ok:
  "\<forall>d \<in> set ds. d < 10 \<Longrightarrow> drop i s = dec_string ds @ 0 # r \<Longrightarrow>
   atoi_digits s i (of_nat v) = Some (of_nat (foldl (\<lambda>v d. v * 10 + d) v ds))"
proof (induction ds arbitrary: i v)
  case Nil
  then have "i < length s" "s ! i = 0" by (metis append_Nil drop_all list.simps(3) list.map_disc_iff not_le dec_string_def nth_via_drop map_is_Nil_conv)+
  then show ?case by (subst atoi_digits.simps) (simp add: rd_nat)
next
  case (Cons d ds)
  from Cons.prems(2) have i: "drop i s = (48 + of_nat d) # (dec_string ds @ 0 # r)" by (simp add: dec_string_def)
  then have l: "i < length s" "s ! i = 48 + of_nat d" by (metis drop_all list.simps(3) not_le, simp add: nth_via_drop)
  have n: "drop (Suc i) s = dec_string ds @ 0 # r" using i Cons_nth_drop_Suc [OF l(1)] by simp
  have "atoi_digits s i (of_nat v) = atoi_digits s (Suc i) (of_nat (v * 10 + d))"
    using l digit_nonzero [of d] strchr_digit [of d] Cons.prems(1) by (subst atoi_digits.simps) (simp add: rd_nat)
  with Cons.IH [OF _ n, of "v * 10 + d"] Cons.prems(1) show ?case by simp
qed

lemma atoi_skip_ok:
  "set (take k (drop i s)) \<subseteq> {32, 9} \<Longrightarrow> i + k < length s \<Longrightarrow> s ! (i + k) \<notin> {32, 9} \<Longrightarrow> atoi_skip s i = Some (i + k)"
proof (induction k arbitrary: i)
  case 0
  then show ?case by (subst atoi_skip.simps) (simp add: rd_nat)
next
  case (Suc k)
  have d: "drop i s = s ! i # drop (Suc i) s" using Suc.prems(2) by (simp add: Cons_nth_drop_Suc)
  then have "s ! i \<in> {32, 9}" "set (take k (drop (Suc i) s)) \<subseteq> {32, 9}" using Suc.prems(1) by simp_all
  with Suc.IH [of "Suc i"] Suc.prems show ?case by (subst atoi_skip.simps) (auto simp: rd_nat)
qed

lemma sint_of_int_swrap32: "sint (of_int x :: 32 word) = swrap32 x"
  by (simp add: signed_of_int swrap32_def signed_take_bit_eq_take_bit_shift take_bit_eq_mod)



text \<open>C33. \<open>strcmp\<close> of two terminated strings returns, and its result is zero exactly for equal strings and negative exactly when
  the first comes before the second in the lexicographic order of signed characters, terminator included.\<close>

theorem strcmp_order:
  assumes "0 \<in> set a" "0 \<in> set b"
  shows "\<exists>r. strcmp a b = Some r \<and> r \<in> {- 1, 0, 1} \<and> (r = 0 \<longleftrightarrow> cstr a = cstr b) \<and>
    (r < 0 \<longleftrightarrow> (cstr a @ [0], cstr b @ [0]) \<in> lexord {(x, y). sint x < sint y})"
proof -
  obtain r where "strcmp a b = Some r" "r = 0 \<longleftrightarrow> cstr a = cstr b" "r < 0 \<longleftrightarrow> (cstr a @ [0], cstr b @ [0]) \<in> lexord {(x, y). sint x < sint y}"
    using strcmp_total [OF assms] by blast
  moreover from this(1) have "r \<in> {- 1, 0, 1}" by (auto simp: strcmp_def bind_Some split: if_splits)
  ultimately show ?thesis by blast
qed

theorem strcmp_order_witness: "\<exists>r. strcmp [97, 98, 0] [97, 99, 0, 5] = Some r \<and> r < 0"
  using strcmp_order [of "[97, 98, 0]" "[97, 99, 0, 5]"] by auto

end
