(* ===== verification/Kern_SFS_Ops.thy ===== *)
theory Kern_SFS_Ops
  imports Kern_SFS_File Kern_Libc
begin

text \<open>
  The rest of SFS: directories, the table of loaded vnodes, the vnode operations (second half of \<open>kern/fs/sfs/sfs_vnode.c\<close>),
  the reference counts of \<open>kern/fs/vfs/vnode.c\<close> and the file system operations of \<open>kern/fs/sfs/sfs_fs.c\<close>.

  A vnode pointer is a number \<open>p\<close> and \<open>sfs_heap\<close> the memory it points into. The routines that only use the vnode they
  are given (directory I/O, \<open>sfs_truncate\<close>) take and return the \<open>sfs_vnode\<close> itself, as \<open>sfs_io\<close> does;
  \<open>on_vnode\<close> applies such a routine to a pointer. A file name is a C string. What the calls of \<open>kmalloc\<close> made while a vnode
  is loaded return is the argument \<open>k :: kmem\<close>.
\<close>

section \<open>Directories\<close>

record sfs_dir =
  sfd_ino :: nat
  sfd_name :: "byte list"

abbreviation (input) SFS_NAMELEN :: nat where "SFS_NAMELEN \<equiv> 60"
abbreviation (input) SFS_NOINO :: nat where "SFS_NOINO \<equiv> 0"
abbreviation (input) SFS_ROOT_LOCATION :: nat where "SFS_ROOT_LOCATION \<equiv> 1"
abbreviation (input) sizeof_dir :: nat where "sizeof_dir \<equiv> 64"

definition dir_to_bytes :: "sfs_dir \<Rightarrow> byte list" where
  "dir_to_bytes sd = put_be 4 (sfd_ino sd) @ sfd_name sd"

definition dir_of_bytes :: "byte list \<Rightarrow> sfs_dir" where
  "dir_of_bytes b = \<lparr>sfd_ino = get_be (subblk b 0 4), sfd_name = subblk b 4 SFS_NAMELEN\<rparr>"

definition sfs_readdir :: "sfs_fs \<Rightarrow> sfs_vnode \<Rightarrow> int \<Rightarrow> (sfs_dir res \<times> sfs_fs \<times> sfs_vnode) option" where
  "sfs_readdir fs sv slot = do {
     let actualpos = swrap32 (slot * int sizeof_dir);
     (result, fs', sv', ku) \<leftarrow> sfs_io fs sv (mk_kuio (replicate sizeof_dir 0) 0 sizeof_dir actualpos UIO_READ blank_uio);
     (case result of
        Inl e \<Rightarrow> Some (Inl e, fs', sv')
      | Inr _ \<Rightarrow> do {
          kassert (\<not> uio_resid ku > 0);
          Some (Inr (dir_of_bytes (iov_kbuf ku)), fs', sv')
        })
   }"

definition sfs_writedir :: "sfs_fs \<Rightarrow> sfs_vnode \<Rightarrow> sfs_dir \<Rightarrow> int \<Rightarrow> (unit res \<times> sfs_fs \<times> sfs_vnode) option" where
  "sfs_writedir fs sv sd slot = do {
     kassert (slot \<ge> 0);
     let actualpos = swrap32 (slot * int sizeof_dir);
     (result, fs', sv', ku) \<leftarrow> sfs_io fs sv (mk_kuio (dir_to_bytes sd) 0 sizeof_dir actualpos UIO_WRITE blank_uio);
     (case result of
        Inl e \<Rightarrow> Some (Inl e, fs', sv')
      | Inr _ \<Rightarrow> do {
          kassert (\<not> uio_resid ku > 0);
          Some (Inr (), fs', sv')
        })
   }"

definition sfs_dir_nentries :: "sfs_vnode \<Rightarrow> int option" where
  "sfs_dir_nentries sv = do {
     kassert (sfi_type (sv_i sv) = SFS_TYPE_DIR);
     let sz = swrap32 (int (sfi_size (sv_i sv)));
     kassert (u32 sz mod sizeof_dir = 0);
     Some (int (u32 sz div sizeof_dir))
   }"

record findname =
  \<comment> \<open>what \<open>sfs_dir_findname\<close> stores through its pointer arguments\<close>
  fn_found :: "(nat \<times> nat) option"
  fn_empty :: "nat option"

fun sfs_findname_loop :: "nat list \<Rightarrow> byte list \<Rightarrow> findname \<Rightarrow> sfs_fs \<Rightarrow> sfs_vnode \<Rightarrow> (unit res \<times> findname \<times> sfs_fs \<times> sfs_vnode) option" where
  \<comment> \<open>\<open>for (i=0; i<nentries; i++)\<close>, the list being the values \<open>i\<close> still takes\<close>
  "sfs_findname_loop [] name f fs sv = Some (if fn_found f \<noteq> None then Inr () else Inl ENOENT, f, fs, sv)"
| "sfs_findname_loop (i # is) name f fs sv = do {
     (result, fs', sv') \<leftarrow> sfs_readdir fs sv (int i);
     (case result of
        Inl e \<Rightarrow> Some (Inl e, f, fs', sv')
      | Inr tsd \<Rightarrow>
          if sfd_ino tsd = SFS_NOINO then sfs_findname_loop is name (f\<lparr>fn_empty := Some i\<rparr>) fs' sv'
          else do {
            sname \<leftarrow> wr (sfd_name tsd) (int (SFS_NAMELEN - 1)) 0;
            c \<leftarrow> strcmp sname name;
            (if c = 0 then do {
               kassert (fn_found f = None);
               sfs_findname_loop is name (f\<lparr>fn_found := Some (sfd_ino tsd, i)\<rparr>) fs' sv'
             }
             else sfs_findname_loop is name f fs' sv')
          })
   }"

definition sfs_dir_findname :: "sfs_fs \<Rightarrow> sfs_vnode \<Rightarrow> byte list \<Rightarrow> (unit res \<times> findname \<times> sfs_fs \<times> sfs_vnode) option" where
  "sfs_dir_findname fs sv name = do {
     nentries \<leftarrow> sfs_dir_nentries sv;
     sfs_findname_loop [0..<nat nentries] name \<lparr>fn_found = None, fn_empty = None\<rparr> fs sv
   }"

definition sfs_dir_link :: "sfs_fs \<Rightarrow> sfs_vnode \<Rightarrow> byte list \<Rightarrow> nat \<Rightarrow> (int res \<times> sfs_fs \<times> sfs_vnode) option" where
  \<comment> \<open>the result is the slot\<close>
  "sfs_dir_link fs sv name ino = do {
     (result, f, fs1, sv1) \<leftarrow> sfs_dir_findname fs sv name;
     (case result of
        Inr _ \<Rightarrow> Some (Inl EEXIST, fs1, sv1)
      | Inl e \<Rightarrow>
          if e \<noteq> ENOENT then Some (Inl e, fs1, sv1)
          else do {
            n \<leftarrow> strlen name;
            (if n + 1 > SFS_NAMELEN then Some (Inl ENAMETOOLONG, fs1, sv1)
             else do {
               emptyslot \<leftarrow> (case fn_empty f of Some s \<Rightarrow> Some (int s) | None \<Rightarrow> sfs_dir_nentries sv1);
               nm \<leftarrow> strcpy (replicate SFS_NAMELEN 0) 0 name;
               (r, fs2, sv2) \<leftarrow> sfs_writedir fs1 sv1 \<lparr>sfd_ino = ino, sfd_name = nm\<rparr> emptyslot;
               Some (map_sum id (\<lambda>_. emptyslot) r, fs2, sv2)
             })
          })
   }"

definition sfs_dir_unlink :: "sfs_fs \<Rightarrow> sfs_vnode \<Rightarrow> int \<Rightarrow> (unit res \<times> sfs_fs \<times> sfs_vnode) option" where
  "sfs_dir_unlink fs sv slot = sfs_writedir fs sv \<lparr>sfd_ino = SFS_NOINO, sfd_name = replicate SFS_NAMELEN 0\<rparr> slot"

section \<open>Truncation\<close>

fun sfs_trunc_direct :: "nat list \<Rightarrow> nat \<Rightarrow> sfs_fs \<Rightarrow> sfs_vnode \<Rightarrow> (sfs_fs \<times> sfs_vnode) option" where
  \<comment> \<open>\<open>for (i=0; i<SFS_NDIRECT; i++)\<close>\<close>
  "sfs_trunc_direct [] blocklen fs sv = Some (fs, sv)"
| "sfs_trunc_direct (i # is) blocklen fs sv = do {
     block \<leftarrow> rd (sfi_direct (sv_i sv)) (int i);
     (if i \<ge> blocklen \<and> block \<noteq> 0 then do {
        fs' \<leftarrow> sfs_bfree fs block;
        sfs_trunc_direct is blocklen fs' (sv\<lparr>sv_i := (sv_i sv)\<lparr>sfi_direct := (sfi_direct (sv_i sv))[i := 0]\<rparr>, sv_dirty := True\<rparr>)
      }
      else sfs_trunc_direct is blocklen fs sv)
   }"

fun sfs_trunc_idbuf :: "nat list \<Rightarrow> nat \<Rightarrow> sfs_fs \<Rightarrow> nat list \<Rightarrow> bool \<Rightarrow> bool \<Rightarrow> (sfs_fs \<times> nat list \<times> bool \<times> bool) option" where
  \<comment> \<open>\<open>for (j=0; j<SFS_DBPERIDB; j++)\<close>\<close>
  "sfs_trunc_idbuf [] blocklen fs idbuf hasnonzero iddirty = Some (fs, idbuf, hasnonzero, iddirty)"
| "sfs_trunc_idbuf (j # js) blocklen fs idbuf hasnonzero iddirty = do {
     b \<leftarrow> rd idbuf (int j);
     (fs', idbuf', iddirty') \<leftarrow>
       (if blocklen < SFS_NDIRECT + j \<and> b \<noteq> 0 then do { fs' \<leftarrow> sfs_bfree fs b; Some (fs', idbuf[j := 0], True) }
        else Some (fs, idbuf, iddirty));
     b' \<leftarrow> rd idbuf' (int j);
     sfs_trunc_idbuf js blocklen fs' idbuf' (hasnonzero \<or> b' \<noteq> 0) iddirty'
   }"

definition sfs_trunc_indirect :: "nat \<Rightarrow> sfs_fs \<Rightarrow> sfs_vnode \<Rightarrow> (unit res \<times> sfs_fs \<times> sfs_vnode) option" where
  \<comment> \<open>from \<open>idblock = ...\<close> to the end of the \<open>if\<close>\<close>
  "sfs_trunc_indirect blocklen fs sv =
     (let idblock = sfi_indirect (sv_i sv); baseblock = SFS_NDIRECT; highblock = baseblock + SFS_DBPERIDB - 1 in
      if blocklen < highblock \<and> idblock \<noteq> 0 then do {
        (result, d, idbuf) \<leftarrow> sfs_rblock (sfs_device fs) zeroblock 0 idblock;
        let fs1 = fs\<lparr>sfs_device := d\<rparr>;
        (case result of
           Inl e \<Rightarrow> Some (Inl e, fs1, sv)
         | Inr _ \<Rightarrow> do {
             (fs2, idbuf', hasnonzero, iddirty) \<leftarrow> sfs_trunc_idbuf [0..<SFS_DBPERIDB] blocklen fs1 (words_of_bytes idbuf) False False;
             (if \<not> hasnonzero then do {
                fs3 \<leftarrow> sfs_bfree fs2 idblock;
                Some (Inr (), fs3, sv\<lparr>sv_i := (sv_i sv)\<lparr>sfi_indirect := 0\<rparr>, sv_dirty := True\<rparr>)
              }
              else if iddirty then do {
                (r, d') \<leftarrow> sfs_wblock (sfs_device fs2) (bytes_of_words idbuf') 0 idblock;
                Some (r, fs2\<lparr>sfs_device := d'\<rparr>, sv)
              }
              else Some (Inr (), fs2, sv))
           })
      }
      else Some (Inr (), fs, sv))"

definition sfs_truncate :: "sfs_fs \<Rightarrow> sfs_vnode \<Rightarrow> int \<Rightarrow> (unit res \<times> sfs_fs \<times> sfs_vnode) option" where
  "sfs_truncate fs sv len = do {
     let blocklen = u32 (cdiv (swrap32 (len + int SFS_BLOCKSIZE - 1)) (int SFS_BLOCKSIZE));
     (fs1, sv1) \<leftarrow> sfs_trunc_direct [0..<SFS_NDIRECT] blocklen fs sv;
     (r, fs2, sv2) \<leftarrow> sfs_trunc_indirect blocklen fs1 sv1;
     (case r of
        Inl e \<Rightarrow> Some (Inl e, fs2, sv2)
      | Inr _ \<Rightarrow> Some (Inr (), fs2, sv2\<lparr>sv_i := (sv_i sv2)\<lparr>sfi_size := u32 len\<rparr>, sv_dirty := True\<rparr>))
   }"

section \<open>Vnodes and operation tables\<close>

type_synonym vptr = nat

record kmem =
  \<comment> \<open>outcomes of the allocations made for one vnode: the structure, its lock and the cell of the vnode table\<close>
  km_vnode :: "vptr option"
  km_lock :: bool
  km_array :: bool

definition put_vnode :: "vptr \<Rightarrow> sfs_vnode \<Rightarrow> sfs_fs \<Rightarrow> sfs_fs" where
  "put_vnode p sv fs = fs\<lparr>sfs_heap := (sfs_heap fs)(p \<mapsto> sv)\<rparr>"

definition on_vnode :: "sfs_fs \<Rightarrow> vptr \<Rightarrow> (sfs_fs \<Rightarrow> sfs_vnode \<Rightarrow> ('a \<times> sfs_fs \<times> sfs_vnode) option) \<Rightarrow> ('a \<times> sfs_fs) option" where
  "on_vnode fs p f = do {
     sv \<leftarrow> sfs_heap fs p;
     (r, fs', sv') \<leftarrow> f fs sv;
     Some (r, put_vnode p sv' fs')
   }"

datatype vop = VOP_OPEN | VOP_CLOSE | VOP_RECLAIM | VOP_READ | VOP_READLINK | VOP_GETDIRENTRY | VOP_WRITE | VOP_IOCTL | VOP_STAT
  | VOP_GETTYPE | VOP_TRYSEEK | VOP_FSYNC | VOP_MMAP | VOP_TRUNCATE | VOP_NAMEFILE | VOP_CREAT | VOP_SYMLINK | VOP_MKDIR
  | VOP_LINK | VOP_REMOVE | VOP_RMDIR | VOP_RENAME | VOP_LOOKUP | VOP_LOOKPARENT

definition sfs_notdir :: errno where "sfs_notdir = ENOTDIR"
definition sfs_isdir :: errno where "sfs_isdir = EISDIR"
definition sfs_unimp :: errno where "sfs_unimp = EUNIMP"

fun sfs_fileops :: "vop \<Rightarrow> errno option" where
  \<comment> \<open>\<open>Some e\<close> for an entry that only returns \<open>e\<close>, \<open>None\<close> for a routine of this file\<close>
  "sfs_fileops VOP_READLINK = Some sfs_notdir"
| "sfs_fileops VOP_GETDIRENTRY = Some sfs_notdir"
| "sfs_fileops VOP_NAMEFILE = Some sfs_notdir"
| "sfs_fileops VOP_CREAT = Some sfs_notdir"
| "sfs_fileops VOP_SYMLINK = Some sfs_notdir"
| "sfs_fileops VOP_MKDIR = Some sfs_notdir"
| "sfs_fileops VOP_LINK = Some sfs_notdir"
| "sfs_fileops VOP_REMOVE = Some sfs_notdir"
| "sfs_fileops VOP_RMDIR = Some sfs_notdir"
| "sfs_fileops VOP_RENAME = Some sfs_notdir"
| "sfs_fileops VOP_LOOKUP = Some sfs_notdir"
| "sfs_fileops VOP_LOOKPARENT = Some sfs_notdir"
| "sfs_fileops _ = None"

fun sfs_dirops :: "vop \<Rightarrow> errno option" where
  "sfs_dirops VOP_READ = Some sfs_isdir"
| "sfs_dirops VOP_READLINK = Some sfs_isdir"
| "sfs_dirops VOP_GETDIRENTRY = Some sfs_unimp"
| "sfs_dirops VOP_WRITE = Some sfs_isdir"
| "sfs_dirops VOP_TRYSEEK = Some sfs_unimp"
| "sfs_dirops VOP_MMAP = Some sfs_isdir"
| "sfs_dirops VOP_TRUNCATE = Some sfs_isdir"
| "sfs_dirops VOP_SYMLINK = Some sfs_unimp"
| "sfs_dirops VOP_MKDIR = Some sfs_unimp"
| "sfs_dirops VOP_RMDIR = Some sfs_unimp"
| "sfs_dirops _ = None"

definition vn_ops :: "sfs_vnode \<Rightarrow> vop \<Rightarrow> errno option" where
  "vn_ops sv = (if sv_isdir sv then sfs_dirops else sfs_fileops)"

section \<open>Reference counts\<close>

definition vnode_init :: "bool \<Rightarrow> bool \<Rightarrow> sfs_vnode \<Rightarrow> unit res \<times> sfs_vnode" where
  \<comment> \<open>\<open>dirops\<close> tells which operation table the vnode gets; \<open>lk\<close> is the outcome of \<open>lock_create\<close>\<close>
  "vnode_init lk dirops sv =
     (let sv1 = sv\<lparr>sv_isdir := dirops, vn_refcount := 1, vn_opencount := 0\<rparr> in
      if \<not> lk then (Inl ENOMEM, sv1) else (Inr (), sv1))"

definition vnode_kill :: "sfs_vnode \<Rightarrow> sfs_vnode option" where
  "vnode_kill sv = do {
     kassert (vn_refcount sv = 1);
     kassert (vn_opencount sv = 0);
     Some (sv\<lparr>vn_refcount := 0, vn_opencount := 0\<rparr>)
   }"

definition vnode_incref :: "sfs_fs \<Rightarrow> vptr \<Rightarrow> sfs_fs option" where
  "vnode_incref fs p = do {
     sv \<leftarrow> sfs_heap fs p;
     Some (put_vnode p (sv\<lparr>vn_refcount := vn_refcount sv + 1\<rparr>) fs)
   }"

fun sfs_find_vnode :: "nat list \<Rightarrow> sfs_fs \<Rightarrow> vptr \<Rightarrow> nat option option" where
  \<comment> \<open>the search of \<open>sfs_reclaim\<close>: the index of the vnode, the inner \<open>None\<close> is \<open>ix = -1\<close>\<close>
  "sfs_find_vnode [] fs p = Some None"
| "sfs_find_vnode (i # is) fs p = do {
     sv2 \<leftarrow> array_getguy (sfs_vnodes fs) (int i);
     (if sv2 = p then Some (Some i) else sfs_find_vnode is fs p)
   }"

definition sfs_reclaim_drop :: "sfs_fs \<Rightarrow> vptr \<Rightarrow> (unit res \<times> sfs_fs) option" where
  \<comment> \<open>the end of \<open>sfs_reclaim\<close>, after the inode was synced\<close>
  "sfs_reclaim_drop fs p = do {
     sv \<leftarrow> sfs_heap fs p;
     fs1 \<leftarrow> (if sfi_linkcount (sv_i sv) = 0 then sfs_bfree fs (sv_ino sv) else Some fs);
     ix \<leftarrow> sfs_find_vnode [0..<nat (array_getnum (sfs_vnodes fs1))] fs1 p;
     (case ix of
        None \<Rightarrow> None
      | Some i \<Rightarrow> do {
          a \<leftarrow> array_remove (sfs_vnodes fs1) (int i);
          _ \<leftarrow> vnode_kill sv;
          Some (Inr (), fs1\<lparr>sfs_vnodes := a, sfs_heap := (sfs_heap fs1)(p := None)\<rparr>)
        })
   }"

definition sfs_reclaim :: "sfs_fs \<Rightarrow> vptr \<Rightarrow> (unit res \<times> sfs_fs) option" where
  "sfs_reclaim fs p = do {
     sv \<leftarrow> sfs_heap fs p;
     (if vn_refcount sv \<noteq> 1 then do {
        kassert (vn_refcount sv > 1);
        Some (Inl EBUSY, put_vnode p (sv\<lparr>vn_refcount := vn_refcount sv - 1\<rparr>) fs)
      }
      else do {
        (r1, fs1) \<leftarrow> (if sfi_linkcount (sv_i sv) = 0
           then (case vn_ops sv VOP_TRUNCATE of
                   Some e \<Rightarrow> Some (Inl e, fs)
                 | None \<Rightarrow> on_vnode fs p (\<lambda>fs sv. sfs_truncate fs sv 0))
           else Some (Inr (), fs));
        (case r1 of
           Inl e \<Rightarrow> Some (Inl e, fs1)
         | Inr _ \<Rightarrow> do {
             (r2, fs2) \<leftarrow> on_vnode fs1 p sfs_sync_inode;
             (case r2 of Inl e \<Rightarrow> Some (Inl e, fs2) | Inr _ \<Rightarrow> sfs_reclaim_drop fs2 p)
           })
      })
   }"

definition vnode_decref :: "sfs_fs \<Rightarrow> vptr \<Rightarrow> sfs_fs option" where
  "vnode_decref fs p = do {
     sv \<leftarrow> sfs_heap fs p;
     kassert (vn_refcount sv > 0);
     (if vn_refcount sv > 1 then Some (put_vnode p (sv\<lparr>vn_refcount := vn_refcount sv - 1\<rparr>) fs)
      else do { (_, fs') \<leftarrow> sfs_reclaim fs p; Some fs' })
   }"

definition sfs_fsync :: "sfs_fs \<Rightarrow> vptr \<Rightarrow> (unit res \<times> sfs_fs) option" where
  "sfs_fsync fs p = on_vnode fs p sfs_sync_inode"

definition sfs_close :: "sfs_fs \<Rightarrow> vptr \<Rightarrow> (unit res \<times> sfs_fs) option" where
  "sfs_close fs p = sfs_fsync fs p"

definition vnode_incopen :: "sfs_fs \<Rightarrow> vptr \<Rightarrow> sfs_fs option" where
  "vnode_incopen fs p = do {
     sv \<leftarrow> sfs_heap fs p;
     Some (put_vnode p (sv\<lparr>vn_opencount := vn_opencount sv + 1\<rparr>) fs)
   }"

definition vnode_decopen :: "sfs_fs \<Rightarrow> vptr \<Rightarrow> sfs_fs option" where
  "vnode_decopen fs p = do {
     sv \<leftarrow> sfs_heap fs p;
     kassert (vn_opencount sv > 0);
     let fs1 = put_vnode p (sv\<lparr>vn_opencount := vn_opencount sv - 1\<rparr>) fs;
     (if vn_opencount sv - 1 > 0 then Some fs1
      else do { (_, fs2) \<leftarrow> sfs_close fs1 p; Some fs2 })
   }"

section \<open>Loading vnodes\<close>

fun sfs_resident :: "nat list \<Rightarrow> sfs_fs \<Rightarrow> nat \<Rightarrow> vptr option option" where
  \<comment> \<open>the search of \<open>sfs_loadvnode\<close> in the table of loaded vnodes\<close>
  "sfs_resident [] fs ino = Some None"
| "sfs_resident (i # is) fs ino = do {
     p \<leftarrow> array_getguy (sfs_vnodes fs) (int i);
     sv \<leftarrow> sfs_heap fs p;
     used \<leftarrow> sfs_bused fs (sv_ino sv);
     kassert used;
     (if sv_ino sv = ino then Some (Some p) else sfs_resident is fs ino)
   }"

definition sfs_load :: "kmem \<Rightarrow> sfs_fs \<Rightarrow> nat \<Rightarrow> nat \<Rightarrow> vptr \<Rightarrow> sfs_inode \<Rightarrow> (vptr res \<times> sfs_fs) option" where
  \<comment> \<open>the end of \<open>sfs_loadvnode\<close>, after the inode was read into the new vnode at \<open>p\<close>\<close>
  "sfs_load k fs ino forcetype p inode = do {
     (i1, dirty) \<leftarrow> (if forcetype \<noteq> SFS_TYPE_INVAL then do {
          kassert (sfi_type inode = SFS_TYPE_INVAL);
          Some (inode\<lparr>sfi_type := forcetype\<rparr>, True)
        }
        else Some (inode, False));
     kassert (sfi_type i1 = SFS_TYPE_FILE \<or> sfi_type i1 = SFS_TYPE_DIR);
     let (r, sv) = vnode_init (km_lock k) (sfi_type i1 = SFS_TYPE_DIR)
       \<lparr>vn_refcount = 0, vn_opencount = 0, sv_isdir = False, sv_i = i1, sv_ino = ino, sv_dirty = dirty\<rparr>;
     (case r of
        Inl e \<Rightarrow> Some (Inl e, fs)
      | Inr _ \<Rightarrow> do {
          (r2, a) \<leftarrow> array_add (km_array k) (sfs_vnodes fs) p;
          (case r2 of
             Inl e \<Rightarrow> do { _ \<leftarrow> vnode_kill sv; Some (Inl e, fs\<lparr>sfs_vnodes := a\<rparr>) }
           | Inr _ \<Rightarrow> Some (Inr p, put_vnode p sv (fs\<lparr>sfs_vnodes := a\<rparr>)))
        })
   }"

definition sfs_loadvnode :: "kmem \<Rightarrow> sfs_fs \<Rightarrow> nat \<Rightarrow> nat \<Rightarrow> (vptr res \<times> sfs_fs) option" where
  "sfs_loadvnode k fs ino forcetype = do {
     found \<leftarrow> sfs_resident [0..<nat (array_getnum (sfs_vnodes fs))] fs ino;
     (case found of
        Some p \<Rightarrow> do {
          kassert (forcetype = SFS_TYPE_INVAL);
          fs' \<leftarrow> vnode_incref fs p;
          Some (Inr p, fs')
        }
      | None \<Rightarrow>
          (case km_vnode k of
             None \<Rightarrow> Some (Inl ENOMEM, fs)
           | Some p \<Rightarrow> do {
               used \<leftarrow> sfs_bused fs ino;
               kassert used;
               (result, d, b) \<leftarrow> sfs_rblock (sfs_device fs) zeroblock 0 ino;
               let fs' = fs\<lparr>sfs_device := d\<rparr>;
               (case result of
                  Inl e \<Rightarrow> Some (Inl e, fs')
                | Inr _ \<Rightarrow> sfs_load k fs' ino forcetype p (inode_of_block b))
             }))
   }"

definition sfs_getroot :: "kmem \<Rightarrow> sfs_fs \<Rightarrow> (vptr \<times> sfs_fs) option" where
  "sfs_getroot k fs = do {
     (result, fs') \<leftarrow> sfs_loadvnode k fs SFS_ROOT_LOCATION SFS_TYPE_INVAL;
     (case result of Inl _ \<Rightarrow> None | Inr p \<Rightarrow> Some (p, fs'))
   }"

definition on_findname :: "sfs_fs \<Rightarrow> vptr \<Rightarrow> byte list \<Rightarrow> ((nat \<times> nat) res \<times> sfs_fs) option" where
  \<comment> \<open>\<open>sfs_dir_findname\<close> on the vnode \<open>p\<close>: the inode number and the slot\<close>
  "on_findname fs p name = do {
     ((r, f), fs') \<leftarrow> on_vnode fs p (\<lambda>fs sv. do { (r, f, fs', sv') \<leftarrow> sfs_dir_findname fs sv name; Some ((r, f), fs', sv') });
     (case r of
        Inl e \<Rightarrow> Some (Inl e, fs')
      | Inr _ \<Rightarrow> (case fn_found f of None \<Rightarrow> None | Some x \<Rightarrow> Some (Inr x, fs')))
   }"

definition sfs_lookonce :: "kmem \<Rightarrow> sfs_fs \<Rightarrow> vptr \<Rightarrow> byte list \<Rightarrow> ((vptr \<times> nat) res \<times> sfs_fs) option" where
  \<comment> \<open>the vnode and the slot\<close>
  "sfs_lookonce k fs p name = do {
     (r, fs1) \<leftarrow> on_findname fs p name;
     (case r of
        Inl e \<Rightarrow> Some (Inl e, fs1)
      | Inr (ino, slot) \<Rightarrow> do {
          (r2, fs2) \<leftarrow> sfs_loadvnode k fs1 ino SFS_TYPE_INVAL;
          (case r2 of
             Inl e \<Rightarrow> Some (Inl e, fs2)
           | Inr q \<Rightarrow> do {
               sv \<leftarrow> sfs_heap fs2 q;
               kassert (sfi_linkcount (sv_i sv) \<noteq> 0);
               Some (Inr (q, slot), fs2)
             })
        })
   }"

definition sfs_makeobj :: "kmem \<Rightarrow> sfs_fs \<Rightarrow> nat \<Rightarrow> (vptr res \<times> sfs_fs) option" where
  "sfs_makeobj k fs type = do {
     (r, fs1) \<leftarrow> sfs_balloc fs;
     (case r of Inl e \<Rightarrow> Some (Inl e, fs1) | Inr ino \<Rightarrow> sfs_loadvnode k fs1 ino type)
   }"

section \<open>Vnode operations\<close>

definition O_APPEND :: nat where "O_APPEND = 32"
definition O_ACCMODE :: nat where "O_ACCMODE = 3"

definition sfs_open :: "nat \<Rightarrow> unit res" where
  "sfs_open openflags = (if and openflags O_APPEND \<noteq> 0 then Inl EUNIMP else Inr ())"

definition sfs_opendir :: "nat \<Rightarrow> unit res" where
  "sfs_opendir openflags =
     (if and openflags O_ACCMODE \<noteq> 0 then Inl EISDIR
      else if and openflags O_APPEND \<noteq> 0 then Inl EISDIR
      else Inr ())"

definition sfs_read :: "sfs_fs \<Rightarrow> vptr \<Rightarrow> uio \<Rightarrow> ((unit res \<times> uio) \<times> sfs_fs) option" where
  "sfs_read fs p u = do {
     kassert (uio_rw u = UIO_READ);
     on_vnode fs p (\<lambda>fs sv. do { (r, fs', sv', u') \<leftarrow> sfs_io fs sv u; Some ((r, u'), fs', sv') })
   }"

definition sfs_write :: "sfs_fs \<Rightarrow> vptr \<Rightarrow> uio \<Rightarrow> ((unit res \<times> uio) \<times> sfs_fs) option" where
  "sfs_write fs p u = do {
     kassert (uio_rw u = UIO_WRITE);
     on_vnode fs p (\<lambda>fs sv. do { (r, fs', sv', u') \<leftarrow> sfs_io fs sv u; Some ((r, u'), fs', sv') })
   }"

definition sfs_ioctl :: "int \<Rightarrow> uaddr \<Rightarrow> unit res" where
  "sfs_ioctl op data = Inl EINVAL"

definition sfs_gettype :: "sfs_vnode \<Rightarrow> nat option" where
  \<comment> \<open>\<open>S_IFREG\<close> is \<open>010000\<close> and \<open>S_IFDIR\<close> \<open>020000\<close>, in octal\<close>
  "sfs_gettype sv =
     (if sfi_type (sv_i sv) = SFS_TYPE_FILE then Some 0x1000
      else if sfi_type (sv_i sv) = SFS_TYPE_DIR then Some 0x2000
      else None)"

record stat =
  st_mode :: nat
  st_nlink :: nat
  st_size :: int
  st_blocks :: nat

definition sfs_stat :: "sfs_vnode \<Rightarrow> stat res option" where
  "sfs_stat sv = do {
     mode \<leftarrow> sfs_gettype sv;
     Some (Inr \<lparr>st_mode = mode, st_nlink = 0, st_size = swrap32 (int (sfi_size (sv_i sv))), st_blocks = 0\<rparr>)
   }"

definition sfs_tryseek :: "int \<Rightarrow> unit res" where
  "sfs_tryseek pos = (if pos < 0 then Inl EINVAL else Inr ())"

definition sfs_mmap :: "unit res" where
  "sfs_mmap = Inl EUNIMP"

definition sfs_namefile :: "sfs_vnode \<Rightarrow> unit res option" where
  "sfs_namefile sv = do { kassert (sv_ino sv = SFS_ROOT_LOCATION); Some (Inr ()) }"

definition add_links :: "int \<Rightarrow> vptr \<Rightarrow> sfs_fs \<Rightarrow> sfs_fs option" where
  \<comment> \<open>\<open>sfi_linkcount += n; sv_dirty = 1;\<close> on a 16-bit unsigned count\<close>
  "add_links n p fs = do {
     sv \<leftarrow> sfs_heap fs p;
     Some (put_vnode p (sv\<lparr>sv_i := (sv_i sv)\<lparr>sfi_linkcount := nat ((int (sfi_linkcount (sv_i sv)) + n) mod 2 ^ 16)\<rparr>, sv_dirty := True\<rparr>) fs)
   }"

definition sfs_creat :: "kmem \<Rightarrow> sfs_fs \<Rightarrow> vptr \<Rightarrow> byte list \<Rightarrow> bool \<Rightarrow> (vptr res \<times> sfs_fs) option" where
  "sfs_creat k fs p name excl = do {
     (r, fs1) \<leftarrow> on_findname fs p name;
     (case r of
        Inr (ino, _) \<Rightarrow> if excl then Some (Inl EEXIST, fs1) else sfs_loadvnode k fs1 ino SFS_TYPE_INVAL
      | Inl e \<Rightarrow>
          if e \<noteq> ENOENT then Some (Inl e, fs1)
          else do {
            (r2, fs2) \<leftarrow> sfs_makeobj k fs1 SFS_TYPE_FILE;
            (case r2 of
               Inl e2 \<Rightarrow> Some (Inl e2, fs2)
             | Inr newguy \<Rightarrow> do {
                 nsv \<leftarrow> sfs_heap fs2 newguy;
                 (r3, fs3) \<leftarrow> on_vnode fs2 p (\<lambda>fs sv. sfs_dir_link fs sv name (sv_ino nsv));
                 (case r3 of
                    Inl e3 \<Rightarrow> do { fs4 \<leftarrow> vnode_decref fs3 newguy; Some (Inl e3, fs4) }
                  | Inr _ \<Rightarrow> do { fs4 \<leftarrow> add_links 1 newguy fs3; Some (Inr newguy, fs4) })
               })
          })
   }"

definition sfs_link :: "sfs_fs \<Rightarrow> vptr \<Rightarrow> byte list \<Rightarrow> vptr \<Rightarrow> (unit res \<times> sfs_fs) option" where
  "sfs_link fs dir name file = do {
     f \<leftarrow> sfs_heap fs file;
     (r, fs1) \<leftarrow> on_vnode fs dir (\<lambda>fs sv. sfs_dir_link fs sv name (sv_ino f));
     (case r of
        Inl e \<Rightarrow> Some (Inl e, fs1)
      | Inr _ \<Rightarrow> do { fs2 \<leftarrow> add_links 1 file fs1; Some (Inr (), fs2) })
   }"

definition sfs_remove :: "kmem \<Rightarrow> sfs_fs \<Rightarrow> vptr \<Rightarrow> byte list \<Rightarrow> (unit res \<times> sfs_fs) option" where
  "sfs_remove k fs dir name = do {
     (r, fs1) \<leftarrow> sfs_lookonce k fs dir name;
     (case r of
        Inl e \<Rightarrow> Some (Inl e, fs1)
      | Inr (victim, slot) \<Rightarrow> do {
          (r2, fs2) \<leftarrow> on_vnode fs1 dir (\<lambda>fs sv. sfs_dir_unlink fs sv (int slot));
          fs3 \<leftarrow> (case r2 of
             Inl _ \<Rightarrow> Some fs2
           | Inr _ \<Rightarrow> do {
               v \<leftarrow> sfs_heap fs2 victim;
               kassert (sfi_linkcount (sv_i v) > 0);
               add_links (- 1) victim fs2
             });
          fs4 \<leftarrow> vnode_decref fs3 victim;
          Some (r2, fs4)
        })
   }"

definition sfs_rename_undo :: "errno \<Rightarrow> sfs_fs \<Rightarrow> vptr \<Rightarrow> vptr \<Rightarrow> int \<Rightarrow> (unit res \<times> sfs_fs) option" where
  \<comment> \<open>the code at \<open>puke_harder\<close>\<close>
  "sfs_rename_undo e fs d1 g1 slot2 = do {
     (r2, fs1) \<leftarrow> on_vnode fs d1 (\<lambda>fs sv. sfs_dir_unlink fs sv slot2);
     (case r2 of
        Inl _ \<Rightarrow> None
      | Inr _ \<Rightarrow> do {
          v \<leftarrow> sfs_heap fs1 g1;
          let fs2 = put_vnode g1 (v\<lparr>sv_i := (sv_i v)\<lparr>sfi_linkcount := nat ((int (sfi_linkcount (sv_i v)) - 1) mod 2 ^ 16)\<rparr>\<rparr>) fs1;
          fs3 \<leftarrow> vnode_decref fs2 g1;
          Some (Inl e, fs3)
        })
   }"

definition sfs_rename :: "kmem \<Rightarrow> sfs_fs \<Rightarrow> vptr \<Rightarrow> byte list \<Rightarrow> vptr \<Rightarrow> byte list \<Rightarrow> (unit res \<times> sfs_fs) option" where
  "sfs_rename k fs d1 n1 d2 n2 = do {
     sv \<leftarrow> sfs_heap fs d1;
     kassert (d1 = d2);
     kassert (sv_ino sv = SFS_ROOT_LOCATION);
     (r, fs1) \<leftarrow> sfs_lookonce k fs d1 n1;
     (case r of
        Inl e \<Rightarrow> Some (Inl e, fs1)
      | Inr (g1, slot1) \<Rightarrow> do {
          gv \<leftarrow> sfs_heap fs1 g1;
          kassert (sfi_type (sv_i gv) = SFS_TYPE_FILE);
          (r2, fs2) \<leftarrow> on_vnode fs1 d1 (\<lambda>fs sv. sfs_dir_link fs sv n2 (sv_ino gv));
          (case r2 of
             Inl e \<Rightarrow> do { fs3 \<leftarrow> vnode_decref fs2 g1; Some (Inl e, fs3) }
           | Inr slot2 \<Rightarrow> do {
               fs3 \<leftarrow> add_links 1 g1 fs2;
               (r4, fs4) \<leftarrow> on_vnode fs3 d1 (\<lambda>fs sv. sfs_dir_unlink fs sv (int slot1));
               (case r4 of
                  Inl e \<Rightarrow> sfs_rename_undo e fs4 d1 g1 slot2
                | Inr _ \<Rightarrow> do {
                    v \<leftarrow> sfs_heap fs4 g1;
                    kassert (sfi_linkcount (sv_i v) > 0);
                    fs5 \<leftarrow> add_links (- 1) g1 fs4;
                    fs6 \<leftarrow> vnode_decref fs5 g1;
                    Some (Inr (), fs6)
                  })
             })
        })
   }"

definition sfs_lookparent :: "sfs_fs \<Rightarrow> vptr \<Rightarrow> byte list \<Rightarrow> byte list \<Rightarrow> (vptr res \<times> byte list \<times> sfs_fs) option" where
  \<comment> \<open>\<open>buf\<close> is the block of \<open>buflen\<close> bytes for the last component\<close>
  "sfs_lookparent fs p path buf = do {
     sv \<leftarrow> sfs_heap fs p;
     (if sfi_type (sv_i sv) \<noteq> SFS_TYPE_DIR then Some (Inl ENOTDIR, buf, fs)
      else do {
        n \<leftarrow> strlen path;
        (if n + 1 > length buf then Some (Inl ENAMETOOLONG, buf, fs)
         else do {
           buf' \<leftarrow> strcpy buf 0 path;
           fs' \<leftarrow> vnode_incref fs p;
           Some (Inr p, buf', fs')
         })
      })
   }"

definition sfs_lookup :: "kmem \<Rightarrow> sfs_fs \<Rightarrow> vptr \<Rightarrow> byte list \<Rightarrow> (vptr res \<times> sfs_fs) option" where
  "sfs_lookup k fs p path = do {
     sv \<leftarrow> sfs_heap fs p;
     (if sfi_type (sv_i sv) \<noteq> SFS_TYPE_DIR then Some (Inl ENOTDIR, fs)
      else do {
        (r, fs') \<leftarrow> sfs_lookonce k fs p path;
        Some (map_sum id fst r, fs')
      })
   }"

section \<open>File system operations\<close>

abbreviation (input) SFS_MAGIC :: nat where "SFS_MAGIC \<equiv> 0xabadf001"
abbreviation (input) SFS_SB_LOCATION :: nat where "SFS_SB_LOCATION \<equiv> 0"
abbreviation (input) SFS_MAP_LOCATION :: nat where "SFS_MAP_LOCATION \<equiv> 2"
abbreviation (input) SFS_BLOCKBITS :: nat where "SFS_BLOCKBITS \<equiv> 4096"

definition SFS_BITMAPSIZE :: "nat \<Rightarrow> nat" where
  "SFS_BITMAPSIZE nblocks = ((nblocks + SFS_BLOCKBITS - 1) mod 2 ^ 32 div SFS_BLOCKBITS) * SFS_BLOCKBITS"

definition SFS_BITBLOCKS :: "nat \<Rightarrow> nat" where
  "SFS_BITBLOCKS nblocks = SFS_BITMAPSIZE nblocks div SFS_BLOCKBITS"

definition super_to_block :: "sfs_super \<Rightarrow> byte list" where
  "super_to_block s = put_be 4 (sp_magic s) @ put_be 4 (sp_nblocks s) @ sp_volname s @ sp_reserved s"

definition super_of_block :: "byte list \<Rightarrow> sfs_super" where
  "super_of_block b = \<lparr>sp_magic = get_be (subblk b 0 4), sp_nblocks = get_be (subblk b 4 4), sp_volname = subblk b 8 32, sp_reserved = drop 40 b\<rparr>"

fun sfs_mapio_loop :: "nat list \<Rightarrow> uio_rw \<Rightarrow> disk \<Rightarrow> byte list \<Rightarrow> (unit res \<times> disk \<times> byte list) option" where
  "sfs_mapio_loop [] rw d bitdata = Some (Inr (), d, bitdata)"
| "sfs_mapio_loop (j # js) rw d bitdata = do {
     (r, d', bitdata') \<leftarrow> (if rw = UIO_READ then sfs_rblock d bitdata (j * SFS_BLOCKSIZE) (SFS_MAP_LOCATION + j)
        else do { (r, d') \<leftarrow> sfs_wblock d bitdata (j * SFS_BLOCKSIZE) (SFS_MAP_LOCATION + j); Some (r, d', bitdata) });
     (case r of Inl e \<Rightarrow> Some (Inl e, d', bitdata') | Inr _ \<Rightarrow> sfs_mapio_loop js rw d' bitdata')
   }"

definition sfs_mapio :: "sfs_fs \<Rightarrow> uio_rw \<Rightarrow> (unit res \<times> sfs_fs) option" where
  "sfs_mapio fs rw = do {
     let mapsize = SFS_BITBLOCKS (sp_nblocks (sfs_super fs));
     (r, d, bitdata) \<leftarrow> sfs_mapio_loop [0..<mapsize] rw (sfs_device fs) (bitmap_getdata (sfs_freemap fs));
     Some (r, fs\<lparr>sfs_device := d, sfs_freemap := (sfs_freemap fs)\<lparr>bm_v := bitdata\<rparr>\<rparr>)
   }"

fun sfs_sync_vnodes :: "nat list \<Rightarrow> sfs_fs \<Rightarrow> sfs_fs option" where
  "sfs_sync_vnodes [] fs = Some fs"
| "sfs_sync_vnodes (i # is) fs = do {
     p \<leftarrow> array_getguy (sfs_vnodes fs) (int i);
     (_, fs') \<leftarrow> sfs_fsync fs p;
     sfs_sync_vnodes is fs'
   }"

definition sfs_sync :: "sfs_fs \<Rightarrow> (unit res \<times> sfs_fs) option" where
  "sfs_sync fs = do {
     fs1 \<leftarrow> sfs_sync_vnodes [0..<nat (array_getnum (sfs_vnodes fs))] fs;
     (r2, fs2) \<leftarrow> (if sfs_freemapdirty fs1 then do {
          (r, fs') \<leftarrow> sfs_mapio fs1 UIO_WRITE;
          Some (case r of Inl e \<Rightarrow> (Inl e, fs') | Inr _ \<Rightarrow> (Inr (), fs'\<lparr>sfs_freemapdirty := False\<rparr>))
        }
        else Some (Inr (), fs1));
     (case r2 of
        Inl e \<Rightarrow> Some (Inl e, fs2)
      | Inr _ \<Rightarrow>
          if sfs_superdirty fs2 then do {
            (r, d) \<leftarrow> sfs_wblock (sfs_device fs2) (super_to_block (sfs_super fs2)) 0 SFS_SB_LOCATION;
            let fs3 = fs2\<lparr>sfs_device := d\<rparr>;
            Some (case r of Inl e \<Rightarrow> (Inl e, fs3) | Inr _ \<Rightarrow> (Inr (), fs3\<lparr>sfs_superdirty := False\<rparr>))
          }
          else Some (Inr (), fs2))
   }"

definition sfs_getvolname :: "sfs_fs \<Rightarrow> byte list" where
  "sfs_getvolname fs = sp_volname (sfs_super fs)"

definition sfs_unmount :: "sfs_fs \<Rightarrow> unit res option" where
  \<comment> \<open>on success the file system structure is gone\<close>
  "sfs_unmount fs =
     (if array_getnum (sfs_vnodes fs) > 0 then Some (Inl EBUSY)
      else do {
        kassert (\<not> sfs_superdirty fs);
        kassert (\<not> sfs_freemapdirty fs);
        Some (Inr ())
      })"

record mountmem =
  \<comment> \<open>outcomes of the allocations of \<open>sfs_domount\<close>\<close>
  mm_fs :: bool
  mm_array :: bool
  mm_bitmap :: bool
  mm_bits :: bool

definition sfs_domount :: "mountmem \<Rightarrow> nat \<Rightarrow> disk \<Rightarrow> (sfs_fs res \<times> disk) option" where
  "sfs_domount mm d_blocksize dev =
     (if d_blocksize \<noteq> SFS_BLOCKSIZE then Some (Inl ENXIO, dev)
      else if \<not> mm_fs mm then Some (Inl ENOMEM, dev)
      else case array_create (mm_array mm) of
        None \<Rightarrow> Some (Inl ENOMEM, dev)
      | Some vnodes \<Rightarrow> do {
          (r, d1, b) \<leftarrow> sfs_rblock dev zeroblock 0 SFS_SB_LOCATION;
          (case r of
             Inl e \<Rightarrow> Some (Inl e, d1)
           | Inr _ \<Rightarrow>
               let s = super_of_block b; super = s\<lparr>sp_volname := (sp_volname s)[31 := 0]\<rparr> in
               if sp_magic s \<noteq> SFS_MAGIC then Some (Inl EINVAL, d1)
               else do {
                 bm \<leftarrow> bitmap_create (mm_bitmap mm) (mm_bits mm) (SFS_BITMAPSIZE (sp_nblocks super));
                 (case bm of
                    None \<Rightarrow> Some (Inl ENOMEM, d1)
                  | Some freemap \<Rightarrow> do {
                      (r2, fs) \<leftarrow> sfs_mapio \<lparr>sfs_super = super, sfs_superdirty = False, sfs_device = d1, sfs_vnodes = vnodes,
                         sfs_freemap = freemap, sfs_freemapdirty = False, sfs_heap = (\<lambda>_. None)\<rparr> UIO_READ;
                      Some (case r2 of Inl e \<Rightarrow> Inl e | Inr _ \<Rightarrow> Inr fs, sfs_device fs)
                    })
               })
        })"

end
