(* ===== verification/Kern_SFS_Dir.thy ===== *)
theory Kern_SFS_Dir
  imports Kern_SFS_Ops
begin

text \<open>
  Correctness of the SFS directory and inode routines of \<open>Kern_SFS_Ops\<close>. A directory is a finite map from names to
  inode numbers: the abstraction \<open>dlook\<close> reads it off the bytes of the directory file, and \<open>sfs_dir_findname\<close>,
  \<open>sfs_dir_link\<close> and \<open>sfs_dir_unlink\<close> are lookup, insertion and deletion in it.
\<close>

section \<open>On-disk structures\<close>

lemma subblk_append1 [simp]: "length xs = n \<Longrightarrow> subblk (xs @ ys) 0 n = xs"
  by (simp add: subblk_def)

lemma subblk_append2: "length xs = k \<Longrightarrow> subblk (xs @ ys) (k + i) n = subblk ys i n"
  by (simp add: subblk_def)

lemma dir_bytes_length: "length (sfd_name sd) = 60 \<Longrightarrow> length (dir_to_bytes sd) = 64"
  by (simp add: dir_to_bytes_def)

lemma dir_of_to_bytes: "sfd_ino sd < 2 ^ 32 \<Longrightarrow> length (sfd_name sd) = 60 \<Longrightarrow> dir_of_bytes (dir_to_bytes sd) = sd"
  using subblk_append2 [of "put_be 4 (sfd_ino sd)" 4 "sfd_name sd" 0 60] get_put_be [of 4 "sfd_ino sd"]
  by (simp add: dir_of_bytes_def dir_to_bytes_def subblk_def)

definition inode_wf :: "sfs_inode \<Rightarrow> bool" where
  "inode_wf i \<longleftrightarrow> sfi_size i < 2 ^ 32 \<and> sfi_type i < 2 ^ 16 \<and> sfi_linkcount i < 2 ^ 16 \<and> length (sfi_direct i) = SFS_NDIRECT \<and>
     (\<forall>b \<in> set (sfi_direct i). b < 2 ^ 32) \<and> sfi_indirect i < 2 ^ 32 \<and> length (sfi_waste i) = 440"

lemma inode_block_length: "inode_wf i \<Longrightarrow> length (inode_to_block i) = SFS_BLOCKSIZE"
  by (simp add: inode_to_block_def inode_wf_def)

lemma inode_of_to_block: "inode_wf i \<Longrightarrow> inode_of_block (inode_to_block i) = i"
proof -
  assume w: "inode_wf i"
  let ?b = "inode_to_block i"
  have "subblk ?b 0 4 = put_be 4 (sfi_size i)" "subblk ?b 4 2 = put_be 2 (sfi_type i)" "subblk ?b 6 2 = put_be 2 (sfi_linkcount i)"
    "subblk ?b 8 60 = bytes_of_words (sfi_direct i)" "subblk ?b 68 4 = put_be 4 (sfi_indirect i)" "drop 72 ?b = sfi_waste i"
    using w by (simp_all add: inode_to_block_def subblk_def inode_wf_def)
  then show ?thesis using w words_bytes_id [of "sfi_direct i"] get_put_be [of 4 "sfi_size i"] get_put_be [of 2 "sfi_type i"]
    get_put_be [of 2 "sfi_linkcount i"] get_put_be [of 4 "sfi_indirect i"]
    by (simp add: inode_of_block_def inode_wf_def)
qed

section \<open>Directory entries\<close>

definition dent :: "(nat \<Rightarrow> byte) \<Rightarrow> nat \<Rightarrow> sfs_dir" where
  "dent c s = dir_of_bytes (mem_get (s * 64) 64 c)"

definition dname :: "sfs_dir \<Rightarrow> byte list" where
  "dname sd = cstr ((sfd_name sd)[59 := 0])"

definition names :: "(nat \<Rightarrow> byte) \<Rightarrow> byte list \<Rightarrow> nat \<Rightarrow> bool" where
  \<comment> \<open>slot \<open>s\<close> is an entry with the name \<open>nm\<close>\<close>
  "names c nm s \<longleftrightarrow> sfd_ino (dent c s) \<noteq> 0 \<and> dname (dent c s) = nm"

definition dlook :: "(nat \<Rightarrow> byte) \<Rightarrow> nat \<Rightarrow> byte list \<Rightarrow> (nat \<times> nat) option" where
  \<comment> \<open>inode number and slot of a name among the first \<open>n\<close> slots\<close>
  "dlook c n nm = (case filter (names c nm) [0..<n] of [] \<Rightarrow> None | s # _ \<Rightarrow> Some (sfd_ino (dent c s), s))"

definition dir_ok :: "sfs_fs \<Rightarrow> sfs_vnode \<Rightarrow> bool" where
  "dir_ok fs sv \<longleftrightarrow> fs_ok fs \<and> inode_ok fs (sv_i sv) \<and> sfi_type (sv_i sv) = SFS_TYPE_DIR \<and> sfi_size (sv_i sv) mod 64 = 0 \<and>
     sfi_size (sv_i sv) \<le> 143 * 512 \<and>
     (\<forall>nm s t. s < sfi_size (sv_i sv) div 64 \<and> t < sfi_size (sv_i sv) div 64 \<and> names (cont fs (sv_i sv)) nm s \<and> names (cont fs (sv_i sv)) nm t \<longrightarrow> s = t)"

abbreviation nslots :: "sfs_vnode \<Rightarrow> nat" where "nslots sv \<equiv> sfi_size (sv_i sv) div 64"
abbreviation dlookup :: "sfs_fs \<Rightarrow> sfs_vnode \<Rightarrow> byte list \<Rightarrow> (nat \<times> nat) option" where
  "dlookup fs sv \<equiv> dlook (cont fs (sv_i sv)) (nslots sv)"

lemma dir_uniq: "dir_ok fs sv \<Longrightarrow> s < nslots sv \<Longrightarrow> t < nslots sv \<Longrightarrow> names (cont fs (sv_i sv)) nm s \<Longrightarrow> names (cont fs (sv_i sv)) nm t \<Longrightarrow> s = t"
  unfolding dir_ok_def by blast

lemma dent_length [simp]: "length (sfd_name (dent c s)) = 60"
  by (simp add: dent_def dir_of_bytes_def)

lemma kuio_mk: "mk_kuio buf 0 64 pos rw blank_uio = kuio buf pos rw" if "length buf = 64"
  using that by (simp add: kuio_def)

lemma sfs_readdir_ok:
  assumes ok: "dir_ok fs sv" and s: "s < nslots sv"
  obtains fs' sv' where "sfs_readdir fs sv (int s) = Some (Inr (dent (cont fs (sv_i sv)) s), fs', sv')" "quiet fs sv fs' sv'"
proof -
  let ?r = "kuio (replicate 64 0) (int s * 64) UIO_READ" and ?sz = "sfi_size (sv_i sv)"
  have fs: "fs_ok fs" "inode_ok fs (sv_i sv)" "?sz \<le> 143 * 512" using ok by (simp_all add: dir_ok_def)
  have lt: "s * 64 + 64 \<le> ?sz" using s by simp
  then have sm: "s * 64 + 64 \<le> 143 * 512" using fs(3) by simp
  have ready: "uio_ready (uio_resid ?r) ?r" "uio_rw ?r = UIO_READ" using kuio_ready [of "int s * 64" "replicate 64 0" UIO_READ] sm by simp_all
  have m: "min (uio_resid ?r) (?sz - nat (uio_offset ?r)) = 64" using lt by (simp add: nat_mult_distrib)
  obtain fs' sv' u' where x: "sfs_io fs sv ?r = Some (Inr (), fs', sv', u')" "xfer 64 fs sv ?r fs' sv' u'"
    using sfs_io_read_ok [OF fs(1,2) ready fs(3)] unfolding m by blast
  have q: "uio_moved 64 ?r u'" "quiet fs sv fs' sv'" "iov_mem u' = mem_put 0 (mem_get (s * 64) 64 (cont fs (sv_i sv))) (iov_mem ?r)"
    using x(2) by (simp_all add: xfer_def nat_mult_distrib)
  then have "iov_kbuf u' = mem_get (s * 64) 64 (cont fs (sv_i sv))" by (intro kuio_moved_buf [OF q(1,3)]) simp
  moreover have "uio_resid u' = 0" using q(1) by (simp add: uio_moved_def)
  moreover have "swrap32 (int s * 64) = int s * 64" using sm by (intro swrap32_id) auto
  ultimately have "sfs_readdir fs sv (int s) = Some (Inr (dent (cont fs (sv_i sv)) s), fs', sv')"
    using x(1) by (simp add: sfs_readdir_def kuio_mk dent_def)
  with that q(2) show thesis by blast
qed

lemma quiet_facts:
  assumes "quiet fs sv fs' sv'"
  shows "cont fs' (sv_i sv') = cont fs (sv_i sv)" "sfi_size (sv_i sv') = sfi_size (sv_i sv)" "sfi_type (sv_i sv') = sfi_type (sv_i sv)"
    "fs_ok fs'" "inode_ok fs' (sv_i sv')"
  using assms unfolding quiet_def keeps_def by blast+

lemma quiet_nslots: "quiet fs sv fs' sv' \<Longrightarrow> nslots sv' = nslots sv \<and> cont fs' (sv_i sv') = cont fs (sv_i sv)"
  by (simp add: quiet_facts)

lemma quiet_dir_ok: "quiet fs sv fs' sv' \<Longrightarrow> dir_ok fs sv \<Longrightarrow> dir_ok fs' sv'"
  by (simp add: dir_ok_def quiet_facts) blast

definition last_empty :: "(nat \<Rightarrow> byte) \<Rightarrow> nat list \<Rightarrow> nat option \<Rightarrow> nat option" where
  "last_empty c is e = foldl (\<lambda>e i. if sfd_ino (dent c i) = 0 then Some i else e) e is"

lemma last_empty_cases: "last_empty c is e = e \<and> (\<forall>i \<in> set is. sfd_ino (dent c i) \<noteq> 0) \<or> (\<exists>i \<in> set is. last_empty c is e = Some i \<and> sfd_ino (dent c i) = 0)"
proof (induction "is" arbitrary: e)
  case (Cons i "is")
  show ?case
  proof (cases "sfd_ino (dent c i) = 0")
    case True
    then have "last_empty c (i # is) e = last_empty c is (Some i)" by (simp add: last_empty_def)
    with True Cons.IH [of "Some i"] show ?thesis by auto
  next
    case False
    then have "last_empty c (i # is) e = last_empty c is e" by (simp add: last_empty_def)
    with False Cons.IH [of e] show ?thesis by auto
  qed
qed (simp add: last_empty_def)

lemma findname_loop_ok:
  assumes name: "0 \<in> set name"
  shows "\<lbrakk>dir_ok fs sv; k \<le> nslots sv; \<forall>s < k. names (cont fs (sv_i sv)) (cstr name) s \<longrightarrow> (\<exists>i. fn_found f = Some (i, s));
      case fn_found f of None \<Rightarrow> True | Some (i, s) \<Rightarrow> s < k \<and> names (cont fs (sv_i sv)) (cstr name) s \<and> i = sfd_ino (dent (cont fs (sv_i sv)) s)\<rbrakk> \<Longrightarrow>
    \<exists>f' fs' sv'. sfs_findname_loop [k..<nslots sv] name f fs sv = Some (if fn_found f' \<noteq> None then Inr () else Inl ENOENT, f', fs', sv') \<and> quiet fs sv fs' sv' \<and>
      (\<forall>s < nslots sv. names (cont fs (sv_i sv)) (cstr name) s \<longrightarrow> fn_found f' = Some (sfd_ino (dent (cont fs (sv_i sv)) s), s)) \<and>
      (case fn_found f' of None \<Rightarrow> True | Some (i, s) \<Rightarrow> s < nslots sv \<and> names (cont fs (sv_i sv)) (cstr name) s \<and> i = sfd_ino (dent (cont fs (sv_i sv)) s)) \<and>
      fn_empty f' = last_empty (cont fs (sv_i sv)) [k..<nslots sv] (fn_empty f)"
proof (induction "nslots sv - k" arbitrary: k f fs sv)
  case 0
  then have "[k..<nslots sv] = []" "quiet fs sv fs sv" by (simp_all add: dir_ok_def quiet_refl)
  with 0 show ?case by (auto simp: last_empty_def split: option.splits)
next
  case (Suc d)
  let ?c = "cont fs (sv_i sv)"
  from Suc.hyps(2) have k: "k < nslots sv" "d = nslots sv - Suc k" by auto
  then have up: "[k..<nslots sv] = k # [Suc k..<nslots sv]" by (simp add: upt_conv_Cons)
  obtain fs1 sv1 where r: "sfs_readdir fs sv (int k) = Some (Inr (dent ?c k), fs1, sv1)" "quiet fs sv fs1 sv1"
    using sfs_readdir_ok [OF Suc.prems(1) k(1)] by blast
  have q: "nslots sv1 = nslots sv" "cont fs1 (sv_i sv1) = ?c" "dir_ok fs1 sv1" using quiet_nslots [OF r(2)] quiet_dir_ok [OF r(2) Suc.prems(1)] by simp_all
  define f1 where "f1 = (if sfd_ino (dent ?c k) = 0 then f\<lparr>fn_empty := Some k\<rparr> else if dname (dent ?c k) = cstr name then f\<lparr>fn_found := Some (sfd_ino (dent ?c k), k)\<rparr> else f)"
  have fresh: "fn_found f = None" if "names ?c (cstr name) k"
  proof (rule ccontr)
    assume "fn_found f \<noteq> None"
    then obtain i s where "fn_found f = Some (i, s)" by auto
    with Suc.prems(4) have "s < k" "names ?c (cstr name) s" by auto
    then show False using dir_uniq [OF Suc.prems(1), of s k "cstr name"] that k(1) by simp
  qed
  have sn: "wr (sfd_name (dent ?c k)) 59 0 = Some ((sfd_name (dent ?c k))[59 := 0])" by (simp add: wr_def)
  have nul: "0 \<in> set ((sfd_name (dent ?c k))[59 := 0])" by (simp add: set_update_memI)
  obtain v where v: "strcmp ((sfd_name (dent ?c k))[59 := 0]) name = Some v" "v = 0 \<longleftrightarrow> dname (dent ?c k) = cstr name"
    using strcmp_eq_0 [OF nul name] unfolding dname_def by blast
  have step: "sfs_findname_loop [k..<nslots sv] name f fs sv = sfs_findname_loop [Suc k..<nslots sv1] name f1 fs1 sv1"
    unfolding up q(1) using r(1) sn v fresh by (auto simp: f1_def names_def)
  have p3: "\<forall>s < Suc k. names (cont fs1 (sv_i sv1)) (cstr name) s \<longrightarrow> (\<exists>i. fn_found f1 = Some (i, s))"
    using Suc.prems(3) fresh unfolding q(2) by (auto simp: f1_def names_def less_Suc_eq)
  have p4: "case fn_found f1 of None \<Rightarrow> True | Some (i, s) \<Rightarrow> s < Suc k \<and> names (cont fs1 (sv_i sv1)) (cstr name) s \<and> i = sfd_ino (dent (cont fs1 (sv_i sv1)) s)"
    using Suc.prems(4) unfolding q(2) by (auto simp: f1_def names_def less_Suc_eq split: option.splits)
  have em: "last_empty ?c [k..<nslots sv] (fn_empty f) = last_empty ?c [Suc k..<nslots sv] (fn_empty f1)"
    unfolding up by (simp add: last_empty_def f1_def)
  have kk: "Suc k \<le> nslots sv1" "d = nslots sv1 - Suc k" using k q(1) by simp_all
  from Suc.hyps(1) [OF kk(2) q(3) kk(1) p3 p4] obtain f' fs' sv' where f':
    "sfs_findname_loop [Suc k..<nslots sv1] name f1 fs1 sv1 = Some (if fn_found f' \<noteq> None then Inr () else Inl ENOENT, f', fs', sv')" "quiet fs1 sv1 fs' sv'"
    "\<forall>s < nslots sv. names ?c (cstr name) s \<longrightarrow> fn_found f' = Some (sfd_ino (dent ?c s), s)"
    "case fn_found f' of None \<Rightarrow> True | Some (i, s) \<Rightarrow> s < nslots sv \<and> names ?c (cstr name) s \<and> i = sfd_ino (dent ?c s)"
    "fn_empty f' = last_empty ?c [Suc k..<nslots sv] (fn_empty f1)"
    unfolding q(1,2) by blast
  then show ?case unfolding step em using quiet_trans [OF r(2) f'(2)] by blast
qed

definition uniq_names :: "(nat \<Rightarrow> byte) \<Rightarrow> nat \<Rightarrow> bool" where
  "uniq_names c n \<longleftrightarrow> (\<forall>nm s t. s < n \<and> t < n \<and> names c nm s \<and> names c nm t \<longrightarrow> s = t)"

lemma dir_ok_uniq: "dir_ok fs sv \<Longrightarrow> uniq_names (cont fs (sv_i sv)) (nslots sv)"
  unfolding uniq_names_def dir_ok_def by blast

lemma dlook_iff:
  assumes "uniq_names c n"
  shows "dlook c n nm = Some (i, s) \<longleftrightarrow> s < n \<and> names c nm s \<and> i = sfd_ino (dent c s)"
proof (cases "filter (names c nm) [0..<n]")
  case Nil
  then have "\<forall>s < n. \<not> names c nm s" by (auto simp: filter_empty_conv)
  with Nil show ?thesis by (auto simp: dlook_def)
next
  case (Cons t ts)
  then have "t \<in> set (filter (names c nm) [0..<n])" by simp
  then have t: "t < n" "names c nm t" by auto
  with assms have "s < n \<and> names c nm s \<longrightarrow> s = t" unfolding uniq_names_def by blast
  with Cons t show ?thesis by (auto simp: dlook_def)
qed

lemma dlook_None: "dlook c n nm = None \<longleftrightarrow> (\<forall>s < n. \<not> names c nm s)"
proof -
  have "dlook c n nm = None \<longleftrightarrow> filter (names c nm) [0..<n] = []" by (simp add: dlook_def split: list.splits)
  then show ?thesis by (auto simp: filter_empty_conv)
qed

lemma sfs_dir_nentries_ok: "dir_ok fs sv \<Longrightarrow> sfs_dir_nentries sv = Some (int (nslots sv))"
proof -
  assume d: "dir_ok fs sv"
  then have "swrap32 (int (sfi_size (sv_i sv))) = int (sfi_size (sv_i sv))" "sfi_size (sv_i sv) < 2 ^ 32"
    by (auto simp: dir_ok_def intro!: swrap32_id)
  with d show ?thesis by (simp add: sfs_dir_nentries_def dir_ok_def)
qed

lemma sfs_dir_findname_ok:
  assumes ok: "dir_ok fs sv" and name: "0 \<in> set name"
  obtains f fs' sv' where "sfs_dir_findname fs sv name = Some (if dlookup fs sv (cstr name) \<noteq> None then Inr () else Inl ENOENT, f, fs', sv')"
    "quiet fs sv fs' sv'" "fn_found f = dlookup fs sv (cstr name)" "fn_empty f = last_empty (cont fs (sv_i sv)) [0..<nslots sv] None"
proof -
  let ?c = "cont fs (sv_i sv)"
  from findname_loop_ok [OF name ok, of 0 "\<lparr>fn_found = None, fn_empty = None\<rparr>"] obtain f fs' sv' where f:
    "sfs_findname_loop [0..<nslots sv] name \<lparr>fn_found = None, fn_empty = None\<rparr> fs sv = Some (if fn_found f \<noteq> None then Inr () else Inl ENOENT, f, fs', sv')"
    "quiet fs sv fs' sv'" "\<forall>s < nslots sv. names ?c (cstr name) s \<longrightarrow> fn_found f = Some (sfd_ino (dent ?c s), s)"
    "case fn_found f of None \<Rightarrow> True | Some (i, s) \<Rightarrow> s < nslots sv \<and> names ?c (cstr name) s \<and> i = sfd_ino (dent ?c s)"
    "fn_empty f = last_empty ?c [0..<nslots sv] None" by auto
  have fd: "fn_found f = dlookup fs sv (cstr name)"
  proof (cases "fn_found f")
    case None
    with f(3) have "dlookup fs sv (cstr name) = None" by (auto simp: dlook_None)
    with None show ?thesis by simp
  next
    case (Some x)
    with f(4) have "dlookup fs sv (cstr name) = Some (fst x, snd x)" unfolding dlook_iff [OF dir_ok_uniq [OF ok]] by (cases x) simp
    with Some show ?thesis by simp
  qed
  have "sfs_dir_findname fs sv name = Some (if dlookup fs sv (cstr name) \<noteq> None then Inr () else Inl ENOENT, f, fs', sv')"
    using f(1) sfs_dir_nentries_ok [OF ok] unfolding fd by (simp add: sfs_dir_findname_def)
  with f(2,5) fd that show thesis by blast
qed

section \<open>Writing entries\<close>

lemma dent_put:
  assumes "length (sfd_name sd) = 60" "sfd_ino sd < 2 ^ 32"
  shows "dent (mem_put (s * 64) (dir_to_bytes sd) c) t = (if t = s then sd else dent c t)"
proof -
  have len: "length (dir_to_bytes sd) = 64" by (rule dir_bytes_length [OF assms(1)])
  have "mem_get (t * 64) 64 (mem_put (s * 64) (dir_to_bytes sd) c) = (if t = s then dir_to_bytes sd else mem_get (t * 64) 64 c)"
  proof (cases "t = s")
    case True
    then show ?thesis by (intro nth_equalityI) (simp_all add: len mem_put_def)
  next
    case False
    then have "\<not> (s * 64 \<le> t * 64 + k \<and> t * 64 + k < s * 64 + 64)" if "k < 64" for k using that by auto
    with False show ?thesis by (intro nth_equalityI) (auto simp: len mem_put_def)
  qed
  then show ?thesis using dir_of_to_bytes [OF assms(2,1)] by (simp add: dent_def)
qed

lemma sfs_writedir_cases:
  assumes ok: "dir_ok fs sv" and s: "s \<le> nslots sv" and sd: "length (sfd_name sd) = 60"
  obtains (written) fs' sv1 where "sfs_writedir fs sv sd (int s) = Some (Inr (), fs', sized (max (sfi_size (sv_i sv)) (s * 64 + 64)) sv1)"
      "file_step (mem_put (s * 64) (dir_to_bytes sd) (cont fs (sv_i sv))) fs sv fs' sv1" "s < 1144"
  | (err) e fs' sv' where "sfs_writedir fs sv sd (int s) = Some (Inl e, fs', sv')" "quiet fs sv fs' sv'"
      "e = ENOSPC \<and> fmap fs (sv_i sv) (s div 8) = 0 \<and> sfs_full fs' \<or> e = EINVAL \<and> s = 1144"
proof -
  let ?w = "kuio (dir_to_bytes sd) (int s * 64) UIO_WRITE" and ?sz = "sfi_size (sv_i sv)" and ?c = "cont fs (sv_i sv)"
  have len: "length (dir_to_bytes sd) = 64" by (rule dir_bytes_length [OF sd])
  have fs: "fs_ok fs" "inode_ok fs (sv_i sv)" "?sz \<le> 143 * 512" "?sz mod 64 = 0" using ok by (simp_all add: dir_ok_def)
  then have s64: "s * 64 \<le> ?sz" "s \<le> 1144" using s by auto
  then have s2: "s * 64 \<le> 143 * 512" using fs(3) by simp
  have "s = (s div 8) * 8 + s mod 8" by simp
  then have s8: "s * 64 = (s div 8) * 512 + (s mod 8) * 64" by linarith
  have w: "uio_resid ?w = 64" "uio_offset ?w = int s * 64" "uio_rw ?w = UIO_WRITE" "nat (uio_offset ?w) = (s div 8) * 512 + (s mod 8) * 64"
    using len s8 by (simp_all add: nat_mult_distrib)
  have ready: "uio_ready (uio_resid ?w) ?w" using kuio_ready [of "int s * 64" "dir_to_bytes sd" UIO_WRITE] s2 len by simp
  have in_block: "(s mod 8) * 64 + uio_resid ?w \<le> 512" using w(1) mod_less_divisor [of 8 s] by linarith
  have sw: "swrap32 (int s * 64) = int s * 64" "swrap32 (int ?sz) = int ?sz" using s2 fs(3) by (auto intro!: swrap32_id)
  have eq: "sfs_writedir fs sv sd (int s) = map_option (sfs_io_out 0) (sfs_io_body fs sv ?w) \<bind> (\<lambda>(result, fs', sv', ku).
      case result of Inl e \<Rightarrow> Some (Inl e, fs', sv') | Inr _ \<Rightarrow> kassert (\<not> uio_resid ku > 0) \<bind> (\<lambda>_. Some (Inr (), fs', sv')))"
    using sw(1) kuio_mk [OF len] by (simp add: sfs_writedir_def sfs_io_def)
  from sfs_io_body_small [OF fs(1,2) ready w(4) in_block] w(1) consider
      fs' sv1 u' where "sfs_io_body fs sv ?w = Some (Inr (), fs', sv1, u')" "xfer 64 fs sv ?w fs' sv1 u'"
    | e fs' sv' where "sfs_io_body fs sv ?w = Some (Inl e, fs', sv', ?w)" "quiet fs sv fs' sv'"
        "e = ENOSPC \<and> fmap fs (sv_i sv) (s div 8) = 0 \<and> sfs_full fs' \<or> e = EINVAL \<and> 143 * 512 < int s * 64 + 64"
    unfolding io_atomic_def w by fastforce
  then show thesis
  proof cases
    case 1
    have m: "uio_moved 64 ?w u'" "file_step (mem_put (s * 64) (dir_to_bytes sd) ?c) fs sv fs' sv1"
      using 1(2) kuio_mem_get [of 64 "dir_to_bytes sd" "int s * 64" UIO_WRITE] len by (simp_all add: xfer_def nat_mult_distrib)
    then have "uio_offset u' = int s * 64 + 64" "uio_resid u' = 0" "uio_rw u' = UIO_WRITE" "sfi_size (sv_i sv1) = ?sz"
      using w by (simp_all add: uio_moved_def file_step_def)
    moreover have "u32 (int s * 64 + 64) = s * 64 + 64" using s2 u32_id [of "int (s * 64 + 64)"] by simp
    ultimately have "sfs_io_out 0 (Inr (), fs', sv1, u') = (Inr (), fs', sized (max ?sz (s * 64 + 64)) sv1, u'\<lparr>uio_resid := 0\<rparr>)"
      using sw(2) by (auto simp: sfs_io_out_def sized_def max_def)
    then have "sfs_writedir fs sv sd (int s) = Some (Inr (), fs', sized (max ?sz (s * 64 + 64)) sv1)" unfolding eq 1(1) by simp
    moreover have "s \<noteq> 1144" using sfs_io_body_far [OF ready, of fs sv] 1(1) w(1,2) by (cases "dir_to_bytes sd") auto
    then have "s < 1144" using s64(2) by simp
    ultimately show thesis using m(2) written by blast
  next
    case 2
    have "sfi_size (sv_i sv') = ?sz" using quiet_facts [OF 2(2)] by simp
    then have "sfs_io_out 0 (Inl e, fs', sv', ?w) = (Inl e, fs', sv', ?w\<lparr>uio_resid := 64\<rparr>)"
      using sw(2) s64(1) w by (simp add: sfs_io_out_def)
    then have "sfs_writedir fs sv sd (int s) = Some (Inl e, fs', sv')" unfolding eq 2(1) by simp
    moreover have "e = ENOSPC \<and> fmap fs (sv_i sv) (s div 8) = 0 \<and> sfs_full fs' \<or> e = EINVAL \<and> s = 1144" using 2(3) s64(2) by linarith
    ultimately show thesis using 2(2) err by blast
  qed
qed

lemma option_pair_eqI: "(\<And>i t. x = Some (i, t) \<longleftrightarrow> y = Some (i, t)) \<Longrightarrow> x = y"
  by (cases x; cases y) auto

lemma dir_written:
  assumes ok: "dir_ok fs sv" and s: "s \<le> nslots sv" "s < 1144" and sd: "length (sfd_name sd) = 60" "sfd_ino sd < 2 ^ 32"
    and step: "file_step (mem_put (s * 64) (dir_to_bytes sd) (cont fs (sv_i sv))) fs sv fs' sv1" and sv': "sv' = sized (max (sfi_size (sv_i sv)) (s * 64 + 64)) sv1"
    and new: "sfd_ino sd \<noteq> 0 \<longrightarrow> (\<forall>t < nslots sv. t \<noteq> s \<longrightarrow> \<not> names (cont fs (sv_i sv)) (dname sd) t)"
  shows "dir_ok fs' sv'" "isolated fs (sv_i sv) fs' (sv_i sv')"
    "dlookup fs' sv' nm = (if sfd_ino sd \<noteq> 0 \<and> nm = dname sd then Some (sfd_ino sd, s)
       else case dlookup fs sv nm of None \<Rightarrow> None | Some (i, t) \<Rightarrow> if t = s then None else Some (i, t))"
proof -
  let ?c = "cont fs (sv_i sv)" and ?c' = "cont fs' (sv_i sv')"
  have c': "?c' = mem_put (s * 64) (dir_to_bytes sd) ?c" and fok: "fs_ok fs'" "inode_ok fs' (sv_i sv')"
    using file_step_ok [OF step] by (simp_all add: sv')
  have d: "sfi_size (sv_i sv) mod 64 = 0" "sfi_size (sv_i sv) \<le> 143 * 512" "sfi_type (sv_i sv) = 2" using ok by (simp_all add: dir_ok_def)
  have n': "nslots sv' = max (nslots sv) (Suc s)" "sfi_size (sv_i sv') mod 64 = 0" "sfi_size (sv_i sv') \<le> 143 * 512"
    using d s by (auto simp: sv' max_def)
  have nm': "names ?c' nm t \<longleftrightarrow> (if t = s then sfd_ino sd \<noteq> 0 \<and> dname sd = nm else names ?c nm t)" for nm t
    unfolding c' by (simp add: names_def dent_put [OF sd])
  have u: "uniq_names ?c (nslots sv)" by (rule dir_ok_uniq [OF ok])
  have u': "uniq_names ?c' (nslots sv')"
    unfolding uniq_names_def
  proof (intro allI impI)
    fix nm t1 t2 assume a: "t1 < nslots sv' \<and> t2 < nslots sv' \<and> names ?c' nm t1 \<and> names ?c' nm t2"
    then have b: "t1 = s \<or> t1 < nslots sv" "t2 = s \<or> t2 < nslots sv" using s n'(1) by auto
    show "t1 = t2"
    proof (cases "t1 = s \<or> t2 = s")
      case True
      with a b new show ?thesis unfolding nm' by (auto split: if_splits)
    next
      case False
      with a b u show ?thesis unfolding nm' uniq_names_def by auto
    qed
  qed
  have ty: "sfi_type (sv_i sv') = 2" using step d(3) by (simp add: sv' file_step_def keeps_def)
  show "dir_ok fs' sv'" using fok n'(2,3) u' ty unfolding dir_ok_def uniq_names_def by blast
  show "isolated fs (sv_i sv) fs' (sv_i sv')" using step by (simp add: isolated_def file_step_def keeps_def sv')
  have ino': "t \<noteq> s \<Longrightarrow> sfd_ino (dent ?c' t) = sfd_ino (dent ?c t)" "sfd_ino (dent ?c' s) = sfd_ino sd" for t
    unfolding c' by (simp_all add: dent_put [OF sd])
  let ?R = "if sfd_ino sd \<noteq> 0 \<and> nm = dname sd then Some (sfd_ino sd, s)
       else case dlookup fs sv nm of None \<Rightarrow> None | Some (i, t) \<Rightarrow> if t = s then None else Some (i, t)"
  have "dlookup fs' sv' nm = Some (i, t) \<longleftrightarrow> ?R = Some (i, t)" for i t
  proof (cases "sfd_ino sd \<noteq> 0 \<and> nm = dname sd")
    case True
    with new have "t < nslots sv' \<and> names ?c' nm t \<longleftrightarrow> t = s" unfolding nm' using s n'(1) by (auto split: if_splits)
    with True show ?thesis unfolding dlook_iff [OF u'] using ino'(2) by auto
  next
    case False
    have "dlookup fs' sv' nm = Some (i, t) \<longleftrightarrow> t \<noteq> s \<and> t < nslots sv \<and> names ?c nm t \<and> i = sfd_ino (dent ?c t)"
      unfolding dlook_iff [OF u'] nm' using False ino' n'(1) s(1) by (cases "t = s") auto
    also have "\<dots> \<longleftrightarrow> t \<noteq> s \<and> dlookup fs sv nm = Some (i, t)" unfolding dlook_iff [OF u] by auto
    also have "\<dots> \<longleftrightarrow> ?R = Some (i, t)" using False by (auto split: option.splits)
    finally show ?thesis .
  qed
  then show "dlookup fs' sv' nm = ?R" by (rule option_pair_eqI)
qed

lemma quiet_isolated: "quiet fs sv fs' sv' \<Longrightarrow> isolated fs (sv_i sv) fs' (sv_i sv')"
  unfolding quiet_def keeps_def isolated_def by blast

lemma entry_name:
  assumes "0 \<in> set name" "length (cstr name) + 1 \<le> 60"
  obtains nm where "strcpy (replicate 60 0) 0 name = Some nm" "length nm = 60" "dname \<lparr>sfd_ino = ino, sfd_name = nm\<rparr> = cstr name"
proof -
  let ?nm = "blit (replicate 60 0) 0 (cstr name @ [0])"
  have l: "length ?nm = 60" using assms(2) by simp
  have "?nm ! 59 = 0" using assms(2) by (auto simp: blit_nth nth_append)
  then have "?nm[59 := 0] = ?nm" by (metis list_update_id)
  then have "dname \<lparr>sfd_ino = ino, sfd_name = ?nm\<rparr> = cstr name" using cstr_blit [of "cstr name" 0 "replicate 60 0"] by (simp add: dname_def)
  moreover have "strcpy (replicate 60 0) 0 name = Some ?nm" using strcpy_ok [OF assms(1), of 0 "replicate 60 0"] assms(2) by simp
  ultimately show thesis using l that by blast
qed

definition dmap :: "sfs_fs \<Rightarrow> sfs_vnode \<Rightarrow> byte list \<rightharpoonup> nat" where
  \<comment> \<open>the directory as a map from names to inode numbers\<close>
  "dmap fs sv = (\<lambda>nm. map_option fst (dlookup fs sv nm))"

lemma quiet_dmap: "quiet fs sv fs' sv' \<Longrightarrow> dmap fs' sv' = dmap fs sv"
  using quiet_nslots [of fs sv fs' sv'] by (simp add: dmap_def)

lemma sfs_dir_link_ok:
  assumes ok: "dir_ok fs sv" and name: "0 \<in> set name" and ino: "0 < ino" "ino < 2 ^ 32"
  shows "\<exists>r fs' sv'. sfs_dir_link fs sv name ino = Some (r, fs', sv') \<and> dir_ok fs' sv' \<and> isolated fs (sv_i sv) fs' (sv_i sv') \<and>
    (case r of
       Inr slot \<Rightarrow> cstr name \<notin> dom (dmap fs sv) \<and> (\<exists>s. slot = int s \<and> dlookup fs' sv' = (dlookup fs sv)(cstr name \<mapsto> (ino, s)))
     | Inl e \<Rightarrow> dlookup fs' sv' = dlookup fs sv \<and>
         (e = EEXIST \<and> cstr name \<in> dom (dmap fs sv) \<or> e = ENAMETOOLONG \<and> 60 \<le> length (cstr name) \<or> e = ENOSPC \<and> sfs_full fs' \<or>
          e = EINVAL \<and> nslots sv = 1144))"
proof -
  let ?c = "cont fs (sv_i sv)"
  obtain f fs1 sv1 where f: "sfs_dir_findname fs sv name = Some (if dlookup fs sv (cstr name) \<noteq> None then Inr () else Inl ENOENT, f, fs1, sv1)"
    "quiet fs sv fs1 sv1" "fn_empty f = last_empty ?c [0..<nslots sv] None" using sfs_dir_findname_ok [OF ok name] by metis
  have q: "dir_ok fs1 sv1" "isolated fs (sv_i sv) fs1 (sv_i sv1)" "nslots sv1 = nslots sv" "cont fs1 (sv_i sv1) = ?c"
    using quiet_dir_ok [OF f(2) ok] quiet_isolated [OF f(2)] quiet_nslots [OF f(2)] by simp_all
  show ?thesis
  proof (cases "dlookup fs sv (cstr name)")
    case (Some x)
    then have "sfs_dir_link fs sv name ino = Some (Inl EEXIST, fs1, sv1)" using f(1) by (simp add: sfs_dir_link_def)
    with Some q show ?thesis by (simp add: dmap_def dom_def)
  next
    case None
    then have nf: "sfs_dir_findname fs sv name = Some (Inl ENOENT, f, fs1, sv1)" using f(1) by simp
    show ?thesis
    proof (cases "60 \<le> length (cstr name)")
      case True
      then have "sfs_dir_link fs sv name ino = Some (Inl ENAMETOOLONG, fs1, sv1)" using nf name by (simp add: sfs_dir_link_def strlen_eq)
      with True q show ?thesis by simp
    next
      case False
      then obtain nm where nm: "strcpy (replicate 60 0) 0 name = Some nm" "length nm = 60" "dname \<lparr>sfd_ino = ino, sfd_name = nm\<rparr> = cstr name"
        using entry_name [OF name] by (metis Suc_eq_plus1 Suc_leI not_le)
      let ?sd = "\<lparr>sfd_ino = ino, sfd_name = nm\<rparr>"
      define s where "s = (case fn_empty f of Some s \<Rightarrow> s | None \<Rightarrow> nslots sv)"
      have s: "s \<le> nslots sv1" "s = nslots sv \<or> sfd_ino (dent ?c s) = 0"
        using last_empty_cases [of ?c "[0..<nslots sv]" None] unfolding s_def f(3) q(3) by auto
      have "(case fn_empty f of Some s \<Rightarrow> Some (int s) | None \<Rightarrow> sfs_dir_nentries sv1) = Some (int s)"
        using sfs_dir_nentries_ok [OF q(1)] q(3) by (simp add: s_def split: option.splits)
      then have eq: "sfs_dir_link fs sv name ino = sfs_writedir fs1 sv1 ?sd (int s) \<bind> (\<lambda>(r, fs2, sv2). Some (map_sum id (\<lambda>_. int s) r, fs2, sv2))"
        using nf name False nm(1) by (simp add: sfs_dir_link_def strlen_eq)
      have len: "length (sfd_name ?sd) = 60" using nm(2) by simp
      from q(1) s(1) len show ?thesis
      proof (cases rule: sfs_writedir_cases)
        case (written fs' sv2)
        let ?sv = "sized (max (sfi_size (sv_i sv1)) (s * 64 + 64)) sv2"
        have new: "\<forall>t < nslots sv1. t \<noteq> s \<longrightarrow> \<not> names (cont fs1 (sv_i sv1)) (dname ?sd) t" using None unfolding nm(3) q(3,4) dlook_None by blast
        have w: "dir_ok fs' ?sv" "isolated fs1 (sv_i sv1) fs' (sv_i ?sv)"
          "\<And>nm'. dlookup fs' ?sv nm' = (if nm' = cstr name then Some (ino, s) else case dlookup fs sv nm' of None \<Rightarrow> None | Some (i, t) \<Rightarrow> if t = s then None else Some (i, t))"
          using dir_written [OF q(1) s(1) written(3) _ _ written(2) refl] nm ino new q(3,4) by simp_all
        have "dlookup fs sv nm' \<noteq> Some (i, s)" for nm' i unfolding dlook_iff [OF dir_ok_uniq [OF ok]] using s(2) by (auto simp: names_def)
        then have "dlookup fs' ?sv = (dlookup fs sv)(cstr name \<mapsto> (ino, s))" using w(3) by (auto simp: fun_eq_iff split: option.splits)
        moreover have "isolated fs (sv_i sv) fs' (sv_i ?sv)" using q(2) w(2) unfolding isolated_def by metis
        ultimately show ?thesis using w(1) None written(1) by (simp add: eq dmap_def dom_def)
      next
        case (err e fs' sv')
        have "isolated fs (sv_i sv) fs' (sv_i sv')" using q(2) quiet_isolated [OF err(2)] unfolding isolated_def by metis
        moreover have "dlookup fs' sv' = dlookup fs sv" using quiet_nslots [OF err(2)] q(3,4) by simp
        moreover have "sfi_size (sv_i sv) \<le> 143 * 512" using ok by (simp add: dir_ok_def)
        then have "nslots sv = 1144" if "s = 1144" using that s(1) q(3) by linarith
        ultimately show ?thesis using err(1,3) quiet_dir_ok [OF err(2) q(1)] by (auto simp: eq)
      qed
    qed
  qed
qed

lemma dent_unmapped: "fmap fs i (s div 8) = 0 \<Longrightarrow> sfd_ino (dent (cont fs i) s) = 0"
proof -
  assume z: "fmap fs i (s div 8) = 0"
  have "cont fs i (s * 64 + j) = 0" if "j < 4" for j
  proof -
    have "(s * 64 + j) div 512 = s div 8" using that by linarith
    with z show ?thesis by (simp add: cont_def)
  qed
  then have "subblk (mem_get (s * 64) 64 (cont fs i)) 0 4 = replicate 4 0" by (intro nth_equalityI) simp_all
  then show ?thesis by (simp add: dent_def dir_of_bytes_def get_be_def eval_nat_numeral)
qed

lemma sfs_dir_unlink_ok:
  assumes ok: "dir_ok fs sv" and s: "s < nslots sv" "sfd_ino (dent (cont fs (sv_i sv)) s) \<noteq> 0"
  shows "\<exists>fs' sv'. sfs_dir_unlink fs sv (int s) = Some (Inr (), fs', sv') \<and> dir_ok fs' sv' \<and> isolated fs (sv_i sv) fs' (sv_i sv') \<and>
    (\<forall>nm. dlookup fs' sv' nm = (case dlookup fs sv nm of None \<Rightarrow> None | Some (i, t) \<Rightarrow> if t = s then None else Some (i, t)))"
proof -
  let ?sd = "\<lparr>sfd_ino = 0, sfd_name = replicate 60 0\<rparr>"
  have le: "s \<le> nslots sv" "length (sfd_name ?sd) = 60" using s by simp_all
  have sz: "sfi_size (sv_i sv) \<le> 143 * 512" using ok by (simp add: dir_ok_def)
  from ok le show ?thesis
  proof (cases rule: sfs_writedir_cases)
    case (written fs' sv1)
    with dir_written [OF ok le(1) written(3) le(2) _ written(2) refl] show ?thesis
      by (simp add: sfs_dir_unlink_def)
  next
    case (err e fs' sv')
    have "fmap fs (sv_i sv) (s div 8) \<noteq> 0" using dent_unmapped [of fs "sv_i sv" s] s(2) by auto
    moreover have "s < 1144" using s(1) sz by linarith
    ultimately show ?thesis using err(3) by simp
  qed
qed

section \<open>Properties\<close>

text \<open>
  C3. A directory is a map from names to inode numbers. On a consistent directory \<open>sfs_dir_findname\<close> returns the inode and the slot of the
  name, or ENOENT when the map does not have it; \<open>sfs_dir_link\<close> adds the name to the map, or leaves the map as it was and returns
  EEXIST for a name that is there, ENAMETOOLONG for 60 or more characters, ENOSPC when the volume is full and EINVAL when all of the 1144 slots are taken;
  the directory stays consistent and no block outside it changes.
\<close>

theorem sfs_dir_link_refines:
  assumes "dir_ok fs sv" "0 \<in> set name" "0 < ino" "ino < 2 ^ 32"
  shows "\<exists>r fs' sv'. sfs_dir_link fs sv name ino = Some (r, fs', sv') \<and> dir_ok fs' sv' \<and> isolated fs (sv_i sv) fs' (sv_i sv') \<and>
    (case r of
       Inr slot \<Rightarrow> cstr name \<notin> dom (dmap fs sv) \<and> dmap fs' sv' = (dmap fs sv)(cstr name \<mapsto> ino) \<and>
         (\<exists>f fs'' sv''. sfs_dir_findname fs' sv' name = Some (Inr (), f, fs'', sv'') \<and> map_option (\<lambda>(i, s). (i, int s)) (fn_found f) = Some (ino, slot))
     | Inl e \<Rightarrow> dmap fs' sv' = dmap fs sv \<and>
         (e = EEXIST \<and> cstr name \<in> dom (dmap fs sv) \<or> e = ENAMETOOLONG \<and> 60 \<le> length (cstr name) \<or> e = ENOSPC \<and> sfs_full fs' \<or>
          e = EINVAL \<and> sfi_size (sv_i sv) div 64 = 1144))"
proof -
  obtain r fs' sv' where r: "sfs_dir_link fs sv name ino = Some (r, fs', sv')" "dir_ok fs' sv'" "isolated fs (sv_i sv) fs' (sv_i sv')"
    "case r of
       Inr slot \<Rightarrow> cstr name \<notin> dom (dmap fs sv) \<and> (\<exists>s. slot = int s \<and> dlookup fs' sv' = (dlookup fs sv)(cstr name \<mapsto> (ino, s)))
     | Inl e \<Rightarrow> dlookup fs' sv' = dlookup fs sv \<and>
         (e = EEXIST \<and> cstr name \<in> dom (dmap fs sv) \<or> e = ENAMETOOLONG \<and> 60 \<le> length (cstr name) \<or> e = ENOSPC \<and> sfs_full fs' \<or>
          e = EINVAL \<and> nslots sv = 1144)"
    using sfs_dir_link_ok [OF assms] by blast
  show ?thesis
  proof (cases r)
    case (Inl e)
    with r show ?thesis by (simp add: dmap_def)
  next
    case (Inr slot)
    then obtain s where s: "slot = int s" "dlookup fs' sv' = (dlookup fs sv)(cstr name \<mapsto> (ino, s))" "cstr name \<notin> dom (dmap fs sv)" using r(4) by auto
    obtain f fs'' sv'' where "sfs_dir_findname fs' sv' name = Some (Inr (), f, fs'', sv'')" "fn_found f = Some (ino, s)"
      using sfs_dir_findname_ok [OF r(2) assms(2)] s(2) by (metis fun_upd_same option.distinct(1))
    moreover have "dmap fs' sv' = (dmap fs sv)(cstr name \<mapsto> ino)" using s(2) by (auto simp: dmap_def)
    ultimately show ?thesis using r s Inr by simp
  qed
qed

definition example_dir :: sfs_vnode where
  "example_dir = \<lparr>vn_refcount = 1, vn_opencount = 0, sv_isdir = True,
     sv_i = \<lparr>sfi_size = 0, sfi_type = SFS_TYPE_DIR, sfi_linkcount = 1, sfi_direct = replicate SFS_NDIRECT 0, sfi_indirect = 0, sfi_waste = replicate 440 0\<rparr>,
     sv_ino = 1, sv_dirty = False\<rparr>"

lemma example_dir_ok: "dir_ok example_sfs example_dir"
proof -
  have "fmap example_sfs (sv_i example_dir) k = 0" for k by (simp add: example_dir_def fmap_def)
  then have "inode_ok example_sfs (sv_i example_dir)" by (simp add: inode_ok_def file_blocks_def) (simp add: example_dir_def)
  then show ?thesis using example_sfs_ok by (simp add: dir_ok_def) (simp add: example_dir_def)
qed

theorem sfs_dir_link_refines_witness:
  "\<exists>r fs' sv'. sfs_dir_link example_sfs example_dir [97, 98, 0] 3 = Some (r, fs', sv') \<and> dir_ok fs' sv'"
  using sfs_dir_link_refines [OF example_dir_ok, of "[97, 98, 0]" 3] by auto

text \<open>C27. An inode survives the disk: reading back the block that \<open>sfs_sync_inode\<close> wrote gives the inode, field for field.\<close>

theorem sfs_sync_inode_roundtrip:
  assumes "fs_ok fs" "in_use fs (sv_ino sv)" "inode_wf (sv_i sv)" "sv_dirty sv"
  shows "\<exists>fs' d b. sfs_sync_inode fs sv = Some (Inr (), fs', sv\<lparr>sv_dirty := False\<rparr>) \<and> fs_ok fs' \<and>
    sfs_rblock (sfs_device fs') zeroblock 0 (sv_ino sv) = Some (Inr (), d, b) \<and> inode_of_block b = sv_i sv \<and>
    (\<forall>c. c \<noteq> sv_ino sv \<longrightarrow> sectors (sfs_device fs') ! c = sectors (sfs_device fs) ! c)"
proof -
  let ?b = "inode_to_block (sv_i sv)"
  have n: "sv_ino sv < nblk fs" "length ?b = 512" using assms(2,3) inode_block_length by (simp_all add: in_use_def)
  obtain d where d: "sfs_wblock (sfs_device fs) ?b 0 (sv_ino sv) = Some (Inr (), d)" "fs_ok (fs\<lparr>sfs_device := d\<rparr>)" "sectors d = (sectors (sfs_device fs))[sv_ino sv := ?b]"
    using sfs_write_ok [OF assms(1) n] by metis
  let ?fs = "fs\<lparr>sfs_device := d\<rparr>"
  have n': "sv_ino sv < nblk ?fs" "length zeroblock = 512" using n(1) by simp_all
  have "blk ?fs (sv_ino sv) = ?b" using d(3) fs_ok_blk [OF assms(1) n(1)] by simp
  then obtain d' where "sfs_rblock (sfs_device ?fs) zeroblock 0 (sv_ino sv) = Some (Inr (), d', ?b)" using sfs_read_ok [OF d(2) n'] by metis
  moreover have "sfs_sync_inode fs sv = Some (Inr (), ?fs, sv\<lparr>sv_dirty := False\<rparr>)" using d(1) assms(4) by (simp add: sfs_sync_inode_def)
  ultimately show ?thesis using d(2,3) inode_of_to_block [OF assms(3)] by (intro exI [of _ ?fs] exI [of _ d'] exI [of _ ?b]) simp
qed

theorem sfs_sync_inode_roundtrip_witness:
  "\<exists>fs' d b. sfs_sync_inode example_sfs (example_file\<lparr>sv_dirty := True\<rparr>) = Some (Inr (), fs', example_file\<lparr>sv_dirty := False\<rparr>) \<and>
    sfs_rblock (sfs_device fs') zeroblock 0 3 = Some (Inr (), d, b) \<and> inode_of_block b = sv_i example_file"
proof -
  have "in_use example_sfs (sv_ino (example_file\<lparr>sv_dirty := True\<rparr>))" "inode_wf (sv_i (example_file\<lparr>sv_dirty := True\<rparr>))"
    by (simp_all add: example_sfs_def example_file_def in_use_def bm_used_def inode_wf_def)
  from sfs_sync_inode_roundtrip [OF example_sfs_ok this] show ?thesis by (auto simp: example_file_def)
qed

end
