(* ===== verification/Kern_SFS_Trunc.thy ===== *)
theory Kern_SFS_Trunc
  imports Kern_SFS_Dir
begin

text \<open>
  Correctness of \<open>sfs_truncate\<close>: which blocks it takes away from a file and gives back to the free map. The routine compares
  with \<open>blocklen\<close> in two ways, \<open>i >= blocklen\<close> for direct blocks and \<open>blocklen < baseblock+j\<close> for indirect ones, so the
  file keeps one block past its new end in the indirect range.
\<close>

section \<open>Giving up blocks\<close>

definition shrunk :: "sfs_fs \<Rightarrow> sfs_inode \<Rightarrow> sfs_fs \<Rightarrow> sfs_inode \<Rightarrow> bool" where
  \<comment> \<open>the blocks the file lost, and no others, are free now\<close>
  "shrunk fs i fs' i' \<longleftrightarrow> fs_ok fs' \<and> inode_ok fs' i' \<and> same_meta fs fs' \<and> file_blocks fs' i' \<subseteq> file_blocks fs i \<and>
     (\<forall>c. in_use fs' c \<longleftrightarrow> in_use fs c \<and> (c \<in> file_blocks fs i \<longrightarrow> c \<in> file_blocks fs' i')) \<and>
     (\<forall>c. c \<notin> file_blocks fs i \<longrightarrow> blk fs' c = blk fs c) \<and>
     sfi_type i' = sfi_type i \<and> sfi_linkcount i' = sfi_linkcount i \<and> sfi_waste i' = sfi_waste i"

lemma shrunk_refl: "fs_ok fs \<Longrightarrow> inode_ok fs i \<Longrightarrow> shrunk fs i fs i"
  by (simp add: shrunk_def)

lemma shrunk_trans: "shrunk a i b j \<Longrightarrow> shrunk b j c k \<Longrightarrow> shrunk a i c k"
  unfolding shrunk_def by (intro conjI) (blast, blast, metis same_meta_trans, blast, blast, metis subsetD, simp_all)

lemma shrunk_drop:
  assumes ok: "fs_ok fs'" "inode_ok fs i" "same_meta fs fs'"
    and fm: "\<And>j. fmap fs' i' j = (if D j then 0 else fmap fs i j)"
    and ind: "sfi_indirect i' = sfi_indirect i \<or> sfi_indirect i' = 0"
    and use: "\<And>c. in_use fs' c \<longleftrightarrow> in_use fs c \<and> (\<forall>j. D j \<longrightarrow> fmap fs i j = c \<longrightarrow> c = 0) \<and> (sfi_indirect i' = 0 \<longrightarrow> sfi_indirect i = c \<longrightarrow> c = 0)"
    and blk: "\<And>c. c \<noteq> sfi_indirect i \<or> c = 0 \<Longrightarrow> blk fs' c = blk fs c" and len: "length (sfi_direct i') = 15"
    and meta: "sfi_type i' = sfi_type i" "sfi_linkcount i' = sfi_linkcount i" "sfi_waste i' = sfi_waste i"
  shows "shrunk fs i fs' i'"
proof -
  note inj = inode_ok_inj [OF ok(2)] and nind = inode_ok_indirect [OF ok(2)] and iu = inode_ok_in_use [OF ok(2)]
  have mem: "c \<in> file_blocks fs' i' \<longleftrightarrow> c \<noteq> 0 \<and> ((\<exists>j. \<not> D j \<and> c = fmap fs i j) \<or> c = sfi_indirect i')" for c
    by (auto simp: file_blocks_def fm image_iff)
  have mem0: "c \<in> file_blocks fs i \<longleftrightarrow> c \<noteq> 0 \<and> ((\<exists>j. c = fmap fs i j) \<or> c = sfi_indirect i)" for c
    by (auto simp: file_blocks_def image_iff)
  have sub: "file_blocks fs' i' \<subseteq> file_blocks fs i" using ind by (auto simp: mem mem0)
  have iff: "in_use fs' c \<longleftrightarrow> in_use fs c \<and> (c \<in> file_blocks fs i \<longrightarrow> c \<in> file_blocks fs' i')" for c
  proof (cases "c \<in> file_blocks fs i")
    case False
    then show ?thesis unfolding use mem0 by auto
  next
    case True
    then consider j where "c = fmap fs i j" "c \<noteq> 0" | "c = sfi_indirect i" "c \<noteq> 0" by (auto simp: mem0)
    then show ?thesis
    proof cases
      case 1
      have ne: "sfi_indirect i \<noteq> c" "sfi_indirect i' \<noteq> c" and e: "fmap fs i l = c \<longleftrightarrow> l = j" "c = fmap fs i l \<longleftrightarrow> l = j" for l
      proof -
        have "fmap fs i j \<noteq> 0" using 1 by simp
        then show "sfi_indirect i \<noteq> c" "sfi_indirect i' \<noteq> c" using nind [of j] ind 1 by metis+
        show "fmap fs i l = c \<longleftrightarrow> l = j" "c = fmap fs i l \<longleftrightarrow> l = j" for l using inj [of l j] 1 by metis+
      qed
      have "c \<in> file_blocks fs' i' \<longleftrightarrow> \<not> D j" unfolding mem e(2) using 1(2) ne(2) by auto
      moreover have "in_use fs' c \<longleftrightarrow> in_use fs c \<and> \<not> D j" unfolding use e(1) using 1(2) ne(1) by auto
      ultimately show ?thesis using True by simp
    next
      case 2
      then have e: "(fmap fs i l = c) = False" "(c = fmap fs i l) = False" for l using nind [of l] by metis+
      have x: "(c = sfi_indirect i') = (sfi_indirect i' \<noteq> 0)" using 2 ind by metis
      have "c \<in> file_blocks fs' i' \<longleftrightarrow> sfi_indirect i' \<noteq> 0" unfolding mem e x using 2(2) by simp
      moreover have "in_use fs' c \<longleftrightarrow> in_use fs c \<and> sfi_indirect i' \<noteq> 0" unfolding use e using 2(1) [symmetric] 2(2) by simp
      ultimately show ?thesis using True by simp
    qed
  qed
  have "inode_ok fs' i'"
    unfolding inode_ok_def
  proof (intro conjI allI impI ballI)
    show "length (sfi_direct i') = 15" by (rule len)
    show "in_use fs' c" if "c \<in> file_blocks fs' i'" for c using that iff iu sub by blast
    show "j = k" if "fmap fs' i' j = fmap fs' i' k \<and> fmap fs' i' j \<noteq> 0" for j k using that inj [of j k] unfolding fm by (auto split: if_splits)
    show "fmap fs' i' k = 0" if "fmap fs' i' k = sfi_indirect i'" for k using that ind nind [of k] unfolding fm by (auto split: if_splits)
  qed
  moreover have "blk fs' c = blk fs c" if "c \<notin> file_blocks fs i" for c using that blk by (auto simp: mem0)
  ultimately show ?thesis using ok sub iff meta by (simp add: shrunk_def)
qed

section \<open>The two loops\<close>

lemma fmap_sectors: "sectors (sfs_device fs') = sectors (sfs_device fs) \<Longrightarrow> fmap fs' i = fmap fs i"
  by (simp add: fmap_def fun_eq_iff)

lemma trunc_direct_ok:
  "fs_ok fs \<Longrightarrow> inode_ok fs (sv_i sv) \<Longrightarrow> k \<le> 15 \<Longrightarrow>
   \<exists>fs' sv'. sfs_trunc_direct [k..<15] bl fs sv = Some (fs', sv') \<and> shrunk fs (sv_i sv) fs' (sv_i sv') \<and>
     (\<forall>j. fmap fs' (sv_i sv') j = (if k \<le> j \<and> j < 15 \<and> bl \<le> j then 0 else fmap fs (sv_i sv) j)) \<and>
     sfi_indirect (sv_i sv') = sfi_indirect (sv_i sv) \<and> sectors (sfs_device fs') = sectors (sfs_device fs) \<and> sv_ino sv' = sv_ino sv"
proof (induction "15 - k" arbitrary: k fs sv)
  case 0
  then show ?case using shrunk_refl [of fs "sv_i sv"] by auto
next
  case (Suc n)
  let ?i = "sv_i sv"
  from Suc.hyps(2) have k: "k < 15" "n = 15 - Suc k" "Suc k \<le> 15" by auto
  then have up: "[k..<15] = k # [Suc k..<15]" by (simp add: upt_conv_Cons)
  have len: "length (sfi_direct ?i) = 15" using Suc.prems(2) by (simp add: inode_ok_def)
  have rdk: "rd (sfi_direct ?i) (int k) = Some (fmap fs ?i k)" using k len by (simp add: fmap_def)
  show ?case
  proof (cases "bl \<le> k \<and> fmap fs ?i k \<noteq> 0")
    case False
    then have "sfs_trunc_direct [k..<15] bl fs sv = sfs_trunc_direct [Suc k..<15] bl fs sv" unfolding up using rdk by auto
    moreover have "(if Suc k \<le> j \<and> j < 15 \<and> bl \<le> j then 0 else fmap fs ?i j) = (if k \<le> j \<and> j < 15 \<and> bl \<le> j then 0 else fmap fs ?i j)" for j
      using False by (cases "j = k") auto
    ultimately show ?thesis using Suc.hyps(1) [OF k(2) Suc.prems(1,2) k(3)] by simp
  next
    case True
    let ?b = "fmap fs ?i k" and ?i' = "?i\<lparr>sfi_direct := (sfi_direct ?i)[k := 0]\<rparr>"
    let ?sv = "sv\<lparr>sv_i := ?i', sv_dirty := True\<rparr>"
    have b: "in_use fs ?b" "?b \<noteq> 0" using inode_ok_in_use [OF Suc.prems(2)] True by blast+
    obtain fs1 where f: "sfs_bfree fs ?b = Some fs1" "fs_ok fs1" "in_use fs1 = (in_use fs)(?b := False)" "sectors (sfs_device fs1) = sectors (sfs_device fs)" "same_meta fs fs1"
      using sfs_bfree_ok [OF Suc.prems(1) b] by blast
    have fm: "fmap fs1 ?i' j = (if j = k then 0 else fmap fs ?i j)" for j using k len fmap_sectors [OF f(4)] by (auto simp: fmap_def f(4) nth_list_update)
    have iu: "in_use fs1 c \<longleftrightarrow> in_use fs c \<and> (\<forall>j. j = k \<longrightarrow> fmap fs ?i j = c \<longrightarrow> c = 0) \<and> (sfi_indirect ?i' = 0 \<longrightarrow> sfi_indirect ?i = c \<longrightarrow> c = 0)" for c
      using f(3) b by auto
    have sh: "shrunk fs ?i fs1 ?i'"
      by (rule shrunk_drop [OF f(2) Suc.prems(2) f(5) fm _ iu]) (simp_all add: f(4) len)
    then have ok1: "fs_ok fs1" "inode_ok fs1 (sv_i ?sv)" by (simp_all add: shrunk_def)
    obtain fs' sv' where r: "sfs_trunc_direct [Suc k..<15] bl fs1 ?sv = Some (fs', sv')" "shrunk fs1 (sv_i ?sv) fs' (sv_i sv')"
      "\<forall>j. fmap fs' (sv_i sv') j = (if Suc k \<le> j \<and> j < 15 \<and> bl \<le> j then 0 else fmap fs1 (sv_i ?sv) j)"
      "sfi_indirect (sv_i sv') = sfi_indirect (sv_i ?sv)" "sectors (sfs_device fs') = sectors (sfs_device fs1)" "sv_ino sv' = sv_ino ?sv"
      using Suc.hyps(1) [OF k(2) ok1 k(3)] by blast
    have "sfs_trunc_direct [k..<15] bl fs sv = Some (fs', sv')" unfolding up using rdk True f(1) r(1) by simp
    moreover have "shrunk fs ?i fs' (sv_i sv')" using shrunk_trans [OF sh] r(2) by simp
    moreover have "\<forall>j. fmap fs' (sv_i sv') j = (if k \<le> j \<and> j < 15 \<and> bl \<le> j then 0 else fmap fs ?i j)"
      using r(3) fm True k(1) by auto
    moreover have "sfi_indirect (sv_i sv') = sfi_indirect ?i" "sectors (sfs_device fs') = sectors (sfs_device fs)" "sv_ino sv' = sv_ino sv"
      using r(4-6) f(4) by simp_all
    ultimately show ?thesis by blast
  qed
qed

lemma trunc_idbuf_ok:
  assumes "length w = 128"
  shows "fs_ok fs \<Longrightarrow> k \<le> 128 \<Longrightarrow> \<forall>j < 128. k \<le> j \<and> w ! j \<noteq> 0 \<longrightarrow> in_use fs (w ! j) \<Longrightarrow>
    \<forall>j l. j < 128 \<and> l < 128 \<and> w ! j = w ! l \<and> w ! j \<noteq> 0 \<longrightarrow> j = l \<Longrightarrow> length buf = 128 \<Longrightarrow> \<forall>j < 128. k \<le> j \<longrightarrow> buf ! j = w ! j \<Longrightarrow>
    \<exists>fs' buf' hn' dirty'. sfs_trunc_idbuf [k..<128] bl fs buf hn dirty = Some (fs', buf', hn', dirty') \<and> fs_ok fs' \<and> same_meta fs fs' \<and>
      sectors (sfs_device fs') = sectors (sfs_device fs) \<and> length buf' = 128 \<and>
      (\<forall>j < 128. buf' ! j = (if k \<le> j \<and> bl < 15 + j then 0 else buf ! j)) \<and>
      (\<forall>c. in_use fs' c \<longleftrightarrow> in_use fs c \<and> (\<forall>j < 128. k \<le> j \<and> bl < 15 + j \<and> w ! j = c \<longrightarrow> c = 0)) \<and>
      (hn' \<longleftrightarrow> hn \<or> (\<exists>j < 128. k \<le> j \<and> buf' ! j \<noteq> 0)) \<and> (dirty \<longrightarrow> dirty') \<and> (\<not> dirty' \<longrightarrow> (\<forall>j < 128. k \<le> j \<longrightarrow> buf' ! j = buf ! j))"
proof (induction "128 - k" arbitrary: k fs buf hn dirty)
  case 0
  from 0(1,3) have "k = 128" by simp
  with 0(2,6) show ?case by (intro exI [of _ fs] exI [of _ buf] exI [of _ hn] exI [of _ dirty]) auto
next
  case (Suc n)
  from Suc.hyps(2) have k: "k < 128" "n = 128 - Suc k" "Suc k \<le> 128" by auto
  then have up: "[k..<128] = k # [Suc k..<128]" by (simp add: upt_conv_Cons)
  have bk: "buf ! k = w ! k" "rd buf (int k) = Some (w ! k)" using Suc.prems(5,6) k(1) by (simp_all add: rd_nat)
  let ?d = "bl < 15 + k \<and> w ! k \<noteq> 0"
  define b1 where "b1 = (if ?d then buf[k := 0] else buf)"
  obtain fs1 where f: "(if ?d then map_option (\<lambda>fs'. (fs', buf[k := 0], True)) (sfs_bfree fs (w ! k)) else Some (fs, buf, dirty)) = Some (fs1, b1, dirty \<or> ?d)"
    "fs_ok fs1" "same_meta fs fs1" "sectors (sfs_device fs1) = sectors (sfs_device fs)" "\<forall>c. in_use fs1 c \<longleftrightarrow> in_use fs c \<and> (?d \<longrightarrow> w ! k \<noteq> c)"
  proof (cases ?d)
    case True
    then have "in_use fs (w ! k)" "w ! k \<noteq> 0" using Suc.prems(3) k(1) by auto
    from sfs_bfree_ok [OF Suc.prems(1) this] obtain g where g: "sfs_bfree fs (w ! k) = Some g" "fs_ok g" "in_use g = (in_use fs)(w ! k := False)"
      "sectors (sfs_device g) = sectors (sfs_device fs)" "same_meta fs g" by blast
    then show ?thesis using True by (intro that [of g]) (auto simp: b1_def)
  next
    case False
    then show ?thesis using Suc.prems(1) by (intro that [of fs]) (auto simp: b1_def)
  qed
  have b1: "length b1 = 128" "b1 ! k = (if bl < 15 + k then 0 else w ! k)" "\<forall>j < 128. j \<noteq> k \<longrightarrow> b1 ! j = buf ! j"
    using Suc.prems(5) k(1) bk(1) by (auto simp: b1_def)
  have eq: "sfs_trunc_idbuf [k..<128] bl fs buf hn dirty = sfs_trunc_idbuf [Suc k..<128] bl fs1 b1 (hn \<or> b1 ! k \<noteq> 0) (dirty \<or> ?d)"
  proof -
    have "(if ?d then sfs_bfree fs (w ! k) \<bind> (\<lambda>fs'. Some (fs', buf[k := 0], True)) else Some (fs, buf, dirty)) = Some (fs1, b1, dirty \<or> ?d)"
      using f(1) by (cases "sfs_bfree fs (w ! k)") (auto split: if_splits)
    moreover have "rd b1 (int k) = Some (b1 ! k)" using b1(1) k(1) by (simp add: rd_nat)
    ultimately show ?thesis unfolding up by (simp add: bk(2))
  qed
  have p3: "\<forall>j < 128. Suc k \<le> j \<and> w ! j \<noteq> 0 \<longrightarrow> in_use fs1 (w ! j)"
  proof (intro allI impI)
    fix j assume j: "j < 128" "Suc k \<le> j \<and> w ! j \<noteq> 0"
    then have "w ! k \<noteq> w ! j" using Suc.prems(4) k(1) by fastforce
    moreover have "in_use fs (w ! j)" using Suc.prems(3) j by simp
    ultimately show "in_use fs1 (w ! j)" using f(5) by simp
  qed
  have p6: "\<forall>j < 128. Suc k \<le> j \<longrightarrow> b1 ! j = w ! j" using b1(3) Suc.prems(6) by simp
  obtain fs' buf' hn' dirty' where r: "sfs_trunc_idbuf [Suc k..<128] bl fs1 b1 (hn \<or> b1 ! k \<noteq> 0) (dirty \<or> ?d) = Some (fs', buf', hn', dirty')"
    "fs_ok fs'" "same_meta fs1 fs'" "sectors (sfs_device fs') = sectors (sfs_device fs1)" "length buf' = 128"
    "\<forall>j < 128. buf' ! j = (if Suc k \<le> j \<and> bl < 15 + j then 0 else b1 ! j)"
    "\<forall>c. in_use fs' c \<longleftrightarrow> in_use fs1 c \<and> (\<forall>j < 128. Suc k \<le> j \<and> bl < 15 + j \<and> w ! j = c \<longrightarrow> c = 0)"
    "hn' \<longleftrightarrow> (hn \<or> b1 ! k \<noteq> 0) \<or> (\<exists>j < 128. Suc k \<le> j \<and> buf' ! j \<noteq> 0)" "dirty \<or> ?d \<longrightarrow> dirty'" "\<not> dirty' \<longrightarrow> (\<forall>j < 128. Suc k \<le> j \<longrightarrow> buf' ! j = b1 ! j)"
    using Suc.hyps(1) [OF k(2) f(2) k(3) p3 Suc.prems(4) b1(1) p6, of "hn \<or> b1 ! k \<noteq> 0" "dirty \<or> ?d"] by (elim exE conjE) (rule that)
  have bk': "buf' ! k = b1 ! k" using r(6) k(1) by simp
  have c6: "\<forall>j < 128. buf' ! j = (if k \<le> j \<and> bl < 15 + j then 0 else buf ! j)"
  proof (intro allI impI)
    fix j :: nat assume "j < 128"
    then show "buf' ! j = (if k \<le> j \<and> bl < 15 + j then 0 else buf ! j)" using r(6) b1 bk(1) by (cases "j = k") auto
  qed
  have c7: "\<forall>c. in_use fs' c \<longleftrightarrow> in_use fs c \<and> (\<forall>j < 128. k \<le> j \<and> bl < 15 + j \<and> w ! j = c \<longrightarrow> c = 0)"
    using r(7) f(5) k(1) by (auto simp: le_eq_less_or_eq less_eq_Suc_le [symmetric])
  have c8: "hn' \<longleftrightarrow> hn \<or> (\<exists>j < 128. k \<le> j \<and> buf' ! j \<noteq> 0)" using r(8) bk' k(1) by (auto simp: le_eq_less_or_eq less_eq_Suc_le [symmetric])
  have c9: "\<not> dirty' \<longrightarrow> (\<forall>j < 128. k \<le> j \<longrightarrow> buf' ! j = buf ! j)"
  proof (intro impI allI)
    fix j assume j: "\<not> dirty'" "j < 128" "k \<le> j"
    with r(9) have "b1 = buf" by (auto simp: b1_def)
    with j r(10) bk' show "buf' ! j = buf ! j" by (cases "j = k") auto
  qed
  show ?case using eq r(1,2,5) same_meta_trans [OF f(3) r(3)] r(4) f(4) c6 c7 c8 c9 r(9) by (intro exI [of _ fs'] exI [of _ buf'] exI [of _ hn'] exI [of _ dirty']) simp
qed

lemma trunc_indirect_ok:
  assumes ok: "fs_ok fs" "inode_ok fs (sv_i sv)"
  shows "\<exists>fs' sv'. sfs_trunc_indirect bl fs sv = Some (Inr (), fs', sv') \<and> shrunk fs (sv_i sv) fs' (sv_i sv') \<and>
     (\<forall>j. fmap fs' (sv_i sv') j = (if 15 \<le> j \<and> bl < j then 0 else fmap fs (sv_i sv) j)) \<and>
     (bl < 142 \<longrightarrow> sfi_indirect (sv_i sv') = 0 \<or> (\<exists>j \<ge> 15. fmap fs' (sv_i sv') j \<noteq> 0)) \<and> sv_ino sv' = sv_ino sv"
proof (cases "bl < 142 \<and> sfi_indirect (sv_i sv) \<noteq> 0")
  case False
  then have "sfs_trunc_indirect bl fs sv = Some (Inr (), fs, sv)" by (auto simp: sfs_trunc_indirect_def)
  moreover have "fmap fs (sv_i sv) j = (if 15 \<le> j \<and> bl < j then 0 else fmap fs (sv_i sv) j)" for j using False by (auto simp: fmap_def)
  ultimately show ?thesis using False shrunk_refl [OF ok] by auto
next
  case True
  let ?i = "sv_i sv" and ?id = "sfi_indirect (sv_i sv)"
  let ?w = "words_of_bytes (blk fs ?id)"
  have use: "in_use fs ?id" "?id \<noteq> 0" using inode_ok_in_use [OF ok(2)] file_blocks_indirect True by auto
  then have il: "?id < nblk fs" "length (blk fs ?id) = 512" using fs_ok_blk [OF ok(1)] by (auto simp: in_use_def)
  have wl: "length ?w = 128" using il by simp
  have wf: "fmap fs ?i (15 + j) = ?w ! j" if "j < 128" for j using that True by (simp add: fmap_def)
  obtain d where d: "sfs_rblock (sfs_device fs) zeroblock 0 ?id = Some (Inr (), d, blk fs ?id)" "fs_ok (fs\<lparr>sfs_device := d\<rparr>)" "sectors d = sectors (sfs_device fs)"
    "same_meta fs (fs\<lparr>sfs_device := d\<rparr>)" using sfs_read_ok [OF ok(1) il(1), of zeroblock] by auto
  let ?fs = "fs\<lparr>sfs_device := d\<rparr>"
  have iu: "in_use ?fs = in_use fs" by (simp add: in_use_def fun_eq_iff)
  have p3: "\<forall>j < 128. 0 \<le> j \<and> ?w ! j \<noteq> 0 \<longrightarrow> in_use ?fs (?w ! j)"
  proof (intro allI impI)
    fix j assume j: "j < 128" "0 \<le> j \<and> ?w ! j \<noteq> 0"
    then show "in_use ?fs (?w ! j)" unfolding iu using inode_ok_in_use [OF ok(2), of "fmap fs ?i (15 + j)"] file_blocks_fmap [of fs ?i "15 + j"] wf [OF j(1)] by simp
  qed
  have p4: "\<forall>j l. j < 128 \<and> l < 128 \<and> ?w ! j = ?w ! l \<and> ?w ! j \<noteq> 0 \<longrightarrow> j = l"
  proof (intro allI impI)
    fix j l assume j: "j < 128 \<and> l < 128 \<and> ?w ! j = ?w ! l \<and> ?w ! j \<noteq> 0"
    then have "15 + j = 15 + l" using inode_ok_inj [OF ok(2), of "15 + j" "15 + l"] wf [of j] wf [of l] by simp
    then show "j = l" by simp
  qed
  obtain fs2 buf hn dirty where t: "sfs_trunc_idbuf [0..<128] bl ?fs ?w False False = Some (fs2, buf, hn, dirty)" "fs_ok fs2" "same_meta ?fs fs2"
    "sectors (sfs_device fs2) = sectors (sfs_device ?fs)" "length buf = 128" "\<forall>j < 128. buf ! j = (if 0 \<le> j \<and> bl < 15 + j then 0 else ?w ! j)"
    "\<forall>c. in_use fs2 c \<longleftrightarrow> in_use ?fs c \<and> (\<forall>j < 128. 0 \<le> j \<and> bl < 15 + j \<and> ?w ! j = c \<longrightarrow> c = 0)"
    "hn \<longleftrightarrow> False \<or> (\<exists>j < 128. 0 \<le> j \<and> buf ! j \<noteq> 0)" "\<not> dirty \<longrightarrow> (\<forall>j < 128. 0 \<le> j \<longrightarrow> buf ! j = ?w ! j)"
    using trunc_idbuf_ok [OF wl d(2) _ p3 p4 wl, of bl False False] by auto
  let ?D = "\<lambda>j. 15 \<le> j \<and> bl < j"
  have sm: "same_meta fs fs2" by (rule same_meta_trans [OF d(4) t(3)])
  have sec: "sectors (sfs_device fs2) = sectors (sfs_device fs)" using t(4) d(3) by simp
  have iu2: "in_use fs2 c \<longleftrightarrow> in_use fs c \<and> (\<forall>j. ?D j \<longrightarrow> fmap fs ?i j = c \<longrightarrow> c = 0)" for c
  proof -
    have "(\<exists>j < 128. bl < 15 + j \<and> ?w ! j = c) \<longleftrightarrow> (\<exists>j. ?D j \<and> fmap fs ?i j = c)" if "c \<noteq> 0"
    proof
      assume "\<exists>j < 128. bl < 15 + j \<and> ?w ! j = c"
      then obtain j where "j < 128" "bl < 15 + j" "?w ! j = c" by blast
      then show "\<exists>j. ?D j \<and> fmap fs ?i j = c" using wf [of j] by (intro exI [of _ "15 + j"]) simp
    next
      assume "\<exists>j. ?D j \<and> fmap fs ?i j = c"
      then obtain j where j: "15 \<le> j" "bl < j" "fmap fs ?i j = c" by blast
      then have "j < 143" using that by (auto simp: fmap_def split: if_splits)
      then show "\<exists>j < 128. bl < 15 + j \<and> ?w ! j = c" using j wf [of "j - 15"] by (intro exI [of _ "j - 15"]) simp
    qed
    then show ?thesis using t(7) iu by (cases "c = 0") auto
  qed
  have len: "length (sfi_direct ?i) = 15" using ok by (simp add: inode_ok_def)
  have pre: "sfs_trunc_indirect bl fs sv = (if \<not> hn then do { fs3 \<leftarrow> sfs_bfree fs2 ?id; Some (Inr (), fs3, sv\<lparr>sv_i := ?i\<lparr>sfi_indirect := 0\<rparr>, sv_dirty := True\<rparr>) }
      else if dirty then do { (r, d') \<leftarrow> sfs_wblock (sfs_device fs2) (bytes_of_words buf) 0 ?id; Some (r, fs2\<lparr>sfs_device := d'\<rparr>, sv) }
      else Some (Inr (), fs2, sv))"
    using True d(1) t(1) by (simp add: sfs_trunc_indirect_def Let_def)
  have no: "fmap fs ?i j \<noteq> ?id" if "fmap fs ?i j \<noteq> 0" for j using inode_ok_indirect [OF ok(2) that] .
  have use2: "in_use fs2 ?id" unfolding iu2 using use(1) no by metis
  have bufD: "buf ! j = (if bl < 15 + j then 0 else fmap fs ?i (15 + j))" if "j < 128" for j using t(6) wf that by simp
  consider (none) "\<not> hn" | (some) "hn" "dirty" | (same) "hn" "\<not> dirty" by blast
  then show ?thesis
  proof cases
    case none
    then have z: "buf ! j = 0" if "j < 128" for j using t(8) that by auto
    obtain fs3 where f: "sfs_bfree fs2 ?id = Some fs3" "fs_ok fs3" "in_use fs3 = (in_use fs2)(?id := False)" "sectors (sfs_device fs3) = sectors (sfs_device fs2)" "same_meta fs2 fs3"
      using sfs_bfree_ok [OF t(2) use2 use(2)] by blast
    let ?i' = "?i\<lparr>sfi_indirect := 0\<rparr>"
    have fm: "fmap fs3 ?i' j = (if ?D j then 0 else fmap fs ?i j)" for j
    proof (cases "j < 15")
      case False
      then show ?thesis using z [of "j - 15"] bufD [of "j - 15"] by (cases "j < 143") (auto simp: fmap_def split: if_splits)
    qed (simp add: fmap_def)
    have iu3: "in_use fs3 c \<longleftrightarrow> in_use fs c \<and> (\<forall>j. ?D j \<longrightarrow> fmap fs ?i j = c \<longrightarrow> c = 0) \<and> (sfi_indirect ?i' = 0 \<longrightarrow> ?id = c \<longrightarrow> c = 0)" for c
      unfolding f(3) using iu2 [of c] use(2) by auto
    have "shrunk fs ?i fs3 ?i'"
      by (rule shrunk_drop [OF f(2) ok(2) same_meta_trans [OF sm f(5)] fm _ iu3]) (simp_all add: f(4) sec len)
    moreover have "sfs_trunc_indirect bl fs sv = Some (Inr (), fs3, sv\<lparr>sv_i := ?i', sv_dirty := True\<rparr>)" unfolding pre using none f(1) by simp
    ultimately show ?thesis using fm by (intro exI [of _ fs3] exI [of _ "sv\<lparr>sv_i := ?i', sv_dirty := True\<rparr>"]) simp
  next
    case some
    then obtain j0 where j0: "j0 < 128" "buf ! j0 \<noteq> 0" using t(8) by auto
    have il2: "?id < nblk fs2" "length (bytes_of_words buf) = 512" using il(1) sm t(5) by (simp_all add: same_meta_def)
    obtain d' where w: "sfs_wblock (sfs_device fs2) (bytes_of_words buf) 0 ?id = Some (Inr (), d')" "fs_ok (fs2\<lparr>sfs_device := d'\<rparr>)"
      "sectors d' = (sectors (sfs_device fs2))[?id := bytes_of_words buf]" "same_meta fs2 (fs2\<lparr>sfs_device := d'\<rparr>)"
      using sfs_write_ok [OF t(2) il2] by metis
    let ?fs' = "fs2\<lparr>sfs_device := d'\<rparr>"
    have lt: "\<forall>n \<in> set buf. n < 2 ^ 32"
    proof
      fix n assume "n \<in> set buf"
      then obtain j where j: "j < 128" "n = buf ! j" using t(5) by (auto simp: in_set_conv_nth)
      then have "n = 0 \<or> n \<in> set ?w" using t(6) wl by auto
      then show "n < 2 ^ 32" using words_of_bytes_less [of n] by auto
    qed
    have "?id < length (sectors (sfs_device fs2))" using fs_ok_blk [OF t(2) il2(1)] by simp
    then have ib: "words_of_bytes (blk ?fs' ?id) = buf" using w(3) words_bytes_id [OF lt] by simp
    have fm: "fmap ?fs' ?i j = (if ?D j then 0 else fmap fs ?i j)" for j
    proof (cases "j < 15")
      case False
      show ?thesis
      proof (cases "j < 143")
        case True
        then have "fmap ?fs' ?i j = buf ! (j - 15)" using False use(2) ib unfolding fmap_def by simp
        then show ?thesis using bufD [of "j - 15"] False True by simp
      qed (simp add: fmap_def)
    qed (simp add: fmap_def)
    have iu3: "in_use ?fs' c \<longleftrightarrow> in_use fs c \<and> (\<forall>j. ?D j \<longrightarrow> fmap fs ?i j = c \<longrightarrow> c = 0) \<and> (sfi_indirect ?i = 0 \<longrightarrow> ?id = c \<longrightarrow> c = 0)" for c
      using iu2 [of c] use(2) by (simp add: in_use_def)
    have "shrunk fs ?i ?fs' ?i"
      by (rule shrunk_drop [OF w(2) ok(2) same_meta_trans [OF sm w(4)] fm _ iu3]) (use w(3) sec len use(2) in auto)
    moreover have "sfs_trunc_indirect bl fs sv = Some (Inr (), ?fs', sv)" unfolding pre using some w(1) by simp
    moreover have "fmap ?fs' ?i (15 + j0) \<noteq> 0" using fm [of "15 + j0"] bufD [OF j0(1)] j0(2) by (simp split: if_splits)
    ultimately show ?thesis using fm by (intro exI [of _ ?fs'] exI [of _ sv] conjI allI impI disjI2 exI [of _ "15 + j0"]) simp_all
  next
    case same
    then obtain j0 where j0: "j0 < 128" "buf ! j0 \<noteq> 0" using t(8) by auto
    have fm: "fmap fs2 ?i j = (if ?D j then 0 else fmap fs ?i j)" for j
    proof (cases "15 \<le> j \<and> j < 143")
      case True
      then have j: "j - 15 < 128" "15 + (j - 15) = j" by auto
      then have "buf ! (j - 15) = fmap fs ?i j" using t(9) same wf [OF j(1)] by simp
      then show ?thesis using bufD [of "j - 15"] True fmap_sectors [OF sec, of ?i] by (auto split: if_splits)
    qed (auto simp: fmap_def sec)
    have iu3: "in_use fs2 c \<longleftrightarrow> in_use fs c \<and> (\<forall>j. ?D j \<longrightarrow> fmap fs ?i j = c \<longrightarrow> c = 0) \<and> (sfi_indirect ?i = 0 \<longrightarrow> ?id = c \<longrightarrow> c = 0)" for c
      using iu2 [of c] use(2) by auto
    have "shrunk fs ?i fs2 ?i" by (rule shrunk_drop [OF t(2) ok(2) sm fm _ iu3]) (simp_all add: sec len)
    moreover have "sfs_trunc_indirect bl fs sv = Some (Inr (), fs2, sv)" unfolding pre using same by simp
    moreover have "fmap fs2 ?i (15 + j0) \<noteq> 0" using fm [of "15 + j0"] bufD [OF j0(1)] j0(2) by (simp split: if_splits)
    ultimately show ?thesis using fm by (intro exI [of _ fs2] exI [of _ sv] conjI allI impI disjI2 exI [of _ "15 + j0"]) simp_all
  qed
qed

section \<open>Properties\<close>

lemma u32_int: "n < 2 ^ 32 \<Longrightarrow> u32 (int n) = n"
  by (simp add: u32_id)

text \<open>
  C9. Truncation. \<open>sfs_truncate\<close> to a length of at most 143 blocks succeeds on a consistent file system. The file loses exactly its direct blocks from
  \<open>blocklen\<close> (the length in blocks, rounded up) on and its indirect blocks after \<open>blocklen\<close>, the indirect block itself when
  nothing is left in it; exactly the blocks it lost become free, the file and the file system stay consistent and no block outside the
  file changes. For a length that ends in the indirect range the block number \<open>blocklen\<close>, which lies past the new end, is kept.
\<close>

theorem sfs_truncate_spec:
  assumes "fs_ok fs" "inode_ok fs (sv_i sv)" "0 \<le> len" "len \<le> 143 * 512"
  shows "\<exists>fs' sv'. sfs_truncate fs sv len = Some (Inr (), fs', sv') \<and> sfi_size (sv_i sv') = nat len \<and> shrunk fs (sv_i sv) fs' (sv_i sv') \<and>
    (\<forall>k. fmap fs' (sv_i sv') k = (if k < 15 \<and> (nat len + 511) div 512 \<le> k \<or> 15 \<le> k \<and> (nat len + 511) div 512 < k then 0 else fmap fs (sv_i sv) k)) \<and>
    ((nat len + 511) div 512 < 142 \<longrightarrow> sfi_indirect (sv_i sv') = 0 \<or> (\<exists>k \<ge> 15. fmap fs' (sv_i sv') k \<noteq> 0))"
proof -
  let ?bl = "(nat len + 511) div 512" and ?i = "sv_i sv"
  have bl: "u32 (cdiv (swrap32 (len + int SFS_BLOCKSIZE - 1)) (int SFS_BLOCKSIZE)) = ?bl"
  proof -
    have "swrap32 (len + int SFS_BLOCKSIZE - 1) = int (nat len + 511)" using assms(3,4) by (subst swrap32_id) auto
    moreover have "cdiv (int (nat len + 511)) (int SFS_BLOCKSIZE) = int ?bl" by (simp add: zdiv_int)
    moreover have "?bl < 2 ^ 32" using assms(4) by simp
    ultimately show ?thesis by (simp only: u32_int)
  qed
  obtain fs1 sv1 where d: "sfs_trunc_direct [0..<15] ?bl fs sv = Some (fs1, sv1)" "shrunk fs ?i fs1 (sv_i sv1)"
    "\<forall>j. fmap fs1 (sv_i sv1) j = (if 0 \<le> j \<and> j < 15 \<and> ?bl \<le> j then 0 else fmap fs ?i j)"
    using trunc_direct_ok [OF assms(1,2), of 0 ?bl] by auto
  have ok1: "fs_ok fs1" "inode_ok fs1 (sv_i sv1)" using d(2) by (simp_all add: shrunk_def)
  obtain fs2 sv2 where t: "sfs_trunc_indirect ?bl fs1 sv1 = Some (Inr (), fs2, sv2)" "shrunk fs1 (sv_i sv1) fs2 (sv_i sv2)"
    "\<forall>j. fmap fs2 (sv_i sv2) j = (if 15 \<le> j \<and> ?bl < j then 0 else fmap fs1 (sv_i sv1) j)"
    "?bl < 142 \<longrightarrow> sfi_indirect (sv_i sv2) = 0 \<or> (\<exists>j \<ge> 15. fmap fs2 (sv_i sv2) j \<noteq> 0)"
    using trunc_indirect_ok [OF ok1, of ?bl] by blast
  let ?sv = "sv2\<lparr>sv_i := (sv_i sv2)\<lparr>sfi_size := nat len\<rparr>, sv_dirty := True\<rparr>"
  have fm: "fmap fs2 (sv_i ?sv) = fmap fs2 (sv_i sv2)" by (simp add: fmap_def fun_eq_iff)
  have "shrunk fs2 (sv_i sv2) fs2 (sv_i ?sv)"
  proof -
    have "fs_ok fs2" "inode_ok fs2 (sv_i sv2)" using t(2) by (simp_all add: shrunk_def)
    moreover from this fm have "file_blocks fs2 (sv_i ?sv) = file_blocks fs2 (sv_i sv2)" by (simp add: file_blocks_def)
    ultimately show ?thesis using fm by (simp add: shrunk_def inode_ok_def)
  qed
  then have "shrunk fs ?i fs2 (sv_i ?sv)" using shrunk_trans d(2) t(2) by blast
  moreover have "sfs_truncate fs sv len = Some (Inr (), fs2, ?sv)"
    using d(1) t(1) assms(3,4) unfolding sfs_truncate_def bl Let_def by (simp add: u32_id del: upt_rec_numeral)
  moreover have "fmap fs2 (sv_i ?sv) k = (if k < 15 \<and> ?bl \<le> k \<or> 15 \<le> k \<and> ?bl < k then 0 else fmap fs ?i k)" for k
    unfolding fm using t(3) d(3) by auto
  moreover have "?bl < 142 \<longrightarrow> sfi_indirect (sv_i ?sv) = 0 \<or> (\<exists>k \<ge> 15. fmap fs2 (sv_i ?sv) k \<noteq> 0)" unfolding fm using t(4) by simp
  ultimately show ?thesis by (intro exI [of _ fs2] exI [of _ ?sv]) simp
qed

theorem sfs_truncate_spec_witness:
  "\<exists>fs' sv'. sfs_truncate example_sfs example_file 0 = Some (Inr (), fs', sv') \<and> sfi_size (sv_i sv') = 0"
  using sfs_truncate_spec [OF example_sfs_ok example_file_ok, of 0] by auto

end
