(* ===== verification/Kern_Thread.thy ===== *)
theory Kern_Thread
  imports Kern_Array Kern_Queue "HOL-Library.Word"
begin

text \<open>
  The thread system: \<open>kern/thread/thread.c\<close>, the round-robin scheduler
  \<open>kern/thread/scheduler.c\<close>, the interrupt level \<open>kern/arch/mips/mips/spl.c\<close> and the context
  switch of \<open>kern/arch/mips/mips/pcb.c\<close>.

  The globals of these files are the fields of the record \<open>ksys\<close>. A \<open>struct thread\<close> lives at a
  number, its address, in the map \<open>threads\<close>; a sleep address is a \<open>kptr\<close>, which keeps the
  addresses of threads, semaphores and \<open>lbolt\<close> apart.

  A kernel stack is modelled by what is left to do on it: a list of \<open>frame\<close>s, innermost first, each
  the rest of a kernel function after a point where it can lose the processor. \<open>mips_switch\<close>
  saves the frames of the running thread and goes on with those of the next. A function that may
  block takes the frames \<open>k\<close> of its callers as an argument; it either sets them as the frames still
  to run (it returned), or saves them under its own frame (it blocked). While the scheduler waits for
  a thread \<open>curthread\<close> is NULL, and the frames of interrupt handlers taken in the idle loop are in
  \<open>idle_frames\<close>.

  The interrupt enable bit IEc of the status register is \<open>status_IEc\<close>. Calls into the file
  system and the virtual memory system are recorded in \<open>calls\<close>. The outcomes of \<open>kmalloc\<close> are the
  fields of \<open>tmem\<close>.
\<close>

section \<open>Threads and the state of the thread system\<close>

datatype kptr = NullP | ThreadP nat | SemP nat | LboltP | OtherP nat

datatype threadstate_t = S_RUN | S_READY | S_SLEEP | S_ZOMB

datatype frame =
    F_switch              \<comment> \<open>\<open>mi_switch\<close>, after \<open>md_switch\<close>\<close>
  | F_start               \<comment> \<open>\<open>mi_threadstart\<close>, the first thing a new thread does\<close>
  | F_wake                \<comment> \<open>\<open>thread_sleep\<close>, after \<open>mi_switch\<close>\<close>
  | F_splx int            \<comment> \<open>\<open>splx(spl)\<close>\<close>
  | F_dead                \<comment> \<open>\<open>thread_exit\<close>, after \<open>mi_switch\<close>\<close>
  | F_clocksleep int      \<comment> \<open>\<open>clocksleep\<close>, after \<open>thread_sleep\<close>\<close>
  | F_P nat               \<comment> \<open>the loop of \<open>P\<close>\<close>
  | F_lock_loop nat       \<comment> \<open>the loop of \<open>lock_acquire\<close>\<close>
  | F_lock_acquire nat    \<comment> \<open>a call of \<open>lock_acquire\<close>\<close>
  | F_interrupt int       \<comment> \<open>the end of \<open>mips_interrupt\<close>\<close>
  | F_trap int bool       \<comment> \<open>the end of \<open>mips_trap\<close>, with the IEp bit of the trap\<close>

datatype call = Vop_incref nat | Vop_decref nat | As_activate nat | As_destroy nat

record pcb =
  pcb_kstack :: "32 word"
  pcb_ininterrupt :: int
  pcb_frames :: "frame list"

record thread =
  t_pcb :: pcb
  t_name :: string
  t_sleepaddr :: kptr
  t_stack :: "32 word"
  t_stackmem :: "8 word block"
  t_vmspace :: nat
  t_cwd :: nat
  t_pid :: "int option"

record lock =
  lk_name :: string
  lk_owner :: "nat option"
  lk_queue :: "nat queue"

record semaphore =
  sem_name :: string
  sem_count :: int

record cv =
  cv_name :: string
  cv_queue :: "nat queue"

record ksys =
  curthread :: "nat option"
  sleepers :: "nat array option"
  zombies :: "nat array option"
  numthreads :: int
  runqueue :: "nat queue option"
  curspl :: int
  status_IEc :: bool
  in_interrupt :: int
  curkstack :: "32 word"
  threads :: "nat \<Rightarrow> thread option"
  switching :: "nat option"
  idle_frames :: "frame list"
  lbolt_counter :: int
  sems :: "nat \<Rightarrow> semaphore option"
  locks :: "nat \<Rightarrow> lock option"
  cvs :: "nat \<Rightarrow> cv option"
  calls :: "call list"

record tmem =
  m_thread :: "nat option"
  m_name :: bool
  m_stack :: "32 word"
  m_sleepers :: bool
  m_zombies :: bool
  m_runqueue :: bool
  m_list :: bool
  m_obj :: "nat option"
  m_queue :: bool

abbreviation (input) SPL_HIGH :: int where "SPL_HIGH \<equiv> 15"

abbreviation (input) STACK_SIZE :: nat where "STACK_SIZE \<equiv> 4096"

definition upd_thread :: "nat \<Rightarrow> (thread \<Rightarrow> thread) \<Rightarrow> ksys \<Rightarrow> ksys" where
  "upd_thread t f s = s\<lparr>threads := (threads s)(t := map_option f (threads s t))\<rparr>"

definition set_frames :: "nat \<Rightarrow> frame list \<Rightarrow> ksys \<Rightarrow> ksys" where
  "set_frames t k = upd_thread t (\<lambda>th. th\<lparr>t_pcb := (t_pcb th)\<lparr>pcb_frames := k\<rparr>\<rparr>)"

definition frames :: "ksys \<Rightarrow> frame list" where
  \<comment> \<open>what is left to do on the stack the processor runs on\<close>
  "frames s = (case curthread s of
     None \<Rightarrow> idle_frames s
   | Some c \<Rightarrow> (case threads s c of None \<Rightarrow> [] | Some th \<Rightarrow> pcb_frames (t_pcb th)))"

definition go :: "frame list \<Rightarrow> ksys \<Rightarrow> ksys" where
  \<comment> \<open>return to the callers \<open>k\<close>\<close>
  "go k s = (case curthread s of None \<Rightarrow> s\<lparr>idle_frames := k\<rparr> | Some c \<Rightarrow> set_frames c k s)"

definition log_call :: "call \<Rightarrow> ksys \<Rightarrow> ksys" where
  "log_call c s = s\<lparr>calls := calls s @ [c]\<rparr>"

section \<open>Interrupt level\<close>

definition interrupts_on :: "ksys \<Rightarrow> ksys" where
  "interrupts_on s = s\<lparr>status_IEc := True\<rparr>"

definition interrupts_off :: "ksys \<Rightarrow> ksys" where
  "interrupts_off s = s\<lparr>status_IEc := False\<rparr>"

definition splx :: "int \<Rightarrow> ksys \<Rightarrow> int \<times> ksys" where
  "splx newspl s =
     (let s = (if newspl > 0 then interrupts_off s else if newspl = 0 then interrupts_on s else s)
      in (curspl s, s\<lparr>curspl := newspl\<rparr>))"

definition splhigh :: "ksys \<Rightarrow> int \<times> ksys" where
  "splhigh = splx SPL_HIGH"

definition spl0 :: "ksys \<Rightarrow> int \<times> ksys" where
  "spl0 = splx 0"

section \<open>The scheduler\<close>

definition scheduler_bootstrap :: "bool \<Rightarrow> bool \<Rightarrow> ksys \<Rightarrow> ksys option" where
  "scheduler_bootstrap mem1 mem2 s = do {
     q \<leftarrow> q_create mem1 mem2 32;
     Some (s\<lparr>runqueue := Some q\<rparr>)
   }"

definition scheduler_preallocate :: "bool \<Rightarrow> int \<Rightarrow> ksys \<Rightarrow> (unit res \<times> ksys) option" where
  "scheduler_preallocate mem nthreads s = do {
     kassert (curspl s > 0);
     q \<leftarrow> runqueue s;
     (r, q') \<leftarrow> q_preallocate mem q nthreads;
     Some (r, s\<lparr>runqueue := Some q'\<rparr>)
   }"

partial_function (option) q_drain :: "nat queue \<Rightarrow> nat queue option" where
  \<comment> \<open>\<open>while (!q_empty(runqueue)) { t = q_remhead(runqueue); ... }\<close>\<close>
  "q_drain q = (if q_empty q then Some q else q_remhead q \<bind> (\<lambda>(t, q'). q_drain q'))"

definition scheduler_killall :: "ksys \<Rightarrow> ksys option" where
  "scheduler_killall s = do {
     kassert (curspl s > 0);
     q \<leftarrow> runqueue s;
     q' \<leftarrow> q_drain q;
     Some (s\<lparr>runqueue := Some q'\<rparr>)
   }"

definition scheduler_shutdown :: "ksys \<Rightarrow> ksys option" where
  "scheduler_shutdown s = do {
     s \<leftarrow> scheduler_killall s;
     kassert (curspl s > 0);
     q \<leftarrow> runqueue s;
     q_destroy q;
     Some (s\<lparr>runqueue := None\<rparr>)
   }"

definition make_runnable :: "bool \<Rightarrow> nat \<Rightarrow> ksys \<Rightarrow> (unit res \<times> ksys) option" where
  "make_runnable mem t s = do {
     kassert (curspl s > 0);
     q \<leftarrow> runqueue s;
     (r, q') \<leftarrow> q_addtail mem q t;
     Some (r, s\<lparr>runqueue := Some q'\<rparr>)
   }"

definition scheduler :: "ksys \<Rightarrow> (nat \<times> ksys) option" where
  \<comment> \<open>a call that finds a thread; the iterations that find none and wait for an interrupt are steps of the machine\<close>
  "scheduler s = do {
     kassert (curspl s > 0);
     q \<leftarrow> runqueue s;
     kassert (\<not> q_empty q);
     (t, q') \<leftarrow> q_remhead q;
     Some (t, s\<lparr>runqueue := Some q'\<rparr>)
   }"

section \<open>Creating and destroying threads\<close>

definition thread_create :: "nat option \<Rightarrow> bool \<Rightarrow> string \<Rightarrow> (nat \<times> thread) option" where
  \<comment> \<open>None is NULL; the pcb and the pid are not set here\<close>
  "thread_create mem nmem name = do {
     t \<leftarrow> mem;
     kassert nmem;
     Some (t, \<lparr>t_pcb = \<lparr>pcb_kstack = 0, pcb_ininterrupt = 0, pcb_frames = []\<rparr>, t_name = name,
       t_sleepaddr = NullP, t_stack = 0, t_stackmem = [], t_vmspace = 0, t_cwd = 0, t_pid = None\<rparr>)
   }"

definition thread_destroy :: "nat \<Rightarrow> ksys \<Rightarrow> ksys option" where
  "thread_destroy thread s = do {
     kassert (curthread s \<noteq> Some thread);
     th \<leftarrow> threads s thread;
     kassert (t_vmspace th = 0);
     kassert (t_cwd th = 0);
     Some (s\<lparr>threads := (threads s)(thread := None)\<rparr>)
   }"

fun exorcise_loop :: "nat array \<Rightarrow> nat list \<Rightarrow> ksys \<Rightarrow> ksys option" where
  "exorcise_loop a [] s = Some s"
| "exorcise_loop a (i # is) s = do {
     z \<leftarrow> array_getguy a (int i);
     kassert (curthread s \<noteq> Some z);
     s \<leftarrow> thread_destroy z s;
     exorcise_loop a is s
   }"

definition exorcise :: "ksys \<Rightarrow> ksys option" where
  "exorcise s = do {
     kassert (curspl s > 0);
     a \<leftarrow> zombies s;
     s \<leftarrow> exorcise_loop a [0..<nat (array_getnum a)] s;
     (result, a') \<leftarrow> array_setsize True a 0;
     kassert (result = Inr ());
     Some (s\<lparr>zombies := Some a'\<rparr>)
   }"

definition thread_killall :: "ksys \<Rightarrow> ksys option" where
  "thread_killall s = do {
     kassert (curspl s > 0);
     a \<leftarrow> sleepers s;
     (result, a') \<leftarrow> array_setsize True a 0;
     kassert (result = Inr ());
     Some (s\<lparr>sleepers := Some a'\<rparr>)
   }"

definition thread_panic :: "ksys \<Rightarrow> ksys option" where
  "thread_panic s = do {
     kassert (curspl s > 0);
     s \<leftarrow> thread_killall s;
     scheduler_killall s
   }"

definition one_thread_only :: "ksys \<Rightarrow> bool" where
  "one_thread_only s = (numthreads s = 1)"

definition md_initpcb0 :: "ksys \<Rightarrow> pcb" where
  "md_initpcb0 s = \<lparr>pcb_kstack = curkstack s, pcb_ininterrupt = 0, pcb_frames = []\<rparr>"

definition md_initpcb :: "32 word \<Rightarrow> pcb" where
  \<comment> \<open>the switch frame at the top of the new stack makes the first switch enter \<open>mi_threadstart\<close>\<close>
  "md_initpcb stack =
     \<lparr>pcb_kstack = stack + of_nat STACK_SIZE, pcb_ininterrupt = 0, pcb_frames = [F_start]\<rparr>"

definition thread_bootstrap :: "bool \<Rightarrow> bool \<Rightarrow> tmem \<Rightarrow> ksys \<Rightarrow> (nat \<times> ksys) option" where
  "thread_bootstrap mem1 mem2 mem s = do {
     sl \<leftarrow> array_create mem1;
     zo \<leftarrow> array_create mem2;
     (me, th) \<leftarrow> thread_create (m_thread mem) (m_name mem) ''<boot/menu>'';
     let th = th\<lparr>t_pcb := md_initpcb0 s\<rparr>;
     Some (me, s\<lparr>sleepers := Some sl, zombies := Some zo, threads := (threads s)(me := Some th),
       curthread := Some me, numthreads := 1\<rparr>)
   }"

definition thread_shutdown :: "ksys \<Rightarrow> ksys option" where
  \<comment> \<open>\<open>array_destroy\<close> needs the arrays to exist\<close>
  "thread_shutdown s = do {
     _ \<leftarrow> sleepers s;
     _ \<leftarrow> zombies s;
     Some (s\<lparr>sleepers := None, zombies := None\<rparr>)
   }"

definition stack_magic :: "8 word block" where
  "stack_magic = [Some 0xae, Some 0x11, Some 0xda, Some 0x33]"

definition check_stack :: "thread \<Rightarrow> unit option" where
  "check_stack th = (if t_stack th \<noteq> 0 then kassert (take 4 (t_stackmem th) = stack_magic) else Some ())"

definition fork_fail :: "int \<Rightarrow> nat \<Rightarrow> errno \<Rightarrow> ksys \<Rightarrow> (nat res \<times> ksys) option" where
  \<comment> \<open>the label \<open>fail\<close> of \<open>thread_fork\<close>\<close>
  "fork_fail spl newguy e s = do {
     let s = snd (splx spl s);
     th \<leftarrow> threads s newguy;
     let s = (if t_cwd th \<noteq> 0 then log_call (Vop_decref (t_cwd th)) s else s);
     Some (Inl e, s\<lparr>threads := (threads s)(newguy := None)\<rparr>)
   }"

definition fork_thread :: "32 word \<Rightarrow> thread \<Rightarrow> thread \<Rightarrow> thread" where
  \<comment> \<open>the fields \<open>thread_fork\<close> gives the new thread: \<open>th\<close> is fresh from \<open>thread_create\<close>, \<open>cur\<close> is \<open>curthread\<close>\<close>
  "fork_thread stack th cur =
     th\<lparr>t_stack := stack, t_stackmem := stack_magic @ replicate (STACK_SIZE - 4) None,
        t_pid := t_pid cur, t_cwd := (if t_cwd cur \<noteq> 0 then t_cwd cur else t_cwd th),
        t_pcb := md_initpcb stack\<rparr>"

definition thread_fork :: "tmem \<Rightarrow> string \<Rightarrow> ksys \<Rightarrow> (nat res \<times> ksys) option" where
  "thread_fork mem name s =
     (case thread_create (m_thread mem) (m_name mem) name of
        None \<Rightarrow> Some (Inl ENOMEM, s)
      | Some (newguy, th) \<Rightarrow>
          if m_stack mem = 0 then Some (Inl ENOMEM, s)
          else do {
            c \<leftarrow> curthread s;
            cur \<leftarrow> threads s c;
            let s = (if t_cwd cur \<noteq> 0 then log_call (Vop_incref (t_cwd cur)) s else s);
            let s = s\<lparr>threads := (threads s)(newguy := Some (fork_thread (m_stack mem) th cur))\<rparr>;
            let (spl, s) = splhigh s;
            a \<leftarrow> sleepers s;
            (r, a') \<leftarrow> array_preallocate (m_sleepers mem) a (numthreads s + 1);
            let s = s\<lparr>sleepers := Some a'\<rparr>;
            (case r of Inl e \<Rightarrow> fork_fail spl newguy e s | Inr _ \<Rightarrow> do {
            z \<leftarrow> zombies s;
            (r, z') \<leftarrow> array_preallocate (m_zombies mem) z (numthreads s + 1);
            let s = s\<lparr>zombies := Some z'\<rparr>;
            (case r of Inl e \<Rightarrow> fork_fail spl newguy e s | Inr _ \<Rightarrow> do {
            (r, s) \<leftarrow> scheduler_preallocate (m_runqueue mem) (numthreads s + 1) s;
            (case r of Inl e \<Rightarrow> fork_fail spl newguy e s | Inr _ \<Rightarrow> do {
            (r, s) \<leftarrow> make_runnable (m_list mem) newguy s;
            (case r of Inl e \<Rightarrow> fork_fail spl newguy e s | Inr _ \<Rightarrow>
            Some (Inr newguy, snd (splx spl (s\<lparr>numthreads := numthreads s + 1\<rparr>)))) }) }) })
          })"

section \<open>Context switches\<close>

definition mi_switch :: "bool \<Rightarrow> threadstate_t \<Rightarrow> frame list \<Rightarrow> ksys \<Rightarrow> ksys option" where
  \<comment> \<open>up to the call of the scheduler; \<open>mi_dispatch\<close> and \<open>mi_switch_return\<close> are the rest\<close>
  "mi_switch mem nextstate k s = do {
     kassert (curspl s > 0);
     (case curthread s of
        None \<Rightarrow> Some (go k s)
      | Some cur \<Rightarrow> do {
          th \<leftarrow> threads s cur;
          check_stack th;
          let s = (set_frames cur (F_switch # k) s)\<lparr>curthread := None\<rparr>;
          (result, s) \<leftarrow>
            (case nextstate of
               S_READY \<Rightarrow> make_runnable mem cur s
             | S_SLEEP \<Rightarrow> do {
                 a \<leftarrow> sleepers s;
                 (r, a') \<leftarrow> array_add mem a cur;
                 Some (r, s\<lparr>sleepers := Some a'\<rparr>)
               }
             | S_ZOMB \<Rightarrow> do {
                 a \<leftarrow> zombies s;
                 (r, a') \<leftarrow> array_add mem a cur;
                 Some (r, s\<lparr>zombies := Some a'\<rparr>)
               }
             | S_RUN \<Rightarrow> None);
          kassert (result = Inr ());
          Some (s\<lparr>switching := Some cur\<rparr>)
        })
   }"

definition md_switch :: "nat \<Rightarrow> nat \<Rightarrow> ksys \<Rightarrow> ksys option" where
  "md_switch old nu s =
     (if old = nu then Some s
      else do {
        let s = upd_thread old (\<lambda>th. th\<lparr>t_pcb := (t_pcb th)\<lparr>pcb_kstack := curkstack s,
          pcb_ininterrupt := in_interrupt s\<rparr>\<rparr>) s;
        th \<leftarrow> threads s nu;
        Some (s\<lparr>curkstack := pcb_kstack (t_pcb th), in_interrupt := pcb_ininterrupt (t_pcb th)\<rparr>)
      })"

definition mi_dispatch :: "ksys \<Rightarrow> ksys option" where
  \<comment> \<open>\<open>mi_switch\<close> from the call of the scheduler to the switch\<close>
  "mi_dispatch s = do {
     cur \<leftarrow> switching s;
     (nxt, s) \<leftarrow> scheduler s;
     s \<leftarrow> md_switch cur nxt (s\<lparr>curthread := Some nxt, switching := None\<rparr>);
     Some s
   }"

definition activate :: "ksys \<Rightarrow> ksys option" where
  "activate s = do {
     c \<leftarrow> curthread s;
     th \<leftarrow> threads s c;
     Some (if t_vmspace th \<noteq> 0 then log_call (As_activate (t_vmspace th)) s else s)
   }"

definition mi_switch_return :: "frame list \<Rightarrow> ksys \<Rightarrow> ksys option" where
  "mi_switch_return k s = do {
     s \<leftarrow> exorcise s;
     s \<leftarrow> activate s;
     Some (go k s)
   }"

definition thread_exit :: "bool \<Rightarrow> ksys \<Rightarrow> ksys option" where
  "thread_exit mem s = do {
     c \<leftarrow> curthread s;
     th \<leftarrow> threads s c;
     check_stack th;
     let s = snd (splhigh s);
     let s = (if t_vmspace th \<noteq> 0
       then log_call (As_destroy (t_vmspace th)) (upd_thread c (\<lambda>th. th\<lparr>t_vmspace := 0\<rparr>) s) else s);
     let s = (if t_cwd th \<noteq> 0
       then upd_thread c (\<lambda>th. th\<lparr>t_cwd := 0\<rparr>) (log_call (Vop_decref (t_cwd th)) s) else s);
     kassert (numthreads s > 0);
     mi_switch mem S_ZOMB [F_dead] (s\<lparr>numthreads := numthreads s - 1\<rparr>)
   }"

definition thread_yield :: "bool \<Rightarrow> frame list \<Rightarrow> ksys \<Rightarrow> ksys option" where
  "thread_yield mem k s = do {
     let (spl, s) = splhigh s;
     kassert (sleepers s \<noteq> None);
     mi_switch mem S_READY (F_splx spl # k) s
   }"

definition thread_sleep :: "bool \<Rightarrow> kptr \<Rightarrow> frame list \<Rightarrow> ksys \<Rightarrow> ksys option" where
  "thread_sleep mem addr k s = do {
     kassert (in_interrupt s = 0);
     c \<leftarrow> curthread s;
     mi_switch mem S_SLEEP (F_wake # k) (upd_thread c (\<lambda>th. th\<lparr>t_sleepaddr := addr\<rparr>) s)
   }"

definition thread_sleep_return :: "frame list \<Rightarrow> ksys \<Rightarrow> ksys option" where
  "thread_sleep_return k s = do {
     c \<leftarrow> curthread s;
     Some (go k (upd_thread c (\<lambda>th. th\<lparr>t_sleepaddr := NullP\<rparr>) s))
   }"

function wakeup_loop :: "bool \<Rightarrow> kptr \<Rightarrow> int \<Rightarrow> ksys \<Rightarrow> nat array \<Rightarrow> ksys option" where
  \<comment> \<open>the loop of \<open>thread_wakeup\<close> from index \<open>i\<close>; \<open>a\<close> is \<open>sleepers\<close>\<close>
  "wakeup_loop mem addr i s a =
     (if i < array_getnum a then do {
        t \<leftarrow> array_getguy a i;
        th \<leftarrow> threads s t;
        (if t_sleepaddr th = addr then do {
           a' \<leftarrow> array_remove a i;
           (result, s) \<leftarrow> make_runnable mem t s;
           kassert (result = Inr ());
           wakeup_loop mem addr i s a'
         }
         else wakeup_loop mem addr (i + 1) s a)
      }
      else Some (s\<lparr>sleepers := Some a\<rparr>))"
  by pat_completeness auto

definition hassleepers_at :: "kptr \<Rightarrow> ksys \<Rightarrow> nat array \<Rightarrow> nat \<Rightarrow> bool option" where
  "hassleepers_at addr s a i = do {
     t \<leftarrow> array_getguy a (int i);
     th \<leftarrow> threads s t;
     Some (t_sleepaddr th = addr)
   }"

fun hassleepers_loop :: "kptr \<Rightarrow> ksys \<Rightarrow> nat array \<Rightarrow> nat list \<Rightarrow> bool option" where
  "hassleepers_loop addr s a [] = Some False"
| "hassleepers_loop addr s a (i # is) = do {
     b \<leftarrow> hassleepers_at addr s a i;
     (if b then Some True else hassleepers_loop addr s a is)
   }"

definition thread_hassleepers :: "kptr \<Rightarrow> ksys \<Rightarrow> bool option" where
  "thread_hassleepers addr s = do {
     kassert (curspl s > 0);
     a \<leftarrow> sleepers s;
     hassleepers_loop addr s a [0..<nat (array_getnum a)]
   }"

definition mi_threadstart :: "ksys \<Rightarrow> ksys option" where
  \<comment> \<open>up to the call of the thread's function\<close>
  "mi_threadstart s = do {
     s \<leftarrow> activate s;
     Some (go [] (snd (spl0 s)))
   }"

lemma array_remove_num: "array_remove a i = Some a' \<Longrightarrow> arr_num a' = arr_num a - 1"
  unfolding array_remove_def by (auto simp: bind_Some split: if_splits)

termination wakeup_loop
  by (relation "measure (\<lambda>(mem, addr, i, s, a). nat (arr_num a - i))")
    (auto simp: array_getnum_def dest: array_remove_num)

definition thread_wakeup :: "bool \<Rightarrow> kptr \<Rightarrow> ksys \<Rightarrow> ksys option" where
  "thread_wakeup mem addr s = do {
     kassert (curspl s > 0);
     a \<leftarrow> sleepers s;
     wakeup_loop mem addr 0 s a
   }"

end
