(* ===== verification/Kern_Synch.thy ===== *)
theory Kern_Synch
  imports Kern_Thread
begin

text \<open>
  The synchronization primitives of \<open>kern/thread/synch.c\<close>, the clock of
  \<open>kern/thread/hardclock.c\<close>, the entry of interrupts (\<open>mips_interrupt\<close>, and the part of
  \<open>mips_trap\<close> that surrounds it), and the machine that runs the kernel's threads with them: the
  step relation \<open>kstep\<close>.

  A step of the machine is one of: the innermost frame of the running context runs
  (\<open>exec_frame\<close>); the scheduler, with a thread in the run queue, gives it the processor
  (\<open>mi_dispatch\<close>); the body of the running thread calls a kernel function (\<open>kcall\<close>); a device
  interrupts, when interrupts are enabled or the idle loop lets them in (\<open>take_interrupt\<close>).
\<close>

section \<open>Semaphores\<close>

definition sem_create :: "nat option \<Rightarrow> bool \<Rightarrow> string \<Rightarrow> int \<Rightarrow> ksys \<Rightarrow> (nat option \<times> ksys) option" where
  "sem_create mem nmem namearg initial_count s = do {
     kassert (initial_count \<ge> 0);
     (case mem of
        None \<Rightarrow> Some (None, s)
      | Some sem \<Rightarrow>
          if \<not> nmem then Some (None, s)
          else Some (Some sem, s\<lparr>sems := (sems s)(sem \<mapsto> \<lparr>sem_name = namearg, sem_count = initial_count\<rparr>)\<rparr>))
   }"

definition sem_destroy :: "nat \<Rightarrow> ksys \<Rightarrow> ksys option" where
  "sem_destroy sem s = do {
     _ \<leftarrow> sems s sem;
     let (spl, s) = splhigh s;
     b \<leftarrow> thread_hassleepers (SemP sem) s;
     kassert (\<not> b);
     let s = snd (splx spl s);
     Some (s\<lparr>sems := (sems s)(sem := None)\<rparr>)
   }"

definition P_loop :: "bool \<Rightarrow> nat \<Rightarrow> frame list \<Rightarrow> ksys \<Rightarrow> ksys option" where
  \<comment> \<open>\<open>P\<close> from the test of its loop\<close>
  "P_loop mem sem k s = do {
     sm \<leftarrow> sems s sem;
     (if sem_count sm = 0 then thread_sleep mem (SemP sem) (F_P sem # k) s
      else do {
        kassert (sem_count sm > 0);
        Some (go k (s\<lparr>sems := (sems s)(sem \<mapsto> sm\<lparr>sem_count := sem_count sm - 1\<rparr>)\<rparr>))
      })
   }"

definition P :: "bool \<Rightarrow> nat \<Rightarrow> frame list \<Rightarrow> ksys \<Rightarrow> ksys option" where
  "P mem sem k s = do {
     kassert (in_interrupt s = 0);
     let (spl, s) = splhigh s;
     P_loop mem sem (F_splx spl # k) s
   }"

definition V :: "bool \<Rightarrow> nat \<Rightarrow> frame list \<Rightarrow> ksys \<Rightarrow> ksys option" where
  "V mem sem k s = do {
     let (spl, s) = splhigh s;
     sm \<leftarrow> sems s sem;
     let count = swrap32 (sem_count sm + 1);
     kassert (count > 0);
     let s = s\<lparr>sems := (sems s)(sem \<mapsto> sm\<lparr>sem_count := count\<rparr>)\<rparr>;
     s \<leftarrow> thread_wakeup mem (SemP sem) s;
     Some (go k (snd (splx spl s)))
   }"

section \<open>Locks\<close>

abbreviation (input) LOCK_QUEUE_INITIAL_SIZE :: int where "LOCK_QUEUE_INITIAL_SIZE \<equiv> 10"

definition lock_create :: "nat option \<Rightarrow> bool \<Rightarrow> bool \<Rightarrow> bool \<Rightarrow> string \<Rightarrow> ksys \<Rightarrow> (nat option \<times> ksys) option" where
  "lock_create mem nmem qmem1 qmem2 name s =
     (case mem of
        None \<Rightarrow> Some (None, s)
      | Some lock \<Rightarrow>
          if \<not> nmem then Some (None, s)
          else do {
            q \<leftarrow> q_create qmem1 qmem2 LOCK_QUEUE_INITIAL_SIZE;
            Some (Some lock, s\<lparr>locks := (locks s)(lock \<mapsto> \<lparr>lk_name = name, lk_owner = None, lk_queue = q\<rparr>)\<rparr>)
          })"

definition lock_destroy :: "nat \<Rightarrow> ksys \<Rightarrow> ksys option" where
  "lock_destroy lock s = do {
     lk \<leftarrow> locks s lock;
     let (spl, s) = splhigh s;
     kassert (lk_owner lk = None);
     kassert (q_empty (lk_queue lk));
     let s = snd (splx spl s);
     Some (s\<lparr>locks := (locks s)(lock := None)\<rparr>)
   }"

definition lock_do_i_hold :: "nat \<Rightarrow> ksys \<Rightarrow> bool option" where
  "lock_do_i_hold lock s = do {
     lk \<leftarrow> locks s lock;
     Some (lk_owner lk = curthread s)
   }"

definition lock_loop :: "bool \<Rightarrow> bool \<Rightarrow> nat \<Rightarrow> frame list \<Rightarrow> ksys \<Rightarrow> ksys option" where
  \<comment> \<open>\<open>lock_acquire\<close> from the test of its loop; the result of \<open>q_addtail\<close> is not looked at\<close>
  "lock_loop qmem mem lock k s = do {
     lk \<leftarrow> locks s lock;
     (if lk_owner lk \<noteq> None then do {
        c \<leftarrow> curthread s;
        (r, q) \<leftarrow> q_addtail qmem (lk_queue lk) c;
        thread_sleep mem (ThreadP c) (F_lock_loop lock # k) (s\<lparr>locks := (locks s)(lock \<mapsto> lk\<lparr>lk_queue := q\<rparr>)\<rparr>)
      }
      else Some (go k (s\<lparr>locks := (locks s)(lock \<mapsto> lk\<lparr>lk_owner := curthread s\<rparr>)\<rparr>)))
   }"

definition lock_acquire :: "bool \<Rightarrow> bool \<Rightarrow> nat \<Rightarrow> frame list \<Rightarrow> ksys \<Rightarrow> ksys option" where
  "lock_acquire qmem mem lock k s = do {
     lk \<leftarrow> locks s lock;
     kassert (lk_owner lk \<noteq> curthread s);
     let (spl, s) = splhigh s;
     lock_loop qmem mem lock (F_splx spl # k) s
   }"

definition lock_release :: "bool \<Rightarrow> nat \<Rightarrow> ksys \<Rightarrow> ksys option" where
  "lock_release mem lock s = do {
     b \<leftarrow> lock_do_i_hold lock s;
     kassert b;
     let (spl, s) = splhigh s;
     lk \<leftarrow> locks s lock;
     (if q_empty (lk_queue lk)
      then Some (snd (splx spl (s\<lparr>locks := (locks s)(lock \<mapsto> lk\<lparr>lk_owner := None\<rparr>)\<rparr>)))
      else do {
        (t, q) \<leftarrow> q_remhead (lk_queue lk);
        s \<leftarrow> thread_wakeup mem (ThreadP t) (s\<lparr>locks := (locks s)(lock \<mapsto> lk\<lparr>lk_owner := None, lk_queue := q\<rparr>)\<rparr>);
        Some (snd (splx spl s))
      })
   }"

section \<open>Condition variables\<close>

abbreviation (input) CV_QUEUE_INITIAL_SIZE :: int where "CV_QUEUE_INITIAL_SIZE \<equiv> 10"

definition cv_create :: "nat option \<Rightarrow> bool \<Rightarrow> bool \<Rightarrow> bool \<Rightarrow> string \<Rightarrow> ksys \<Rightarrow> (nat option \<times> ksys) option" where
  "cv_create mem nmem qmem1 qmem2 name s =
     (case mem of
        None \<Rightarrow> Some (None, s)
      | Some cv \<Rightarrow>
          if \<not> nmem then Some (None, s)
          else do {
            q \<leftarrow> q_create qmem1 qmem2 CV_QUEUE_INITIAL_SIZE;
            Some (Some cv, s\<lparr>cvs := (cvs s)(cv \<mapsto> \<lparr>cv_name = name, cv_queue = q\<rparr>)\<rparr>)
          })"

definition cv_destroy :: "nat \<Rightarrow> ksys \<Rightarrow> ksys option" where
  "cv_destroy cv s = do {
     c \<leftarrow> cvs s cv;
     let (spl, s) = splhigh s;
     kassert (q_empty (cv_queue c));
     q_destroy (cv_queue c);
     let s = snd (splx spl s);
     Some (s\<lparr>cvs := (cvs s)(cv := None)\<rparr>)
   }"

definition cv_wait :: "bool \<Rightarrow> bool \<Rightarrow> nat \<Rightarrow> nat \<Rightarrow> frame list \<Rightarrow> ksys \<Rightarrow> ksys option" where
  "cv_wait qmem mem cv lock k s = do {
     b \<leftarrow> lock_do_i_hold lock s;
     kassert b;
     let (spl, s) = splhigh s;
     s \<leftarrow> lock_release mem lock s;
     c \<leftarrow> cvs s cv;
     t \<leftarrow> curthread s;
     (r, q) \<leftarrow> q_addtail qmem (cv_queue c) t;
     thread_sleep mem (ThreadP t) (F_lock_acquire lock # F_splx spl # k)
       (s\<lparr>cvs := (cvs s)(cv \<mapsto> c\<lparr>cv_queue := q\<rparr>)\<rparr>)
   }"

definition cv_signal :: "bool \<Rightarrow> bool \<Rightarrow> nat \<Rightarrow> nat \<Rightarrow> frame list \<Rightarrow> ksys \<Rightarrow> ksys option" where
  "cv_signal qmem mem cv lock k s = do {
     b \<leftarrow> lock_do_i_hold lock s;
     kassert b;
     let (spl, s) = splhigh s;
     s \<leftarrow> lock_release mem lock s;
     c \<leftarrow> cvs s cv;
     s \<leftarrow> (if \<not> q_empty (cv_queue c) then do {
             (t, q) \<leftarrow> q_remhead (cv_queue c);
             thread_wakeup mem (ThreadP t) (s\<lparr>cvs := (cvs s)(cv \<mapsto> c\<lparr>cv_queue := q\<rparr>)\<rparr>)
           }
           else Some s);
     lock_acquire qmem mem lock (F_splx spl # k) s
   }"

partial_function (option) broadcast_loop :: "bool \<Rightarrow> nat \<Rightarrow> ksys \<Rightarrow> ksys option" where
  \<comment> \<open>\<open>while (!q_empty(cv->queue)) thread_wakeup(q_remhead(cv->queue));\<close>\<close>
  "broadcast_loop mem cv s =
     cvs s cv \<bind> (\<lambda>c.
       if q_empty (cv_queue c) then Some s
       else q_remhead (cv_queue c) \<bind> (\<lambda>tq.
         thread_wakeup mem (ThreadP (fst tq)) (s\<lparr>cvs := (cvs s)(cv \<mapsto> c\<lparr>cv_queue := snd tq\<rparr>)\<rparr>) \<bind>
           broadcast_loop mem cv))"

definition cv_broadcast :: "bool \<Rightarrow> bool \<Rightarrow> nat \<Rightarrow> nat \<Rightarrow> frame list \<Rightarrow> ksys \<Rightarrow> ksys option" where
  "cv_broadcast qmem mem cv lock k s = do {
     b \<leftarrow> lock_do_i_hold lock s;
     kassert b;
     let (spl, s) = splhigh s;
     s \<leftarrow> lock_release mem lock s;
     s \<leftarrow> broadcast_loop mem cv s;
     lock_acquire qmem mem lock (F_splx spl # k) s
   }"

section \<open>The clock and interrupts\<close>

abbreviation (input) HZ :: int where "HZ \<equiv> 100"

definition hardclock :: "bool \<Rightarrow> frame list \<Rightarrow> ksys \<Rightarrow> ksys option" where
  "hardclock mem k s = do {
     let s = s\<lparr>lbolt_counter := lbolt_counter s + 1\<rparr>;
     s \<leftarrow> (if lbolt_counter s \<ge> HZ
           then thread_wakeup mem LboltP (s\<lparr>lbolt_counter := 0\<rparr>)
           else Some s);
     thread_yield mem k s
   }"

definition clocksleep_loop :: "bool \<Rightarrow> int \<Rightarrow> frame list \<Rightarrow> ksys \<Rightarrow> ksys option" where
  "clocksleep_loop mem num_secs k s =
     (if num_secs > 0 then thread_sleep mem LboltP (F_clocksleep num_secs # k) s else Some (go k s))"

definition clocksleep :: "bool \<Rightarrow> int \<Rightarrow> frame list \<Rightarrow> ksys \<Rightarrow> ksys option" where
  "clocksleep mem num_secs k s =
     (let (spl, s) = splhigh s in clocksleep_loop mem num_secs (F_splx spl # k) s)"

datatype irq = Irq_timer | Irq_device nat

definition mips_interrupt :: "bool \<Rightarrow> irq \<Rightarrow> frame list \<Rightarrow> ksys \<Rightarrow> ksys option" where
  \<comment> \<open>a device that is done signals the semaphore its driver waits on\<close>
  "mips_interrupt mem irq k s = do {
     let old_in = in_interrupt s;
     let s = s\<lparr>in_interrupt := 1\<rparr>;
     kassert (curspl s > 0);
     (case irq of
        Irq_timer \<Rightarrow> hardclock mem (F_interrupt old_in # k) s
      | Irq_device sem \<Rightarrow> V mem sem (F_interrupt old_in # k) s)
   }"

definition take_interrupt :: "bool \<Rightarrow> irq \<Rightarrow> ksys \<Rightarrow> ksys option" where
  \<comment> \<open>the processor clears IEc; \<open>mips_trap\<close> saves and sets \<open>curspl\<close> and calls \<open>mips_interrupt\<close>\<close>
  "take_interrupt mem irq s =
     mips_interrupt mem irq (F_trap (curspl s) (status_IEc s) # frames s)
       (s\<lparr>status_IEc := False, curspl := SPL_HIGH\<rparr>)"

definition trap_done :: "int \<Rightarrow> bool \<Rightarrow> frame list \<Rightarrow> ksys \<Rightarrow> ksys option" where
  \<comment> \<open>the label \<open>done\<close> of \<open>mips_trap\<close>, and the rfe instruction, which restores IEc\<close>
  "trap_done savespl IEp k s = Some (go k ((snd (splhigh s))\<lparr>curspl := savespl, status_IEc := IEp\<rparr>))"

definition cpu_idle :: "bool \<Rightarrow> irq \<Rightarrow> ksys \<Rightarrow> ksys option" where
  \<comment> \<open>an iteration of the loop of \<open>scheduler\<close>, which lets an interrupt in while interrupts are off around it\<close>
  "cpu_idle mem irq s = do {
     kassert (curspl s > 0);
     q \<leftarrow> runqueue s;
     kassert (q_empty q);
     take_interrupt mem irq s
   }"

section \<open>The machine\<close>

fun exec_frame :: "bool \<Rightarrow> bool \<Rightarrow> frame \<Rightarrow> frame list \<Rightarrow> ksys \<Rightarrow> ksys option" where
  "exec_frame qmem mem F_switch k s = mi_switch_return k s"
| "exec_frame qmem mem F_start k s = mi_threadstart s"
| "exec_frame qmem mem F_wake k s = thread_sleep_return k s"
| "exec_frame qmem mem (F_splx spl) k s = Some (go k (snd (splx spl s)))"
| "exec_frame qmem mem F_dead k s = None"
| "exec_frame qmem mem (F_clocksleep n) k s = clocksleep_loop mem (n - 1) k s"
| "exec_frame qmem mem (F_P sem) k s = P_loop mem sem k s"
| "exec_frame qmem mem (F_lock_loop lock) k s = lock_loop qmem mem lock k s"
| "exec_frame qmem mem (F_lock_acquire lock) k s = lock_acquire qmem mem lock k s"
| "exec_frame qmem mem (F_interrupt old_in) k s = Some (go k (s\<lparr>in_interrupt := old_in\<rparr>))"
| "exec_frame qmem mem (F_trap savespl IEp) k s = trap_done savespl IEp k s"

datatype kop =
    K_yield | K_fork string | K_return | K_clocksleep int
  | K_sem_create string int | K_sem_destroy nat | K_P nat | K_V nat
  | K_lock_create string | K_lock_destroy nat | K_acquire nat | K_release nat
  | K_cv_create string | K_cv_destroy nat | K_wait nat nat | K_signal nat nat | K_broadcast nat nat

fun kcall :: "bool \<Rightarrow> tmem \<Rightarrow> kop \<Rightarrow> ksys \<Rightarrow> ksys option" where
  "kcall qmem mem K_yield s = thread_yield (m_list mem) [] s"
| "kcall qmem mem (K_fork name) s = map_option snd (thread_fork mem name s)"
| "kcall qmem mem K_return s = thread_exit (m_list mem) s"
| "kcall qmem mem (K_clocksleep n) s = clocksleep (m_list mem) n [] s"
| "kcall qmem mem (K_sem_create name n) s = map_option snd (sem_create (m_obj mem) (m_name mem) name n s)"
| "kcall qmem mem (K_sem_destroy sem) s = sem_destroy sem s"
| "kcall qmem mem (K_lock_create name) s = map_option snd (lock_create (m_obj mem) (m_name mem) (m_queue mem) (m_queue mem) name s)"
| "kcall qmem mem (K_lock_destroy lock) s = lock_destroy lock s"
| "kcall qmem mem (K_cv_create name) s = map_option snd (cv_create (m_obj mem) (m_name mem) (m_queue mem) (m_queue mem) name s)"
| "kcall qmem mem (K_cv_destroy cv) s = cv_destroy cv s"
| "kcall qmem mem (K_P sem) s = P (m_list mem) sem [] s"
| "kcall qmem mem (K_V sem) s = V (m_list mem) sem [] s"
| "kcall qmem mem (K_acquire lock) s = lock_acquire qmem (m_list mem) lock [] s"
| "kcall qmem mem (K_release lock) s = lock_release (m_list mem) lock s"
| "kcall qmem mem (K_wait cv lock) s = cv_wait qmem (m_list mem) cv lock [] s"
| "kcall qmem mem (K_signal cv lock) s = cv_signal qmem (m_list mem) cv lock [] s"
| "kcall qmem mem (K_broadcast cv lock) s = cv_broadcast qmem (m_list mem) cv lock [] s"

datatype kact = A_frame | A_dispatch | A_call kop | A_irq irq

definition fits :: "ksys \<Rightarrow> bool" where
  \<comment> \<open>the stacks of the threads and every container fit in the 512 megabytes the kernel addresses directly\<close>
  "fits s \<longleftrightarrow> finite (dom (threads s)) \<and> card (dom (threads s)) \<le> 2 ^ 17 \<and>
     (\<forall>q. runqueue s = Some q \<longrightarrow> q_size q < 2 ^ 27) \<and>
     (\<forall>a. sleepers s = Some a \<or> zombies s = Some a \<longrightarrow> arr_max a < 2 ^ 27) \<and>
     (\<forall>l lk. locks s l = Some lk \<longrightarrow> q_size (lk_queue lk) < 2 ^ 27) \<and>
     (\<forall>v c. cvs s v = Some c \<longrightarrow> q_size (cv_queue c) < 2 ^ 27)"

definition fresh_mem :: "tmem \<Rightarrow> ksys \<Rightarrow> bool" where
  \<comment> \<open>\<open>kmalloc\<close> hands out memory that is not in use\<close>
  "fresh_mem mem s \<longleftrightarrow>
     (case m_thread mem of None \<Rightarrow> True | Some t \<Rightarrow> threads s t = None) \<and>
     (case m_obj mem of None \<Rightarrow> True | Some x \<Rightarrow> sems s x = None \<and> locks s x = None \<and> cvs s x = None)"

inductive kstep :: "bool \<Rightarrow> kact \<Rightarrow> ksys \<Rightarrow> ksys \<Rightarrow> bool" for qmem where
  frame: "frames s = f # k \<Longrightarrow> exec_frame qmem mem f k s = Some s' \<Longrightarrow> fits s' \<Longrightarrow> kstep qmem A_frame s s'"
| dispatch: "curthread s = None \<Longrightarrow> idle_frames s = [] \<Longrightarrow> mi_dispatch s = Some s' \<Longrightarrow> fits s' \<Longrightarrow>
    kstep qmem A_dispatch s s'"
| call: "curthread s = Some c \<Longrightarrow> frames s = [] \<Longrightarrow> fresh_mem mem s \<Longrightarrow>
    kcall qmem mem op s = Some s' \<Longrightarrow> fits s' \<Longrightarrow> kstep qmem (A_call op) s s'"
| irq: "status_IEc s \<Longrightarrow> take_interrupt mem i s = Some s' \<Longrightarrow> fits s' \<Longrightarrow> kstep qmem (A_irq i) s s'"
| idle: "curthread s = None \<Longrightarrow> idle_frames s = [] \<Longrightarrow> cpu_idle mem i s = Some s' \<Longrightarrow> fits s' \<Longrightarrow>
    kstep qmem (A_irq i) s s'"

inductive_cases kstepE: "kstep qmem a s s'"

inductive kpath :: "bool \<Rightarrow> kact list \<Rightarrow> ksys \<Rightarrow> ksys \<Rightarrow> bool" for qmem where
  nil: "kpath qmem [] s s"
| step: "kstep qmem a s s1 \<Longrightarrow> kpath qmem as s1 s' \<Longrightarrow> kpath qmem (a # as) s s'"

end
