(* ===== verification/Kern_Thread_Inv.thy ===== *)
theory Kern_Thread_Inv
  imports Kern_Synch
begin

text \<open>
  The invariant of the thread system and its consequences. \<open>threads_ok\<close> says that every thread is in
  exactly one place (running, in the run queue, asleep, or dead), that \<open>numthreads\<close> counts those
  that are not dead, that interrupts are off exactly while kernel code that relies on it runs,
  and that a dead thread is never scheduled. Every step of the machine keeps it.
\<close>

section \<open>Views of the state\<close>

definition ready :: "ksys \<Rightarrow> nat list" where
  "ready s = (case runqueue s of None \<Rightarrow> [] | Some q \<Rightarrow> q_list q)"

definition asleep :: "ksys \<Rightarrow> nat list" where
  "asleep s = (case sleepers s of None \<Rightarrow> [] | Some a \<Rightarrow> array_elems a)"

definition dead :: "ksys \<Rightarrow> nat list" where
  "dead s = (case zombies s of None \<Rightarrow> [] | Some a \<Rightarrow> array_elems a)"

definition running :: "ksys \<Rightarrow> nat list" where
  "running s = (case curthread s of None \<Rightarrow> [] | Some c \<Rightarrow> [c])"

definition fr :: "ksys \<Rightarrow> nat \<Rightarrow> frame list" where
  "fr s t = (case threads s t of None \<Rightarrow> [] | Some th \<Rightarrow> pcb_frames (t_pcb th))"

definition sleep_addr :: "ksys \<Rightarrow> nat \<Rightarrow> kptr" where
  "sleep_addr s t = (case threads s t of None \<Rightarrow> NullP | Some th \<Rightarrow> t_sleepaddr th)"

definition lists_ok :: "ksys \<Rightarrow> bool" where
  "lists_ok s \<longleftrightarrow>
     (case runqueue s of None \<Rightarrow> False | Some q \<Rightarrow> q_inv q \<and> q_size q < 2 ^ 29) \<and>
     (case sleepers s of None \<Rightarrow> False | Some a \<Rightarrow> array_full a) \<and>
     (case zombies s of None \<Rightarrow> False | Some a \<Rightarrow> array_full a) \<and>
     length (running s @ ready s @ asleep s @ dead s) < 2 ^ 28"

fun hi :: "frame list \<Rightarrow> bool" where
  \<comment> \<open>the stacks of frames that run with interrupts off and end with a return to a body with interrupts on\<close>
  "hi [] = False"
| "hi (F_switch # k) = hi k"
| "hi (F_wake # k) = hi k"
| "hi (F_start # k) = (k = [])"
| "hi (F_splx spl # k) = (spl = 0 \<and> k = [] \<or> spl = SPL_HIGH \<and> hi k)"
| "hi (F_dead # k) = False"
| "hi (F_clocksleep n # k) = hi k"
| "hi (F_P sem # k) = hi k"
| "hi (F_lock_loop l # k) = hi k"
| "hi (F_lock_acquire l # k) = hi k"
| "hi (F_interrupt i # k) = hi k"
| "hi (F_trap spl b # k) = (spl = 0 \<and> b \<and> k = [])"

definition idle_ok :: "frame list \<Rightarrow> bool" where
  "idle_ok k \<longleftrightarrow> (\<exists>i. k \<in> {[], [F_trap SPL_HIGH False], [F_interrupt i, F_trap SPL_HIGH False],
     [F_splx SPL_HIGH, F_interrupt i, F_trap SPL_HIGH False]})"

definition spl_ok :: "ksys \<Rightarrow> bool" where
  "spl_ok s \<longleftrightarrow> (case curthread s of
     None \<Rightarrow> curspl s = SPL_HIGH \<and> \<not> status_IEc s \<and> idle_ok (idle_frames s)
   | Some c \<Rightarrow> idle_frames s = [] \<and>
       (if frames s = [] then curspl s = 0 \<and> status_IEc s
        else hi (frames s) \<and> curspl s = SPL_HIGH \<and> \<not> status_IEc s))"

definition dead_ok :: "ksys \<Rightarrow> bool" where
  "dead_ok s \<longleftrightarrow> (\<forall>t \<in> set (dead s). \<exists>th. threads s t = Some th \<and> t_vmspace th = 0 \<and> t_cwd th = 0)"

definition stacks_ok :: "ksys \<Rightarrow> bool" where
  "stacks_ok s \<longleftrightarrow> (\<forall>t th. threads s t = Some th \<longrightarrow> t_stack th \<noteq> 0 \<longrightarrow> take 4 (t_stackmem th) = stack_magic)"

definition waiting_ok :: "ksys \<Rightarrow> bool" where
  "waiting_ok s \<longleftrightarrow>
     (\<forall>t \<in> set (ready s). fr s t = [F_start] \<or> (\<exists>k. fr s t = F_switch # k \<and> hi k)) \<and>
     (\<forall>t \<in> set (asleep s). \<exists>k. fr s t = F_switch # F_wake # k \<and> hi k)"

definition places_ok :: "ksys \<Rightarrow> bool" where
  "places_ok s \<longleftrightarrow> distinct (running s @ ready s @ asleep s @ dead s) \<and>
     dom (threads s) = set (running s @ ready s @ asleep s @ dead s) \<and>
     numthreads s = int (length (running s @ ready s @ asleep s)) \<and>
     (curthread s = None \<longrightarrow> (\<exists>t. switching s = Some t \<and> t \<in> dom (threads s)))"

definition threads_core :: "ksys \<Rightarrow> bool" where
  "threads_core s \<longleftrightarrow> lists_ok s \<and> places_ok s \<and> waiting_ok s \<and> dead_ok s \<and> stacks_ok s"

definition threads_ok :: "ksys \<Rightarrow> bool" where
  "threads_ok s \<longleftrightarrow> fits s \<and> threads_core s \<and> spl_ok s"

section \<open>Effects of the operations on the lists\<close>

lemmas view_defs = ready_def asleep_def dead_def running_def

lemma array_add_cases:
  assumes "array_full a" "length (array_elems a) < 2 ^ 28" "array_add mem a x = Some (Inr (), a')"
  shows "array_full a' \<and> array_elems a' = array_elems a @ [x]"
proof -
  have inv: "array_inv a" using assms(1) by (simp add: array_full_def)
  then have le: "arr_num a \<le> arr_max a" by (simp add: array_inv_def)
  have num: "arr_num a < 2 ^ 28" using array_elems_length [OF assms(1)] assms(2) by simp
  have "arr_num a < arr_max a \<or> mem \<and> arr_num a + 1 < 2 ^ 29"
  proof (rule ccontr)
    assume "\<not> ?thesis"
    with le num have "\<not> mem" "arr_num a = arr_max a" by auto
    with array_add_nomem [OF inv, of x] num assms(3) show False by simp
  qed
  from array_add_ok [OF inv this, of x] assms(3) have "array_inv a'" "array_list a' = array_list a @ [Some x]" by auto
  with array_fullI [of a' "array_elems a @ [x]"] array_full_list [OF assms(1)] show ?thesis by simp
qed

lemma lists_okE:
  assumes "lists_ok s"
  obtains q a z where "runqueue s = Some q" "sleepers s = Some a" "zombies s = Some z"
    "q_inv q" "q_size q < 2 ^ 29" "array_full a" "array_full z"
    "ready s = q_list q" "asleep s = array_elems a" "dead s = array_elems z"
    "length (running s) + q_count q + length (array_elems a) + length (array_elems z) < 2 ^ 28"
  using assms by (auto simp: lists_ok_def view_defs split: option.splits)

lemma q_addtail_bound:
  assumes "q_inv q" "q_size q < 2 ^ 29" "q_count q + 1 < 2 ^ 28" "q_addtail mem q x = Some (Inr (), q')"
  shows "q_inv q' \<and> q_list q' = q_list q @ [x] \<and> q_size q' < 2 ^ 29"
  using q_addtail_cases [OF assms(1,2,4)] assms(2,3) by (auto simp: q_room_def)

lemma make_runnable_eff:
  assumes "lists_ok s" "make_runnable mem t s = Some (Inr (), s')" "length (running s @ ready s @ asleep s @ dead s) + 1 < 2 ^ 28"
  obtains q where "s' = s\<lparr>runqueue := Some q\<rparr>" "q_inv q" "q_size q < 2 ^ 29" "q_list q = ready s @ [t]" "curspl s > 0"
proof -
  from assms(1) obtain q where q: "runqueue s = Some q" "q_inv q" "q_size q < 2 ^ 29" "ready s = q_list q"
    by (rule lists_okE)
  with assms(2) obtain q' where q': "q_addtail mem q t = Some (Inr (), q')" "s' = s\<lparr>runqueue := Some q'\<rparr>" "curspl s > 0"
    by (auto simp: make_runnable_def bind_Some split: if_splits)
  from q(4) assms(3) have "q_count q + 1 < 2 ^ 28" by simp
  from q_addtail_bound [OF q(2,3) this q'(1)] q q'(2,3) that [of q'] show thesis by simp
qed

lemma mi_switch_eff:
  assumes ok: "lists_ok s" and c: "curthread s = Some c"
    and sw: "mi_switch mem st k s = Some s'"
  obtains th q a z where "threads s c = Some th" "curspl s > 0"
    "s' = s\<lparr>curthread := None, switching := Some c,
       threads := (threads s)(c \<mapsto> th\<lparr>t_pcb := (t_pcb th)\<lparr>pcb_frames := F_switch # k\<rparr>\<rparr>),
       runqueue := Some q, sleepers := Some a, zombies := Some z\<rparr>"
    "st \<noteq> S_RUN" "lists_ok s'"
    "q_list q = ready s @ (if st = S_READY then [c] else [])"
    "array_elems a = asleep s @ (if st = S_SLEEP then [c] else [])"
    "array_elems z = dead s @ (if st = S_ZOMB then [c] else [])"
proof -
  from ok obtain q a z where l: "runqueue s = Some q" "sleepers s = Some a" "zombies s = Some z"
    "q_inv q" "array_full a" "array_full z" "q_size q < 2 ^ 29"
    "ready s = q_list q" "asleep s = array_elems a" "dead s = array_elems z"
    "length (running s) + q_count q + length (array_elems a) + length (array_elems z) < 2 ^ 28"
    by (rule lists_okE)
  have run: "running s = [c]" using c by (simp add: running_def)
  from sw c obtain th where th: "threads s c = Some th" and spl: "curspl s > 0"
    by (auto simp: mi_switch_def bind_Some split: if_splits)
  let ?s = "(set_frames c (F_switch # k) s)\<lparr>curthread := None\<rparr>"
  have fields: "runqueue ?s = Some q" "sleepers ?s = Some a" "zombies ?s = Some z" "curspl ?s = curspl s"
    "threads ?s = (threads s)(c \<mapsto> th\<lparr>t_pcb := (t_pcb th)\<lparr>pcb_frames := F_switch # k\<rparr>\<rparr>)"
    using l th by (simp_all add: set_frames_def upd_thread_def)
  have eqs: "?s = s\<lparr>curthread := None, threads := (threads s)(c \<mapsto> th\<lparr>t_pcb := (t_pcb th)\<lparr>pcb_frames := F_switch # k\<rparr>\<rparr>)\<rparr>"
    using th by (simp add: set_frames_def upd_thread_def)
  have bound: "Suc (q_count q + length (array_elems a) + length (array_elems z)) < 2 ^ 28" using l(11) run by simp
  note fin = th spl l(1-10) run lists_ok_def view_defs eqs
  show thesis
  proof (cases st)
    case S_RUN
    with sw c show thesis by (auto simp: mi_switch_def bind_Some)
  next
    case S_READY
    with sw c th spl obtain q' where q': "q_addtail mem q c = Some (Inr (), q')"
      "s' = ?s\<lparr>runqueue := Some q', switching := Some c\<rparr>"
      by (auto simp: mi_switch_def make_runnable_def bind_Some fields split: if_splits)
    from l(11) run have "q_count q + 1 < 2 ^ 28" by simp
    from q_addtail_bound [OF l(4,7) this q'(1)] have q2: "q_inv q'" "q_list q' = q_list q @ [c]" "q_size q' < 2 ^ 29" by auto
    then have "q_count q' = Suc (q_count q)" by (metis length_append_singleton q_list_length)
    then show thesis
      by (intro that [where th = th and q = q' and a = a and z = z]) (use bound l(7) q2 S_READY q'(2) in \<open>simp_all add: fin\<close>)
  next
    case S_SLEEP
    with sw c th spl obtain a' where a': "array_add mem a c = Some (Inr (), a')"
      "s' = ?s\<lparr>sleepers := Some a', switching := Some c\<rparr>"
      by (auto simp: mi_switch_def bind_Some fields split: if_splits)
    from array_add_cases [OF l(5) _ a'(1)] l(11) have a2: "array_full a'" "array_elems a' = array_elems a @ [c]" by auto
    show thesis
      by (rule that [where th = th and q = q and a = a' and z = z]) (use bound l(7) a2 S_SLEEP a'(2) in \<open>simp_all add: fin\<close>)
  next
    case S_ZOMB
    with sw c th spl obtain a' where a': "array_add mem z c = Some (Inr (), a')"
      "s' = ?s\<lparr>zombies := Some a', switching := Some c\<rparr>"
      by (auto simp: mi_switch_def bind_Some fields split: if_splits)
    from array_add_cases [OF l(6) _ a'(1)] l(11) have a2: "array_full a'" "array_elems a' = array_elems z @ [c]" by auto
    show thesis
      by (rule that [where th = th and q = q and a = a and z = a']) (use bound l(7) a2 S_ZOMB a'(2) in \<open>simp_all add: fin\<close>)
  qed
qed

declare wakeup_loop.simps [simp del]

lemma drop_eq_Cons_nth: "i < length xs \<Longrightarrow> drop i xs = xs ! i # drop (Suc i) xs"
  by (rule Cons_nth_drop_Suc [symmetric])

lemma wakeup_loop_eff:
  assumes "array_full a" "0 \<le> i" "i \<le> arr_num a" "runqueue s = Some q" "q_inv q" "q_size q < 2 ^ 29"
    "int (q_count q) + (arr_num a - i) < 2 ^ 28" "wakeup_loop mem addr i s a = Some s'"
  shows "\<exists>q' a'. s' = s\<lparr>runqueue := Some q', sleepers := Some a'\<rparr> \<and> q_inv q' \<and> q_size q' < 2 ^ 29 \<and> array_full a' \<and>
    q_list q' = q_list q @ filter (\<lambda>t. sleep_addr s t = addr) (drop (nat i) (array_elems a)) \<and>
    array_elems a' = take (nat i) (array_elems a) @ filter (\<lambda>t. sleep_addr s t \<noteq> addr) (drop (nat i) (array_elems a))"
  using assms
proof (induction mem addr i s a arbitrary: q rule: wakeup_loop.induct)
  case (1 mem addr i s a)
  have len: "int (length (array_elems a)) = arr_num a" using array_elems_length [OF "1.prems"(1)] .
  show ?case
  proof (cases "i < arr_num a")
    case False
    with "1.prems"(3) len have "nat i = length (array_elems a)" by simp
    moreover have "s' = s\<lparr>sleepers := Some a\<rparr>"
      using False "1.prems"(8) by (simp add: wakeup_loop.simps [of mem addr i s a] array_getnum_def)
    ultimately show ?thesis using "1.prems"(1,4-6) by (intro exI [of _ q] exI [of _ a]) simp
  next
    case True
    then have i: "nat i < length (array_elems a)" using len "1.prems"(2) by simp
    let ?t = "array_elems a ! nat i"
    have get: "array_getguy a i = Some ?t" using array_getguy_full [OF "1.prems"(1) i] "1.prems"(2) by simp
    have drop: "drop (nat i) (array_elems a) = ?t # drop (Suc (nat i)) (array_elems a)"
      using i by (rule drop_eq_Cons_nth)
    from "1.prems"(8) True get obtain th where th: "threads s ?t = Some th"
      by (auto simp: wakeup_loop.simps [of mem addr i s a] array_getnum_def bind_Some)
    show ?thesis
    proof (cases "t_sleepaddr th = addr")
      case match: True
      from array_remove_full [OF "1.prems"(1) i] "1.prems"(2) obtain a1 where a1: "array_remove a i = Some a1"
        "array_full a1" "array_elems a1 = take (nat i) (array_elems a) @ drop (Suc (nat i)) (array_elems a)" by auto
      note num = array_remove_num [OF a1(1)]
      from "1.prems"(8) True get th match a1(1) "1.prems"(4) obtain q1 where
        q1: "q_addtail mem q ?t = Some (Inr (), q1)" "curspl s > 0" and
        rec: "wakeup_loop mem addr i (s\<lparr>runqueue := Some q1\<rparr>) a1 = Some s'"
        by (auto simp: wakeup_loop.simps [of mem addr i s a] array_getnum_def make_runnable_def bind_Some split: if_splits)
      from q_addtail_cases [OF "1.prems"(5,6) q1(1)] have q1': "q_inv q1" "q_list q1 = q_list q @ [?t]"
        "q_size q1 = q_size q \<or> int (q_count q) = q_room q \<and> q_size q1 = 2 * q_size q" by auto
      have cnt: "q_count q1 = Suc (q_count q)" using q1'(2) q_list_length [of q] q_list_length [of q1] by simp
      have size: "q_size q1 < 2 ^ 29" using q1'(3) "1.prems"(6,7) True by (auto simp: q_room_def)
      have mk: "make_runnable mem ?t s = Some (Inr (), s\<lparr>runqueue := Some q1\<rparr>)"
        using q1 "1.prems"(4) by (simp add: make_runnable_def)
      have sa: "sleep_addr (s\<lparr>runqueue := Some q1\<rparr>) = sleep_addr s" by (rule ext) (simp add: sleep_addr_def)
      have sp: "sleep_addr s ?t = addr" using th match by (simp add: sleep_addr_def)
      from "1.IH"(1) [where q = q1, OF _ get th match a1(1) mk _ _ a1(2)] True match size rec num cnt "1.prems"(2,7) q1'(1)
      obtain q' a' where "s' = s\<lparr>runqueue := Some q1\<rparr>\<lparr>runqueue := Some q', sleepers := Some a'\<rparr>" "q_inv q'" "q_size q' < 2 ^ 29" "array_full a'"
        "q_list q' = q_list q1 @ filter (\<lambda>t. sleep_addr s t = addr) (drop (nat i) (array_elems a1))"
        "array_elems a' = take (nat i) (array_elems a1) @ filter (\<lambda>t. sleep_addr s t \<noteq> addr) (drop (nat i) (array_elems a1))"
        by (auto simp: array_getnum_def sa)
      then show ?thesis using a1(3) i q1'(2) sp by (intro exI [of _ q'] exI [of _ a']) (simp add: drop)
    next
      case nomatch: False
      from "1.prems"(8) True get th nomatch have rec: "wakeup_loop mem addr (i + 1) s a = Some s'"
        by (simp add: wakeup_loop.simps [of mem addr i s a] array_getnum_def)
      have sp: "sleep_addr s ?t \<noteq> addr" using th nomatch by (simp add: sleep_addr_def)
      have ni: "nat (i + 1) = Suc (nat i)" using "1.prems"(2) by simp
      from "1.IH"(2) [where q = q, OF _ get th nomatch "1.prems"(1)] True rec "1.prems"
      have "\<exists>q' a'. s' = s\<lparr>runqueue := Some q', sleepers := Some a'\<rparr> \<and> q_inv q' \<and> q_size q' < 2 ^ 29 \<and> array_full a' \<and>
        q_list q' = q_list q @ filter (\<lambda>t. sleep_addr s t = addr) (drop (nat (i + 1)) (array_elems a)) \<and>
        array_elems a' = take (nat (i + 1)) (array_elems a) @ filter (\<lambda>t. sleep_addr s t \<noteq> addr) (drop (nat (i + 1)) (array_elems a))"
        by (simp add: array_getnum_def)
      then show ?thesis using i sp by (simp add: drop ni take_Suc_conv_app_nth)
    qed
  qed
qed

lemma thread_wakeup_eff:
  assumes "lists_ok s" "thread_wakeup mem addr s = Some s'"
  obtains q a where "s' = s\<lparr>runqueue := Some q, sleepers := Some a\<rparr>" "curspl s > 0" "lists_ok s'"
    "ready s' = ready s @ filter (\<lambda>t. sleep_addr s t = addr) (asleep s)"
    "asleep s' = filter (\<lambda>t. sleep_addr s t \<noteq> addr) (asleep s)"
proof -
  from assms(1) obtain q a z where l: "runqueue s = Some q" "sleepers s = Some a" "zombies s = Some z"
    "q_inv q" "q_size q < 2 ^ 29" "array_full a" "array_full z"
    "ready s = q_list q" "asleep s = array_elems a" "dead s = array_elems z"
    "length (running s) + q_count q + length (array_elems a) + length (array_elems z) < 2 ^ 28"
    by (rule lists_okE)
  have num: "0 \<le> arr_num a" "int (q_count q) + (arr_num a - 0) < 2 ^ 28"
    using array_elems_length [OF l(6)] l(11) by simp_all
  from assms(2) l have "curspl s > 0" and loop: "wakeup_loop mem addr 0 s a = Some s'"
    by (auto simp: thread_wakeup_def split: if_splits)
  from wakeup_loop_eff [OF l(6) order_refl num(1) l(1,4,5) num(2) loop] obtain q' a' where
    s': "s' = s\<lparr>runqueue := Some q', sleepers := Some a'\<rparr>" "q_inv q'" "q_size q' < 2 ^ 29" "array_full a'"
      "q_list q' = q_list q @ filter (\<lambda>t. sleep_addr s t = addr) (array_elems a)"
      "array_elems a' = filter (\<lambda>t. sleep_addr s t \<noteq> addr) (array_elems a)" by auto
  have "length (filter (\<lambda>t. sleep_addr s t = addr) (array_elems a)) + length (filter (\<lambda>t. sleep_addr s t \<noteq> addr) (array_elems a)) =
    length (array_elems a)" by (rule sum_length_filter_compl)
  moreover have "q_count q' = q_count q + length (filter (\<lambda>t. sleep_addr s t = addr) (array_elems a))"
    using arg_cong [OF s'(5), of length] by simp
  ultimately have "lists_ok s'"
    using s' l by (auto simp: lists_ok_def view_defs split: option.splits)
  then show thesis using that [of a' q'] s' l \<open>curspl s > 0\<close> by (simp add: view_defs)
qed

definition kill_threads :: "nat set \<Rightarrow> ksys \<Rightarrow> ksys" where
  "kill_threads A s = s\<lparr>threads := (\<lambda>t. if t \<in> A then None else threads s t)\<rparr>"

lemma kill_threads_insert: "kill_threads A (s\<lparr>threads := (threads s)(z := None)\<rparr>) = kill_threads (insert z A) s"
  unfolding kill_threads_def by (simp add: fun_upd_def cong: if_cong) (rule arg_cong [where f = "\<lambda>X. s\<lparr>threads := X\<rparr>"], auto)

lemma exorcise_loop_eff:
  assumes "array_full a" "\<forall>i \<in> set is. i < length (array_elems a)" "exorcise_loop a is s = Some s'"
  shows "s' = kill_threads ((\<lambda>i. array_elems a ! i) ` set is) s"
  using assms
proof (induction "is" arbitrary: s)
  case Nil
  then show ?case by (simp add: kill_threads_def)
next
  case (Cons i xs)
  let ?z = "array_elems a ! i"
  from Cons.prems have "array_getguy a (int i) = Some ?z" by (simp add: array_getguy_full)
  with Cons.prems(3) have "exorcise_loop a xs (s\<lparr>threads := (threads s)(?z := None)\<rparr>) = Some s'"
    by (auto simp: thread_destroy_def bind_Some split: if_splits)
  from Cons.IH [OF Cons.prems(1) _ this] Cons.prems(2) show ?case by (simp only: kill_threads_insert) simp
qed

lemma exorcise_eff:
  assumes "lists_ok s" "exorcise s = Some s'"
  obtains z where "s' = (kill_threads (set (dead s)) s)\<lparr>zombies := Some z\<rparr>" "lists_ok s'" "dead s' = []"
proof -
  from assms(1) obtain q a z where l: "runqueue s = Some q" "sleepers s = Some a" "zombies s = Some z"
    "q_inv q" "q_size q < 2 ^ 29" "array_full a" "array_full z"
    "ready s = q_list q" "asleep s = array_elems a" "dead s = array_elems z"
    "length (running s) + q_count q + length (array_elems a) + length (array_elems z) < 2 ^ 28"
    by (rule lists_okE)
  have num: "nat (arr_num z) = length (array_elems z)" using array_elems_length [OF l(7)] by simp
  obtain z' where z': "array_setsize True z 0 = Some (Inr (), z')" "array_inv z'" "array_list z' = []"
    using array_setsize_zero [of z True] l(7) by (auto simp: array_full_def)
  then have z'': "array_full z'" "array_elems z' = []" using array_fullI [of z' "[]"] by auto
  from assms(2) l(3) z'(1) num obtain s1 where s1: "exorcise_loop z [0..<length (array_elems z)] s = Some s1"
    "s' = s1\<lparr>zombies := Some z'\<rparr>"
    by (auto simp: exorcise_def array_getnum_def bind_Some split: if_splits)
  have "(\<lambda>i. array_elems z ! i) ` set [0..<length (array_elems z)] = set (array_elems z)"
    by (simp only: set_map [symmetric] map_nth)
  with exorcise_loop_eff [OF l(7) _ s1(1)] l(10) have "s1 = kill_threads (set (dead s)) s" by simp
  then have s': "s' = (kill_threads (set (dead s)) s)\<lparr>zombies := Some z'\<rparr>" using s1(2) by simp
  show thesis
    by (rule that [OF s']) (use s' l z'' in \<open>auto simp: lists_ok_def view_defs kill_threads_def split: option.splits\<close>)
qed

section \<open>What each operation keeps\<close>

lemmas core_defs = threads_core_def lists_ok_def places_ok_def waiting_ok_def dead_ok_def stacks_ok_def
  view_defs fr_def

lemma core_cong:
  assumes "curthread s' = curthread s" "runqueue s' = runqueue s" "sleepers s' = sleepers s" "zombies s' = zombies s"
    "numthreads s' = numthreads s" "threads s' = threads s" "switching s' = switching s"
  shows "threads_core s' = threads_core s"
  unfolding core_defs assms ..

lemma core_fields [simp]:
  "threads_core (s\<lparr>curspl := x1\<rparr>) = threads_core s"
  "threads_core (s\<lparr>status_IEc := x2\<rparr>) = threads_core s"
  "threads_core (s\<lparr>in_interrupt := x3\<rparr>) = threads_core s"
  "threads_core (s\<lparr>curkstack := x4\<rparr>) = threads_core s"
  "threads_core (s\<lparr>idle_frames := x5\<rparr>) = threads_core s"
  "threads_core (s\<lparr>lbolt_counter := x6\<rparr>) = threads_core s"
  "threads_core (s\<lparr>sems := x7\<rparr>) = threads_core s"
  "threads_core (s\<lparr>locks := x8\<rparr>) = threads_core s"
  "threads_core (s\<lparr>cvs := x9\<rparr>) = threads_core s"
  "threads_core (s\<lparr>calls := x10\<rparr>) = threads_core s"
  by (rule core_cong; simp)+

lemma upd_views [simp]:
  "ready (upd_thread c f s) = ready s" "asleep (upd_thread c f s) = asleep s" "dead (upd_thread c f s) = dead s"
  "running (upd_thread c f s) = running s" "dom (threads (upd_thread c f s)) = dom (threads s)"
  "curthread (upd_thread c f s) = curthread s" "switching (upd_thread c f s) = switching s"
  "numthreads (upd_thread c f s) = numthreads s" "runqueue (upd_thread c f s) = runqueue s"
  "sleepers (upd_thread c f s) = sleepers s" "zombies (upd_thread c f s) = zombies s"
  "t \<noteq> c \<Longrightarrow> threads (upd_thread c f s) t = threads s t"
  "t \<noteq> c \<Longrightarrow> fr (upd_thread c f s) t = fr s t"
  by (auto simp: upd_thread_def view_defs fr_def dom_def)

lemma core_upd_running:
  assumes "threads_core s" "curthread s = Some c"
    "\<And>th. t_stack (f th) = t_stack th \<and> t_stackmem (f th) = t_stackmem th"
  shows "threads_core (upd_thread c f s)"
proof -
  from assms(1,2) have c: "c \<notin> set (ready s)" "c \<notin> set (asleep s)" "c \<notin> set (dead s)"
    by (auto simp: threads_core_def places_ok_def running_def)
  from assms(1) have "lists_ok (upd_thread c f s)" by (simp add: threads_core_def lists_ok_def)
  moreover from assms(1) have "places_ok (upd_thread c f s)" unfolding threads_core_def places_ok_def upd_views by blast
  moreover from c have "\<And>t. t \<in> set (ready s) \<union> set (asleep s) \<union> set (dead s) \<Longrightarrow> t \<noteq> c" by blast
  with assms(1) have "waiting_ok (upd_thread c f s)" "dead_ok (upd_thread c f s)"
    by (simp_all add: threads_core_def waiting_ok_def dead_ok_def)
  moreover from assms(1,3) have "stacks_ok (upd_thread c f s)"
    by (auto simp: threads_core_def stacks_ok_def upd_thread_def)
  ultimately show ?thesis by (simp add: threads_core_def)
qed

lemma core_go [simp]: "threads_core s \<Longrightarrow> threads_core (go k s)"
  by (auto simp: go_def set_frames_def intro!: core_upd_running split: option.splits)

lemma core_splx [simp]: "threads_core (snd (splx spl s)) = threads_core s"
  by (simp add: splx_def interrupts_on_def interrupts_off_def Let_def)

lemma go_fields [simp]:
  "curthread (go k s) = curthread s" "curspl (go k s) = curspl s" "status_IEc (go k s) = status_IEc s"
  "sems (go k s) = sems s" "locks (go k s) = locks s" "cvs (go k s) = cvs s" "in_interrupt (go k s) = in_interrupt s"
  "runqueue (go k s) = runqueue s" "sleepers (go k s) = sleepers s" "zombies (go k s) = zombies s"
  "curthread s \<noteq> None \<Longrightarrow> idle_frames (go k s) = idle_frames s"
  "curthread s = None \<Longrightarrow> idle_frames (go k s) = k"
  by (auto simp: go_def set_frames_def upd_thread_def split: option.splits)

lemma core_running:
  assumes "threads_core s" "curthread s = Some c"
  obtains th where "threads s c = Some th"
proof -
  have "c \<in> dom (threads s)" using assms by (simp add: threads_core_def places_ok_def running_def)
  then show thesis using that by blast
qed

lemma frames_go:
  assumes "threads_core s"
  shows "frames (go k s) = k"
proof (cases "curthread s")
  case (Some c)
  with assms obtain th where "threads s c = Some th" by (rule core_running)
  with Some show ?thesis by (simp add: go_def frames_def set_frames_def upd_thread_def)
qed (simp add: go_def frames_def)

definition at_high :: "ksys \<Rightarrow> bool" where
  \<comment> \<open>inside the kernel with interrupts off\<close>
  "at_high s \<longleftrightarrow> threads_core s \<and> curspl s = SPL_HIGH \<and> \<not> status_IEc s \<and> (curthread s \<noteq> None \<longrightarrow> idle_frames s = [])"

definition kok :: "ksys \<Rightarrow> frame list \<Rightarrow> bool" where
  "kok s k \<longleftrightarrow> (case curthread s of None \<Rightarrow> idle_ok k | Some c \<Rightarrow> hi k)"

definition good :: "ksys \<Rightarrow> bool" where
  "good s \<longleftrightarrow> threads_core s \<and> spl_ok s"

lemma hi_ne [simp]: "hi k \<Longrightarrow> k \<noteq> []"
  by auto

lemma go_good: "at_high s \<Longrightarrow> kok s k \<Longrightarrow> good (go k s)"
  by (auto simp: good_def at_high_def kok_def spl_ok_def frames_go split: option.splits)

lemma splx_simps:
  "snd (splx 0 s) = s\<lparr>status_IEc := True, curspl := 0\<rparr>"
  "snd (splx SPL_HIGH s) = s\<lparr>status_IEc := False, curspl := SPL_HIGH\<rparr>"
  "fst (splx x s) = curspl s"
  "splhigh s = (curspl s, s\<lparr>status_IEc := False, curspl := SPL_HIGH\<rparr>)"
  "spl0 s = (curspl s, s\<lparr>status_IEc := True, curspl := 0\<rparr>)"
  by (simp_all add: splx_def splhigh_def spl0_def interrupts_on_def interrupts_off_def Let_def)

lemma splx0_good:
  assumes "at_high s" "curthread s \<noteq> None"
  shows "good (go [] (snd (splx 0 s)))"
  using assms by (auto simp: good_def at_high_def spl_ok_def frames_go splx_simps)

lemma splx0_good_frames:
  assumes "at_high s" "curthread s \<noteq> None" "frames s = []"
  shows "good (snd (splx 0 s))"
  using assms by (auto simp: good_def at_high_def spl_ok_def splx_simps frames_def split: option.splits)

lemma switched_core:
  assumes core: "threads_core (s\<lparr>numthreads := numthreads s + (if st = S_ZOMB then 1 else 0)\<rparr>)"
    and c: "curthread s = Some c" and th: "threads s c = Some th" and st: "st \<noteq> S_RUN"
    and s': "s' = s\<lparr>curthread := None, switching := Some c,
       threads := (threads s)(c \<mapsto> th\<lparr>t_pcb := (t_pcb th)\<lparr>pcb_frames := F_switch # k\<rparr>\<rparr>),
       runqueue := Some q, sleepers := Some a, zombies := Some z\<rparr>" "lists_ok s'"
    and l: "q_list q = ready s @ (if st = S_READY then [c] else [])"
      "array_elems a = asleep s @ (if st = S_SLEEP then [c] else [])"
      "array_elems z = dead s @ (if st = S_ZOMB then [c] else [])"
    and k: "st = S_READY \<Longrightarrow> hi k" "st = S_SLEEP \<Longrightarrow> \<exists>k'. k = F_wake # k' \<and> hi k'"
      "st = S_ZOMB \<Longrightarrow> t_vmspace th = 0 \<and> t_cwd th = 0"
  shows "threads_core s'"
proof -
  have views: "running s' = []" "ready s' = q_list q" "asleep s' = array_elems a" "dead s' = array_elems z"
    "\<And>t. fr s' t = (if t = c then F_switch # k else fr s t)"
    using s'(1) by (simp_all add: view_defs fr_def)
  have fields: "curthread s' = None" "switching s' = Some c" "numthreads s' = numthreads s"
    "threads s' = (threads s)(c \<mapsto> th\<lparr>t_pcb := (t_pcb th)\<lparr>pcb_frames := F_switch # k\<rparr>\<rparr>)"
    using s'(1) by simp_all
  from core c have places: "distinct (c # ready s @ asleep s @ dead s)"
    "dom (threads s) = set (c # ready s @ asleep s @ dead s)"
    "numthreads s + (if st = S_ZOMB then 1 else 0) = int (length (c # ready s @ asleep s))"
    by (auto simp: threads_core_def places_ok_def view_defs)
  have "dom (threads s') = dom (threads s)" using fields(4) th by auto
  then have "places_ok s'"
    using places fields(1-3) st l by (cases st) (auto simp: places_ok_def views)
  moreover from core have "waiting_ok s"
    by (simp add: threads_core_def waiting_ok_def view_defs fr_def)
  then have "waiting_ok s'"
    using places(1) st k l by (cases st) (auto simp: waiting_ok_def views)
  moreover from core have "dead_ok s" by (simp add: threads_core_def dead_ok_def view_defs)
  then have "dead_ok s'" using places(1) k(3) l(3) fields(4) by (auto simp: dead_ok_def views split: if_splits)
  moreover from core have "stacks_ok s" by (simp add: threads_core_def stacks_ok_def)
  then have "stacks_ok s'" using th fields(4) by (auto simp: stacks_ok_def)
  ultimately show ?thesis using s'(2) by (simp add: threads_core_def)
qed

lemma mi_switch_good:
  assumes s: "at_high (s\<lparr>numthreads := numthreads s + (if st = S_ZOMB then 1 else 0)\<rparr>)"
    and k: "st \<noteq> S_ZOMB \<Longrightarrow> kok s k" and sl: "st = S_SLEEP \<Longrightarrow> \<exists>k'. k = F_wake # k'"
    and zo: "st = S_ZOMB \<Longrightarrow> \<exists>c th. curthread s = Some c \<and> threads s c = Some th \<and> t_vmspace th = 0 \<and> t_cwd th = 0"
    and sw: "mi_switch mem st k s = Some s'"
  shows "good s'"
proof (cases "curthread s")
  case None
  with zo have st: "st \<noteq> S_ZOMB" by auto
  from sw None s st have "s' = go k s" by (auto simp: mi_switch_def at_high_def split: if_splits)
  with s k st show ?thesis by (simp add: go_good)
next
  case (Some c)
  from s have lists: "lists_ok s" by (simp add: at_high_def threads_core_def lists_ok_def view_defs)
  from lists Some sw obtain th q a z where *: "threads s c = Some th"
    "s' = s\<lparr>curthread := None, switching := Some c,
       threads := (threads s)(c \<mapsto> th\<lparr>t_pcb := (t_pcb th)\<lparr>pcb_frames := F_switch # k\<rparr>\<rparr>),
       runqueue := Some q, sleepers := Some a, zombies := Some z\<rparr>"
    "st \<noteq> S_RUN" "lists_ok s'"
    "q_list q = ready s @ (if st = S_READY then [c] else [])"
    "array_elems a = asleep s @ (if st = S_SLEEP then [c] else [])"
    "array_elems z = dead s @ (if st = S_ZOMB then [c] else [])"
    by (rule mi_switch_eff)
  have "threads_core s'"
  proof (rule switched_core [OF _ Some *(1,3,2,4-7)])
    show "threads_core (s\<lparr>numthreads := numthreads s + (if st = S_ZOMB then 1 else 0)\<rparr>)"
      using s by (simp add: at_high_def)
  qed (use k sl zo Some *(1) in \<open>auto simp: kok_def\<close>)
  moreover from s Some *(2) have "spl_ok s'" by (simp add: spl_ok_def at_high_def idle_ok_def)
  ultimately show ?thesis by (simp add: good_def)
qed

lemma wakeup_core:
  assumes core: "threads_core s" and "thread_wakeup mem addr s = Some s'"
  shows "threads_core s'"
proof -
  from core have lists: "lists_ok s" by (simp add: threads_core_def)
  from lists assms(2) obtain q a where w: "s' = s\<lparr>runqueue := Some q, sleepers := Some a\<rparr>" "curspl s > 0" "lists_ok s'"
    "ready s' = ready s @ filter (\<lambda>t. sleep_addr s t = addr) (asleep s)"
    "asleep s' = filter (\<lambda>t. sleep_addr s t \<noteq> addr) (asleep s)"
    by (rule thread_wakeup_eff)
  have same: "dead s' = dead s" "running s' = running s" "\<And>t. fr s' t = fr s t" "threads s' = threads s"
    "numthreads s' = numthreads s" "curthread s' = curthread s" "switching s' = switching s"
    using w(1) by (simp_all add: view_defs fr_def)
  have set: "set (ready s') \<union> set (asleep s') = set (ready s) \<union> set (asleep s)" using w(4,5) by auto
  have len: "length (ready s') + length (asleep s') = length (ready s) + length (asleep s)"
    using w(4,5) sum_length_filter_compl [of "\<lambda>t. sleep_addr s t = addr" "asleep s"] by simp
  from core have "distinct (running s @ ready s @ asleep s @ dead s)" by (simp add: threads_core_def places_ok_def)
  then have "distinct (running s' @ ready s' @ asleep s' @ dead s')" using w(4,5) same by auto
  moreover from core have "dom (threads s') = set (running s' @ ready s' @ asleep s' @ dead s')"
    using set same by (auto simp: threads_core_def places_ok_def)
  moreover from core have "numthreads s' = int (length (running s' @ ready s' @ asleep s'))"
    using len same by (simp add: threads_core_def places_ok_def)
  moreover from core have "curthread s' = None \<longrightarrow> (\<exists>t. switching s' = Some t \<and> t \<in> dom (threads s'))"
    unfolding same threads_core_def places_ok_def by blast
  ultimately have "places_ok s'" unfolding places_ok_def by blast
  moreover from core w(4,5) same have "waiting_ok s'"
    by (fastforce simp: threads_core_def waiting_ok_def)
  moreover from core same have "dead_ok s'" "stacks_ok s'" by (auto simp: threads_core_def dead_ok_def stacks_ok_def)
  ultimately show ?thesis using w(3) by (simp add: threads_core_def)
qed

lemma thread_wakeup_keeps:
  assumes "at_high s" "thread_wakeup mem addr s = Some s'"
  shows "at_high s' \<and> curthread s' = curthread s \<and> frames s' = frames s"
proof -
  from assms have core: "threads_core s" and lists: "lists_ok s" by (simp_all add: at_high_def threads_core_def)
  from lists assms(2) obtain q a where "s' = s\<lparr>runqueue := Some q, sleepers := Some a\<rparr>" by (rule thread_wakeup_eff)
  with assms(1) wakeup_core [OF core assms(2)] show ?thesis by (simp add: at_high_def frames_def split: option.split)
qed

lemma wakeup_at_high: "at_high s \<Longrightarrow> thread_wakeup mem addr s = Some s' \<Longrightarrow> at_high s'"
  by (simp add: thread_wakeup_keeps)

lemma exorcise_keeps:
  assumes "at_high s" "curthread s \<noteq> None" "exorcise s = Some s'"
  shows "at_high s' \<and> curthread s' = curthread s"
proof -
  from assms have core: "threads_core s" and lists: "lists_ok s" by (simp_all add: at_high_def threads_core_def)
  from lists assms(3) obtain z where e: "s' = (kill_threads (set (dead s)) s)\<lparr>zombies := Some z\<rparr>" "lists_ok s'" "dead s' = []"
    by (rule exorcise_eff)
  have same: "running s' = running s" "ready s' = ready s" "asleep s' = asleep s" "numthreads s' = numthreads s"
    "curthread s' = curthread s" and thr: "\<And>t. threads s' t = (if t \<in> set (dead s) then None else threads s t)"
    using e(1) by (simp_all add: view_defs kill_threads_def)
  from core have d: "distinct (running s @ ready s @ asleep s @ dead s)" "dom (threads s) = set (running s @ ready s @ asleep s @ dead s)"
    by (simp_all add: threads_core_def places_ok_def)
  have "dom (threads s') = dom (threads s) - set (dead s)" using thr by (auto simp: dom_def)
  also have "\<dots> = set (running s' @ ready s' @ asleep s' @ dead s')" using d same e(3) by auto
  finally have "places_ok s'" using core d(1) same e(3) assms(2) by (auto simp: threads_core_def places_ok_def)
  moreover have "fr s' t = fr s t" if "t \<notin> set (dead s)" for t using that thr by (simp add: fr_def)
  with core d(1) have "waiting_ok s'" unfolding threads_core_def waiting_ok_def same by (auto simp: disjoint_iff)
  moreover have "dead_ok s'" by (simp add: dead_ok_def e(3))
  moreover from core thr have "stacks_ok s'" by (auto simp: threads_core_def stacks_ok_def split: if_splits)
  ultimately have "threads_core s'" using e(2) by (simp add: threads_core_def)
  with assms(1) e(1) show ?thesis by (simp add: at_high_def kill_threads_def)
qed

lemma activate_keeps:
  "activate s = Some s' \<Longrightarrow> at_high s \<Longrightarrow> at_high s' \<and> curthread s' = curthread s"
  by (cases "\<exists>c th. curthread s = Some c \<and> threads s c = Some th \<and> t_vmspace th \<noteq> 0")
    (auto simp: activate_def at_high_def log_call_def bind_Some)

lemma mi_switch_return_good:
  assumes "at_high s" "curthread s \<noteq> None" "hi k" "mi_switch_return k s = Some s'"
  shows "good s'"
proof -
  from assms(4) obtain s1 s2 where s: "exorcise s = Some s1" "activate s1 = Some s2" "s' = go k s2"
    by (auto simp: mi_switch_return_def bind_Some)
  from exorcise_keeps [OF assms(1,2) s(1)] activate_keeps [OF s(2)] assms(2) have "at_high s2" "curthread s2 \<noteq> None" by auto
  with assms(3) s(3) show ?thesis by (auto intro!: go_good simp: kok_def)
qed

lemma mi_threadstart_good:
  assumes "at_high s" "curthread s \<noteq> None" "mi_threadstart s = Some s'"
  shows "good s'"
proof -
  from assms(3) obtain s1 where s: "activate s = Some s1" "s' = go [] (snd (splx 0 s1))"
    by (auto simp: mi_threadstart_def bind_Some spl0_def)
  with activate_keeps [OF s(1) assms(1)] assms(2) show ?thesis by (simp add: splx0_good)
qed

lemma at_high_fields [simp]:
  "at_high (s\<lparr>sems := x1\<rparr>) = at_high s" "at_high (s\<lparr>locks := x2\<rparr>) = at_high s" "at_high (s\<lparr>cvs := x3\<rparr>) = at_high s"
  "at_high (s\<lparr>lbolt_counter := x4\<rparr>) = at_high s" "at_high (s\<lparr>in_interrupt := x5\<rparr>) = at_high s"
  "at_high (s\<lparr>calls := x6\<rparr>) = at_high s"
  by (simp_all add: at_high_def)

lemma kok_fields [simp]:
  "kok (s\<lparr>sems := x1\<rparr>) = kok s" "kok (s\<lparr>locks := x2\<rparr>) = kok s" "kok (s\<lparr>cvs := x3\<rparr>) = kok s"
  "kok (s\<lparr>lbolt_counter := x4\<rparr>) = kok s" "kok (s\<lparr>in_interrupt := x5\<rparr>) = kok s"
  "kok (s\<lparr>curspl := x6\<rparr>) = kok s" "kok (s\<lparr>status_IEc := x7\<rparr>) = kok s"
  by (simp_all add: kok_def fun_eq_iff)

lemma thread_sleep_good:
  assumes "at_high s" "hi k" "thread_sleep mem addr k s = Some s'"
  shows "good s'"
proof -
  from assms(3) obtain c where c: "curthread s = Some c"
    "mi_switch mem S_SLEEP (F_wake # k) (upd_thread c (\<lambda>th. th\<lparr>t_sleepaddr := addr\<rparr>) s) = Some s'"
    by (auto simp: thread_sleep_def bind_Some split: if_splits)
  have "at_high (upd_thread c (\<lambda>th. th\<lparr>t_sleepaddr := addr\<rparr>) s)"
    using assms(1) c(1) core_upd_running [of s c "\<lambda>th. th\<lparr>t_sleepaddr := addr\<rparr>"] by (auto simp: at_high_def) (auto simp: upd_thread_def)
  then show ?thesis
    by (intro mi_switch_good [OF _ _ _ _ c(2)]) (use assms(2) c(1) in \<open>auto simp: kok_def upd_thread_def\<close>)
qed

lemma P_loop_good: "at_high s \<Longrightarrow> curthread s \<noteq> None \<Longrightarrow> hi k \<Longrightarrow> P_loop mem sem k s = Some s' \<Longrightarrow> good s'"
  by (auto simp: P_loop_def bind_Some kok_def intro!: go_good dest: thread_sleep_good [rotated 2] split: if_splits)

lemma lock_loop_good: "at_high s \<Longrightarrow> curthread s \<noteq> None \<Longrightarrow> hi k \<Longrightarrow> lock_loop qmem mem lock k s = Some s' \<Longrightarrow> good s'"
  by (auto simp: lock_loop_def bind_Some kok_def intro!: go_good dest: thread_sleep_good [rotated 2] split: if_splits)

lemma clocksleep_loop_good: "at_high s \<Longrightarrow> curthread s \<noteq> None \<Longrightarrow> hi k \<Longrightarrow> clocksleep_loop mem n k s = Some s' \<Longrightarrow> good s'"
  by (auto simp: clocksleep_loop_def bind_Some kok_def intro!: go_good dest: thread_sleep_good [rotated 2] split: if_splits)

definition in_body :: "ksys \<Rightarrow> bool" where
  \<comment> \<open>a thread runs its own code, with interrupts on\<close>
  "in_body s \<longleftrightarrow> threads_core s \<and> curthread s \<noteq> None \<and> curspl s = 0 \<and> status_IEc s \<and> idle_frames s = [] \<and> frames s = []"

lemma splhigh_at_high:
  "in_body s \<Longrightarrow> at_high (s\<lparr>status_IEc := False, curspl := SPL_HIGH\<rparr>)"
  "at_high s \<Longrightarrow> s\<lparr>status_IEc := False, curspl := SPL_HIGH\<rparr> = s"
  by (simp_all add: in_body_def at_high_def)

lemma frames_cong:
  "curthread s' = curthread s \<Longrightarrow> threads s' = threads s \<Longrightarrow> idle_frames s' = idle_frames s \<Longrightarrow> frames s' = frames s"
  by (simp add: frames_def split: option.split)

lemma frames_fields [simp]:
  "frames (s\<lparr>sems := x1\<rparr>) = frames s" "frames (s\<lparr>locks := x2\<rparr>) = frames s" "frames (s\<lparr>cvs := x3\<rparr>) = frames s"
  "frames (s\<lparr>curspl := x4\<rparr>) = frames s" "frames (s\<lparr>status_IEc := x5\<rparr>) = frames s" "frames (s\<lparr>in_interrupt := x6\<rparr>) = frames s"
  "frames (s\<lparr>lbolt_counter := x7\<rparr>) = frames s" "frames (s\<lparr>calls := x8\<rparr>) = frames s"
  "frames (s\<lparr>runqueue := x9\<rparr>) = frames s" "frames (s\<lparr>sleepers := x10\<rparr>) = frames s" "frames (s\<lparr>zombies := x11\<rparr>) = frames s"
  "frames (s\<lparr>numthreads := x12\<rparr>) = frames s"
  by (rule frames_cong; simp)+

lemma V_high:
  assumes "at_high s" "kok s k" "V mem sem k s = Some s'"
  shows "good s'"
proof -
  have spl: "curspl s = SPL_HIGH" using assms(1) by (simp add: at_high_def)
  from assms(3) obtain sm where sm: "thread_wakeup mem (SemP sem) (s\<lparr>sems := sm\<rparr>) \<bind> (\<lambda>s. Some (go k (snd (splx SPL_HIGH s)))) = Some s'"
    by (auto simp: V_def splx_simps splhigh_at_high(2) [OF assms(1)] spl bind_Some Let_def split: if_splits)
  then obtain s1 where s1: "thread_wakeup mem (SemP sem) (s\<lparr>sems := sm\<rparr>) = Some s1" "s' = go k (snd (splx SPL_HIGH s1))"
    by (auto simp: bind_Some)
  from thread_wakeup_keeps [OF _ s1(1)] assms(1) have k1: "at_high s1" "curthread s1 = curthread s" by auto
  have "s' = go k s1" using s1(2) splhigh_at_high(2) [OF k1(1)] by (simp add: splx_simps)
  then show ?thesis using k1 assms(2) by (auto intro!: go_good simp: kok_def)
qed

lemma V_body:
  assumes "in_body s" "V mem sem [] s = Some s'"
  shows "good s'"
proof -
  have spl: "curspl s = 0" using assms(1) by (simp add: in_body_def)
  from assms(2) obtain sm where sm: "thread_wakeup mem (SemP sem) (s\<lparr>status_IEc := False, curspl := SPL_HIGH, sems := sm\<rparr>) \<bind>
      (\<lambda>s. Some (go [] (snd (splx 0 s)))) = Some s'"
    by (auto simp: V_def splx_simps spl bind_Some Let_def split: if_splits)
  then obtain s1 where s1: "thread_wakeup mem (SemP sem) (s\<lparr>status_IEc := False, curspl := SPL_HIGH, sems := sm\<rparr>) = Some s1"
    "s' = go [] (snd (splx 0 s1))" by (auto simp: bind_Some)
  from thread_wakeup_keeps [OF _ s1(1)] splhigh_at_high(1) [OF assms(1)] have "at_high s1" "curthread s1 = curthread s" by auto
  then show ?thesis using s1(2) assms(1) by (auto simp: in_body_def intro!: splx0_good)
qed

lemma lock_release_inner:
  assumes "lock_release mem lock s = Some s'"
  obtains s1 where "s' = snd (splx (curspl s) s1)"
    "at_high (s\<lparr>status_IEc := False, curspl := SPL_HIGH\<rparr>) \<longrightarrow> at_high s1 \<and> curthread s1 = curthread s \<and> frames s1 = frames s"
proof -
  let ?s = "s\<lparr>status_IEc := False, curspl := SPL_HIGH\<rparr>"
  from assms obtain lk where lk: "locks s lock = Some lk" and r: "(if q_empty (lk_queue lk)
      then Some (snd (splx (curspl s) (?s\<lparr>locks := (locks s)(lock \<mapsto> lk\<lparr>lk_owner := None\<rparr>)\<rparr>)))
      else do {
        (t, q) \<leftarrow> q_remhead (lk_queue lk);
        s1 \<leftarrow> thread_wakeup mem (ThreadP t) (?s\<lparr>locks := (locks s)(lock \<mapsto> lk\<lparr>lk_owner := None, lk_queue := q\<rparr>)\<rparr>);
        Some (snd (splx (curspl s) s1))
      }) = Some s'"
    by (auto simp: lock_release_def lock_do_i_hold_def splx_simps bind_Some Let_def split: if_splits)
  show thesis
  proof (cases "q_empty (lk_queue lk)")
    case True
    show ?thesis
      by (rule that [of "?s\<lparr>locks := (locks s)(lock \<mapsto> lk\<lparr>lk_owner := None\<rparr>)\<rparr>"]) (use r True in auto)
  next
    case False
    with r obtain t q s1 where s1: "s' = snd (splx (curspl s) s1)"
      "thread_wakeup mem (ThreadP t) (?s\<lparr>locks := (locks s)(lock \<mapsto> lk\<lparr>lk_owner := None, lk_queue := q\<rparr>)\<rparr>) = Some s1"
      by (auto simp: bind_Some)
    show ?thesis
    proof (rule that [OF s1(1)], rule impI)
      assume "at_high ?s"
      then have "at_high (?s\<lparr>locks := (locks s)(lock \<mapsto> lk\<lparr>lk_owner := None, lk_queue := q\<rparr>)\<rparr>)" by simp
      from thread_wakeup_keeps [OF this s1(2)]
      show "at_high s1 \<and> curthread s1 = curthread s \<and> frames s1 = frames s" by simp
    qed
  qed
qed

lemma lock_release_high:
  assumes "at_high s" "lock_release mem lock s = Some s'"
  shows "at_high s' \<and> curthread s' = curthread s"
proof -
  from assms(2) obtain s1 where s1: "s' = snd (splx (curspl s) s1)"
    "at_high (s\<lparr>status_IEc := False, curspl := SPL_HIGH\<rparr>) \<longrightarrow> at_high s1 \<and> curthread s1 = curthread s \<and> frames s1 = frames s"
    by (rule lock_release_inner)
  from s1(2) assms(1) have k: "at_high s1" "curthread s1 = curthread s" by (simp_all add: splhigh_at_high(2))
  have "s' = s1" using s1(1) assms(1) splhigh_at_high(2) [OF k(1)] by (simp add: at_high_def splx_simps)
  with k show ?thesis by simp
qed

lemma lock_release_body:
  assumes "in_body s" "lock_release mem lock s = Some s'"
  shows "good s'"
proof -
  from assms(2) obtain s1 where s1: "s' = snd (splx (curspl s) s1)"
    "at_high (s\<lparr>status_IEc := False, curspl := SPL_HIGH\<rparr>) \<longrightarrow> at_high s1 \<and> curthread s1 = curthread s \<and> frames s1 = frames s"
    by (rule lock_release_inner)
  from s1(2) splhigh_at_high(1) [OF assms(1)] s1(1) assms(1) show ?thesis
    by (auto simp: in_body_def intro!: splx0_good_frames)
qed

lemma lock_acquire_high:
  assumes "at_high s" "curthread s \<noteq> None" "hi k" "lock_acquire qmem mem lock k s = Some s'"
  shows "good s'"
proof -
  from assms(1) have "curspl s = SPL_HIGH" by (simp add: at_high_def)
  with assms(4) have "lock_loop qmem mem lock (F_splx SPL_HIGH # k) s = Some s'"
    by (auto simp: lock_acquire_def splx_simps splhigh_at_high(2) [OF assms(1)] bind_Some split: if_splits)
  from lock_loop_good [OF assms(1,2) _ this] assms(3) show ?thesis by simp
qed

lemma splhigh_body_simps:
  assumes "in_body s"
  shows "splhigh s = (0, s\<lparr>status_IEc := False, curspl := SPL_HIGH\<rparr>)"
    and "at_high (s\<lparr>status_IEc := False, curspl := SPL_HIGH\<rparr>)" and "curthread s \<noteq> None"
  using assms splhigh_at_high(1) [OF assms] by (simp_all add: splx_simps in_body_def)

lemma lock_acquire_body:
  assumes "in_body s" "lock_acquire qmem mem lock [] s = Some s'"
  shows "good s'"
  using assms(2) lock_loop_good [OF splhigh_body_simps(2) [OF assms(1)], of "[F_splx 0]"] splhigh_body_simps(3) [OF assms(1)]
  by (auto simp: lock_acquire_def splhigh_body_simps(1) [OF assms(1)] bind_Some split: if_splits)

lemma P_body:
  assumes "in_body s" "P mem sem [] s = Some s'"
  shows "good s'"
  using assms(2) P_loop_good [OF splhigh_body_simps(2) [OF assms(1)], of "[F_splx 0]"] splhigh_body_simps(3) [OF assms(1)]
  by (auto simp: P_def splhigh_body_simps(1) [OF assms(1)] bind_Some split: if_splits)

lemma clocksleep_body:
  assumes "in_body s" "clocksleep mem n [] s = Some s'"
  shows "good s'"
  using assms(2) clocksleep_loop_good [OF splhigh_body_simps(2) [OF assms(1)], of "[F_splx 0]"] splhigh_body_simps(3) [OF assms(1)]
  by (auto simp: clocksleep_def splhigh_body_simps(1) [OF assms(1)])

lemma cv_wait_body:
  assumes "in_body s" "cv_wait qmem mem cv lock [] s = Some s'"
  shows "good s'"
proof -
  note b = splhigh_body_simps [OF assms(1)]
  from assms(2) obtain s1 c t r q where s1: "lock_release mem lock (s\<lparr>status_IEc := False, curspl := SPL_HIGH\<rparr>) = Some s1"
    "thread_sleep mem (ThreadP t) [F_lock_acquire lock, F_splx 0] (s1\<lparr>cvs := (cvs s1)(cv \<mapsto> c\<lparr>cv_queue := q\<rparr>)\<rparr>) = Some s'"
    by (auto simp: cv_wait_def b(1) bind_Some split: if_splits)
  from lock_release_high [OF b(2) s1(1)] thread_sleep_good [OF _ _ s1(2)] show ?thesis by simp
qed

lemma broadcast_loop_high:
  "broadcast_loop mem cv s = Some s' \<Longrightarrow> at_high s \<Longrightarrow> at_high s' \<and> curthread s' = curthread s"
proof (induction rule: broadcast_loop.raw_induct [rotated, consumes 1, case_names step])
  case (step loop mem cv s s')
  from step(2) obtain c where c: "cvs s cv = Some c" by (auto simp: bind_Some)
  show ?case
  proof (cases "q_empty (cv_queue c)")
    case True
    with step(2,3) c show ?thesis by simp
  next
    case False
    with step(2) c obtain t q s1 where s1:
      "thread_wakeup mem (ThreadP t) (s\<lparr>cvs := (cvs s)(cv \<mapsto> c\<lparr>cv_queue := q\<rparr>)\<rparr>) = Some s1" "loop mem cv s1 = Some s'"
      by (auto simp: bind_Some)
    from thread_wakeup_keeps [OF _ s1(1)] step(3) have "at_high s1" "curthread s1 = curthread s" by simp_all
    with step(1) [OF s1(2)] show ?thesis by simp
  qed
qed

lemma cv_signal_parts:
  assumes "cv_signal qmem mem cv lock k s = Some s'"
  obtains s1 s2 where "lock_release mem lock (snd (splhigh s)) = Some s1"
    "s2 = s1 \<or> (\<exists>t c. thread_wakeup mem (ThreadP t) (s1\<lparr>cvs := c\<rparr>) = Some s2)"
    "lock_acquire qmem mem lock (F_splx (fst (splhigh s)) # k) s2 = Some s'"
proof -
  from assms obtain s1 c s2 where s: "lock_release mem lock (snd (splhigh s)) = Some s1" "cvs s1 cv = Some c"
    "(if \<not> q_empty (cv_queue c)
      then q_remhead (cv_queue c) \<bind> (\<lambda>(t, q). thread_wakeup mem (ThreadP t) (s1\<lparr>cvs := (cvs s1)(cv \<mapsto> c\<lparr>cv_queue := q\<rparr>)\<rparr>))
      else Some s1) = Some s2"
    "lock_acquire qmem mem lock (F_splx (fst (splhigh s)) # k) s2 = Some s'"
    unfolding cv_signal_def Let_def case_prod_beta bind_Some by blast
  then have "s2 = s1 \<or> (\<exists>t c. thread_wakeup mem (ThreadP t) (s1\<lparr>cvs := c\<rparr>) = Some s2)"
    by (cases "q_empty (cv_queue c)") (auto simp: bind_Some)
  with s that show thesis by blast
qed

lemma cv_signal_body:
  assumes "in_body s" "cv_signal qmem mem cv lock [] s = Some s'"
  shows "good s'"
proof -
  note b = splhigh_body_simps [OF assms(1)]
  from assms(2) obtain s1 s2 where s: "lock_release mem lock (s\<lparr>status_IEc := False, curspl := SPL_HIGH\<rparr>) = Some s1"
    "s2 = s1 \<or> (\<exists>t c. thread_wakeup mem (ThreadP t) (s1\<lparr>cvs := c\<rparr>) = Some s2)" "lock_acquire qmem mem lock [F_splx 0] s2 = Some s'"
    by (rule cv_signal_parts) (simp add: b(1))
  from lock_release_high [OF b(2) s(1)] b(3) have "at_high s1" "curthread s1 \<noteq> None" by simp_all
  with s(2) have "at_high s2" "curthread s2 \<noteq> None" by (auto dest!: thread_wakeup_keeps [rotated])
  from lock_acquire_high [OF this _ s(3)] show ?thesis by simp
qed

lemma cv_broadcast_body:
  assumes "in_body s" "cv_broadcast qmem mem cv lock [] s = Some s'"
  shows "good s'"
proof -
  note b = splhigh_body_simps [OF assms(1)]
  from assms(2) obtain s1 s2 where s: "lock_release mem lock (s\<lparr>status_IEc := False, curspl := SPL_HIGH\<rparr>) = Some s1"
    "broadcast_loop mem cv s1 = Some s2" "lock_acquire qmem mem lock [F_splx 0] s2 = Some s'"
    by (auto simp: cv_broadcast_def b(1) bind_Some split: if_splits)
  from lock_release_high [OF b(2) s(1)] broadcast_loop_high [OF s(2)] b(3) have "at_high s2" "curthread s2 \<noteq> None" by simp_all
  from lock_acquire_high [OF this _ s(3)] show ?thesis by simp
qed

lemma thread_yield_high:
  assumes "at_high s" "kok s (F_splx SPL_HIGH # k)" "thread_yield mem k s = Some s'"
  shows "good s'"
proof -
  from assms(1) have "curspl s = SPL_HIGH" by (simp add: at_high_def)
  with assms(3) have "mi_switch mem S_READY (F_splx SPL_HIGH # k) s = Some s'"
    by (auto simp: thread_yield_def splx_simps splhigh_at_high(2) [OF assms(1)] split: if_splits)
  from mi_switch_good [OF _ _ _ _ this] assms(1,2) show ?thesis by simp
qed

lemma thread_yield_body:
  assumes "in_body s" "thread_yield mem [] s = Some s'"
  shows "good s'"
proof -
  note b = splhigh_body_simps [OF assms(1)]
  from assms(2) have "mi_switch mem S_READY [F_splx 0] (s\<lparr>status_IEc := False, curspl := SPL_HIGH\<rparr>) = Some s'"
    by (auto simp: thread_yield_def b(1) split: if_splits)
  from mi_switch_good [OF _ _ _ _ this] b(2,3) show ?thesis by (auto simp: kok_def)
qed

lemma hardclock_high:
  assumes "at_high s" "kok s (F_splx SPL_HIGH # k)" "hardclock mem k s = Some s'"
  shows "good s'"
proof -
  from assms(3) obtain s1 where s1: "thread_yield mem k s1 = Some s'"
    "s1 = s\<lparr>lbolt_counter := lbolt_counter s + 1\<rparr> \<or> thread_wakeup mem LboltP (s\<lparr>lbolt_counter := 0\<rparr>) = Some s1"
    by (auto simp: hardclock_def bind_Some Let_def split: if_splits)
  from s1(2) assms(1,2) have "at_high s1" "kok s1 (F_splx SPL_HIGH # k)"
    by (auto simp: kok_def dest: thread_wakeup_keeps [rotated])
  from thread_yield_high [OF this s1(1)] show ?thesis .
qed

lemma at_high_upd_running:
  assumes "at_high s" "curthread s = Some c" "\<And>th. t_stack (f th) = t_stack th \<and> t_stackmem (f th) = t_stackmem th"
  shows "at_high (upd_thread c f s)"
  using assms(1,2) core_upd_running [of s c f] assms(3) by (simp add: at_high_def) (simp add: upd_thread_def)

lemma thread_exit_body:
  assumes "in_body s" "thread_exit mem s = Some s'"
  shows "good s'"
proof -
  from assms(1) obtain c where c: "curthread s = Some c" by (auto simp: in_body_def)
  with assms(1) obtain th where th: "threads s c = Some th" by (auto simp: in_body_def elim: core_running)
  define s1 where "s1 = s\<lparr>status_IEc := False, curspl := SPL_HIGH\<rparr>"
  define s2 where "s2 = (if t_vmspace th \<noteq> 0
       then log_call (As_destroy (t_vmspace th)) (upd_thread c (\<lambda>th. th\<lparr>t_vmspace := 0\<rparr>) s1) else s1)"
  define s3 where "s3 = (if t_cwd th \<noteq> 0
       then upd_thread c (\<lambda>th. th\<lparr>t_cwd := 0\<rparr>) (log_call (Vop_decref (t_cwd th)) s2) else s2)"
  have sw: "mi_switch mem S_ZOMB [F_dead] (s3\<lparr>numthreads := numthreads s3 - 1\<rparr>) = Some s'"
    using assms(2) c th unfolding s1_def s2_def s3_def
    by (simp add: thread_exit_def splx_simps bind_Some Let_def split: if_splits)
  have s1: "at_high s1" "curthread s1 = Some c" "threads s1 c = Some th"
    using splhigh_at_high(1) [OF assms(1)] c th by (simp_all add: s1_def)
  have s2: "at_high s2" "curthread s2 = Some c" "threads s2 c = Some (th\<lparr>t_vmspace := 0\<rparr>)"
    using s1 by (auto simp: s2_def log_call_def at_high_upd_running) (simp_all add: upd_thread_def)
  have s3: "at_high s3" "curthread s3 = Some c" "threads s3 c = Some (th\<lparr>t_vmspace := 0, t_cwd := 0\<rparr>)"
    using s2 by (auto simp: s3_def log_call_def at_high_upd_running) (simp_all add: upd_thread_def)
  show ?thesis
    by (rule mi_switch_good [OF _ _ _ _ sw]) (use s3 in \<open>simp_all\<close>)
qed

lemma core_upd_pcb:
  assumes "threads_core s"
    "\<And>th. t_stack (f th) = t_stack th \<and> t_stackmem (f th) = t_stackmem th \<and> t_vmspace (f th) = t_vmspace th \<and>
       t_cwd (f th) = t_cwd th \<and> pcb_frames (t_pcb (f th)) = pcb_frames (t_pcb th)"
  shows "threads_core (upd_thread t f s)"
proof -
  have frs: "fr (upd_thread t f s) = fr s" using assms(2) by (auto simp: fr_def upd_thread_def fun_eq_iff split: option.split)
  from assms(1) have "lists_ok (upd_thread t f s)" by (simp add: threads_core_def lists_ok_def)
  moreover from assms(1) have "places_ok (upd_thread t f s)" unfolding threads_core_def places_ok_def upd_views by blast
  moreover from assms(1) have "waiting_ok (upd_thread t f s)" unfolding threads_core_def waiting_ok_def frs by simp
  moreover have thr: "threads (upd_thread t f s) x = (if x = t then map_option f (threads s x) else threads s x)" for x
    by (simp add: upd_thread_def)
  have "dead_ok (upd_thread t f s)" unfolding dead_ok_def upd_views
  proof
    fix x assume "x \<in> set (dead s)"
    with assms(1) obtain th where "threads s x = Some th" "t_vmspace th = 0" "t_cwd th = 0"
      by (auto simp: threads_core_def dead_ok_def)
    then show "\<exists>th. threads (upd_thread t f s) x = Some th \<and> t_vmspace th = 0 \<and> t_cwd th = 0"
      using assms(2) [of th] by (auto simp: thr)
  qed
  moreover have "stacks_ok (upd_thread t f s)"
    using assms by (auto simp: threads_core_def stacks_ok_def thr split: if_splits)
  ultimately show ?thesis by (simp add: threads_core_def)
qed

lemma mi_dispatch_eff:
  assumes ok: "lists_ok s" "mi_dispatch s = Some s'"
  obtains old nxt q xs where "switching s = Some old" "ready s = nxt # xs" "q_inv q" "q_size q < 2 ^ 29" "q_list q = xs" "curspl s > 0"
    "md_switch old nxt (s\<lparr>runqueue := Some q, curthread := Some nxt, switching := None\<rparr>) = Some s'"
proof -
  from ok(1) obtain q where q: "runqueue s = Some q" "q_inv q" "q_size q < 2 ^ 29" "ready s = q_list q" by (rule lists_okE)
  from ok(2) q(1) obtain old nxt q' where d: "switching s = Some old" "\<not> q_empty q" "q_remhead q = Some (nxt, q')" "curspl s > 0"
    "md_switch old nxt (s\<lparr>runqueue := Some q', curthread := Some nxt, switching := None\<rparr>) = Some s'"
    by (auto simp: mi_dispatch_def scheduler_def bind_Some split: if_splits)
  from d(2) q(2) obtain x xs where xs: "q_list q = x # xs" by (cases "q_list q") (auto simp: q_empty_iff)
  from q_remhead_Cons [OF q(2) xs] d(3) have "q_inv q'" "q_list q' = xs" "q_size q' = q_size q" "x = nxt" by auto
  with d q xs that show thesis by simp
qed

lemma mi_dispatch_good:
  assumes "at_high s" "curthread s = None" "idle_frames s = []" "mi_dispatch s = Some s'"
  shows "good s'"
proof -
  from assms(1) have core: "threads_core s" and lists: "lists_ok s" by (simp_all add: at_high_def threads_core_def)
  from lists assms(4) obtain old nxt q xs where d: "switching s = Some old" "ready s = nxt # xs" "q_inv q" "q_size q < 2 ^ 29"
    "q_list q = xs" "curspl s > 0"
    "md_switch old nxt (s\<lparr>runqueue := Some q, curthread := Some nxt, switching := None\<rparr>) = Some s'"
    by (rule mi_dispatch_eff)
  let ?s = "s\<lparr>runqueue := Some q, curthread := Some nxt, switching := None\<rparr>"
  have views: "running ?s = [nxt]" "ready ?s = xs" "asleep ?s = asleep s" "dead ?s = dead s" "\<And>t. fr ?s t = fr s t"
    "running s = []"
    using d(5) assms(2) by (simp_all add: view_defs fr_def)
  have len: "q_count q = length xs" using d(5) by auto
  have "lists_ok ?s"
    using lists d(2-5) len views unfolding lists_ok_def by (simp split: option.splits)
  moreover have "places_ok ?s" using core d(2) views by (auto simp: threads_core_def places_ok_def)
  moreover have w: "waiting_ok ?s" using core d(2) unfolding threads_core_def waiting_ok_def views by simp
  moreover have "dead_ok ?s" "stacks_ok ?s" using core views(4) by (simp_all add: threads_core_def dead_ok_def stacks_ok_def)
  ultimately have c: "threads_core ?s" by (simp add: threads_core_def)
  from core d(2) have f: "fr s nxt = [F_start] \<or> (\<exists>k. fr s nxt = F_switch # k \<and> hi k)"
    by (simp add: threads_core_def waiting_ok_def)
  define g where "g = (\<lambda>th. th\<lparr>t_pcb := (t_pcb th)\<lparr>pcb_kstack := curkstack s, pcb_ininterrupt := in_interrupt s\<rparr>\<rparr> :: thread)"
  obtain x y where s': "s' = ?s \<or> s' = (upd_thread old g ?s)\<lparr>curkstack := x, in_interrupt := y\<rparr>"
    using d(7) by (auto simp: md_switch_def g_def bind_Some Let_def split: if_splits)
  have "threads_core s'"
    using s' c core_upd_pcb [OF c, of g] by (auto simp: g_def)
  moreover have "frames s' = fr s nxt"
    using s' by (auto simp: frames_def fr_def upd_thread_def g_def split: option.split if_splits)
  with f s' assms(1,3) have "spl_ok s'" by (auto simp: spl_ok_def at_high_def) (auto simp: upd_thread_def)
  ultimately show ?thesis by (simp add: good_def)
qed

section \<open>Forking\<close>

lemma array_preallocate_full:
  assumes "array_full a" "n < 2 ^ 29"
  shows "\<exists>r a'. array_preallocate mem a n = Some (r, a') \<and> array_full a' \<and> array_elems a' = array_elems a \<and>
    (mem \<longrightarrow> r = Inr () \<and> n \<le> arr_max a') \<and> (\<not> mem \<longrightarrow> r = Inl ENOMEM \<and> a' = a)"
proof (cases mem)
  case True
  have inv: "array_inv a" using assms(1) by (simp add: array_full_def)
  from array_preallocate_ok [OF inv assms(2)] obtain a' where a': "array_preallocate True a n = Some (Inr (), a')" "array_inv a'"
    "array_list a' = array_list a" "n \<le> arr_max a'" by blast
  from a'(2,3) assms(1) have "array_full a'" "array_elems a' = array_elems a" by (simp_all add: array_full_def array_elems_def)
  with a' True show ?thesis by auto
next
  case False
  with array_preallocate_nomem [of a n] assms show ?thesis by (auto simp: array_full_def)
qed

lemma q_grow_size_less:
  assumes "0 < n" "q_grow_size t n = Some r" "n < 2 ^ 30" "t \<le> 2 ^ 29"
  shows "r = n \<or> r < 2 * t"
  using assms
proof (induction t n rule: q_grow_size.induct)
  case (1 t n)
  show ?case
  proof (cases "n < t")
    case True
    with "1.prems" have w: "swrap32 (n * 2) = n * 2" "0 < n * 2" "n * 2 < 2 ^ 30" by simp_all
    with "1.prems"(2) True have "q_grow_size t (n * 2) = Some r" by (simp add: q_grow_size.simps [of t n])
    with "1.IH" [OF True] w "1.prems"(4) have "r = n * 2 \<or> r < 2 * t" by simp
    with True show ?thesis by auto
  next
    case False
    with "1.prems"(2) show ?thesis by (simp add: q_grow_size.simps [of t n])
  qed
qed

lemma q_preallocate_full:
  assumes "q_inv q" "q_size q < 2 ^ 29" "n \<le> 2 ^ 28"
  shows "\<exists>r q'. q_preallocate mem q n = Some (r, q') \<and> q_inv q' \<and> q_list q' = q_list q \<and> q_size q' < 2 ^ 29 \<and>
    n \<le> q_size q' \<or> q_preallocate mem q n = Some (Inl ENOMEM, q) \<and> \<not> mem"
proof (cases "n > q_size q")
  case False
  with assms show ?thesis by (auto simp: q_preallocate_def q_inv_def)
next
  case True
  have n: "n \<le> 2 ^ 29" using assms(3) by simp
  show ?thesis
  proof (cases mem)
    case mem: True
    obtain q' where q': "q_grow_with (q_addtail_n (Suc 0) True) True q n = Some (Inr (), q')" "q_inv q'" "q_list q' = q_list q"
      "n \<le> q_size q'" "q_grow_size n (q_size q) = Some (q_size q')"
      using q_grow_with_ok [OF assms(1) n, of 0 True] by blast
    have "q_size q' < 2 ^ 29"
      using q_grow_size_less [OF _ q'(5) _ n] assms by (auto simp: q_inv_def)
    then show ?thesis using q' True mem assms(1) by (auto simp: q_preallocate_def q_grow_def q_inv_def)
  next
    case nomem: False
    then show ?thesis using q_grow_with_nomem [OF assms(1) n] True assms(1) by (auto simp: q_preallocate_def q_grow_def q_inv_def)
  qed
qed

lemma q_addtail_total:
  assumes "q_inv q" "q_size q < 2 ^ 29"
  shows "\<exists>r q'. q_addtail mem q x = Some (r, q')"
proof (cases "mem \<or> int (q_count q) < q_room q")
  case True
  then show ?thesis using q_addtail_ok [OF assms True, of x] by blast
next
  case False
  then have "int (q_count q) = q_room q" using q_count_less [OF assms(1)] by (simp add: q_room_def)
  then show ?thesis using q_addtail_nomem [OF assms, of x] False by simp
qed

lemma fork_fail_eff:
  assumes f: "fork_fail 0 t e s1 = Some (r, s')" and t: "threads s t = None" and b: "curspl s = 0" "status_IEc s"
    and s1: "s1 = s\<lparr>calls := csa, threads := (threads s)(t \<mapsto> nt), status_IEc := False, curspl := SPL_HIGH,
      sleepers := Some a, zombies := Some z, runqueue := Some q\<rparr>"
  obtains cs where "r = Inl e" "s' = s\<lparr>runqueue := Some q, sleepers := Some a, zombies := Some z, calls := cs\<rparr>"
proof -
  have thr: "(threads s)(t := None) = threads s" using t by auto
  define cs where "cs = (if t_cwd nt \<noteq> 0 then csa @ [Vop_decref (t_cwd nt)] else csa)"
  have "fork_fail 0 t e s1 = Some (Inl e, s1\<lparr>status_IEc := True, curspl := 0, calls := cs, threads := (threads s)(t := None)\<rparr>)"
    by (simp add: s1 fork_fail_def splx_simps log_call_def cs_def)
  then have r: "r = Inl e" "s' = s1\<lparr>status_IEc := True, curspl := 0, calls := cs, threads := threads s\<rparr>"
    using f thr by simp_all
  have "s1\<lparr>status_IEc := True, curspl := 0, calls := cs, threads := threads s\<rparr> =
      s\<lparr>runqueue := Some q, sleepers := Some a, zombies := Some z, calls := cs\<rparr>"
    using b by (simp add: s1)
  with r(2) have "s' = s\<lparr>runqueue := Some q, sleepers := Some a, zombies := Some z, calls := cs\<rparr>" by (rule trans)
  with r(1) show thesis by (rule that)
qed

lemma thread_fork_eff:
  assumes b: "in_body s" and fresh: "\<forall>t. m_thread mem = Some t \<longrightarrow> threads s t = None"
    and room: "length (running s @ ready s @ asleep s @ dead s) + 2 < 2 ^ 28"
    and f: "thread_fork mem name s = Some (r, s')"
  obtains (failed) e q a z cs where "r = Inl e" "s' = s\<lparr>runqueue := Some q, sleepers := Some a, zombies := Some z, calls := cs\<rparr>"
    "q_inv q" "q_size q < 2 ^ 29" "array_full a" "array_full z" "q_list q = ready s" "array_elems a = asleep s" "array_elems z = dead s"
  | (forked) t th cur q a z cs where "r = Inr t" "threads s t = None" "t_cwd th = 0"
    "s' = s\<lparr>runqueue := Some q, sleepers := Some a, zombies := Some z, calls := cs,
       threads := (threads s)(t \<mapsto> fork_thread (m_stack mem) th cur), numthreads := numthreads s + 1\<rparr>"
    "q_inv q" "q_size q < 2 ^ 29" "array_full a" "array_full z" "q_list q = ready s @ [t]" "array_elems a = asleep s" "array_elems z = dead s"
    "numthreads s + 1 \<le> arr_max a"
proof -
  from b have core: "threads_core s" and spl: "curspl s = 0" "status_IEc s" by (simp_all add: in_body_def)
  from core have lists: "lists_ok s" by (simp add: threads_core_def)
  then obtain q a z where l: "runqueue s = Some q" "sleepers s = Some a" "zombies s = Some z"
    "q_inv q" "q_size q < 2 ^ 29" "array_full a" "array_full z"
    "ready s = q_list q" "asleep s = array_elems a" "dead s = array_elems z" by (rule lists_okE)
  have same: "thesis" if "s' = s" "r = Inl ENOMEM"
    by (rule failed [where q = q and a = a and z = z and cs = "calls s"]) (use that l in simp_all)
  show thesis
  proof (cases "thread_create (m_thread mem) (m_name mem) name")
    case None
    with f same show ?thesis by (simp add: thread_fork_def)
  next
    case (Some p)
    obtain t th where p: "p = (t, th)" by (cases p)
    from Some p have t: "m_thread mem = Some t" "t_cwd th = 0"
      by (auto simp: thread_create_def bind_Some split: if_splits)
    have fr: "threads s t = None" using fresh t(1) by blast
    show ?thesis
    proof (cases "m_stack mem = 0")
      case True
      with f Some p same show ?thesis by (simp add: thread_fork_def)
    next
      case False
      from b obtain c where c: "curthread s = Some c" by (auto simp: in_body_def)
      with core obtain cur where cur: "threads s c = Some cur" by (rule core_running)
      define cs1 where "cs1 = (if t_cwd cur \<noteq> 0 then calls s @ [Vop_incref (t_cwd cur)] else calls s)"
      define nt where "nt = fork_thread (m_stack mem) th cur"
      define s1 where "s1 = s\<lparr>calls := cs1, threads := (threads s)(t \<mapsto> nt), status_IEc := False, curspl := SPL_HIGH\<rparr>"
      let ?n = "numthreads s + 1"
      have n: "?n < 2 ^ 28" using core room by (simp add: threads_core_def places_ok_def)
      obtain ra a1 where a1: "array_preallocate (m_sleepers mem) a ?n = Some (ra, a1)" "array_full a1" "array_elems a1 = array_elems a"
        "ra = Inl ENOMEM \<or> ra = Inr () \<and> ?n \<le> arr_max a1"
        using array_preallocate_full [OF l(6), of ?n "m_sleepers mem"] n by (cases "m_sleepers mem") auto
      obtain rz z1 where z1: "array_preallocate (m_zombies mem) z ?n = Some (rz, z1)" "array_full z1" "array_elems z1 = array_elems z"
        "rz = Inl ENOMEM \<or> rz = Inr ()"
        using array_preallocate_full [OF l(7), of ?n "m_zombies mem"] n by (cases "m_zombies mem") auto
      obtain rq q1 where q1: "q_preallocate (m_runqueue mem) q ?n = Some (rq, q1)" "q_inv q1" "q_list q1 = q_list q" "q_size q1 < 2 ^ 29"
        using q_preallocate_full [OF l(4,5), of ?n "m_runqueue mem"] n l(4,5) by (auto simp: )
      obtain rt q2 where q2: "q_addtail (m_list mem) q1 t = Some (rt, q2)" using q_addtail_total [OF q1(2,4)] by blast
      have cnt: "q_count q1 + 1 < 2 ^ 28" using q1(3) room l(8) q_list_length [of q1] by simp
      have q2': "q_inv q2" "q_size q2 < 2 ^ 29" "rt = Inl ENOMEM \<and> q_list q2 = q_list q \<or> rt = Inr () \<and> q_list q2 = q_list q @ [t]"
        using q_addtail_cases [OF q1(2,4) q2] q1(3,4) cnt by (auto simp: q_room_def)
      let ?s2 = "s1\<lparr>sleepers := Some a1, zombies := Some z1, runqueue := Some q2\<rparr>"
      have fork: "thread_fork mem name s =
        (case ra of Inl e \<Rightarrow> fork_fail 0 t e (s1\<lparr>sleepers := Some a1\<rparr>) | Inr _ \<Rightarrow>
          (case rz of Inl e \<Rightarrow> fork_fail 0 t e (s1\<lparr>sleepers := Some a1, zombies := Some z1\<rparr>) | Inr _ \<Rightarrow>
            (case rq of Inl e \<Rightarrow> fork_fail 0 t e (s1\<lparr>sleepers := Some a1, zombies := Some z1, runqueue := Some q1\<rparr>) | Inr _ \<Rightarrow>
              (case rt of Inl e \<Rightarrow> fork_fail 0 t e ?s2 | Inr _ \<Rightarrow>
                Some (Inr t, snd (splx 0 (?s2\<lparr>numthreads := numthreads s + 1\<rparr>)))))))"
        using Some p False c cur l(1-3) a1(1) z1(1) q1(1) q2 spl
        by (simp add: thread_fork_def splx_simps s1_def nt_def cs1_def log_call_def Let_def scheduler_preallocate_def make_runnable_def
              split: sum.split)
      have same: "s1\<lparr>sleepers := Some a1\<rparr> = s1\<lparr>sleepers := Some a1, zombies := Some z, runqueue := Some q\<rparr>"
        "s1\<lparr>sleepers := Some a1, zombies := Some z1\<rparr> = s1\<lparr>sleepers := Some a1, zombies := Some z1, runqueue := Some q\<rparr>"
        using l(1,3) by (simp_all add: s1_def)
      have fail: thesis if ff: "fork_fail 0 t e (s1\<lparr>sleepers := Some a', zombies := Some z', runqueue := Some q'\<rparr>) = Some (r, s')"
        and l': "q_inv q'" "q_size q' < 2 ^ 29" "array_full a'" "array_full z'" "q_list q' = ready s" "array_elems a' = asleep s" "array_elems z' = dead s"
        for e a' z' q'
      proof -
        from ff fr spl obtain cs where "r = Inl e" "s' = s\<lparr>runqueue := Some q', sleepers := Some a', zombies := Some z', calls := cs\<rparr>"
          by (rule fork_fail_eff [where csa = cs1 and nt = nt]) (simp add: s1_def)
        then show thesis using l' by (rule failed)
      qed
      show thesis
      proof (cases "ra = Inr () \<and> rz = Inr () \<and> rq = Inr () \<and> rt = Inr ()")
        case True
        with fork f have r: "r = Inr t" "s' = snd (splx 0 (?s2\<lparr>numthreads := numthreads s + 1\<rparr>))" by simp_all
        show thesis
          by (rule forked [where t = t and th = th and cur = cur and q = q2 and a = a1 and z = z1 and cs = cs1])
            (use r True q2' a1 z1 fr t(2) l spl in \<open>auto simp: s1_def nt_def splx_simps\<close>)
      next
        case False
        note e = a1(2-4) z1(2-4) q1(2-4) q2' l
        consider e1 where "ra = Inl e1" | e1 where "ra = Inr ()" "rz = Inl e1" | e1 where "ra = Inr ()" "rz = Inr ()" "rq = Inl e1"
          | e1 where "ra = Inr ()" "rz = Inr ()" "rq = Inr ()" "rt = Inl e1"
          using False by (metis (full_types) old.sum.exhaust old.unit.exhaust)
        then show thesis
        proof cases
          case 1
          with f fork have "fork_fail 0 t e1 (s1\<lparr>sleepers := Some a1\<rparr>) = Some (r, s')" by simp
          then have "fork_fail 0 t e1 (s1\<lparr>sleepers := Some a1, zombies := Some z, runqueue := Some q\<rparr>) = Some (r, s')"
            by (simp only: same(1) [symmetric])
          from fail [OF this] e show thesis by simp
        next
          case 2
          with f fork have "fork_fail 0 t e1 (s1\<lparr>sleepers := Some a1, zombies := Some z1\<rparr>) = Some (r, s')" by simp
          then have "fork_fail 0 t e1 (s1\<lparr>sleepers := Some a1, zombies := Some z1, runqueue := Some q\<rparr>) = Some (r, s')"
            by (simp only: same(2) [symmetric])
          from fail [OF this] e show thesis by simp
        next
          case 3
          show thesis by (rule fail [where e = e1 and a' = a1 and z' = z1 and q' = q1]) (use 3 f fork e in simp_all)
        next
          case 4
          show thesis by (rule fail [where e = e1 and a' = a1 and z' = z1 and q' = q2]) (use 4 f fork e in auto)
        qed
      qed
    qed
  qed
qed

lemma core_containers:
  assumes "threads_core s" "q_inv q" "q_size q < 2 ^ 29" "array_full a" "array_full z"
    "q_list q = ready s" "array_elems a = asleep s" "array_elems z = dead s"
  shows "threads_core (s\<lparr>runqueue := Some q, sleepers := Some a, zombies := Some z\<rparr>)"
proof -
  let ?s = "s\<lparr>runqueue := Some q, sleepers := Some a, zombies := Some z\<rparr>"
  have views: "running ?s = running s" "ready ?s = ready s" "asleep ?s = asleep s" "dead ?s = dead s" "\<And>t. fr ?s t = fr s t"
    using assms(6-8) by (simp_all add: view_defs fr_def)
  from assms have "lists_ok ?s" unfolding threads_core_def lists_ok_def views by simp
  moreover have same: "threads ?s = threads s" "switching ?s = switching s" "curthread ?s = curthread s" "numthreads ?s = numthreads s"
    by simp_all
  from assms(1) have "places_ok ?s" unfolding threads_core_def places_ok_def views same by (elim conjE) (intro conjI)
  moreover from assms(1) have "waiting_ok ?s" "dead_ok ?s" unfolding threads_core_def waiting_ok_def dead_ok_def views by simp_all
  moreover from assms(1) have "stacks_ok ?s" by (simp add: threads_core_def stacks_ok_def)
  ultimately show ?thesis by (simp add: threads_core_def)
qed

lemma fork_core:
  assumes core: "threads_core s" and t: "threads s t = None" and m: "t_stack nt = 0 \<or> take 4 (t_stackmem nt) = stack_magic"
    and fr: "pcb_frames (t_pcb nt) = [F_start]" and cur: "curthread s \<noteq> None"
    and q: "q_inv q" "q_size q < 2 ^ 29" "q_list q = ready s @ [t]"
    and room: "length (running s @ ready s @ asleep s @ dead s) + 1 < 2 ^ 28"
  shows "threads_core (s\<lparr>runqueue := Some q, threads := (threads s)(t \<mapsto> nt), numthreads := numthreads s + 1\<rparr>)"
proof -
  let ?s = "s\<lparr>runqueue := Some q, threads := (threads s)(t \<mapsto> nt), numthreads := numthreads s + 1\<rparr>"
  have views: "running ?s = running s" "ready ?s = ready s @ [t]" "asleep ?s = asleep s" "dead ?s = dead s"
    "\<And>x. fr ?s x = (if x = t then [F_start] else fr s x)"
    using q(3) fr by (simp_all add: view_defs fr_def)
  from core have d: "dom (threads s) = set (running s @ ready s @ asleep s @ dead s)" by (simp add: threads_core_def places_ok_def)
  with t have tn: "t \<notin> set (running s @ ready s @ asleep s @ dead s)" by auto
  have "lists_ok ?s"
    using core q(1,2) room unfolding threads_core_def lists_ok_def views by (auto split: option.splits)
  moreover have "places_ok ?s"
    using core tn d cur unfolding threads_core_def places_ok_def views by auto
  moreover have "waiting_ok ?s" using core tn unfolding threads_core_def waiting_ok_def views by auto
  moreover have "dead_ok ?s" using core tn unfolding threads_core_def dead_ok_def views by auto
  moreover have "stacks_ok ?s" using core m by (auto simp: threads_core_def stacks_ok_def)
  ultimately show ?thesis by (simp add: threads_core_def)
qed

lemma thread_fork_body:
  assumes b: "in_body s" and fresh: "\<forall>t. m_thread mem = Some t \<longrightarrow> threads s t = None"
    and room: "length (running s @ ready s @ asleep s @ dead s) + 2 < 2 ^ 28"
    and f: "thread_fork mem name s = Some (r, s')"
  shows "good s'"
  using b fresh room f
proof (cases rule: thread_fork_eff)
  case (failed e q a z cs)
  from b have core: "threads_core s" by (simp add: in_body_def)
  from core_containers [OF core failed(3-9)] have "threads_core s'" unfolding failed(2) by simp
  moreover have "spl_ok s'" using b by (auto simp: spl_ok_def in_body_def failed(2))
  ultimately show ?thesis by (simp add: good_def)
next
  case (forked t th cur q a z cs)
  from b have core: "threads_core s" by (simp add: in_body_def)
  let ?s = "s\<lparr>sleepers := Some a, zombies := Some z\<rparr>"
  from core obtain q0 where q0: "runqueue s = Some q0" "q_inv q0" "q_size q0 < 2 ^ 29" "ready s = q_list q0"
    by (auto simp: threads_core_def elim: lists_okE)
  have "threads_core (s\<lparr>runqueue := Some q0, sleepers := Some a, zombies := Some z\<rparr>)"
    by (rule core_containers [OF core q0(2,3) forked(7,8) q0(4) [symmetric] forked(10,11)])
  moreover have "s\<lparr>runqueue := Some q0, sleepers := Some a, zombies := Some z\<rparr> = ?s" using q0(1) by simp
  ultimately have c1: "threads_core ?s" by (simp only:)
  have v: "ready ?s = ready s" "running ?s = running s" "asleep ?s = asleep s" "dead ?s = dead s"
    using forked(10,11) by (simp_all add: view_defs)
  let ?s2 = "?s\<lparr>runqueue := Some q, threads := (threads s)(t \<mapsto> fork_thread (m_stack mem) th cur), numthreads := numthreads s + 1\<rparr>"
  have "threads_core ?s2"
    using fork_core [OF c1, of t "fork_thread (m_stack mem) th cur" q] forked(2,5,6,9) room b
    by (simp add: fork_thread_def md_initpcb_def stack_magic_def in_body_def v)
  moreover have "threads_core s' = threads_core ?s2" by (rule core_cong) (simp_all add: forked(4))
  ultimately have "threads_core s'" by simp
  moreover from b obtain c where c: "curthread s = Some c" by (auto simp: in_body_def)
  from core c obtain th0 where "threads s c = Some th0" by (rule core_running)
  then have "frames s' = []"
    using b c forked(2) by (auto simp: forked(4) in_body_def frames_def)
  then have "spl_ok s'" using b by (auto simp: spl_ok_def in_body_def forked(4))
  ultimately show ?thesis by (simp add: good_def)
qed

section \<open>Every step keeps the invariant\<close>

lemma mips_interrupt_good:
  assumes "at_high s" "\<And>i. kok s (F_splx SPL_HIGH # F_interrupt i # k)" "\<And>i. kok s (F_interrupt i # k)" "mips_interrupt mem irq k s = Some s'"
  shows "good s'"
proof (cases irq)
  case Irq_timer
  with assms(4) have "hardclock mem (F_interrupt (in_interrupt s) # k) (s\<lparr>in_interrupt := 1\<rparr>) = Some s'"
    by (auto simp: mips_interrupt_def Let_def split: if_splits)
  from hardclock_high [OF _ _ this] assms(1,2) show ?thesis by simp
next
  case (Irq_device sem)
  with assms(4) have "V mem sem (F_interrupt (in_interrupt s) # k) (s\<lparr>in_interrupt := 1\<rparr>) = Some s'"
    by (auto simp: mips_interrupt_def Let_def split: if_splits)
  from V_high [OF _ _ this] assms(1,3) show ?thesis by simp
qed

lemma take_interrupt_body:
  assumes "in_body s" "take_interrupt mem irq s = Some s'"
  shows "good s'"
proof -
  from assms have "mips_interrupt mem irq [F_trap 0 True] (s\<lparr>status_IEc := False, curspl := SPL_HIGH\<rparr>) = Some s'"
    by (simp add: take_interrupt_def in_body_def)
  from mips_interrupt_good [OF splhigh_at_high(1) [OF assms(1)] _ _ this] assms(1) show ?thesis
    by (auto simp: kok_def in_body_def)
qed

lemma take_interrupt_idle:
  assumes "at_high s" "curthread s = None" "idle_frames s = []" "take_interrupt mem irq s = Some s'"
  shows "good s'"
proof -
  from assms have "mips_interrupt mem irq [F_trap SPL_HIGH False] s = Some s'"
    by (simp add: take_interrupt_def at_high_def frames_def splhigh_at_high(2) [OF assms(1), unfolded at_high_def])
  from mips_interrupt_good [OF assms(1) _ _ this] assms(2) show ?thesis by (auto simp: kok_def idle_ok_def)
qed

lemma exec_frame_good:
  assumes h: "at_high s" and k: "kok s (f # k)" and e: "exec_frame qmem mem f k s = Some s'"
  shows "good s'"
proof (cases "curthread s")
  case None
  with k obtain i where "f # k = [F_trap SPL_HIGH False] \<or> f # k = [F_interrupt i, F_trap SPL_HIGH False] \<or>
      f # k = [F_splx SPL_HIGH, F_interrupt i, F_trap SPL_HIGH False]"
    by (auto simp: kok_def idle_ok_def)
  moreover have "s\<lparr>curspl := SPL_HIGH, status_IEc := False\<rparr> = s" using h by (simp add: at_high_def)
  ultimately have "kok s k" "s' = go k s \<or> (\<exists>x. s' = go k (s\<lparr>in_interrupt := x\<rparr>))"
    using None e by (auto simp: kok_def idle_ok_def trap_done_def splx_simps splhigh_at_high(2) [OF h])
  then show ?thesis using h by (auto intro: go_good)
next
  case (Some c)
  then have c: "curthread s \<noteq> None" by simp
  from k Some have hi: "hi (f # k)" by (simp add: kok_def)
  have go: "good (go k s)" if "hi k" using go_good [OF h] that Some by (simp add: kok_def)
  show ?thesis
  proof (cases f)
    case F_switch
    with hi e mi_switch_return_good [OF h c] show ?thesis by simp
  next
    case F_start
    with e mi_threadstart_good [OF h c] show ?thesis by simp
  next
    case F_wake
    have "at_high (upd_thread c (\<lambda>th. th\<lparr>t_sleepaddr := NullP\<rparr>) s)" using h Some by (rule at_high_upd_running) simp
    from go_good [OF this, of k] F_wake hi e Some show ?thesis by (auto simp: thread_sleep_return_def kok_def)
  next
    case (F_splx spl)
    then have "spl = 0 \<and> k = [] \<or> spl = SPL_HIGH \<and> hi k" using hi by simp
    then show ?thesis
    proof (elim disjE conjE)
      assume "spl = 0" "k = []"
      with splx0_good [OF h c] e F_splx show ?thesis by simp
    next
      assume "spl = SPL_HIGH" "hi k"
      with go e F_splx splhigh_at_high(2) [OF h] show ?thesis by (simp add: splx_simps)
    qed
  next
    case (F_clocksleep n)
    with hi e clocksleep_loop_good [OF h c] show ?thesis by simp
  next
    case (F_P sem)
    with hi e P_loop_good [OF h c] show ?thesis by simp
  next
    case (F_lock_loop l)
    with hi e lock_loop_good [OF h c] show ?thesis by simp
  next
    case (F_lock_acquire l)
    with hi e lock_acquire_high [OF h c] show ?thesis by simp
  next
    case (F_interrupt i)
    with hi e go_good [of "s\<lparr>in_interrupt := i\<rparr>" k] h Some show ?thesis by (auto simp: kok_def)
  next
    case (F_trap spl b)
    with hi e have "s' = go [] (s\<lparr>curspl := 0, status_IEc := True\<rparr>)"
      by (simp add: trap_done_def splx_simps)
    moreover have "s\<lparr>curspl := 0, status_IEc := True\<rparr> = snd (splx 0 s)" by (simp add: splx_simps)
    ultimately have "s' = go [] (snd (splx 0 s))" by (simp only:)
    with splx0_good [OF h c] show ?thesis by simp
  qed (use hi in simp)
qed

lemma body_objects:
  assumes "in_body s"
  shows "good (s\<lparr>sems := x1\<rparr>)" "good (s\<lparr>locks := x2\<rparr>)" "good (s\<lparr>cvs := x3\<rparr>)" "good s"
  using assms by (auto simp: good_def in_body_def spl_ok_def)

lemma body_spl:
  assumes "in_body s"
  shows "snd (splx 0 (s\<lparr>status_IEc := False, curspl := SPL_HIGH\<rparr>)) = s"
  using assms by (simp add: in_body_def splx_simps)

lemma create_body:
  assumes b: "in_body s"
  shows "sem_create m nm name n s = Some (r, s') \<Longrightarrow> good s'"
    and "lock_create m nm q1 q2 name s = Some (r, s') \<Longrightarrow> good s'"
    and "cv_create m nm q1 q2 name s = Some (r, s') \<Longrightarrow> good s'"
  using body_objects [OF b]
  by (auto simp: sem_create_def lock_create_def cv_create_def bind_Some split: option.splits if_splits)

lemma destroy_eff:
  assumes b: "in_body s"
  shows "sem_destroy x s = Some s' \<Longrightarrow> s' = s\<lparr>sems := (sems s)(x := None)\<rparr> \<and>
      thread_hassleepers (SemP x) (s\<lparr>status_IEc := False, curspl := SPL_HIGH\<rparr>) = Some False"
    and "lock_destroy x s = Some s' \<Longrightarrow> \<exists>lk. locks s x = Some lk \<and> q_empty (lk_queue lk) \<and> s' = s\<lparr>locks := (locks s)(x := None)\<rparr>"
    and "cv_destroy x s = Some s' \<Longrightarrow> \<exists>c. cvs s x = Some c \<and> q_empty (cv_queue c) \<and> s' = s\<lparr>cvs := (cvs s)(x := None)\<rparr>"
  by (auto simp: sem_destroy_def lock_destroy_def cv_destroy_def splhigh_body_simps(1) [OF b] body_spl [OF b] bind_Some Let_def
      split: if_splits)

lemma destroy_body:
  assumes b: "in_body s"
  shows "sem_destroy x s = Some s' \<Longrightarrow> good s'"
    and "lock_destroy x s = Some s' \<Longrightarrow> good s'"
    and "cv_destroy x s = Some s' \<Longrightarrow> good s'"
  using body_objects [OF b] destroy_eff [OF b, of x s'] by auto

lemma kcall_good:
  assumes b: "in_body s" and fresh: "fresh_mem mem s"
    and room: "length (running s @ ready s @ asleep s @ dead s) + 2 < 2 ^ 28" and e: "kcall qmem mem op s = Some s'"
  shows "good s'"
proof -
  from fresh have f: "\<forall>t. m_thread mem = Some t \<longrightarrow> threads s t = None" by (auto simp: fresh_mem_def)
  show ?thesis
    using e
    by (cases op)
      (auto intro: thread_yield_body [OF b] thread_fork_body [OF b f room] thread_exit_body [OF b] clocksleep_body [OF b]
        P_body [OF b] V_body [OF b] lock_acquire_body [OF b] lock_release_body [OF b] cv_wait_body [OF b] cv_signal_body [OF b]
        cv_broadcast_body [OF b] create_body [OF b] destroy_body [OF b])
qed

lemma threads_ok_cases:
  assumes "threads_ok s"
  shows "frames s = [] \<Longrightarrow> curthread s \<noteq> None \<Longrightarrow> in_body s"
    and "frames s \<noteq> [] \<or> curthread s = None \<Longrightarrow> at_high s"
    and "frames s = f # k \<Longrightarrow> kok s (f # k)"
    and "status_IEc s \<Longrightarrow> in_body s"
    and "length (running s @ ready s @ asleep s @ dead s) \<le> 2 ^ 17"
proof -
  from assms have core: "threads_core s" and spl: "spl_ok s" and fits: "fits s" by (simp_all add: threads_ok_def)
  show "frames s = [] \<Longrightarrow> curthread s \<noteq> None \<Longrightarrow> in_body s" "status_IEc s \<Longrightarrow> in_body s"
    "frames s \<noteq> [] \<or> curthread s = None \<Longrightarrow> at_high s"
    using core spl by (auto simp: spl_ok_def in_body_def at_high_def split: option.splits if_splits)
  show "frames s = f # k \<Longrightarrow> kok s (f # k)"
    using spl by (auto simp: spl_ok_def kok_def frames_def split: option.splits)
  from core have "card (dom (threads s)) = length (running s @ ready s @ asleep s @ dead s)"
    unfolding threads_core_def places_ok_def by (metis distinct_card)
  with fits show "length (running s @ ready s @ asleep s @ dead s) \<le> 2 ^ 17" by (simp add: fits_def)
qed

lemma kstep_threads_ok:
  assumes "threads_ok s" "kstep qmem a s s'"
  shows "threads_ok s'"
proof -
  note c = threads_ok_cases [OF assms(1)]
  have room: "length (running s @ ready s @ asleep s @ dead s) + 2 < 2 ^ 28" using c(5) by simp
  from assms(2) have "good s' \<and> fits s'"
  proof (cases rule: kstep.cases)
    case (frame f k mem)
    then have "at_high s" using c(2) by simp
    from exec_frame_good [OF this c(3)] frame show ?thesis by blast
  next
    case dispatch
    with mi_dispatch_good [OF c(2)] show ?thesis by blast
  next
    case (call t mem op)
    with kcall_good [OF c(1) _ room] show ?thesis by blast
  next
    case (irq mem i)
    with take_interrupt_body [OF c(4)] show ?thesis by blast
  next
    case (idle mem i)
    with take_interrupt_idle [OF c(2)] show ?thesis by (auto simp: cpu_idle_def bind_Some split: if_splits)
  qed
  then show ?thesis by (simp add: threads_ok_def good_def)
qed

end
