(* ===== verification/Kern_Synch_Inv.thy ===== *)
theory Kern_Synch_Inv
  imports Kern_Thread_Inv
begin

text \<open>
  The invariant of the semaphores, locks and condition variables: which threads wait where. A thread
  that sleeps in \<open>lock_acquire\<close> is in the queue of that lock; a thread that sleeps in \<open>cv_wait\<close> is in
  the queue of one condition variable; a semaphore on which a thread sleeps has the count 0; and a free
  lock with a waiter has a runnable thread that is about to try it. So no wakeup is lost.

  The invariant is stated on the parts of the state it depends on: the sleeping threads \<open>A\<close>, the
  runnable threads \<open>R\<close>, their frames \<open>F\<close> and sleep addresses \<open>S\<close>, and the tables of locks, condition
  variables and semaphores.
\<close>

section \<open>The invariant\<close>

fun resume :: "frame list \<Rightarrow> frame list" where
  \<comment> \<open>what a thread does once it is back from \<open>thread_sleep\<close> and \<open>mi_switch\<close>\<close>
  "resume (F_switch # k) = resume k"
| "resume (F_wake # k) = resume k"
| "resume k = k"

definition contends :: "nat set \<Rightarrow> (nat \<Rightarrow> frame list) \<Rightarrow> nat \<Rightarrow> bool" where
  "contends R F l \<longleftrightarrow> (\<exists>t \<in> R. \<exists>k. resume (F t) = F_lock_loop l # k)"

definition locks_ok :: "nat set \<Rightarrow> nat set \<Rightarrow> (nat \<Rightarrow> frame list) \<Rightarrow> (nat \<Rightarrow> kptr) \<Rightarrow> (nat \<Rightarrow> lock option) \<Rightarrow> bool" where
  "locks_ok A R F S L \<longleftrightarrow> (\<forall>l lk. L l = Some lk \<longrightarrow>
     q_inv (lk_queue lk) \<and> distinct (q_list (lk_queue lk)) \<and>
     (\<forall>t \<in> set (q_list (lk_queue lk)). t \<in> A \<and> S t = ThreadP t \<and> (\<exists>k. F t = F_switch # F_wake # F_lock_loop l # k)) \<and>
     (lk_owner lk = None \<longrightarrow> q_list (lk_queue lk) \<noteq> [] \<longrightarrow> contends R F l))"

definition cvs_ok :: "nat set \<Rightarrow> (nat \<Rightarrow> frame list) \<Rightarrow> (nat \<Rightarrow> kptr) \<Rightarrow> (nat \<Rightarrow> cv option) \<Rightarrow> bool" where
  "cvs_ok A F S C \<longleftrightarrow> (\<forall>v c. C v = Some c \<longrightarrow>
     q_inv (cv_queue c) \<and> distinct (q_list (cv_queue c)) \<and>
     (\<forall>t \<in> set (q_list (cv_queue c)). t \<in> A \<and> S t = ThreadP t \<and> (\<exists>l k. F t = F_switch # F_wake # F_lock_acquire l # k)) \<and>
     (\<forall>v' c'. C v' = Some c' \<longrightarrow> v' \<noteq> v \<longrightarrow> set (q_list (cv_queue c)) \<inter> set (q_list (cv_queue c')) = {}))"

definition lock_waiter :: "(nat \<Rightarrow> frame list) \<Rightarrow> (nat \<Rightarrow> lock option) \<Rightarrow> nat \<Rightarrow> bool" where
  "lock_waiter F L t \<longleftrightarrow>
     (\<exists>l lk k. F t = F_switch # F_wake # F_lock_loop l # k \<and> L l = Some lk \<and> t \<in> set (q_list (lk_queue lk)))"

definition cv_waiter :: "(nat \<Rightarrow> cv option) \<Rightarrow> nat \<Rightarrow> bool" where
  "cv_waiter C t \<longleftrightarrow> (\<exists>v c. C v = Some c \<and> t \<in> set (q_list (cv_queue c)))"

definition sem_waiter :: "(nat \<Rightarrow> frame list) \<Rightarrow> (nat \<Rightarrow> semaphore option) \<Rightarrow> nat \<Rightarrow> nat \<Rightarrow> bool" where
  "sem_waiter F M t x \<longleftrightarrow> (\<exists>sm k. M x = Some sm \<and> sem_count sm = 0 \<and> F t = F_switch # F_wake # F_P x # k)"

definition asleep_ok ::
  "nat set \<Rightarrow> (nat \<Rightarrow> frame list) \<Rightarrow> (nat \<Rightarrow> kptr) \<Rightarrow> (nat \<Rightarrow> lock option) \<Rightarrow> (nat \<Rightarrow> cv option) \<Rightarrow> (nat \<Rightarrow> semaphore option) \<Rightarrow> bool" where
  "asleep_ok A F S L C M \<longleftrightarrow> (\<forall>t \<in> A. S t = LboltP \<or> S t = ThreadP t \<and> (lock_waiter F L t \<or> cv_waiter C t) \<or>
     (\<exists>x. S t = SemP x \<and> sem_waiter F M t x))"

definition sync ::
  "nat set \<Rightarrow> nat set \<Rightarrow> (nat \<Rightarrow> frame list) \<Rightarrow> (nat \<Rightarrow> kptr) \<Rightarrow> (nat \<Rightarrow> lock option) \<Rightarrow> (nat \<Rightarrow> cv option) \<Rightarrow> (nat \<Rightarrow> semaphore option) \<Rightarrow> bool" where
  "sync A R F S L C M \<longleftrightarrow> locks_ok A R F S L \<and> cvs_ok A F S C \<and> asleep_ok A F S L C M"

definition sync_ok :: "ksys \<Rightarrow> bool" where
  "sync_ok s \<longleftrightarrow>
     sync (set (asleep s)) (set (running s @ ready s)) (fr s) (sleep_addr s) (locks s) (cvs s) (sems s)"

section \<open>How the invariant moves\<close>

lemmas waiter_defs = lock_waiter_def cv_waiter_def sem_waiter_def

lemma sync_mono:
  assumes "sync A R F S L C M" "\<forall>t \<in> A. F' t = F t \<and> S' t = S t" "\<forall>l. contends R F l \<longrightarrow> contends R' F' l"
  shows "sync A R' F' S' L C M"
proof -
  from assms have "locks_ok A R' F' S' L" unfolding sync_def locks_ok_def by metis
  moreover from assms have "cvs_ok A F' S' C" unfolding sync_def cvs_ok_def by metis
  moreover have "asleep_ok A F' S' L C M"
    unfolding asleep_ok_def
  proof
    fix t assume t: "t \<in> A"
    with assms(1) have "S t = LboltP \<or> S t = ThreadP t \<and> (lock_waiter F L t \<or> cv_waiter C t) \<or> (\<exists>x. S t = SemP x \<and> sem_waiter F M t x)"
      by (simp add: sync_def asleep_ok_def)
    with assms(2) t show "S' t = LboltP \<or> S' t = ThreadP t \<and> (lock_waiter F' L t \<or> cv_waiter C t) \<or> (\<exists>x. S' t = SemP x \<and> sem_waiter F' M t x)"
      by (simp add: waiter_defs)
  qed
  ultimately show ?thesis by (simp add: sync_def)
qed

lemma sync_sleep:
  \<comment> \<open>the running thread \<open>c\<close> goes to sleep on \<open>a\<close> with the frames \<open>k\<close>; \<open>L'\<close> and \<open>C'\<close> are the tables after it entered a queue\<close>
  assumes s: "sync A (insert c R) F S L C M" and c: "c \<notin> A" "c \<notin> R"
    and lo: "locks_ok (insert c A) R (F(c := k)) (S(c := a)) L'"
    and cv: "cvs_ok (insert c A) (F(c := k)) (S(c := a)) C'"
    and me: "a = LboltP \<or> a = ThreadP c \<and> (lock_waiter (F(c := k)) L' c \<or> cv_waiter C' c) \<or> (\<exists>x. a = SemP x \<and> sem_waiter (F(c := k)) M c x)"
    and L: "\<And>t. t \<in> A \<Longrightarrow> lock_waiter F L t \<Longrightarrow> lock_waiter F L' t" and C: "\<And>t. t \<in> A \<Longrightarrow> cv_waiter C t \<Longrightarrow> cv_waiter C' t"
  shows "sync (insert c A) R (F(c := k)) (S(c := a)) L' C' M"
proof -
  have "asleep_ok (insert c A) (F(c := k)) (S(c := a)) L' C' M"
    unfolding asleep_ok_def
  proof
    fix t assume t: "t \<in> insert c A"
    show "(S(c := a)) t = LboltP \<or> (S(c := a)) t = ThreadP t \<and> (lock_waiter (F(c := k)) L' t \<or> cv_waiter C' t) \<or>
      (\<exists>x. (S(c := a)) t = SemP x \<and> sem_waiter (F(c := k)) M t x)"
    proof (cases "t = c")
      case True
      with me show ?thesis by simp
    next
      case False
      with t have tA: "t \<in> A" by simp
      with s have "S t = LboltP \<or> S t = ThreadP t \<and> (lock_waiter F L t \<or> cv_waiter C t) \<or> (\<exists>x. S t = SemP x \<and> sem_waiter F M t x)"
        by (simp add: sync_def asleep_ok_def)
      moreover have "lock_waiter (F(c := k)) L' t = lock_waiter F L' t" "\<And>x. sem_waiter (F(c := k)) M t x = sem_waiter F M t x"
        using False by (simp_all add: waiter_defs)
      ultimately show ?thesis using False L [OF tA] C [OF tA] by auto
    qed
  qed
  with lo cv show ?thesis by (simp add: sync_def)
qed

lemma locks_sleep:
  assumes "sync A (insert c R) F S L C M" "c \<notin> A" "c \<notin> R"
    "\<And>l lk. L l = Some lk \<Longrightarrow> lk_owner lk = None \<Longrightarrow> \<not> (\<exists>x. resume (F c) = F_lock_loop l # x)"
  shows "locks_ok (insert c A) R (F(c := k)) (S(c := a)) L"
  unfolding locks_ok_def
proof (intro allI impI)
  fix l lk assume L: "L l = Some lk"
  with assms(1) have *: "q_inv (lk_queue lk)" "distinct (q_list (lk_queue lk))"
    "\<forall>t \<in> set (q_list (lk_queue lk)). t \<in> A \<and> S t = ThreadP t \<and> (\<exists>k. F t = F_switch # F_wake # F_lock_loop l # k)"
    "lk_owner lk = None \<longrightarrow> q_list (lk_queue lk) \<noteq> [] \<longrightarrow> contends (insert c R) F l"
    by (auto simp: sync_def locks_ok_def)
  have "contends R (F(c := k)) l" if "lk_owner lk = None" "q_list (lk_queue lk) \<noteq> []"
  proof -
    from *(4) that have "contends (insert c R) F l" by simp
    with assms(4) [OF L that(1)] have "contends R F l" by (auto simp: contends_def)
    with assms(3) show ?thesis by (auto simp: contends_def)
  qed
  moreover from *(3) assms(2) have "\<forall>t \<in> set (q_list (lk_queue lk)). t \<noteq> c" by blast
  ultimately show "q_inv (lk_queue lk) \<and> distinct (q_list (lk_queue lk)) \<and>
      (\<forall>t \<in> set (q_list (lk_queue lk)). t \<in> insert c A \<and> (S(c := a)) t = ThreadP t \<and> (\<exists>x. (F(c := k)) t = F_switch # F_wake # F_lock_loop l # x)) \<and>
      (lk_owner lk = None \<longrightarrow> q_list (lk_queue lk) \<noteq> [] \<longrightarrow> contends R (F(c := k)) l)"
    using * by simp
qed

lemma locks_enqueue:
  assumes "locks_ok (insert c A) R F S L" "c \<notin> A" "L l = Some lk" "lk_owner lk \<noteq> None" "q_inv q" "q_list q = q_list (lk_queue lk) @ [c]"
    "c \<notin> set (q_list (lk_queue lk))" "F c = F_switch # F_wake # F_lock_loop l # k" "S c = ThreadP c"
  shows "locks_ok (insert c A) R F S (L(l \<mapsto> lk\<lparr>lk_queue := q\<rparr>))"
  unfolding locks_ok_def
proof (intro allI impI)
  fix m lm assume L: "(L(l \<mapsto> lk\<lparr>lk_queue := q\<rparr>)) m = Some lm"
  show "q_inv (lk_queue lm) \<and> distinct (q_list (lk_queue lm)) \<and>
      (\<forall>t \<in> set (q_list (lk_queue lm)). t \<in> insert c A \<and> S t = ThreadP t \<and> (\<exists>x. F t = F_switch # F_wake # F_lock_loop m # x)) \<and>
      (lk_owner lm = None \<longrightarrow> q_list (lk_queue lm) \<noteq> [] \<longrightarrow> contends R F m)"
  proof (cases "m = l")
    case True
    with L have lm: "lm = lk\<lparr>lk_queue := q\<rparr>" by simp
    from assms(1,3) have "distinct (q_list (lk_queue lk))"
      "\<forall>t \<in> set (q_list (lk_queue lk)). t \<in> insert c A \<and> S t = ThreadP t \<and> (\<exists>x. F t = F_switch # F_wake # F_lock_loop l # x)"
      by (auto simp: locks_ok_def)
    then show ?thesis using lm True assms(4-9) by auto
  next
    case False
    with L assms(1) show ?thesis by (simp add: locks_ok_def)
  qed
qed

lemma cvs_sleep:
  assumes "cvs_ok A F S C" "c \<notin> A"
  shows "cvs_ok (insert c A) (F(c := k)) (S(c := a)) C"
  unfolding cvs_ok_def
proof (intro allI impI)
  fix v c0 assume v: "C v = Some c0"
  with assms(1) have *: "\<forall>t \<in> set (q_list (cv_queue c0)). t \<in> A \<and> S t = ThreadP t \<and> (\<exists>l k. F t = F_switch # F_wake # F_lock_acquire l # k)"
    by (auto simp: cvs_ok_def)
  with assms(2) have "\<forall>t \<in> set (q_list (cv_queue c0)). t \<noteq> c" by blast
  with * v assms(1) show "q_inv (cv_queue c0) \<and> distinct (q_list (cv_queue c0)) \<and>
     (\<forall>t \<in> set (q_list (cv_queue c0)). t \<in> insert c A \<and> (S(c := a)) t = ThreadP t \<and> (\<exists>l x. (F(c := k)) t = F_switch # F_wake # F_lock_acquire l # x)) \<and>
     (\<forall>v' c'. C v' = Some c' \<longrightarrow> v' \<noteq> v \<longrightarrow> set (q_list (cv_queue c0)) \<inter> set (q_list (cv_queue c')) = {})"
    by (simp add: cvs_ok_def)
qed

lemma cvs_update:
  assumes "cvs_ok A F S C" "C v = Some c0" "q_inv q" "distinct (q_list q)"
    "\<And>t. t \<in> set (q_list q) \<Longrightarrow> t \<in> A \<and> S t = ThreadP t \<and> (\<exists>l k. F t = F_switch # F_wake # F_lock_acquire l # k)"
    "\<And>v' c'. C v' = Some c' \<Longrightarrow> v' \<noteq> v \<Longrightarrow> set (q_list q) \<inter> set (q_list (cv_queue c')) = {}"
  shows "cvs_ok A F S (C(v \<mapsto> c0\<lparr>cv_queue := q\<rparr>))"
  unfolding cvs_ok_def
proof (intro allI impI)
  fix w c1 assume w: "(C(v \<mapsto> c0\<lparr>cv_queue := q\<rparr>)) w = Some c1"
  show "q_inv (cv_queue c1) \<and> distinct (q_list (cv_queue c1)) \<and>
     (\<forall>t \<in> set (q_list (cv_queue c1)). t \<in> A \<and> S t = ThreadP t \<and> (\<exists>l k. F t = F_switch # F_wake # F_lock_acquire l # k)) \<and>
     (\<forall>v' c'. (C(v \<mapsto> c0\<lparr>cv_queue := q\<rparr>)) v' = Some c' \<longrightarrow> v' \<noteq> w \<longrightarrow> set (q_list (cv_queue c1)) \<inter> set (q_list (cv_queue c')) = {})"
  proof (cases "w = v")
    case True
    then have "c1 = c0\<lparr>cv_queue := q\<rparr>" using w by simp
    with True assms(3-6) show ?thesis by simp
  next
    case False
    with w have "C w = Some c1" by simp
    with assms(1) False assms(6) [of w c1] show ?thesis by (auto simp: cvs_ok_def)
  qed
qed

lemma cvs_enqueue:
  assumes "cvs_ok A F S C" "c \<notin> A" "C v = Some c0" "q_inv q" "q_list q = q_list (cv_queue c0) @ [c]"
    and k: "k = F_switch # F_wake # F_lock_acquire l # k'" and a: "a = ThreadP c"
  shows "cvs_ok (insert c A) (F(c := k)) (S(c := a)) (C(v \<mapsto> c0\<lparr>cv_queue := q\<rparr>))"
proof (rule cvs_update [OF cvs_sleep [OF assms(1,2)] assms(3,4)])
  have mem: "t \<in> A" if "C w = Some c1" "t \<in> set (q_list (cv_queue c1))" for w c1 t
    using assms(1) that unfolding cvs_ok_def by blast
  have d: "distinct (q_list (cv_queue c0))" using assms(1,3) unfolding cvs_ok_def by blast
  then show "distinct (q_list q)" using assms(2,5) mem [OF assms(3)] by auto
  show "t \<in> insert c A \<and> (S(c := a)) t = ThreadP t \<and> (\<exists>l x. (F(c := k)) t = F_switch # F_wake # F_lock_acquire l # x)"
    if "t \<in> set (q_list q)" for t
  proof (cases "t = c")
    case True
    with k a show ?thesis by simp
  next
    case False
    with that assms(5) have "t \<in> set (q_list (cv_queue c0))" by simp
    with assms(1,3) False show ?thesis by (simp add: cvs_ok_def)
  qed
  show "set (q_list q) \<inter> set (q_list (cv_queue c')) = {}" if "C v' = Some c'" "v' \<noteq> v" for v' c'
  proof -
    have "set (q_list (cv_queue c0)) \<inter> set (q_list (cv_queue c')) = {}"
      using assms(1,3) that unfolding cvs_ok_def by blast
    moreover have "c \<notin> set (q_list (cv_queue c'))" using mem [OF that(1)] assms(2) by blast
    ultimately show ?thesis using assms(5) by auto
  qed
qed

lemma sync_wake:
  \<comment> \<open>the sleepers in \<open>W\<close> become runnable; the tables change so that none of them is in a queue any more\<close>
  assumes s: "sync A R F S L C M"
    and lo: "locks_ok (A - W) (R \<union> W) F S L'" and cv: "cvs_ok (A - W) F S C'"
    and L: "\<And>t. t \<in> A - W \<Longrightarrow> lock_waiter F L t \<Longrightarrow> lock_waiter F L' t" and C: "\<And>t. t \<in> A - W \<Longrightarrow> cv_waiter C t \<Longrightarrow> cv_waiter C' t"
    and M: "\<And>t x. t \<in> A - W \<Longrightarrow> S t = SemP x \<Longrightarrow> sem_waiter F M t x \<Longrightarrow> sem_waiter F M' t x"
  shows "sync (A - W) (R \<union> W) F S L' C' M'"
proof -
  have "asleep_ok (A - W) F S L' C' M'"
    unfolding asleep_ok_def
  proof
    fix t assume t: "t \<in> A - W"
    with s have "S t = LboltP \<or> S t = ThreadP t \<and> (lock_waiter F L t \<or> cv_waiter C t) \<or> (\<exists>x. S t = SemP x \<and> sem_waiter F M t x)"
      by (simp add: sync_def asleep_ok_def)
    with L [OF t] C [OF t] M [OF t] show "S t = LboltP \<or> S t = ThreadP t \<and> (lock_waiter F L' t \<or> cv_waiter C' t) \<or>
      (\<exists>x. S t = SemP x \<and> sem_waiter F M' t x)" by blast
  qed
  with lo cv show ?thesis by (simp add: sync_def)
qed

lemma contends_mono: "contends R F l \<Longrightarrow> R \<subseteq> R' \<Longrightarrow> contends R' F l"
  by (auto simp: contends_def)

lemma contends_upd:
  assumes "contends R F l" "\<And>x. c \<in> R \<Longrightarrow> resume (F c) = F_lock_loop l # x \<Longrightarrow> \<exists>y. resume k = F_lock_loop l # y"
  shows "contends R (F(c := k)) l"
proof -
  from assms(1) obtain t x where t: "t \<in> R" "resume (F t) = F_lock_loop l # x" by (auto simp: contends_def)
  show ?thesis
  proof (cases "t = c")
    case True
    with t assms(2) have "\<exists>y. resume k = F_lock_loop l # y" by blast
    with t True show ?thesis unfolding contends_def by (intro bexI [of _ c]) auto
  next
    case False
    with t show ?thesis unfolding contends_def by (intro bexI [of _ t]) auto
  qed
qed

lemma locks_wake:
  assumes "locks_ok A R F S L" "\<And>t. t \<in> W \<Longrightarrow> S t \<noteq> ThreadP t"
  shows "locks_ok (A - W) (R \<union> W) F S L"
  unfolding locks_ok_def
proof (intro allI impI)
  fix l lk assume "L l = Some lk"
  with assms(1) have *: "q_inv (lk_queue lk)" "distinct (q_list (lk_queue lk))"
    "\<forall>t \<in> set (q_list (lk_queue lk)). t \<in> A \<and> S t = ThreadP t \<and> (\<exists>k. F t = F_switch # F_wake # F_lock_loop l # k)"
    "lk_owner lk = None \<longrightarrow> q_list (lk_queue lk) \<noteq> [] \<longrightarrow> contends R F l"
    by (auto simp: locks_ok_def)
  from *(3) assms(2) have "\<forall>t \<in> set (q_list (lk_queue lk)). t \<notin> W" by blast
  with * contends_mono [of R F l "R \<union> W"]
  show "q_inv (lk_queue lk) \<and> distinct (q_list (lk_queue lk)) \<and>
      (\<forall>t \<in> set (q_list (lk_queue lk)). t \<in> A - W \<and> S t = ThreadP t \<and> (\<exists>k. F t = F_switch # F_wake # F_lock_loop l # k)) \<and>
      (lk_owner lk = None \<longrightarrow> q_list (lk_queue lk) \<noteq> [] \<longrightarrow> contends (R \<union> W) F l)"
    by blast
qed

lemma cvs_wake:
  assumes "cvs_ok A F S C" "\<And>t v c. t \<in> W \<Longrightarrow> C v = Some c \<Longrightarrow> t \<notin> set (q_list (cv_queue c))"
  shows "cvs_ok (A - W) F S C"
  unfolding cvs_ok_def
proof (intro allI impI)
  fix v c assume v: "C v = Some c"
  with assms(2) have "\<forall>t \<in> set (q_list (cv_queue c)). t \<notin> W" by blast
  with v assms(1) show "q_inv (cv_queue c) \<and> distinct (q_list (cv_queue c)) \<and>
     (\<forall>t \<in> set (q_list (cv_queue c)). t \<in> A - W \<and> S t = ThreadP t \<and> (\<exists>l k. F t = F_switch # F_wake # F_lock_acquire l # k)) \<and>
     (\<forall>v' c'. C v' = Some c' \<longrightarrow> v' \<noteq> v \<longrightarrow> set (q_list (cv_queue c)) \<inter> set (q_list (cv_queue c')) = {})"
    by (simp add: cvs_ok_def)
qed

lemma cv_mem:
  assumes "cvs_ok A F S C" "C v = Some c" "t \<in> set (q_list (cv_queue c))"
  shows "t \<in> A" "S t = ThreadP t" "\<exists>l k. F t = F_switch # F_wake # F_lock_acquire l # k"
  using assms by (auto simp: cvs_ok_def)

lemma lock_mem:
  assumes "locks_ok A R F S L" "L l = Some lk" "t \<in> set (q_list (lk_queue lk))"
  shows "t \<in> A" "S t = ThreadP t" "\<exists>k. F t = F_switch # F_wake # F_lock_loop l # k"
  using assms by (auto simp: locks_ok_def)

lemma sync_wake_other:
  \<comment> \<open>waking sleepers that are in no queue\<close>
  assumes s: "sync A R F S L C M" and W: "\<And>t. t \<in> W \<Longrightarrow> S t \<noteq> ThreadP t"
    and M: "\<And>t x. t \<in> A - W \<Longrightarrow> S t = SemP x \<Longrightarrow> M' x = M x"
  shows "sync (A - W) (R \<union> W) F S L C M'"
proof (rule sync_wake [OF s])
  from s have lo: "locks_ok A R F S L" and cv: "cvs_ok A F S C" by (simp_all add: sync_def)
  show "locks_ok (A - W) (R \<union> W) F S L" using lo W by (rule locks_wake)
  show "cvs_ok (A - W) F S C" by (rule cvs_wake [OF cv]) (use W cv_mem [OF cv] in blast)
  show "sem_waiter F M' t x" if "t \<in> A - W" "S t = SemP x" "sem_waiter F M t x" for t x
    using that M by (simp add: sem_waiter_def)
qed simp_all

lemma thread_addr:
  assumes "sync A R F S L C M" "x \<in> A" "S x = ThreadP t"
  shows "x = t"
  using assms by (auto simp: sync_def asleep_ok_def)

lemma sync_wake_lock:
  assumes s: "sync A R F S L C M" and l: "L l = Some lk" "q_list (lk_queue lk) = t # ts" "q_inv q" "q_list q = ts"
  shows "sync (A - {t}) (R \<union> {t}) F S (L(l \<mapsto> lk\<lparr>lk_owner := None, lk_queue := q\<rparr>)) C M"
proof (rule sync_wake [OF s])
  from s have lo: "locks_ok A R F S L" and cv: "cvs_ok A F S C" by (simp_all add: sync_def)
  from lock_mem [OF lo l(1), of t] l(2) obtain kt where t: "t \<in> A" "S t = ThreadP t" "F t = F_switch # F_wake # F_lock_loop l # kt" by auto
  have dist: "distinct (t # ts)" using lo l(1) unfolding locks_ok_def l(2) [symmetric] by blast
  have own: "m = l" if "L m = Some lm" "t \<in> set (q_list (lk_queue lm))" for m lm
    using lock_mem(3) [OF lo that] t(3) by auto
  show "locks_ok (A - {t}) (R \<union> {t}) F S (L(l \<mapsto> lk\<lparr>lk_owner := None, lk_queue := q\<rparr>))"
    unfolding locks_ok_def
  proof (intro allI impI)
    fix m lm assume m: "(L(l \<mapsto> lk\<lparr>lk_owner := None, lk_queue := q\<rparr>)) m = Some lm"
    have c: "contends (R \<union> {t}) F l" using t(3) by (simp add: contends_def)
    show "q_inv (lk_queue lm) \<and> distinct (q_list (lk_queue lm)) \<and>
      (\<forall>t' \<in> set (q_list (lk_queue lm)). t' \<in> A - {t} \<and> S t' = ThreadP t' \<and> (\<exists>k. F t' = F_switch # F_wake # F_lock_loop m # k)) \<and>
      (lk_owner lm = None \<longrightarrow> q_list (lk_queue lm) \<noteq> [] \<longrightarrow> contends (R \<union> {t}) F m)"
    proof (cases "m = l")
      case True
      with m have lm: "lm = lk\<lparr>lk_owner := None, lk_queue := q\<rparr>" by simp
      have "t' \<in> A - {t} \<and> S t' = ThreadP t' \<and> (\<exists>k. F t' = F_switch # F_wake # F_lock_loop l # k)" if "t' \<in> set ts" for t'
        using lock_mem [OF lo l(1), of t'] l(2) that dist by auto
      then show ?thesis using lm True l(3,4) dist c by simp
    next
      case False
      with m have m': "L m = Some lm" by simp
      have "t \<notin> set (q_list (lk_queue lm))" using own [OF m'] False by blast
      moreover have "contends R F m \<longrightarrow> contends (R \<union> {t}) F m" using contends_mono [of R F m "R \<union> {t}"] by blast
      ultimately show ?thesis using lo m' by (auto simp: locks_ok_def)
    qed
  qed
  show "cvs_ok (A - {t}) F S C"
    by (rule cvs_wake [OF cv]) (use cv_mem(3) [OF cv] t(3) in fastforce)
  show "lock_waiter F (L(l \<mapsto> lk\<lparr>lk_owner := None, lk_queue := q\<rparr>)) t'" if t': "t' \<in> A - {t}" "lock_waiter F L t'" for t'
  proof -
    from t'(2) obtain m lm k where m: "F t' = F_switch # F_wake # F_lock_loop m # k" "L m = Some lm" "t' \<in> set (q_list (lk_queue lm))"
      by (auto simp: lock_waiter_def)
    show ?thesis
    proof (cases "m = l")
      case True
      with m l t'(1) show ?thesis by (auto simp: lock_waiter_def)
    next
      case False
      with m show ?thesis by (auto simp: lock_waiter_def)
    qed
  qed
qed simp_all

lemma sync_wake_cv:
  assumes s: "sync A R F S L C M" and v: "C v = Some c" "q_list (cv_queue c) = t # ts" "q_inv q" "q_list q = ts"
  shows "sync (A - {t}) (R \<union> {t}) F S L (C(v \<mapsto> c\<lparr>cv_queue := q\<rparr>)) M"
proof (rule sync_wake [OF s])
  from s have lo: "locks_ok A R F S L" and cv: "cvs_ok A F S C" by (simp_all add: sync_def)
  from cv_mem [OF cv v(1), of t] v(2) obtain l kt where t: "t \<in> A" "S t = ThreadP t" "F t = F_switch # F_wake # F_lock_acquire l # kt" by auto
  have dist: "distinct (t # ts)" using cv v(1) unfolding cvs_ok_def v(2) [symmetric] by blast
  show "locks_ok (A - {t}) (R \<union> {t}) F S L"
    unfolding locks_ok_def
  proof (intro allI impI)
    fix m lm assume m: "L m = Some lm"
    have "t \<notin> set (q_list (lk_queue lm))" using lock_mem(3) [OF lo m] t(3) by fastforce
    moreover have "contends R F m \<longrightarrow> contends (R \<union> {t}) F m" using contends_mono [of R F m "R \<union> {t}"] by blast
    ultimately show "q_inv (lk_queue lm) \<and> distinct (q_list (lk_queue lm)) \<and>
      (\<forall>t' \<in> set (q_list (lk_queue lm)). t' \<in> A - {t} \<and> S t' = ThreadP t' \<and> (\<exists>k. F t' = F_switch # F_wake # F_lock_loop m # k)) \<and>
      (lk_owner lm = None \<longrightarrow> q_list (lk_queue lm) \<noteq> [] \<longrightarrow> contends (R \<union> {t}) F m)"
      using lo m by (auto simp: locks_ok_def)
  qed
  have sub: "set ts \<subseteq> set (q_list (cv_queue c))" using v(2) by auto
  have "cvs_ok A F S (C(v \<mapsto> c\<lparr>cv_queue := q\<rparr>))"
  proof (rule cvs_update [OF cv v(1,3)])
    show "distinct (q_list q)" using dist v(4) by simp
    show "t' \<in> A \<and> S t' = ThreadP t' \<and> (\<exists>l k. F t' = F_switch # F_wake # F_lock_acquire l # k)" if "t' \<in> set (q_list q)" for t'
      using cv_mem [OF cv v(1), of t'] that v(4) sub by auto
    show "set (q_list q) \<inter> set (q_list (cv_queue c')) = {}" if "C v' = Some c'" "v' \<noteq> v" for v' c'
    proof -
      have "set (q_list (cv_queue c)) \<inter> set (q_list (cv_queue c')) = {}" using cv v(1) that unfolding cvs_ok_def by blast
      then show ?thesis using v(4) sub by blast
    qed
  qed
  then show "cvs_ok (A - {t}) F S (C(v \<mapsto> c\<lparr>cv_queue := q\<rparr>))"
  proof (rule cvs_wake)
    fix t' w c' assume w: "t' \<in> {t}" "(C(v \<mapsto> c\<lparr>cv_queue := q\<rparr>)) w = Some c'"
    show "t' \<notin> set (q_list (cv_queue c'))"
    proof (cases "w = v")
      case True
      with w dist v(4) show ?thesis by auto
    next
      case False
      with w have "C w = Some c'" by simp
      then have "set (q_list (cv_queue c)) \<inter> set (q_list (cv_queue c')) = {}" using cv v(1) False unfolding cvs_ok_def by blast
      with w(1) v(2) show ?thesis by auto
    qed
  qed
  show "cv_waiter (C(v \<mapsto> c\<lparr>cv_queue := q\<rparr>)) t'" if t': "t' \<in> A - {t}" "cv_waiter C t'" for t'
  proof -
    from t'(2) obtain w c' where w: "C w = Some c'" "t' \<in> set (q_list (cv_queue c'))" by (auto simp: cv_waiter_def)
    show ?thesis
    proof (cases "w = v")
      case True
      with w v t'(1) show ?thesis by (auto simp: cv_waiter_def)
    next
      case False
      with w show ?thesis by (auto simp: cv_waiter_def)
    qed
  qed
qed simp_all

lemma sync_owner:
  assumes s: "sync A R F S L C M" and l: "L l = Some lk" "x \<noteq> None \<or> q_list (lk_queue lk) = []"
    and F: "\<And>t. t \<in> A \<Longrightarrow> F' t = F t" and c: "\<And>m. m \<noteq> l \<Longrightarrow> contends R F m \<Longrightarrow> contends R' F' m"
  shows "sync A R' F' S (L(l \<mapsto> lk\<lparr>lk_owner := x\<rparr>)) C M"
proof -
  from s have lo: "locks_ok A R F S L" and cv: "cvs_ok A F S C" and as: "asleep_ok A F S L C M" by (simp_all add: sync_def)
  have "locks_ok A R' F' S (L(l \<mapsto> lk\<lparr>lk_owner := x\<rparr>))"
    unfolding locks_ok_def
  proof (intro allI impI)
    fix m lm assume m: "(L(l \<mapsto> lk\<lparr>lk_owner := x\<rparr>)) m = Some lm"
    then obtain lm0 where lm0: "L m = Some lm0" "lk_queue lm = lk_queue lm0" "m \<noteq> l \<longrightarrow> lm = lm0" using l(1) by (cases "m = l") auto
    have "\<forall>t \<in> set (q_list (lk_queue lm)). t \<in> A \<and> S t = ThreadP t \<and> (\<exists>k. F' t = F_switch # F_wake # F_lock_loop m # k)"
      using lock_mem [OF lo lm0(1)] F lm0(2) by simp
    moreover have "lk_owner lm = None \<longrightarrow> q_list (lk_queue lm) \<noteq> [] \<longrightarrow> contends R' F' m"
    proof (cases "m = l")
      case True
      with m l(2) show ?thesis by auto
    next
      case False
      with lo lm0 c [OF False] show ?thesis by (auto simp: locks_ok_def)
    qed
    ultimately show "q_inv (lk_queue lm) \<and> distinct (q_list (lk_queue lm)) \<and>
      (\<forall>t \<in> set (q_list (lk_queue lm)). t \<in> A \<and> S t = ThreadP t \<and> (\<exists>k. F' t = F_switch # F_wake # F_lock_loop m # k)) \<and>
      (lk_owner lm = None \<longrightarrow> q_list (lk_queue lm) \<noteq> [] \<longrightarrow> contends R' F' m)"
      using lo lm0 by (simp add: locks_ok_def)
  qed
  moreover have "cvs_ok A F' S C" using cv F unfolding cvs_ok_def by metis
  moreover have "asleep_ok A F' S (L(l \<mapsto> lk\<lparr>lk_owner := x\<rparr>)) C M"
    unfolding asleep_ok_def
  proof
    fix t assume t: "t \<in> A"
    with as have "S t = LboltP \<or> S t = ThreadP t \<and> (lock_waiter F L t \<or> cv_waiter C t) \<or> (\<exists>x. S t = SemP x \<and> sem_waiter F M t x)"
      by (simp add: asleep_ok_def)
    moreover have "lock_waiter F L t \<Longrightarrow> lock_waiter F' (L(l \<mapsto> lk\<lparr>lk_owner := x\<rparr>)) t"
      using F [OF t] l(1) by (auto simp: lock_waiter_def) 
    moreover have "\<And>y. sem_waiter F M t y \<Longrightarrow> sem_waiter F' M t y" using F [OF t] by (simp add: sem_waiter_def)
    ultimately show "S t = LboltP \<or> S t = ThreadP t \<and> (lock_waiter F' (L(l \<mapsto> lk\<lparr>lk_owner := x\<rparr>)) t \<or> cv_waiter C t) \<or>
        (\<exists>y. S t = SemP y \<and> sem_waiter F' M t y)" by blast
  qed
  ultimately show ?thesis by (simp add: sync_def)
qed

section \<open>The operations keep the invariant\<close>

lemma sync_cong:
  assumes "asleep s' = asleep s" "running s' = running s" "ready s' = ready s" "fr s' = fr s" "sleep_addr s' = sleep_addr s"
    "locks s' = locks s" "cvs s' = cvs s" "sems s' = sems s"
  shows "sync_ok s' = sync_ok s"
  unfolding sync_ok_def assms ..

lemma view_cong:
  assumes "curthread s' = curthread s" "runqueue s' = runqueue s" "sleepers s' = sleepers s" "threads s' = threads s"
  shows "asleep s' = asleep s" "running s' = running s" "ready s' = ready s" "fr s' = fr s" "sleep_addr s' = sleep_addr s"
  using assms by (simp_all add: view_defs fr_def sleep_addr_def fun_eq_iff)

lemma sync_fields [simp]:
  "sync_ok (s\<lparr>curspl := x1\<rparr>) = sync_ok s" "sync_ok (s\<lparr>status_IEc := x2\<rparr>) = sync_ok s"
  "sync_ok (s\<lparr>in_interrupt := x3\<rparr>) = sync_ok s" "sync_ok (s\<lparr>lbolt_counter := x4\<rparr>) = sync_ok s"
  "sync_ok (s\<lparr>calls := x5\<rparr>) = sync_ok s" "sync_ok (s\<lparr>idle_frames := x6\<rparr>) = sync_ok s"
  "sync_ok (s\<lparr>zombies := x7\<rparr>) = sync_ok s" "sync_ok (s\<lparr>numthreads := x8\<rparr>) = sync_ok s"
  "sync_ok (s\<lparr>curkstack := x9\<rparr>) = sync_ok s" "sync_ok (s\<lparr>switching := x10\<rparr>) = sync_ok s"
  by (rule sync_cong; (rule view_cong)?; simp)+

lemma fields_views [simp]:
  "fr (s\<lparr>curspl := x1\<rparr>) = fr s" "fr (s\<lparr>status_IEc := x2\<rparr>) = fr s" "fr (s\<lparr>in_interrupt := x3\<rparr>) = fr s"
  "fr (s\<lparr>lbolt_counter := x4\<rparr>) = fr s" "fr (s\<lparr>locks := x5\<rparr>) = fr s" "fr (s\<lparr>cvs := x6\<rparr>) = fr s" "fr (s\<lparr>sems := x7\<rparr>) = fr s"
  by (rule view_cong(4); simp)+

lemma go_views:
  assumes "threads_core s" "curthread s = Some c"
  shows "asleep (go k s) = asleep s" "running (go k s) = running s" "ready (go k s) = ready s"
    "fr (go k s) = (fr s)(c := k)" "sleep_addr (go k s) = sleep_addr s"
proof -
  from assms obtain th where "threads s c = Some th" by (rule core_running)
  then show "asleep (go k s) = asleep s" "running (go k s) = running s" "ready (go k s) = ready s"
    "fr (go k s) = (fr s)(c := k)" "sleep_addr (go k s) = sleep_addr s"
    using assms(2) by (auto simp: go_def set_frames_def upd_thread_def view_defs fr_def sleep_addr_def fun_eq_iff)
qed

lemma core_views:
  assumes "threads_core s" "curthread s = Some c"
  shows "running s = [c]" "c \<notin> set (asleep s)" "c \<notin> set (ready s)"
  using assms by (auto simp: threads_core_def places_ok_def running_def)

lemma sync_go:
  assumes core: "threads_core s" and s: "sync_ok s" and c: "curthread s = Some c"
    and k: "\<And>l x. resume (fr s c) = F_lock_loop l # x \<Longrightarrow> \<exists>y. resume k = F_lock_loop l # y"
  shows "sync_ok (go k s)"
  unfolding sync_ok_def go_views [OF core c] go_fields
proof (rule sync_mono)
  show "sync (set (asleep s)) (set (running s @ ready s)) (fr s) (sleep_addr s) (locks s) (cvs s) (sems s)"
    using s by (simp add: sync_ok_def)
  show "\<forall>t \<in> set (asleep s). ((fr s)(c := k)) t = fr s t \<and> sleep_addr s t = sleep_addr s t"
    using core_views [OF core c] by auto
  show "\<forall>l. contends (set (running s @ ready s)) (fr s) l \<longrightarrow> contends (set (running s @ ready s)) ((fr s)(c := k)) l"
    using k contends_upd [of _ "fr s" _ c k] by blast
qed

lemma sync_go_idle: "sync_ok s \<Longrightarrow> curthread s = None \<Longrightarrow> sync_ok (go k s)"
  by (simp add: go_def)

lemma thread_sleep_views:
  assumes core: "threads_core s" and c: "curthread s = Some c" and sl: "thread_sleep mem addr k s = Some s'"
  shows "asleep s' = asleep s @ [c]" "ready s' = ready s" "running s' = []"
    "fr s' = (fr s)(c := F_switch # F_wake # k)" "sleep_addr s' = (sleep_addr s)(c := addr)"
    "locks s' = locks s" "cvs s' = cvs s" "sems s' = sems s"
proof -
  let ?s = "upd_thread c (\<lambda>th. th\<lparr>t_sleepaddr := addr\<rparr>) s"
  have core': "threads_core ?s" using core c by (rule core_upd_running) simp
  then have lists: "lists_ok ?s" by (simp add: threads_core_def)
  have c': "curthread ?s = Some c" using c by simp
  from sl c have "mi_switch mem S_SLEEP (F_wake # k) ?s = Some s'"
    by (auto simp: thread_sleep_def bind_Some split: if_splits)
  with lists c' obtain th q a z where *: "threads ?s c = Some th"
    "s' = ?s\<lparr>curthread := None, switching := Some c,
       threads := (threads ?s)(c \<mapsto> th\<lparr>t_pcb := (t_pcb th)\<lparr>pcb_frames := F_switch # F_wake # k\<rparr>\<rparr>),
       runqueue := Some q, sleepers := Some a, zombies := Some z\<rparr>"
    "q_list q = ready ?s" "array_elems a = asleep ?s @ [c]"
    by (rule mi_switch_eff) simp
  from core c obtain th0 where "threads s c = Some th0" by (rule core_running)
  then have ta: "t_sleepaddr th = addr" using *(1) by (auto simp: upd_thread_def)
  show "asleep s' = asleep s @ [c]" "ready s' = ready s" "running s' = []" "locks s' = locks s" "cvs s' = cvs s" "sems s' = sems s"
    using *(2-4) by (simp_all add: view_defs) (simp_all add: upd_thread_def view_defs)
  show "fr s' = (fr s)(c := F_switch # F_wake # k)"
    using *(2) by (auto simp: fr_def fun_eq_iff upd_thread_def)
  show "sleep_addr s' = (sleep_addr s)(c := addr)"
    using *(2) ta by (auto simp: sleep_addr_def fun_eq_iff upd_thread_def)
qed

lemma wakeup_views:
  assumes "threads_core s" "thread_wakeup mem addr s = Some s'"
  shows "set (asleep s') = set (asleep s) - {t \<in> set (asleep s). sleep_addr s t = addr}"
    "set (running s' @ ready s') = set (running s @ ready s) \<union> {t \<in> set (asleep s). sleep_addr s t = addr}"
    "fr s' = fr s" "sleep_addr s' = sleep_addr s" "locks s' = locks s" "cvs s' = cvs s" "sems s' = sems s"
    "curthread s' = curthread s"
proof -
  have "lists_ok s" using assms(1) by (simp add: threads_core_def)
  from this assms(2) obtain q a where w: "s' = s\<lparr>runqueue := Some q, sleepers := Some a\<rparr>"
    "ready s' = ready s @ filter (\<lambda>t. sleep_addr s t = addr) (asleep s)"
    "asleep s' = filter (\<lambda>t. sleep_addr s t \<noteq> addr) (asleep s)"
    by (rule thread_wakeup_eff)
  show "set (asleep s') = set (asleep s) - {t \<in> set (asleep s). sleep_addr s t = addr}" using w(3) by auto
  have "running s' = running s" using w(1) by (simp add: running_def)
  then show "set (running s' @ ready s') = set (running s @ ready s) \<union> {t \<in> set (asleep s). sleep_addr s t = addr}"
    using w(2) by auto
  show "fr s' = fr s" "sleep_addr s' = sleep_addr s" "locks s' = locks s" "cvs s' = cvs s" "sems s' = sems s"
    "curthread s' = curthread s"
    using w(1) by (simp_all add: fr_def sleep_addr_def fun_eq_iff)
qed

lemma sleep_sync:
  assumes core: "threads_core s" and s: "sync_ok s" and c: "curthread s = Some c"
    and sl: "thread_sleep mem a k (s\<lparr>locks := L', cvs := C'\<rparr>) = Some s'"
    and lo: "locks_ok (insert c (set (asleep s))) (set (ready s)) ((fr s)(c := F_switch # F_wake # k)) ((sleep_addr s)(c := a)) L'"
    and cv: "cvs_ok (insert c (set (asleep s))) ((fr s)(c := F_switch # F_wake # k)) ((sleep_addr s)(c := a)) C'"
    and me: "a = LboltP \<or> a = ThreadP c \<and> (lock_waiter ((fr s)(c := F_switch # F_wake # k)) L' c \<or> cv_waiter C' c) \<or>
      (\<exists>x. a = SemP x \<and> sem_waiter ((fr s)(c := F_switch # F_wake # k)) (sems s) c x)"
    and L: "\<And>t. t \<in> set (asleep s) \<Longrightarrow> lock_waiter (fr s) (locks s) t \<Longrightarrow> lock_waiter (fr s) L' t"
    and C: "\<And>t. t \<in> set (asleep s) \<Longrightarrow> cv_waiter (cvs s) t \<Longrightarrow> cv_waiter C' t"
  shows "sync_ok s'"
proof -
  note cv0 = core_views [OF core c]
  have core0: "threads_core (s\<lparr>locks := L', cvs := C'\<rparr>)" using core by simp
  have c0: "curthread (s\<lparr>locks := L', cvs := C'\<rparr>) = Some c" using c by simp
  have same: "asleep (s\<lparr>locks := L', cvs := C'\<rparr>) = asleep s" "ready (s\<lparr>locks := L', cvs := C'\<rparr>) = ready s"
    "fr (s\<lparr>locks := L', cvs := C'\<rparr>) = fr s" "sleep_addr (s\<lparr>locks := L', cvs := C'\<rparr>) = sleep_addr s"
    by (rule view_cong; simp)+
  note v = thread_sleep_views [OF core0 c0 sl, unfolded same]
  have "sync (insert c (set (asleep s))) (set (ready s)) ((fr s)(c := F_switch # F_wake # k)) ((sleep_addr s)(c := a)) L' C' (sems s)"
  proof (rule sync_sleep [OF _ cv0(2,3) lo cv me L C])
    show "sync (set (asleep s)) (insert c (set (ready s))) (fr s) (sleep_addr s) (locks s) (cvs s) (sems s)"
      using s cv0(1) by (simp add: sync_ok_def)
  qed
  then show ?thesis by (simp add: sync_ok_def v)
qed

lemma sleep_sync_plain:
  assumes core: "threads_core s" and s: "sync_ok s" and c: "curthread s = Some c"
    and sl: "thread_sleep mem a k s = Some s'"
    and me: "a = LboltP \<or> (\<exists>x. a = SemP x \<and> sem_waiter ((fr s)(c := F_switch # F_wake # k)) (sems s) c x)"
    and nl: "\<And>l x. resume (fr s c) \<noteq> F_lock_loop l # x"
  shows "sync_ok s'"
proof (rule sleep_sync [OF core s c])
  show "thread_sleep mem a k (s\<lparr>locks := locks s, cvs := cvs s\<rparr>) = Some s'" using sl by simp
  have s': "sync (set (asleep s)) (insert c (set (ready s))) (fr s) (sleep_addr s) (locks s) (cvs s) (sems s)"
    using s core_views(1) [OF core c] by (simp add: sync_ok_def)
  show "locks_ok (insert c (set (asleep s))) (set (ready s)) ((fr s)(c := F_switch # F_wake # k)) ((sleep_addr s)(c := a)) (locks s)"
    by (rule locks_sleep [OF s' core_views(2,3) [OF core c]]) (use nl in blast)
  show "cvs_ok (insert c (set (asleep s))) ((fr s)(c := F_switch # F_wake # k)) ((sleep_addr s)(c := a)) (cvs s)"
    by (rule cvs_sleep [OF _ core_views(2) [OF core c]]) (use s' in \<open>simp add: sync_def\<close>)
qed (use me in auto)

lemma sems_sync:
  assumes "sync_ok s" "\<And>t x. t \<in> set (asleep s) \<Longrightarrow> sleep_addr s t = SemP x \<Longrightarrow> M x = sems s x"
  shows "sync_ok (s\<lparr>sems := M\<rparr>)"
proof -
  have "sync (set (asleep s) - {}) (set (running s @ ready s) \<union> {}) (fr s) (sleep_addr s) (locks s) (cvs s) M"
    by (rule sync_wake_other [where M = "sems s"]) (use assms in \<open>auto simp: sync_ok_def\<close>)
  moreover have "asleep (s\<lparr>sems := M\<rparr>) = asleep s" "running (s\<lparr>sems := M\<rparr>) = running s" "ready (s\<lparr>sems := M\<rparr>) = ready s"
    "sleep_addr (s\<lparr>sems := M\<rparr>) = sleep_addr s"
    by (rule view_cong; simp)+
  ultimately show ?thesis by (simp add: sync_ok_def)
qed

lemma P_loop_sync:
  assumes core: "threads_core s" and s: "sync_ok s" and c: "curthread s = Some c"
    and nl: "\<And>l x. resume (fr s c) \<noteq> F_lock_loop l # x" and p: "P_loop mem sem k s = Some s'"
  shows "sync_ok s'"
proof -
  from p obtain sm where sm: "sems s sem = Some sm" by (auto simp: P_loop_def bind_Some)
  show ?thesis
  proof (cases "sem_count sm = 0")
    case True
    with p sm have "thread_sleep mem (SemP sem) (F_P sem # k) s = Some s'" by (simp add: P_loop_def)
    from sleep_sync_plain [OF core s c this] nl True sm show ?thesis by (auto simp: sem_waiter_def)
  next
    case False
    with p sm have s': "s' = go k (s\<lparr>sems := (sems s)(sem \<mapsto> sm\<lparr>sem_count := sem_count sm - 1\<rparr>)\<rparr>)"
      by (auto simp: P_loop_def split: if_splits)
    have "x \<noteq> sem" if "t \<in> set (asleep s)" "sleep_addr s t = SemP x" for t x
    proof -
      from s that have "sem_waiter (fr s) (sems s) t x" by (auto simp: sync_ok_def sync_def asleep_ok_def)
      with sm False show ?thesis by (auto simp: sem_waiter_def)
    qed
    then have "sync_ok (s\<lparr>sems := (sems s)(sem \<mapsto> sm\<lparr>sem_count := sem_count sm - 1\<rparr>)\<rparr>)"
      by (intro sems_sync [OF s]) auto
    then show ?thesis unfolding s' by (intro sync_go) (use core c nl in auto)
  qed
qed

lemma clocksleep_loop_sync:
  assumes core: "threads_core s" and s: "sync_ok s" and c: "curthread s = Some c"
    and nl: "\<And>l x. resume (fr s c) \<noteq> F_lock_loop l # x" and p: "clocksleep_loop mem n k s = Some s'"
  shows "sync_ok s'"
proof (cases "n > 0")
  case True
  with p have "thread_sleep mem LboltP (F_clocksleep n # k) s = Some s'" by (simp add: clocksleep_loop_def)
  from sleep_sync_plain [OF core s c this] nl show ?thesis by simp
next
  case False
  with p have "s' = go k s" by (simp add: clocksleep_loop_def)
  then show ?thesis using sync_go [OF core s c] nl by simp
qed

lemma lock_loop_sync:
  assumes core: "threads_core s" and s: "sync_ok s" and c: "curthread s = Some c"
    and nl: "\<And>l x. resume (fr s c) = F_lock_loop l # x \<Longrightarrow> l = lock"
    and size: "\<And>lk. locks s lock = Some lk \<Longrightarrow> q_size (lk_queue lk) < 2 ^ 27"
    and p: "lock_loop True mem lock k s = Some s'"
  shows "sync_ok s'"
proof -
  note cv0 = core_views [OF core c]
  from p obtain lk where lk: "locks s lock = Some lk" by (auto simp: lock_loop_def bind_Some)
  have s0: "sync (set (asleep s)) (insert c (set (ready s))) (fr s) (sleep_addr s) (locks s) (cvs s) (sems s)"
    using s cv0(1) by (simp add: sync_ok_def)
  then have lo: "locks_ok (set (asleep s)) (insert c (set (ready s))) (fr s) (sleep_addr s) (locks s)"
    and cvok: "cvs_ok (set (asleep s)) (fr s) (sleep_addr s) (cvs s)" by (simp_all add: sync_def)
  show ?thesis
  proof (cases "lk_owner lk = None")
    case True
    with p lk c have s': "s' = go k (s\<lparr>locks := (locks s)(lock \<mapsto> lk\<lparr>lk_owner := Some c\<rparr>)\<rparr>)" by (simp add: lock_loop_def)
    let ?s = "s\<lparr>locks := (locks s)(lock \<mapsto> lk\<lparr>lk_owner := Some c\<rparr>)\<rparr>"
    have same: "asleep ?s = asleep s" "running ?s = running s" "ready ?s = ready s" "sleep_addr ?s = sleep_addr s"
      by (rule view_cong; simp)+
    have core': "threads_core ?s" "curthread ?s = Some c" using core c by simp_all
    have "sync (set (asleep s)) (insert c (set (ready s))) ((fr s)(c := k)) (sleep_addr s) ((locks s)(lock \<mapsto> lk\<lparr>lk_owner := Some c\<rparr>)) (cvs s) (sems s)"
    proof (rule sync_owner [OF s0 lk])
      fix m assume "m \<noteq> lock" "contends (insert c (set (ready s))) (fr s) m"
      then show "contends (insert c (set (ready s))) ((fr s)(c := k)) m" by (intro contends_upd) (use nl in auto)
    qed (use cv0 in auto)
    then show ?thesis unfolding s' sync_ok_def go_views [OF core'] same go_fields using cv0(1) by simp
  next
    case False
    with p lk c obtain r q where q: "q_addtail True (lk_queue lk) c = Some (r, q)"
      "thread_sleep mem (ThreadP c) (F_lock_loop lock # k) (s\<lparr>locks := (locks s)(lock \<mapsto> lk\<lparr>lk_queue := q\<rparr>)\<rparr>) = Some s'"
      by (auto simp: lock_loop_def bind_Some)
    have qi: "q_inv (lk_queue lk)" using lo lk by (simp add: locks_ok_def)
    have sz: "q_size (lk_queue lk) < 2 ^ 29" using size [OF lk] by simp
    from q_addtail_cases [OF qi sz q(1)] have q2: "q_inv q" "q_list q = q_list (lk_queue lk) @ [c]" by auto
    have cq: "c \<notin> set (q_list (lk_queue lk))" using lock_mem(1) [OF lo lk] cv0(2) by blast
    show ?thesis
    proof (rule sleep_sync [OF core s c])
      show "thread_sleep mem (ThreadP c) (F_lock_loop lock # k) (s\<lparr>locks := (locks s)(lock \<mapsto> lk\<lparr>lk_queue := q\<rparr>), cvs := cvs s\<rparr>) = Some s'"
        using q(2) by simp
      have "locks_ok (insert c (set (asleep s))) (set (ready s)) ((fr s)(c := F_switch # F_wake # F_lock_loop lock # k)) ((sleep_addr s)(c := ThreadP c)) (locks s)"
      proof (rule locks_sleep [OF s0 cv0(2,3)])
        fix l l0 assume "locks s l = Some l0" "lk_owner l0 = None"
        with lk False nl show "\<not> (\<exists>x. resume (fr s c) = F_lock_loop l # x)" by auto
      qed
      then show "locks_ok (insert c (set (asleep s))) (set (ready s)) ((fr s)(c := F_switch # F_wake # F_lock_loop lock # k))
          ((sleep_addr s)(c := ThreadP c)) ((locks s)(lock \<mapsto> lk\<lparr>lk_queue := q\<rparr>))"
        by (rule locks_enqueue) (use cv0(2) lk False q2 cq in simp_all)
      show "cvs_ok (insert c (set (asleep s))) ((fr s)(c := F_switch # F_wake # F_lock_loop lock # k)) ((sleep_addr s)(c := ThreadP c)) (cvs s)"
        by (rule cvs_sleep [OF cvok cv0(2)])
      show "lock_waiter (fr s) ((locks s)(lock \<mapsto> lk\<lparr>lk_queue := q\<rparr>)) t" if "lock_waiter (fr s) (locks s) t" for t
      proof -
        from that obtain l l0 x where l: "fr s t = F_switch # F_wake # F_lock_loop l # x" "locks s l = Some l0" "t \<in> set (q_list (lk_queue l0))"
          by (auto simp: lock_waiter_def)
        then show ?thesis using lk q2(2) by (cases "l = lock") (auto simp: lock_waiter_def)
      qed
    qed (use q2(2) in \<open>auto simp: lock_waiter_def\<close>)
  qed
qed

lemma wakeup_plain_sync:
  \<comment> \<open>waking the sleepers on a semaphore or on \<open>lbolt\<close>; \<open>M\<close> may differ at the semaphore\<close>
  assumes core: "threads_core s" and s: "sync_ok s" and a: "a = LboltP \<or> (\<exists>x. a = SemP x)"
    and M: "\<And>x. a \<noteq> SemP x \<Longrightarrow> M x = sems s x"
    and w: "thread_wakeup mem a (s\<lparr>sems := M\<rparr>) = Some s'"
  shows "sync_ok s'"
proof -
  let ?W = "{t \<in> set (asleep s). sleep_addr s t = a}"
  have same: "asleep (s\<lparr>sems := M\<rparr>) = asleep s" "running (s\<lparr>sems := M\<rparr>) = running s" "ready (s\<lparr>sems := M\<rparr>) = ready s"
    "fr (s\<lparr>sems := M\<rparr>) = fr s" "sleep_addr (s\<lparr>sems := M\<rparr>) = sleep_addr s"
    by (rule view_cong; simp)+
  have core': "threads_core (s\<lparr>sems := M\<rparr>)" using core by simp
  note v = wakeup_views [OF core' w, unfolded same]
  have "sync (set (asleep s) - ?W) (set (running s @ ready s) \<union> ?W) (fr s) (sleep_addr s) (locks s) (cvs s) M"
  proof (rule sync_wake_other [where M = "sems s"])
    show "sync (set (asleep s)) (set (running s @ ready s)) (fr s) (sleep_addr s) (locks s) (cvs s) (sems s)"
      using s by (simp add: sync_ok_def)
    show "M x = sems s x" if "t \<in> set (asleep s) - ?W" "sleep_addr s t = SemP x" for t x
      using that by (intro M) auto
  qed (use a in auto)
  then show ?thesis unfolding sync_ok_def v by simp
qed

lemma splx_views [simp]:
  "sync_ok (snd (splx spl s)) = sync_ok s" "curthread (snd (splx spl s)) = curthread s" "fr (snd (splx spl s)) = fr s"
  "locks (snd (splx spl s)) = locks s" "cvs (snd (splx spl s)) = cvs s" "sems (snd (splx spl s)) = sems s"
  by (simp_all add: splx_def interrupts_on_def interrupts_off_def Let_def)

lemma V_sync:
  assumes core: "threads_core s" and s: "sync_ok s" and v: "V mem sem k s = Some s'"
    and nl: "\<And>c l x. curthread s = Some c \<Longrightarrow> resume (fr s c) \<noteq> F_lock_loop l # x"
  shows "sync_ok s'"
proof -
  let ?s = "s\<lparr>status_IEc := False, curspl := SPL_HIGH\<rparr>"
  from v obtain sm s1 where s1: "thread_wakeup mem (SemP sem) (?s\<lparr>sems := (sems s)(sem \<mapsto> sm)\<rparr>) = Some s1"
    "s' = go k (snd (splx (curspl s) s1))"
    by (auto simp: V_def splx_simps bind_Some Let_def split: if_splits)
  have core': "threads_core (?s\<lparr>sems := (sems s)(sem \<mapsto> sm)\<rparr>)" using core by simp
  have y: "sync_ok s1" by (rule wakeup_plain_sync [OF _ _ _ _ s1(1)]) (use core s in auto)
  note v1 = wakeup_views [OF core' s1(1)] wakeup_core [OF core' s1(1)]
  show ?thesis
  proof (cases "curthread s")
    case None
    with v1(8) y s1(2) show ?thesis by (simp add: sync_go_idle)
  next
    case (Some c)
    then have "curthread (snd (splx (curspl s) s1)) = Some c" using v1(8) by simp
    moreover have "resume (fr (snd (splx (curspl s) s1)) c) \<noteq> F_lock_loop l # x" for l x using nl [OF Some] v1(3) by simp
    ultimately show ?thesis unfolding s1(2) by (intro sync_go) (use y v1(9) in auto)
  qed
qed

lemma lock_release_sync:
  assumes core: "threads_core s" and s: "sync_ok s" and c: "curthread s = Some c"
    and r: "lock_release mem lock s = Some s'"
  shows "sync_ok s' \<and> threads_core s' \<and> curthread s' = Some c \<and> fr s' = fr s \<and> cvs s' = cvs s \<and>
    (\<forall>l lk. locks s' l = Some lk \<longrightarrow> (\<exists>lk0. locks s l = Some lk0 \<and> q_size (lk_queue lk) = q_size (lk_queue lk0)))"
proof -
  let ?s = "s\<lparr>status_IEc := False, curspl := SPL_HIGH\<rparr>"
  from r obtain lk where lk: "locks s lock = Some lk" and r': "(if q_empty (lk_queue lk)
      then Some (snd (splx (curspl s) (?s\<lparr>locks := (locks s)(lock \<mapsto> lk\<lparr>lk_owner := None\<rparr>)\<rparr>)))
      else do {
        (t, q) \<leftarrow> q_remhead (lk_queue lk);
        s1 \<leftarrow> thread_wakeup mem (ThreadP t) (?s\<lparr>locks := (locks s)(lock \<mapsto> lk\<lparr>lk_owner := None, lk_queue := q\<rparr>)\<rparr>);
        Some (snd (splx (curspl s) s1))
      }) = Some s'"
    by (auto simp: lock_release_def lock_do_i_hold_def splx_simps bind_Some Let_def split: if_splits)
  have s0: "sync (set (asleep s)) (set (running s @ ready s)) (fr s) (sleep_addr s) (locks s) (cvs s) (sems s)"
    using s by (simp add: sync_ok_def)
  then have qi: "q_inv (lk_queue lk)" using lk by (simp add: sync_def locks_ok_def)
  have same: "asleep (?s\<lparr>locks := L\<rparr>) = asleep s" "running (?s\<lparr>locks := L\<rparr>) = running s" "ready (?s\<lparr>locks := L\<rparr>) = ready s"
    "fr (?s\<lparr>locks := L\<rparr>) = fr s" "sleep_addr (?s\<lparr>locks := L\<rparr>) = sleep_addr s" for L
    by (rule view_cong; simp)+
  show ?thesis
  proof (cases "q_empty (lk_queue lk)")
    case True
    with qi have nil: "q_list (lk_queue lk) = []" by (simp add: q_empty_iff)
    let ?L = "(locks s)(lock \<mapsto> lk\<lparr>lk_owner := None\<rparr>)"
    have "sync (set (asleep s)) (set (running s @ ready s)) (fr s) (sleep_addr s) ?L (cvs s) (sems s)"
      by (rule sync_owner [OF s0 lk]) (use nil in auto)
    then have "sync_ok (?s\<lparr>locks := ?L\<rparr>)" unfolding sync_ok_def same by simp
    moreover have "s' = snd (splx (curspl s) (?s\<lparr>locks := ?L\<rparr>))" using r' True by simp
    ultimately show ?thesis using core c lk by auto
  next
    case False
    then obtain t ts where ts: "q_list (lk_queue lk) = t # ts" using q_empty_iff [OF qi] by (cases "q_list (lk_queue lk)") auto
    from q_remhead_Cons [OF qi ts] obtain q where q: "q_remhead (lk_queue lk) = Some (t, q)" "q_inv q" "q_list q = ts"
      "q_size q = q_size (lk_queue lk)" by blast
    let ?L = "(locks s)(lock \<mapsto> lk\<lparr>lk_owner := None, lk_queue := q\<rparr>)"
    from r' False q(1) obtain s1 where s1: "thread_wakeup mem (ThreadP t) (?s\<lparr>locks := ?L\<rparr>) = Some s1" "s' = snd (splx (curspl s) s1)"
      by (auto simp: bind_Some)
    have core': "threads_core (?s\<lparr>locks := ?L\<rparr>)" using core by simp
    note v = wakeup_views [OF core' s1(1), unfolded same] wakeup_core [OF core' s1(1)]
    have lo: "locks_ok (set (asleep s)) (set (running s @ ready s)) (fr s) (sleep_addr s) (locks s)" using s0 by (simp add: sync_def)
    have W: "{x \<in> set (asleep s). sleep_addr s x = ThreadP t} = {t}"
      using thread_addr [OF s0] lock_mem [OF lo lk, of t] ts by auto
    have "sync (set (asleep s) - {t}) (set (running s @ ready s) \<union> {t}) (fr s) (sleep_addr s) ?L (cvs s) (sems s)"
      by (rule sync_wake_lock [OF s0 lk ts q(2,3)])
    then have "sync_ok s1" unfolding sync_ok_def v W by simp
    then show ?thesis using v(3-9) c lk q(4) s1(2) by auto
  qed
qed

lemma cv_wake_sync:
  assumes core: "threads_core s" and s: "sync_ok s" and v: "cvs s cv = Some c" "\<not> q_empty (cv_queue c)"
    and q: "q_remhead (cv_queue c) = Some (t, q)"
    and w: "thread_wakeup mem (ThreadP t) (s\<lparr>cvs := (cvs s)(cv \<mapsto> c\<lparr>cv_queue := q\<rparr>)\<rparr>) = Some s'"
  shows "sync_ok s' \<and> threads_core s' \<and> curthread s' = curthread s \<and> fr s' = fr s \<and> locks s' = locks s"
proof -
  let ?C = "(cvs s)(cv \<mapsto> c\<lparr>cv_queue := q\<rparr>)"
  have s0: "sync (set (asleep s)) (set (running s @ ready s)) (fr s) (sleep_addr s) (locks s) (cvs s) (sems s)"
    using s by (simp add: sync_ok_def)
  then have cvok: "cvs_ok (set (asleep s)) (fr s) (sleep_addr s) (cvs s)" by (simp add: sync_def)
  then have qi: "q_inv (cv_queue c)" using v(1) by (simp add: cvs_ok_def)
  then obtain x ts where ts: "q_list (cv_queue c) = x # ts" using v(2) q_empty_iff [OF qi] by (cases "q_list (cv_queue c)") auto
  from q_remhead_Cons [OF qi ts] q have q': "q_inv q" "q_list q = ts" "x = t" by auto
  have same: "asleep (s\<lparr>cvs := ?C\<rparr>) = asleep s" "running (s\<lparr>cvs := ?C\<rparr>) = running s" "ready (s\<lparr>cvs := ?C\<rparr>) = ready s"
    "fr (s\<lparr>cvs := ?C\<rparr>) = fr s" "sleep_addr (s\<lparr>cvs := ?C\<rparr>) = sleep_addr s"
    by (rule view_cong; simp)+
  have core': "threads_core (s\<lparr>cvs := ?C\<rparr>)" using core by simp
  note vw = wakeup_views [OF core' w, unfolded same] wakeup_core [OF core' w]
  have W: "{x \<in> set (asleep s). sleep_addr s x = ThreadP t} = {t}"
    using thread_addr [OF s0] cv_mem [OF cvok v(1), of t] ts q'(3) by auto
  have "sync (set (asleep s) - {t}) (set (running s @ ready s) \<union> {t}) (fr s) (sleep_addr s) (locks s) ?C (sems s)"
    by (rule sync_wake_cv [OF s0 v(1) _ q'(1,2)]) (use ts q'(3) in simp)
  then have "sync_ok s'" unfolding sync_ok_def vw W by simp
  then show ?thesis using vw by simp
qed

lemma cv_wait_sync:
  assumes core: "threads_core s" and s: "sync_ok s" and c: "curthread s = Some c" and nl: "fr s c = []"
    and size: "\<And>x. cvs s cv = Some x \<Longrightarrow> q_size (cv_queue x) < 2 ^ 27"
    and w: "cv_wait True mem cv lock [] s = Some s'"
  shows "sync_ok s'"
proof -
  from w obtain s1 c0 t r q where s1: "lock_release mem lock (s\<lparr>status_IEc := False, curspl := SPL_HIGH\<rparr>) = Some s1" "cvs s1 cv = Some c0"
    and t: "curthread s1 = Some t" "q_addtail True (cv_queue c0) t = Some (r, q)"
    "thread_sleep mem (ThreadP t) [F_lock_acquire lock, F_splx (curspl s)] (s1\<lparr>cvs := (cvs s1)(cv \<mapsto> c0\<lparr>cv_queue := q\<rparr>)\<rparr>) = Some s'"
    by (auto simp: cv_wait_def splx_simps bind_Some split: if_splits)
  have r1: "sync_ok s1 \<and> threads_core s1 \<and> curthread s1 = Some c \<and> fr s1 = fr s \<and> cvs s1 = cvs s"
    using lock_release_sync [OF _ _ _ s1(1), of c] core s c by simp
  then have core1: "threads_core s1" and sy1: "sync_ok s1" and c1: "curthread s1 = Some c" and f1: "fr s1 c = []" and cv1: "cvs s1 = cvs s"
    using nl by simp_all
  note cv0 = core_views [OF core1 c1]
  have s0: "sync (set (asleep s1)) (insert c (set (ready s1))) (fr s1) (sleep_addr s1) (locks s1) (cvs s1) (sems s1)"
    using sy1 cv0(1) by (simp add: sync_ok_def)
  then have cvok: "cvs_ok (set (asleep s1)) (fr s1) (sleep_addr s1) (cvs s1)" by (simp add: sync_def)
  then have qi: "q_inv (cv_queue c0)" using s1(2) by (simp add: cvs_ok_def)
  have sz: "q_size (cv_queue c0) < 2 ^ 29" using size [of c0] s1(2) cv1 by simp
  from t c1 have q: "q_addtail True (cv_queue c0) c = Some (r, q)"
    "thread_sleep mem (ThreadP c) [F_lock_acquire lock, F_splx (curspl s)] (s1\<lparr>locks := locks s1, cvs := (cvs s1)(cv \<mapsto> c0\<lparr>cv_queue := q\<rparr>)\<rparr>) = Some s'"
    by simp_all
  from q_addtail_cases [OF qi sz q(1)] have q2: "q_inv q" "q_list q = q_list (cv_queue c0) @ [c]" by auto
  show ?thesis
  proof (rule sleep_sync [OF core1 sy1 c1 q(2)])
    show "locks_ok (insert c (set (asleep s1))) (set (ready s1)) ((fr s1)(c := F_switch # F_wake # [F_lock_acquire lock, F_splx (curspl s)]))
        ((sleep_addr s1)(c := ThreadP c)) (locks s1)"
      by (rule locks_sleep [OF s0 cv0(2,3)]) (use f1 in auto)
    show "cvs_ok (insert c (set (asleep s1))) ((fr s1)(c := F_switch # F_wake # [F_lock_acquire lock, F_splx (curspl s)]))
        ((sleep_addr s1)(c := ThreadP c)) ((cvs s1)(cv \<mapsto> c0\<lparr>cv_queue := q\<rparr>))"
      by (rule cvs_enqueue [OF cvok cv0(2) s1(2) q2]) simp_all
    show "cv_waiter ((cvs s1)(cv \<mapsto> c0\<lparr>cv_queue := q\<rparr>)) t" if "cv_waiter (cvs s1) t" for t
    proof -
      from that obtain v x where "cvs s1 v = Some x" "t \<in> set (q_list (cv_queue x))" by (auto simp: cv_waiter_def)
      then show ?thesis using s1(2) q2(2) by (cases "v = cv") (auto simp: cv_waiter_def)
    qed
  qed (use q2(2) in \<open>auto simp: cv_waiter_def\<close>)
qed

lemma lock_acquire_sync:
  assumes core: "threads_core s" and s: "sync_ok s" and c: "curthread s = Some c"
    and nl: "\<And>l x. resume (fr s c) \<noteq> F_lock_loop l # x"
    and size: "\<And>lk. locks s lock = Some lk \<Longrightarrow> q_size (lk_queue lk) < 2 ^ 27"
    and p: "lock_acquire True mem lock k s = Some s'"
  shows "sync_ok s'"
proof -
  let ?s = "s\<lparr>status_IEc := False, curspl := SPL_HIGH\<rparr>"
  from p have l: "lock_loop True mem lock (F_splx (curspl s) # k) ?s = Some s'"
    by (auto simp: lock_acquire_def splx_simps bind_Some split: if_splits)
  show ?thesis by (rule lock_loop_sync [OF _ _ _ _ _ l]) (use core s c nl size in auto)
qed

lemma cv_signal_parts_cv:
  assumes "cv_signal qmem mem cv lock k s = Some s'"
  obtains s1 s2 c where "lock_release mem lock (snd (splhigh s)) = Some s1" "cvs s1 cv = Some c"
    "s2 = s1 \<or> (\<not> q_empty (cv_queue c) \<and> (\<exists>t q. q_remhead (cv_queue c) = Some (t, q) \<and>
      thread_wakeup mem (ThreadP t) (s1\<lparr>cvs := (cvs s1)(cv \<mapsto> c\<lparr>cv_queue := q\<rparr>)\<rparr>) = Some s2))"
    "lock_acquire qmem mem lock (F_splx (fst (splhigh s)) # k) s2 = Some s'"
proof -
  from assms obtain s1 c s2 where s: "lock_release mem lock (snd (splhigh s)) = Some s1" "cvs s1 cv = Some c"
    "(if \<not> q_empty (cv_queue c)
      then q_remhead (cv_queue c) \<bind> (\<lambda>(t, q). thread_wakeup mem (ThreadP t) (s1\<lparr>cvs := (cvs s1)(cv \<mapsto> c\<lparr>cv_queue := q\<rparr>)\<rparr>))
      else Some s1) = Some s2"
    "lock_acquire qmem mem lock (F_splx (fst (splhigh s)) # k) s2 = Some s'"
    unfolding cv_signal_def Let_def case_prod_beta bind_Some by blast
  then have "s2 = s1 \<or> (\<not> q_empty (cv_queue c) \<and> (\<exists>t q. q_remhead (cv_queue c) = Some (t, q) \<and>
      thread_wakeup mem (ThreadP t) (s1\<lparr>cvs := (cvs s1)(cv \<mapsto> c\<lparr>cv_queue := q\<rparr>)\<rparr>) = Some s2))"
    by (cases "q_empty (cv_queue c)") (auto simp: bind_Some)
  with s that show thesis by blast
qed

lemma cv_signal_sync:
  assumes core: "threads_core s" and s: "sync_ok s" and c: "curthread s = Some c" and nl: "fr s c = []"
    and size: "\<And>l lk. locks s l = Some lk \<Longrightarrow> q_size (lk_queue lk) < 2 ^ 27"
    and w: "cv_signal True mem cv lock [] s = Some s'"
  shows "sync_ok s'"
proof -
  let ?s = "s\<lparr>status_IEc := False, curspl := SPL_HIGH\<rparr>"
  from w obtain s1 s2 c0 where p: "lock_release mem lock (snd (splhigh s)) = Some s1" "cvs s1 cv = Some c0"
    "s2 = s1 \<or> (\<not> q_empty (cv_queue c0) \<and> (\<exists>t q. q_remhead (cv_queue c0) = Some (t, q) \<and>
      thread_wakeup mem (ThreadP t) (s1\<lparr>cvs := (cvs s1)(cv \<mapsto> c0\<lparr>cv_queue := q\<rparr>)\<rparr>) = Some s2))"
    "lock_acquire True mem lock (F_splx (fst (splhigh s)) # []) s2 = Some s'"
    by (rule cv_signal_parts_cv)
  have r1: "sync_ok s1 \<and> threads_core s1 \<and> curthread s1 = Some c \<and> fr s1 = fr s \<and>
    (\<forall>l lk. locks s1 l = Some lk \<longrightarrow> (\<exists>lk0. locks s l = Some lk0 \<and> q_size (lk_queue lk) = q_size (lk_queue lk0)))"
    using lock_release_sync [of ?s c mem lock s1] p(1) core s c by (simp add: splx_simps)
  have r2: "sync_ok s2 \<and> threads_core s2 \<and> curthread s2 = Some c \<and> fr s2 = fr s \<and> locks s2 = locks s1"
    using p(3)
  proof
    assume "s2 = s1"
    with r1 show ?thesis by simp
  next
    assume "\<not> q_empty (cv_queue c0) \<and> (\<exists>t q. q_remhead (cv_queue c0) = Some (t, q) \<and>
      thread_wakeup mem (ThreadP t) (s1\<lparr>cvs := (cvs s1)(cv \<mapsto> c0\<lparr>cv_queue := q\<rparr>)\<rparr>) = Some s2)"
    then obtain t q where t: "\<not> q_empty (cv_queue c0)" "q_remhead (cv_queue c0) = Some (t, q)"
      "thread_wakeup mem (ThreadP t) (s1\<lparr>cvs := (cvs s1)(cv \<mapsto> c0\<lparr>cv_queue := q\<rparr>)\<rparr>) = Some s2" by blast
    from cv_wake_sync [OF _ _ p(2) t] r1 show ?thesis by simp
  qed
  have "q_size (lk_queue lk) < 2 ^ 27" if "locks s2 lock = Some lk" for lk
  proof -
    from that r1 r2 obtain lk0 where "locks s lock = Some lk0" "q_size (lk_queue lk) = q_size (lk_queue lk0)" by auto
    with size show ?thesis by simp
  qed
  then show ?thesis
    by (intro lock_acquire_sync [OF _ _ _ _ _ p(4)]) (use r2 nl in auto)
qed

lemma broadcast_sync:
  "broadcast_loop mem cv s = Some s' \<Longrightarrow> threads_core s \<Longrightarrow> sync_ok s \<Longrightarrow>
   sync_ok s' \<and> threads_core s' \<and> curthread s' = curthread s \<and> fr s' = fr s \<and> locks s' = locks s"
proof (induction rule: broadcast_loop.raw_induct [rotated, consumes 1, case_names step])
  case (step loop mem cv s s')
  from step(2) obtain c where c: "cvs s cv = Some c" by (auto simp: bind_Some)
  show ?case
  proof (cases "q_empty (cv_queue c)")
    case True
    with step(2-4) c show ?thesis by simp
  next
    case False
    with step(2) c obtain t q s1 where s1: "q_remhead (cv_queue c) = Some (t, q)"
      "thread_wakeup mem (ThreadP t) (s\<lparr>cvs := (cvs s)(cv \<mapsto> c\<lparr>cv_queue := q\<rparr>)\<rparr>) = Some s1" "loop mem cv s1 = Some s'"
      by (auto simp: bind_Some)
    from cv_wake_sync [OF step(3,4) c False s1(1,2)] step(1) [OF s1(3)] show ?thesis by simp
  qed
qed

lemma cv_broadcast_sync:
  assumes core: "threads_core s" and s: "sync_ok s" and c: "curthread s = Some c" and nl: "fr s c = []"
    and size: "\<And>l lk. locks s l = Some lk \<Longrightarrow> q_size (lk_queue lk) < 2 ^ 27"
    and w: "cv_broadcast True mem cv lock [] s = Some s'"
  shows "sync_ok s'"
proof -
  let ?s = "s\<lparr>status_IEc := False, curspl := SPL_HIGH\<rparr>"
  from w obtain s1 s2 where p: "lock_release mem lock ?s = Some s1" "broadcast_loop mem cv s1 = Some s2"
    "lock_acquire True mem lock [F_splx (curspl s)] s2 = Some s'"
    by (auto simp: cv_broadcast_def splx_simps bind_Some split: if_splits)
  have r1: "sync_ok s1 \<and> threads_core s1 \<and> curthread s1 = Some c \<and> fr s1 = fr s \<and>
    (\<forall>l lk. locks s1 l = Some lk \<longrightarrow> (\<exists>lk0. locks s l = Some lk0 \<and> q_size (lk_queue lk) = q_size (lk_queue lk0)))"
    using lock_release_sync [OF _ _ _ p(1), of c] core s c by simp
  have r2: "sync_ok s2 \<and> threads_core s2 \<and> curthread s2 = Some c \<and> fr s2 = fr s \<and> locks s2 = locks s1"
    using broadcast_sync [OF p(2)] r1 by simp
  have "q_size (lk_queue lk) < 2 ^ 27" if "locks s2 lock = Some lk" for lk
  proof -
    from that r1 r2 obtain lk0 where "locks s lock = Some lk0" "q_size (lk_queue lk) = q_size (lk_queue lk0)" by auto
    with size show ?thesis by simp
  qed
  then show ?thesis
    by (intro lock_acquire_sync [OF _ _ _ _ _ p(3)]) (use r2 nl in auto)
qed

lemma mi_switch_views:
  assumes lists: "lists_ok s" and c: "curthread s = Some c" and sw: "mi_switch mem st k s = Some s'" and st: "st \<noteq> S_SLEEP"
  shows "asleep s' = asleep s" "set (running s' @ ready s') = set (ready s) \<union> (if st = S_READY then {c} else {})"
    "fr s' = (fr s)(c := F_switch # k)" "sleep_addr s' = sleep_addr s" "locks s' = locks s" "cvs s' = cvs s" "sems s' = sems s"
proof -
  from lists c sw obtain th q a z where *: "threads s c = Some th"
    "s' = s\<lparr>curthread := None, switching := Some c,
       threads := (threads s)(c \<mapsto> th\<lparr>t_pcb := (t_pcb th)\<lparr>pcb_frames := F_switch # k\<rparr>\<rparr>),
       runqueue := Some q, sleepers := Some a, zombies := Some z\<rparr>"
    "q_list q = ready s @ (if st = S_READY then [c] else [])" "array_elems a = asleep s @ (if st = S_SLEEP then [c] else [])"
    by (rule mi_switch_eff)
  show "asleep s' = asleep s" "set (running s' @ ready s') = set (ready s) \<union> (if st = S_READY then {c} else {})"
    "locks s' = locks s" "cvs s' = cvs s" "sems s' = sems s"
    using *(2-4) st by (simp_all add: view_defs)
  show "fr s' = (fr s)(c := F_switch # k)" "sleep_addr s' = sleep_addr s"
    using *(1,2) by (auto simp: fr_def sleep_addr_def fun_eq_iff)
qed

lemma mi_switch_sync:
  assumes core: "threads_core (s\<lparr>numthreads := n\<rparr>)" and s: "sync_ok s" and c: "curthread s = Some c" and st: "st \<noteq> S_SLEEP"
    and nl: "\<And>l x. resume (fr s c) \<noteq> F_lock_loop l # x"
    and sw: "mi_switch mem st k s = Some s'"
  shows "sync_ok s'"
proof -
  from core have lists: "lists_ok s" by (simp add: threads_core_def lists_ok_def view_defs)
  have "running (s\<lparr>numthreads := n\<rparr>) = running s" "asleep (s\<lparr>numthreads := n\<rparr>) = asleep s" "ready (s\<lparr>numthreads := n\<rparr>) = ready s"
    by (simp_all add: view_defs)
  with core_views [OF core, of c] c have cv0: "running s = [c]" "c \<notin> set (asleep s)" "c \<notin> set (ready s)" by simp_all
  note v = mi_switch_views [OF lists c sw st]
  have "sync (set (asleep s)) (set (ready s) \<union> (if st = S_READY then {c} else {})) ((fr s)(c := F_switch # k)) (sleep_addr s) (locks s) (cvs s) (sems s)"
  proof (rule sync_mono)
    show "sync (set (asleep s)) (insert c (set (ready s))) (fr s) (sleep_addr s) (locks s) (cvs s) (sems s)"
      using s cv0(1) by (simp add: sync_ok_def)
    show "\<forall>l. contends (insert c (set (ready s))) (fr s) l \<longrightarrow>
        contends (set (ready s) \<union> (if st = S_READY then {c} else {})) ((fr s)(c := F_switch # k)) l"
    proof (intro allI impI)
      fix l assume "contends (insert c (set (ready s))) (fr s) l"
      then have "contends (set (ready s)) (fr s) l" using nl by (auto simp: contends_def)
      then have "contends (set (ready s)) ((fr s)(c := F_switch # k)) l" by (rule contends_upd) (use nl in auto)
      then show "contends (set (ready s) \<union> (if st = S_READY then {c} else {})) ((fr s)(c := F_switch # k)) l"
        by (rule contends_mono) auto
    qed
  qed (use cv0(2) in auto)
  then show ?thesis by (simp only: sync_ok_def v)
qed

lemma thread_yield_sync:
  assumes core: "threads_core s" and s: "sync_ok s"
    and nl: "\<And>c l x. curthread s = Some c \<Longrightarrow> resume (fr s c) \<noteq> F_lock_loop l # x"
    and y: "thread_yield mem k s = Some s'"
  shows "sync_ok s'"
proof -
  let ?s = "s\<lparr>status_IEc := False, curspl := SPL_HIGH\<rparr>"
  from y have sw: "mi_switch mem S_READY (F_splx (curspl s) # k) ?s = Some s'"
    by (auto simp: thread_yield_def splx_simps split: if_splits)
  show ?thesis
  proof (cases "curthread s")
    case None
    with sw have "s' = go (F_splx (curspl s) # k) ?s" by (auto simp: mi_switch_def split: if_splits)
    with s None show ?thesis by (simp add: sync_go_idle)
  next
    case (Some c)
    have "threads_core (?s\<lparr>numthreads := numthreads s\<rparr>) = threads_core s" by (rule core_cong) simp_all
    with core have "threads_core (?s\<lparr>numthreads := numthreads s\<rparr>)" by simp
    from mi_switch_sync [OF this _ _ _ _ sw, of c] s Some nl [OF Some] show ?thesis by simp
  qed
qed

lemma hardclock_sync:
  assumes core: "threads_core s" and s: "sync_ok s"
    and nl: "\<And>c l x. curthread s = Some c \<Longrightarrow> resume (fr s c) \<noteq> F_lock_loop l # x"
    and h: "hardclock mem k s = Some s'"
  shows "sync_ok s'"
proof -
  from h obtain s1 where s1: "thread_yield mem k s1 = Some s'"
    "s1 = s\<lparr>lbolt_counter := lbolt_counter s + 1\<rparr> \<or> thread_wakeup mem LboltP (s\<lparr>lbolt_counter := 0, sems := sems s\<rparr>) = Some s1"
    by (auto simp: hardclock_def bind_Some Let_def split: if_splits)
  from s1(2) have "threads_core s1 \<and> sync_ok s1 \<and> curthread s1 = curthread s \<and> fr s1 = fr s"
  proof
    assume "s1 = s\<lparr>lbolt_counter := lbolt_counter s + 1\<rparr>"
    with core s show ?thesis by simp
  next
    assume w: "thread_wakeup mem LboltP (s\<lparr>lbolt_counter := 0, sems := sems s\<rparr>) = Some s1"
    have core': "threads_core (s\<lparr>lbolt_counter := 0, sems := sems s\<rparr>)" using core by simp
    have "sync_ok s1" by (rule wakeup_plain_sync [OF _ _ _ _ w]) (use core s in auto)
    with wakeup_views [OF core' w] wakeup_core [OF core' w] show ?thesis by simp
  qed
  then show ?thesis by (intro thread_yield_sync [OF _ _ _ s1(1)]) (use nl in auto)
qed

lemma interrupt_sync:
  assumes core: "threads_core s" and s: "sync_ok s"
    and nl: "\<And>c l x. curthread s = Some c \<Longrightarrow> resume (fr s c) \<noteq> F_lock_loop l # x"
    and t: "take_interrupt mem i s = Some s'"
  shows "sync_ok s'"
proof (cases i)
  case Irq_timer
  with t obtain k where h: "hardclock mem k (s\<lparr>status_IEc := False, curspl := SPL_HIGH, in_interrupt := 1\<rparr>) = Some s'"
    by (auto simp: take_interrupt_def mips_interrupt_def Let_def split: if_splits)
  show ?thesis by (rule hardclock_sync [OF _ _ _ h]) (use core s nl in auto)
next
  case (Irq_device sem)
  with t obtain k where h: "V mem sem k (s\<lparr>status_IEc := False, curspl := SPL_HIGH, in_interrupt := 1\<rparr>) = Some s'"
    by (auto simp: take_interrupt_def mips_interrupt_def Let_def split: if_splits)
  show ?thesis by (rule V_sync [OF _ _ h]) (use core s nl in auto)
qed

lemma sync_views:
  assumes s: "sync_ok s" and v: "set (asleep s') = set (asleep s)" "locks s' = locks s" "cvs s' = cvs s" "sems s' = sems s"
    and f: "\<And>t. t \<in> set (asleep s) \<Longrightarrow> fr s' t = fr s t \<and> sleep_addr s' t = sleep_addr s t"
    and c: "\<And>t l x. t \<in> set (running s @ ready s) \<Longrightarrow> resume (fr s t) = F_lock_loop l # x \<Longrightarrow>
      t \<in> set (running s' @ ready s') \<and> (\<exists>y. resume (fr s' t) = F_lock_loop l # y)"
  shows "sync_ok s'"
  unfolding sync_ok_def v
proof (rule sync_mono)
  show "sync (set (asleep s)) (set (running s @ ready s)) (fr s) (sleep_addr s) (locks s) (cvs s) (sems s)"
    using s by (simp add: sync_ok_def)
  show "\<forall>l. contends (set (running s @ ready s)) (fr s) l \<longrightarrow> contends (set (running s' @ ready s')) (fr s') l"
    unfolding contends_def using c by blast
qed (use f in blast)

lemma thread_fork_sync:
  assumes b: "in_body s" and s: "sync_ok s" and fresh: "\<forall>t. m_thread mem = Some t \<longrightarrow> threads s t = None"
    and room: "length (running s @ ready s @ asleep s @ dead s) + 2 < 2 ^ 28"
    and f: "thread_fork mem name s = Some (r, s')"
  shows "sync_ok s'"
  using b fresh room f
proof (cases rule: thread_fork_eff)
  case (failed e q a z cs)
  have "asleep s' = asleep s" "running s' = running s" "ready s' = ready s" "fr s' = fr s" "sleep_addr s' = sleep_addr s"
    using failed(7,8) unfolding failed(2) by (simp_all add: view_defs fr_def sleep_addr_def fun_eq_iff)
  then show ?thesis using s sync_cong [of s' s] failed(2) by simp
next
  case (forked t th cur q a z cs)
  have v: "asleep s' = asleep s" "running s' = running s" "ready s' = ready s @ [t]"
    "fr s' = (fr s)(t := [F_start])" "\<And>x. x \<noteq> t \<Longrightarrow> sleep_addr s' x = sleep_addr s x"
    using forked(9,10) unfolding forked(4)
    by (simp_all add: view_defs fr_def sleep_addr_def fun_eq_iff fork_thread_def md_initpcb_def)
  have "t \<notin> dom (threads s)" using forked(2) by auto
  then have tn: "t \<notin> set (running s @ ready s @ asleep s)" using b by (auto simp: in_body_def threads_core_def places_ok_def)
  show ?thesis
  proof (rule sync_views [OF s])
    fix x l y assume "x \<in> set (running s @ ready s)" "resume (fr s x) = F_lock_loop l # y"
    with tn show "x \<in> set (running s' @ ready s') \<and> (\<exists>y. resume (fr s' x) = F_lock_loop l # y)" by (auto simp: v)
  qed (use tn v forked(4) in auto)
qed

lemma thread_exit_sync:
  assumes b: "in_body s" and s: "sync_ok s" and e: "thread_exit mem s = Some s'"
  shows "sync_ok s'"
proof -
  from b obtain c where c: "curthread s = Some c" by (auto simp: in_body_def)
  with b have nl: "fr s c = []" by (simp add: in_body_def frames_def fr_def split: option.splits)
  from b have core: "threads_core s" by (simp add: in_body_def)
  from core c obtain th where th: "threads s c = Some th" by (rule core_running)
  define s3 where "s3 = (let s = s\<lparr>status_IEc := False, curspl := SPL_HIGH\<rparr>;
     s = (if t_vmspace th \<noteq> 0 then log_call (As_destroy (t_vmspace th)) (upd_thread c (\<lambda>th. th\<lparr>t_vmspace := 0\<rparr>) s) else s)
    in (if t_cwd th \<noteq> 0 then upd_thread c (\<lambda>th. th\<lparr>t_cwd := 0\<rparr>) (log_call (Vop_decref (t_cwd th)) s) else s))"
  have sw: "mi_switch mem S_ZOMB [F_dead] (s3\<lparr>numthreads := numthreads s3 - 1\<rparr>) = Some s'"
    using e c th by (simp add: s3_def thread_exit_def splx_simps bind_Some Let_def split: if_splits)
  have f: "curthread s3 = Some c" "fr s3 = fr s" "sleep_addr s3 = sleep_addr s" "asleep s3 = asleep s" "running s3 = running s" "ready s3 = ready s"
    "locks s3 = locks s" "cvs s3 = cvs s" "sems s3 = sems s" "numthreads s3 = numthreads s" "dead s3 = dead s"
    "runqueue s3 = runqueue s" "sleepers s3 = sleepers s" "zombies s3 = zombies s"
    using c th by (auto simp: s3_def Let_def log_call_def upd_thread_def view_defs fr_def sleep_addr_def fun_eq_iff)
  have lists: "lists_ok (s3\<lparr>numthreads := numthreads s3 - 1\<rparr>)"
    using core f by (simp add: threads_core_def lists_ok_def view_defs)
  have s4: "sync_ok (s3\<lparr>numthreads := numthreads s3 - 1\<rparr>)" using s f sync_cong [of s3 s] by simp
  note v = mi_switch_views [OF lists _ sw]
  have nv: "running (s3\<lparr>numthreads := x\<rparr>) = running s3" "asleep (s3\<lparr>numthreads := x\<rparr>) = asleep s3" "ready (s3\<lparr>numthreads := x\<rparr>) = ready s3"
    "fr (s3\<lparr>numthreads := x\<rparr>) = fr s3" "sleep_addr (s3\<lparr>numthreads := x\<rparr>) = sleep_addr s3" for x
    by (rule view_cong; simp)+
  note cv0 = core_views [OF core c]
  show ?thesis
  proof (rule sync_views [OF s])
    fix t l y assume t: "t \<in> set (running s @ ready s)" "resume (fr s t) = F_lock_loop l # y"
    then have "t \<noteq> c" using nl by auto
    with t v cv0 f show "t \<in> set (running s' @ ready s') \<and> (\<exists>y. resume (fr s' t) = F_lock_loop l # y)"
      by (auto simp: nv)
  qed (use v cv0 f in \<open>auto simp: nv\<close>)
qed

lemma dispatch_sync:
  assumes core: "threads_core s" and s: "sync_ok s" and c: "curthread s = None" and d: "mi_dispatch s = Some s'"
  shows "sync_ok s'"
proof -
  from core have "lists_ok s" by (simp add: threads_core_def)
  from this d obtain old nxt q xs where *: "ready s = nxt # xs" "q_list q = xs"
    "md_switch old nxt (s\<lparr>runqueue := Some q, curthread := Some nxt, switching := None\<rparr>) = Some s'"
    by (rule mi_dispatch_eff)
  let ?s = "s\<lparr>runqueue := Some q, curthread := Some nxt, switching := None\<rparr>"
  define g where "g = (\<lambda>th. th\<lparr>t_pcb := (t_pcb th)\<lparr>pcb_kstack := curkstack s, pcb_ininterrupt := in_interrupt s\<rparr>\<rparr> :: thread)"
  obtain x y where s': "s' = ?s \<or> s' = (upd_thread old g ?s)\<lparr>curkstack := x, in_interrupt := y\<rparr>"
    using *(3) by (auto simp: md_switch_def g_def bind_Some Let_def split: if_splits)
  have g: "fr (upd_thread old g ?s) = fr s" "sleep_addr (upd_thread old g ?s) = sleep_addr s"
    by (auto simp: fr_def sleep_addr_def upd_thread_def g_def fun_eq_iff split: option.split)
  have v: "asleep s' = asleep s" "running s' = [nxt]" "ready s' = xs" "locks s' = locks s" "cvs s' = cvs s" "sems s' = sems s"
    using s' *(2) by (auto simp: upd_thread_def view_defs)
  have f: "fr s' = fr s" "sleep_addr s' = sleep_addr s"
    using s' g by (auto simp: fr_def sleep_addr_def fun_eq_iff)
  have "running s = []" using c by (simp add: running_def)
  then show ?thesis using s *(1) by (simp add: sync_ok_def v f)
qed

lemma exorcise_sync:
  assumes core: "threads_core s" and s: "sync_ok s" and e: "exorcise s = Some s'"
  shows "sync_ok s' \<and> curthread s' = curthread s \<and> (\<forall>t. t \<notin> set (dead s) \<longrightarrow> fr s' t = fr s t)"
proof -
  from core have "lists_ok s" by (simp add: threads_core_def)
  from this e obtain z where s': "s' = (kill_threads (set (dead s)) s)\<lparr>zombies := Some z\<rparr>" by (rule exorcise_eff)
  have v: "asleep s' = asleep s" "running s' = running s" "ready s' = ready s" "locks s' = locks s" "cvs s' = cvs s" "sems s' = sems s"
    "curthread s' = curthread s"
    using s' by (simp_all add: kill_threads_def view_defs)
  have v8: "fr s' t = fr s t \<and> sleep_addr s' t = sleep_addr s t" if "t \<notin> set (dead s)" for t
    using s' that by (simp add: kill_threads_def fr_def sleep_addr_def)
  from core have d: "set (running s @ ready s @ asleep s) \<inter> set (dead s) = {}" by (auto simp: threads_core_def places_ok_def)
  have "sync_ok s'"
  proof (rule sync_views [OF s])
    fix t l y assume t: "t \<in> set (running s @ ready s)" "resume (fr s t) = F_lock_loop l # y"
    then have "t \<notin> set (dead s)" using d by auto
    with t v v8 [of t] show "t \<in> set (running s' @ ready s') \<and> (\<exists>y. resume (fr s' t) = F_lock_loop l # y)" by auto
  next
    fix t assume "t \<in> set (asleep s)"
    then have "t \<notin> set (dead s)" using d by auto
    with v8 show "fr s' t = fr s t \<and> sleep_addr s' t = sleep_addr s t" by blast
  qed (use v in auto)
  with v(7) v8 show ?thesis by blast
qed

lemma new_lock_sync:
  assumes s: "sync_ok s" and l: "locks s l = None" "q_inv (lk_queue lk)" "q_list (lk_queue lk) = []"
  shows "sync_ok (s\<lparr>locks := (locks s)(l \<mapsto> lk)\<rparr>)"
proof -
  let ?s = "s\<lparr>locks := (locks s)(l \<mapsto> lk)\<rparr>"
  have v: "asleep ?s = asleep s" "running ?s = running s" "ready ?s = ready s" "sleep_addr ?s = sleep_addr s"
    by (rule view_cong; simp)+
  have w: "lock_waiter F (locks s) t \<Longrightarrow> lock_waiter F ((locks s)(l \<mapsto> lk)) t" for F t
    using l(1) by (auto simp: lock_waiter_def)
  from s have "asleep_ok (set (asleep s)) (fr s) (sleep_addr s) (locks s) (cvs s) (sems s)" by (simp add: sync_ok_def sync_def)
  then have "asleep_ok (set (asleep s)) (fr s) (sleep_addr s) ((locks s)(l \<mapsto> lk)) (cvs s) (sems s)"
    unfolding asleep_ok_def using w by blast
  moreover have "locks_ok (set (asleep s)) (set (running s @ ready s)) (fr s) (sleep_addr s) ((locks s)(l \<mapsto> lk))"
    using s l(2,3) by (auto simp: sync_ok_def sync_def locks_ok_def)
  ultimately show ?thesis using s by (simp add: sync_ok_def sync_def v)
qed

lemma drop_lock_sync:
  assumes s: "sync_ok s" and l: "locks s l = Some lk" "q_list (lk_queue lk) = []"
  shows "sync_ok (s\<lparr>locks := (locks s)(l := None)\<rparr>)"
proof -
  let ?s = "s\<lparr>locks := (locks s)(l := None)\<rparr>"
  have v: "asleep ?s = asleep s" "running ?s = running s" "ready ?s = ready s" "sleep_addr ?s = sleep_addr s"
    by (rule view_cong; simp)+
  have w: "lock_waiter F ((locks s)(l := None)) t" if lw: "lock_waiter F (locks s) t" for F t
  proof -
    from lw obtain m lm k where m: "F t = F_switch # F_wake # F_lock_loop m # k" "locks s m = Some lm" "t \<in> set (q_list (lk_queue lm))"
      by (auto simp: lock_waiter_def)
    moreover from m l have "m \<noteq> l" by auto
    ultimately show ?thesis by (auto simp: lock_waiter_def)
  qed
  from s have "asleep_ok (set (asleep s)) (fr s) (sleep_addr s) (locks s) (cvs s) (sems s)" by (simp add: sync_ok_def sync_def)
  then have "asleep_ok (set (asleep s)) (fr s) (sleep_addr s) ((locks s)(l := None)) (cvs s) (sems s)"
    unfolding asleep_ok_def using w by blast
  moreover have "locks_ok (set (asleep s)) (set (running s @ ready s)) (fr s) (sleep_addr s) ((locks s)(l := None))"
    using s by (auto simp: sync_ok_def sync_def locks_ok_def)
  ultimately show ?thesis using s by (simp add: sync_ok_def sync_def v)
qed

lemma new_cv_sync:
  assumes s: "sync_ok s" and l: "cvs s v = None" "q_inv (cv_queue c)" "q_list (cv_queue c) = []"
  shows "sync_ok (s\<lparr>cvs := (cvs s)(v \<mapsto> c)\<rparr>)"
proof -
  let ?s = "s\<lparr>cvs := (cvs s)(v \<mapsto> c)\<rparr>"
  have vw: "asleep ?s = asleep s" "running ?s = running s" "ready ?s = ready s" "sleep_addr ?s = sleep_addr s"
    by (rule view_cong; simp)+
  have w: "cv_waiter ((cvs s)(v \<mapsto> c)) t" if cw: "cv_waiter (cvs s) t" for t
  proof -
    from cw obtain u x where u: "cvs s u = Some x" "t \<in> set (q_list (cv_queue x))" by (auto simp: cv_waiter_def)
    moreover from u l have "u \<noteq> v" by auto
    ultimately show ?thesis by (auto simp: cv_waiter_def)
  qed
  from s have "asleep_ok (set (asleep s)) (fr s) (sleep_addr s) (locks s) (cvs s) (sems s)" by (simp add: sync_ok_def sync_def)
  then have "asleep_ok (set (asleep s)) (fr s) (sleep_addr s) (locks s) ((cvs s)(v \<mapsto> c)) (sems s)"
    unfolding asleep_ok_def using w by blast
  moreover have "cvs_ok (set (asleep s)) (fr s) (sleep_addr s) ((cvs s)(v \<mapsto> c))"
    using s l(2,3) by (auto simp: sync_ok_def sync_def cvs_ok_def)
  ultimately show ?thesis using s by (simp add: sync_ok_def sync_def vw)
qed

lemma drop_cv_sync:
  assumes s: "sync_ok s" and l: "cvs s v = Some c" "q_list (cv_queue c) = []"
  shows "sync_ok (s\<lparr>cvs := (cvs s)(v := None)\<rparr>)"
proof -
  let ?s = "s\<lparr>cvs := (cvs s)(v := None)\<rparr>"
  have vw: "asleep ?s = asleep s" "running ?s = running s" "ready ?s = ready s" "sleep_addr ?s = sleep_addr s"
    by (rule view_cong; simp)+
  have w: "cv_waiter ((cvs s)(v := None)) t" if cw: "cv_waiter (cvs s) t" for t
  proof -
    from cw obtain u x where u: "cvs s u = Some x" "t \<in> set (q_list (cv_queue x))" by (auto simp: cv_waiter_def)
    moreover from u l have "u \<noteq> v" by auto
    ultimately show ?thesis by (auto simp: cv_waiter_def)
  qed
  from s have "asleep_ok (set (asleep s)) (fr s) (sleep_addr s) (locks s) (cvs s) (sems s)" by (simp add: sync_ok_def sync_def)
  then have "asleep_ok (set (asleep s)) (fr s) (sleep_addr s) (locks s) ((cvs s)(v := None)) (sems s)"
    unfolding asleep_ok_def using w by blast
  moreover have "cvs_ok (set (asleep s)) (fr s) (sleep_addr s) ((cvs s)(v := None))"
    using s by (auto simp: sync_ok_def sync_def cvs_ok_def)
  ultimately show ?thesis using s by (simp add: sync_ok_def sync_def vw)
qed

lemma hassleepers_loop_eq:
  assumes "array_full a" "\<forall>i \<in> set is. i < length (array_elems a)" "hassleepers_loop addr s a is = Some False"
  shows "\<forall>i \<in> set is. sleep_addr s (array_elems a ! i) \<noteq> addr"
  using assms
proof (induction "is")
  case (Cons i xs)
  have g: "array_getguy a (int i) = Some (array_elems a ! i)" using Cons.prems by (simp add: array_getguy_full)
  with Cons.prems(3) have "sleep_addr s (array_elems a ! i) \<noteq> addr \<and> hassleepers_loop addr s a xs = Some False"
    by (auto simp: hassleepers_at_def sleep_addr_def bind_Some split: if_splits)
  with Cons show ?case by simp
qed simp

lemma no_sleepers:
  assumes "lists_ok s" "thread_hassleepers addr s = Some False" "t \<in> set (asleep s)"
  shows "sleep_addr s t \<noteq> addr"
proof -
  from assms(1) obtain a where a: "sleepers s = Some a" "array_full a" "asleep s = array_elems a" by (rule lists_okE)
  have n: "nat (arr_num a) = length (array_elems a)" using array_elems_length [OF a(2)] by simp
  from assms(2) a have h: "hassleepers_loop addr s a [0..<length (array_elems a)] = Some False"
    by (auto simp: thread_hassleepers_def array_getnum_def n split: if_splits)
  have "\<forall>i \<in> set [0..<length (array_elems a)]. sleep_addr s (array_elems a ! i) \<noteq> addr"
    by (rule hassleepers_loop_eq [OF a(2) _ h]) simp
  with assms(3) a(3) show ?thesis by (auto simp: in_set_conv_nth)
qed

lemma frames_fr: "curthread s = Some c \<Longrightarrow> frames s = fr s c"
  by (simp add: frames_def fr_def)

lemma exec_frame_sync:
  assumes h: "at_high s" and fits: "fits s" and s: "sync_ok s" and f: "frames s = f # k" and e: "exec_frame True mem f k s = Some s'"
    and ko: "kok s (f # k)"
  shows "sync_ok s'"
proof (cases "curthread s")
  case None
  with ko obtain i where "f # k = [F_trap SPL_HIGH False] \<or> f # k = [F_interrupt i, F_trap SPL_HIGH False] \<or>
      f # k = [F_splx SPL_HIGH, F_interrupt i, F_trap SPL_HIGH False]"
    by (auto simp: kok_def idle_ok_def)
  with e None s show ?thesis by (auto simp: trap_done_def splx_simps intro!: sync_go_idle)
next
  case (Some c)
  from h have core: "threads_core s" by (simp add: at_high_def)
  have fc: "fr s c = f # k" using f Some by (simp add: frames_fr)
  have size: "\<And>l lk. locks s l = Some lk \<Longrightarrow> q_size (lk_queue lk) < 2 ^ 27" using fits by (simp add: fits_def)
  have go: "sync_ok (go k s1)" if "threads_core s1" "sync_ok s1" "curthread s1 = Some c" "fr s1 c = f # k"
    "\<And>l x. resume (f # k) = F_lock_loop l # x \<Longrightarrow> \<exists>y. resume k = F_lock_loop l # y" for s1
    by (rule sync_go [OF that(1-3)]) (use that(4,5) in auto)
  show ?thesis
  proof (cases f)
    case F_switch
    with e obtain s1 s2 where s1: "exorcise s = Some s1" "activate s1 = Some s2" "s' = go k s2"
      by (auto simp: mi_switch_return_def bind_Some)
    have h1: "at_high s1" "curthread s1 = Some c" using exorcise_keeps [OF h _ s1(1)] Some by auto
    have "c \<notin> set (dead s)" using core Some by (auto simp: threads_core_def places_ok_def running_def)
    then have y1: "sync_ok s1" "fr s1 c = f # k" using exorcise_sync [OF core s s1(1)] fc by auto
    have s2: "s2 = s1 \<or> (\<exists>x. s2 = s1\<lparr>calls := x\<rparr>)" using s1(2) by (auto simp: activate_def log_call_def bind_Some split: if_splits)
    have "fr (s1\<lparr>calls := x\<rparr>) = fr s1" for x by (rule view_cong(4)) simp_all
    with s2 y1 h1 activate_keeps [OF s1(2) h1(1)] have "threads_core s2" "sync_ok s2" "curthread s2 = Some c" "fr s2 c = f # k"
      by (auto simp: at_high_def)
    then show ?thesis unfolding s1(3) by (rule go) (simp add: F_switch)
  next
    case F_start
    with e obtain s1 where s1: "activate s = Some s1" "s' = go [] (snd (splx 0 s1))"
      by (auto simp: mi_threadstart_def bind_Some spl0_def)
    have s2: "s1 = s \<or> (\<exists>x. s1 = s\<lparr>calls := x\<rparr>)" using s1(1) by (auto simp: activate_def log_call_def bind_Some split: if_splits)
    have "fr (s\<lparr>calls := x\<rparr>) = fr s" for x by (rule view_cong(4)) simp_all
    with s2 have "fr s1 c = [F_start] @ k" "sync_ok s1" "threads_core s1" "curthread s1 = Some c"
      using fc F_start s core Some by auto
    then show ?thesis unfolding s1(2) by (intro sync_go) auto
  next
    case F_wake
    have "threads_core (upd_thread c (\<lambda>th. th\<lparr>t_sleepaddr := NullP\<rparr>) s)" using core Some by (rule core_upd_running) simp
    moreover have v: "fr (upd_thread c (\<lambda>th. th\<lparr>t_sleepaddr := NullP\<rparr>) s) = fr s"
      by (auto simp: fr_def upd_thread_def fun_eq_iff split: option.split)
    moreover have "sync_ok (upd_thread c (\<lambda>th. th\<lparr>t_sleepaddr := NullP\<rparr>) s)"
      by (rule sync_views [OF s]) (use v core_views(2) [OF core Some] in \<open>auto simp: upd_thread_def sleep_addr_def view_defs\<close>)
    ultimately have "sync_ok (go k (upd_thread c (\<lambda>th. th\<lparr>t_sleepaddr := NullP\<rparr>) s))"
      by (intro go) (use Some fc F_wake in auto)
    with e F_wake Some show ?thesis by (simp add: thread_sleep_return_def)
  next
    case (F_splx spl)
    then show ?thesis using e go [of "snd (splx spl s)"] core s Some fc by auto
  next
    case (F_clocksleep n)
    then show ?thesis using e clocksleep_loop_sync [OF core s Some] fc by auto
  next
    case (F_P sem)
    then show ?thesis using e P_loop_sync [OF core s Some] fc by auto
  next
    case (F_lock_loop l)
    then show ?thesis using e lock_loop_sync [OF core s Some _ size] fc by auto
  next
    case (F_lock_acquire l)
    then show ?thesis using e lock_acquire_sync [OF core s Some _ size] fc by auto
  next
    case (F_interrupt i)
    then show ?thesis using e go [of "s\<lparr>in_interrupt := i\<rparr>"] core s Some fc by auto
  next
    case (F_trap spl b)
    then have "s' = go k ((s\<lparr>status_IEc := False, curspl := SPL_HIGH\<rparr>)\<lparr>curspl := spl, status_IEc := b\<rparr>)"
      using e by (simp add: trap_done_def splx_simps)
    then show ?thesis using go [of "(s\<lparr>status_IEc := False, curspl := SPL_HIGH\<rparr>)\<lparr>curspl := spl, status_IEc := b\<rparr>"] core s Some fc F_trap by auto
  qed (use e in simp)
qed

lemma sem_objects_sync:
  assumes s: "sync_ok s"
  shows "sems s x = None \<Longrightarrow> sync_ok (s\<lparr>sems := (sems s)(x \<mapsto> sm)\<rparr>)"
    and "\<forall>t \<in> set (asleep s). sleep_addr s t \<noteq> SemP x \<Longrightarrow> sync_ok (s\<lparr>sems := (sems s)(x := None)\<rparr>)"
proof -
  assume n: "sems s x = None"
  have "sleep_addr s t \<noteq> SemP x" if "t \<in> set (asleep s)" for t
    using s n that by (auto simp: sync_ok_def sync_def asleep_ok_def sem_waiter_def)
  then show "sync_ok (s\<lparr>sems := (sems s)(x \<mapsto> sm)\<rparr>)" by (intro sems_sync [OF s]) auto
next
  assume "\<forall>t \<in> set (asleep s). sleep_addr s t \<noteq> SemP x"
  then show "sync_ok (s\<lparr>sems := (sems s)(x := None)\<rparr>)" by (intro sems_sync [OF s]) auto
qed

lemma q_create_list:
  assumes "q_create m1 m2 10 = Some q"
  shows "q_inv q" "q_list q = []"
  using assms q_create_ok [of 10] by (auto simp: q_create_def kmalloc_words_def split: if_splits option.splits)

lemma create_sync:
  assumes s: "sync_ok s" and fresh: "fresh_mem mem s"
  shows "sem_create (m_obj mem) nm name n s = Some (r, s') \<Longrightarrow> sync_ok s'"
    and "lock_create (m_obj mem) nm q1 q2 name s = Some (r, s') \<Longrightarrow> sync_ok s'"
    and "cv_create (m_obj mem) nm q1 q2 name s = Some (r, s') \<Longrightarrow> sync_ok s'"
  using s fresh
  by (auto simp: sem_create_def lock_create_def cv_create_def fresh_mem_def bind_Some
      dest: q_create_list intro!: sem_objects_sync(1) new_lock_sync new_cv_sync split: option.splits if_splits)

lemma destroy_sync:
  assumes b: "in_body s" and s: "sync_ok s"
  shows "sem_destroy x s = Some s' \<Longrightarrow> sync_ok s'"
    and "lock_destroy x s = Some s' \<Longrightarrow> sync_ok s'"
    and "cv_destroy x s = Some s' \<Longrightarrow> sync_ok s'"
proof -
  let ?s = "s\<lparr>status_IEc := False, curspl := SPL_HIGH\<rparr>"
  assume "sem_destroy x s = Some s'"
  from destroy_eff(1) [OF b this] have e: "s' = s\<lparr>sems := (sems s)(x := None)\<rparr>" "thread_hassleepers (SemP x) ?s = Some False" by auto
  have v: "asleep ?s = asleep s" "sleep_addr ?s = sleep_addr s" by (rule view_cong; simp)+
  have "threads_core ?s" using b by (simp add: in_body_def)
  then have "lists_ok ?s" by (simp add: threads_core_def)
  then have "\<forall>t \<in> set (asleep s). sleep_addr s t \<noteq> SemP x" using no_sleepers [OF _ e(2)] unfolding v by blast
  from sem_objects_sync(2) [OF s this] e show "sync_ok s'" by simp
next
  assume "lock_destroy x s = Some s'"
  from destroy_eff(2) [OF b this] obtain lk where l: "locks s x = Some lk" "q_empty (lk_queue lk)"
    and s': "s' = s\<lparr>locks := (locks s)(x := None)\<rparr>" by auto
  from s l have "q_list (lk_queue lk) = []" by (simp add: q_empty_iff sync_ok_def sync_def locks_ok_def)
  from drop_lock_sync [OF s l(1) this] show "sync_ok s'" by (simp add: s')
next
  assume "cv_destroy x s = Some s'"
  from destroy_eff(3) [OF b this] obtain c where l: "cvs s x = Some c" "q_empty (cv_queue c)"
    and s': "s' = s\<lparr>cvs := (cvs s)(x := None)\<rparr>" by auto
  from s l have "q_list (cv_queue c) = []" by (auto simp: q_empty_iff sync_ok_def sync_def cvs_ok_def)
  from drop_cv_sync [OF s l(1) this] show "sync_ok s'" by (simp add: s')
qed

lemma kcall_sync:
  assumes b: "in_body s" and fits: "fits s" and s: "sync_ok s" and fresh: "fresh_mem mem s"
    and room: "length (running s @ ready s @ asleep s @ dead s) + 2 < 2 ^ 28" and e: "kcall True mem op s = Some s'"
  shows "sync_ok s'"
proof -
  from b obtain c where c: "curthread s = Some c" and core: "threads_core s" by (auto simp: in_body_def)
  from b c have nil: "fr s c = []" by (simp add: in_body_def frames_fr)
  have core': "threads_core (s\<lparr>status_IEc := False, curspl := SPL_HIGH\<rparr>)" using core by simp
  have nl: "resume (fr s c) \<noteq> F_lock_loop l # x" for l x by (simp add: nil)
  have nl': "resume (fr s d) \<noteq> F_lock_loop l # x" if "curthread s = Some d" for d l x using that c nl by simp
  have f: "\<forall>t. m_thread mem = Some t \<longrightarrow> threads s t = None" using fresh by (auto simp: fresh_mem_def)
  have size: "\<And>l lk. locks s l = Some lk \<Longrightarrow> q_size (lk_queue lk) < 2 ^ 27"
    "\<And>v x. cvs s v = Some x \<Longrightarrow> q_size (cv_queue x) < 2 ^ 27" using fits by (simp_all add: fits_def)
  have sp: "sync_ok (s\<lparr>status_IEc := False, curspl := SPL_HIGH\<rparr>)" "fr (s\<lparr>status_IEc := False, curspl := SPL_HIGH\<rparr>) = fr s"
    using s by simp (rule view_cong(4); simp)
  show ?thesis
  proof (cases op)
    case (K_P sem)
    with e have "P_loop (m_list mem) sem [F_splx (curspl s)] (s\<lparr>status_IEc := False, curspl := SPL_HIGH\<rparr>) = Some s'"
      by (simp add: P_def splx_simps Let_def split: if_splits)
    from P_loop_sync [OF core' sp(1) _ _ this] c nil sp(2) show ?thesis by simp
  next
    case (K_clocksleep n)
    with e have "clocksleep_loop (m_list mem) n [F_splx (curspl s)] (s\<lparr>status_IEc := False, curspl := SPL_HIGH\<rparr>) = Some s'"
      by (simp add: clocksleep_def splx_simps Let_def split: if_splits)
    from clocksleep_loop_sync [OF core' sp(1) _ _ this] c nil sp(2) show ?thesis by simp
  next
    case K_yield
    with e thread_yield_sync [OF core s nl'] show ?thesis by auto
  next
    case (K_fork name)
    with e thread_fork_sync [OF b s f room] show ?thesis by auto
  next
    case K_return
    with e thread_exit_sync [OF b s] show ?thesis by auto
  next
    case (K_sem_create name n)
    with e create_sync(1) [OF s fresh] show ?thesis by auto
  next
    case (K_sem_destroy x)
    with e destroy_sync(1) [OF b s] show ?thesis by auto
  next
    case (K_V x)
    with e V_sync [OF core s _ nl'] show ?thesis by auto
  next
    case (K_lock_create name)
    with e create_sync(2) [OF s fresh] show ?thesis by auto
  next
    case (K_lock_destroy x)
    with e destroy_sync(2) [OF b s] show ?thesis by auto
  next
    case (K_acquire x)
    with e lock_acquire_sync [OF core s c nl size(1)] show ?thesis by auto
  next
    case (K_release x)
    with e lock_release_sync [OF core s c] show ?thesis by simp
  next
    case (K_cv_create name)
    with e create_sync(3) [OF s fresh] show ?thesis by auto
  next
    case (K_cv_destroy x)
    with e destroy_sync(3) [OF b s] show ?thesis by auto
  next
    case (K_wait x l)
    with e cv_wait_sync [OF core s c nil size(2)] show ?thesis by auto
  next
    case (K_signal x l)
    with e cv_signal_sync [OF core s c nil size(1)] show ?thesis by auto
  next
    case (K_broadcast x l)
    with e cv_broadcast_sync [OF core s c nil size(1)] show ?thesis by auto
  qed
qed

theorem kstep_sync_ok:
  assumes t: "threads_ok s" and s: "sync_ok s" and k: "kstep True a s s'"
  shows "sync_ok s'"
proof -
  note c = threads_ok_cases [OF t]
  have room: "length (running s @ ready s @ asleep s @ dead s) + 2 < 2 ^ 28" using c(5) by simp
  from t have core: "threads_core s" and fits: "fits s" by (simp_all add: threads_ok_def)
  have body: "resume (fr s d) \<noteq> F_lock_loop l # x" if "in_body s" "curthread s = Some d" for d l x
    using that by (simp add: in_body_def frames_fr)
  from k show ?thesis
  proof (cases rule: kstep.cases)
    case (frame f k mem)
    from exec_frame_sync [OF c(2) fits s frame(2,3) c(3)] frame show ?thesis by simp
  next
    case dispatch
    from dispatch_sync [OF core s dispatch(2,4)] show ?thesis .
  next
    case (call t mem op)
    from kcall_sync [OF c(1) fits s _ room] call show ?thesis by blast
  next
    case (irq mem i)
    from interrupt_sync [OF core s body irq(3)] c(4) irq show ?thesis by blast
  next
    case (idle mem i)
    then have "take_interrupt mem i s = Some s'"
      by (auto simp: cpu_idle_def bind_Some split: if_splits)
    from interrupt_sync [OF core s _ this] idle show ?thesis by simp
  qed
qed

end
