(* ===== verification/Kern_Thread_Props.thy ===== *)
theory Kern_Thread_Props
  imports Kern_Synch_Inv
begin

text \<open>
  What the thread system and the synchronization primitives promise, over the paths of the machine
  from the state after the boot: every thread is in one place, a lock keeps its owner until the owner
  releases it, no wakeup is lost, the counts of semaphores stay in range, and the scheduler is a
  round robin that bypasses a runnable thread only as often as threads were queued before it.

  \<open>moves\<close> is what every operation but the dispatch of the next thread does to the run queue, the
  owners of locks and the counts: it appends to the first and changes the second only for the thread
  that runs.
\<close>

section \<open>The boot\<close>

definition kern_start :: ksys where
  \<comment> \<open>the globals as they are linked\<close>
  "kern_start = \<lparr>curthread = None, sleepers = None, zombies = None, numthreads = 0, runqueue = None,
     curspl = SPL_HIGH, status_IEc = False, in_interrupt = 0, curkstack = 0, threads = \<lambda>_. None, switching = None,
     idle_frames = [], lbolt_counter = 0, sems = \<lambda>_. None, locks = \<lambda>_. None, cvs = \<lambda>_. None, calls = []\<rparr>"

definition boot_threads :: "tmem \<Rightarrow> ksys option" where
  \<comment> \<open>the calls of \<open>boot\<close> that set up the thread system; \<open>dev_bootstrap\<close> enables interrupts\<close>
  "boot_threads mem = do {
     s \<leftarrow> scheduler_bootstrap (m_queue mem) (m_runqueue mem) kern_start;
     (me, s) \<leftarrow> thread_bootstrap (m_sleepers mem) (m_zombies mem) mem s;
     Some (snd (spl0 s))
   }"

lemma boot_eff:
  assumes "boot_threads mem = Some s"
  obtains me th q a z where "curthread s = Some me" "threads s = [me \<mapsto> th]" "runqueue s = Some q" "q_inv q" "q_list q = []"
    "q_size q = 32" "sleepers s = Some a" "array_full a" "array_elems a = []" "arr_max a = 0"
    "zombies s = Some z" "array_full z" "array_elems z = []" "arr_max z = 0"
    "numthreads s = 1" "curspl s = 0" "status_IEc s" "idle_frames s = []" "pcb_frames (t_pcb th) = []" "t_stack th = 0"
    "sems s = (\<lambda>_. None)" "locks s = (\<lambda>_. None)" "cvs s = (\<lambda>_. None)"
proof -
  from assms obtain q me where "m_thread mem = Some me" "q_create (m_queue mem) (m_runqueue mem) 32 = Some q"
    and s: "s = snd (spl0 (kern_start\<lparr>runqueue := Some q, sleepers := Some \<lparr>arr_num = 0, arr_max = 0, arr_v = None\<rparr>,
      zombies := Some \<lparr>arr_num = 0, arr_max = 0, arr_v = None\<rparr>,
      threads := [me \<mapsto> \<lparr>t_pcb = md_initpcb0 kern_start, t_name = ''<boot/menu>'',
        t_sleepaddr = NullP, t_stack = 0, t_stackmem = [], t_vmspace = 0, t_cwd = 0, t_pid = None\<rparr>],
      curthread := Some me, numthreads := 1\<rparr>))"
    by (auto simp: boot_threads_def scheduler_bootstrap_def thread_bootstrap_def thread_create_def array_create_def
        bind_Some Let_def kern_start_def md_initpcb0_def split: if_splits)
  moreover from this(2) q_create_ok [of 32] have "q_inv q" "q_list q = []" "q_size q = 32"
    by (auto simp: q_create_def kmalloc_words_def split: if_splits option.splits)
  moreover have "array_full (\<lparr>arr_num = 0, arr_max = 0, arr_v = None\<rparr> :: nat array)"
    "array_elems (\<lparr>arr_num = 0, arr_max = 0, arr_v = None\<rparr> :: nat array) = []" 
    by (auto simp: array_full_def array_inv_def array_elems_def array_list_def)
  ultimately show thesis by (intro that) (auto simp: splx_simps kern_start_def md_initpcb0_def spl0_def)
qed

lemma boot_threads_ok:
  assumes "boot_threads mem = Some s"
  shows "threads_ok s \<and> sync_ok s"
proof -
  from assms obtain me th q a z where b: "curthread s = Some me" "threads s = [me \<mapsto> th]" "runqueue s = Some q" "q_inv q" "q_list q = []"
    "q_size q = 32" "sleepers s = Some a" "array_full a" "array_elems a = []" "arr_max a = 0"
    "zombies s = Some z" "array_full z" "array_elems z = []" "arr_max z = 0"
    "numthreads s = 1" "curspl s = 0" "status_IEc s" "idle_frames s = []" "pcb_frames (t_pcb th) = []" "t_stack th = 0"
    "sems s = (\<lambda>_. None)" "locks s = (\<lambda>_. None)" "cvs s = (\<lambda>_. None)"
    by (rule boot_eff)
  have v: "running s = [me]" "ready s = []" "asleep s = []" "dead s = []" "frames s = []"
    using b by (simp_all add: view_defs frames_def)
  have "fits s" using b by (auto simp: fits_def)
  moreover have "threads_core s"
    using b v by (auto simp: threads_core_def lists_ok_def places_ok_def waiting_ok_def dead_ok_def stacks_ok_def)
  moreover have "spl_ok s" using b v by (simp add: spl_ok_def)
  moreover have "sync_ok s" using b v by (simp add: sync_ok_def sync_def locks_ok_def cvs_ok_def asleep_ok_def)
  ultimately show ?thesis by (simp add: threads_ok_def)
qed

lemma kpath_threads_ok: "kpath qmem as s s' \<Longrightarrow> threads_ok s \<Longrightarrow> threads_ok s'"
  by (induction rule: kpath.induct) (auto intro: kstep_threads_ok)

lemma kpath_sync_ok: "kpath True as s s' \<Longrightarrow> threads_ok s \<Longrightarrow> sync_ok s \<Longrightarrow> sync_ok s'"
  by (induction rule: kpath.induct) (auto intro: kstep_threads_ok kstep_sync_ok)

section \<open>What the operations move\<close>

definition own :: "ksys \<Rightarrow> nat \<Rightarrow> nat option" where
  "own s l = (case locks s l of None \<Rightarrow> None | Some lk \<Rightarrow> lk_owner lk)"

definition counts_ok :: "ksys \<Rightarrow> bool" where
  "counts_ok s \<longleftrightarrow> (\<forall>x sm. sems s x = Some sm \<longrightarrow> 0 \<le> sem_count sm \<and> sem_count sm < 2 ^ 31)"

definition moves :: "nat set \<Rightarrow> ksys \<Rightarrow> ksys \<Rightarrow> bool" where
  "moves X s s' \<longleftrightarrow> (\<exists>zs. ready s' = ready s @ zs) \<and> (curthread s' = curthread s \<or> curthread s' = None) \<and>
     (\<forall>l t. l \<notin> X \<longrightarrow> own s l = Some t \<longrightarrow> own s' l = Some t) \<and>
     (\<forall>l t. own s' l = Some t \<longrightarrow> own s l = Some t \<or> curthread s = Some t) \<and>
     (counts_ok s \<longrightarrow> counts_ok s')"

lemma moves_refl: "moves X s s"
  by (simp add: moves_def)

lemma moves_trans [trans]:
  assumes "moves X s s1" "moves X s1 s2"
  shows "moves X s s2"
proof -
  note d = assms [unfolded moves_def]
  note cur = d(1) [THEN conjunct2, THEN conjunct1] d(2) [THEN conjunct2, THEN conjunct1]
  from d obtain zs1 zs2 where "ready s1 = ready s @ zs1" "ready s2 = ready s1 @ zs2" by blast
  then have "\<exists>zs. ready s2 = ready s @ zs" by simp
  moreover have "curthread s2 = curthread s \<or> curthread s2 = None" using cur by auto
  moreover from d have "\<forall>l t. l \<notin> X \<longrightarrow> own s l = Some t \<longrightarrow> own s2 l = Some t" by blast
  moreover have "own s l = Some t \<or> curthread s = Some t" if "own s2 l = Some t" for l t
  proof -
    from d(2) that have "own s1 l = Some t \<or> curthread s1 = Some t" by blast
    moreover from d(1) have "own s1 l = Some t \<longrightarrow> own s l = Some t \<or> curthread s = Some t" by blast
    ultimately show ?thesis using cur(1) by auto
  qed
  moreover from d have "counts_ok s \<longrightarrow> counts_ok s2" by blast
  ultimately show ?thesis unfolding moves_def by blast
qed

lemma moves_same:
  assumes "runqueue s' = runqueue s" "curthread s' = curthread s \<or> curthread s' = None" "locks s' = locks s" "sems s' = sems s"
  shows "moves X s s'"
  using assms by (simp add: moves_def own_def counts_ok_def ready_def)

lemma go_moves: "moves X s (go k s)"
  by (rule moves_same) simp_all

lemma splx_moves: "moves X s (snd (splx spl s))"
  by (rule moves_same) (simp_all add: splx_def interrupts_on_def interrupts_off_def Let_def)

lemma wakeup_moves:
  assumes "threads_core s" "thread_wakeup mem addr s = Some s'"
  shows "moves X s s'"
proof -
  have "lists_ok s" using assms(1) by (simp add: threads_core_def)
  from this assms(2) obtain q a where "s' = s\<lparr>runqueue := Some q, sleepers := Some a\<rparr>"
    "ready s' = ready s @ filter (\<lambda>t. sleep_addr s t = addr) (asleep s)"
    by (rule thread_wakeup_eff)
  then show ?thesis by (simp add: moves_def own_def counts_ok_def)
qed

lemma switch_moves:
  assumes lists: "lists_ok s" and sw: "mi_switch mem st k s = Some s'"
  shows "moves X s s'"
proof (cases "curthread s")
  case None
  with sw show ?thesis by (auto simp: mi_switch_def bind_Some intro: go_moves split: if_splits)
next
  case (Some c)
  from lists Some sw obtain th q a z where e: "s' = s\<lparr>curthread := None, switching := Some c,
       threads := (threads s)(c \<mapsto> th\<lparr>t_pcb := (t_pcb th)\<lparr>pcb_frames := F_switch # k\<rparr>\<rparr>),
       runqueue := Some q, sleepers := Some a, zombies := Some z\<rparr>"
    "q_list q = ready s @ (if st = S_READY then [c] else [])"
    by (rule mi_switch_eff) blast
  then show ?thesis by (simp add: moves_def own_def counts_ok_def ready_def)
qed

lemma sleep_moves:
  assumes "threads_core s" "thread_sleep mem addr k s = Some s'"
  shows "moves X s s'"
proof -
  from assms(2) obtain c where c: "curthread s = Some c" by (auto simp: thread_sleep_def bind_Some split: if_splits)
  from thread_sleep_views [OF assms(1) c assms(2)] have "ready s' = ready s" "running s' = []" "locks s' = locks s" "sems s' = sems s" by auto
  then show ?thesis by (simp add: moves_def own_def counts_ok_def running_def split: option.splits)
qed

lemma yield_moves:
  assumes "threads_core s" "thread_yield mem k s = Some s'"
  shows "moves X s s'"
proof -
  let ?s = "s\<lparr>status_IEc := False, curspl := SPL_HIGH\<rparr>"
  have "threads_core ?s" using assms(1) by simp
  then have "lists_ok ?s" by (simp add: threads_core_def)
  moreover from assms(2) have "mi_switch mem S_READY (F_splx (curspl s) # k) ?s = Some s'"
    by (simp add: thread_yield_def splx_simps Let_def split: if_splits)
  ultimately have "moves X ?s s'" by (rule switch_moves)
  moreover have "moves X s ?s" by (rule moves_same) simp_all
  ultimately show ?thesis using moves_trans by blast
qed

lemma sems_moves:
  assumes "\<And>sm'. M x = Some sm' \<Longrightarrow> counts_ok s \<Longrightarrow> 0 \<le> sem_count sm' \<and> sem_count sm' < 2 ^ 31" "\<And>y. y \<noteq> x \<Longrightarrow> M y = sems s y"
  shows "moves X s (s\<lparr>sems := M\<rparr>)"
  using assms by (auto simp: moves_def own_def ready_def counts_ok_def) metis+

lemma P_loop_moves:
  assumes core: "threads_core s" and p: "P_loop mem sem k s = Some s'"
  shows "moves X s s'"
proof -
  from p obtain sm where sm: "sems s sem = Some sm" by (auto simp: P_loop_def bind_Some)
  show ?thesis
  proof (cases "sem_count sm = 0")
    case True
    with p sm show ?thesis by (auto simp: P_loop_def intro: sleep_moves [OF core])
  next
    case False
    with p sm have e: "s' = go k (s\<lparr>sems := (sems s)(sem \<mapsto> sm\<lparr>sem_count := sem_count sm - 1\<rparr>)\<rparr>)" "sem_count sm > 0"
      by (auto simp: P_loop_def bind_Some split: if_splits)
    have "moves X s (s\<lparr>sems := (sems s)(sem \<mapsto> sm\<lparr>sem_count := sem_count sm - 1\<rparr>)\<rparr>)"
      by (rule sems_moves [of _ sem]) (use e(2) sm in \<open>fastforce simp: counts_ok_def\<close>)+
    then show ?thesis unfolding e(1) by (rule moves_trans) (rule go_moves)
  qed
qed

lemma V_moves:
  assumes core: "threads_core s" and v: "V mem sem k s = Some s'"
  shows "moves X s s'"
proof -
  let ?s = "s\<lparr>status_IEc := False, curspl := SPL_HIGH\<rparr>"
  from v obtain sm s1 where sm: "sems s sem = Some sm" "swrap32 (sem_count sm + 1) > 0"
    and w: "thread_wakeup mem (SemP sem) (?s\<lparr>sems := (sems s)(sem \<mapsto> sm\<lparr>sem_count := swrap32 (sem_count sm + 1)\<rparr>)\<rparr>) = Some s1"
    and s': "s' = go k (snd (splx (curspl s) s1))"
    by (auto simp: V_def splx_simps Let_def bind_Some split: if_splits)
  have "moves X s ?s" by (rule moves_same) simp_all
  also have "moves X ?s (?s\<lparr>sems := (sems s)(sem \<mapsto> sm\<lparr>sem_count := swrap32 (sem_count sm + 1)\<rparr>)\<rparr>)"
    by (rule sems_moves [of _ sem]) (use sm in \<open>auto simp: swrap32_def\<close>)
  also have "moves X (?s\<lparr>sems := (sems s)(sem \<mapsto> sm\<lparr>sem_count := swrap32 (sem_count sm + 1)\<rparr>)\<rparr>) s1"
    by (rule wakeup_moves [OF _ w]) (use core in simp)
  also have "moves X s1 (snd (splx (curspl s) s1))" by (rule splx_moves)
  also have "moves X (snd (splx (curspl s) s1)) s'" unfolding s' by (rule go_moves)
  finally show ?thesis .
qed

lemma locks_moves:
  assumes "\<And>y. y \<noteq> x \<Longrightarrow> L y = locks s y" "\<And>t. own s x = Some t \<Longrightarrow> x \<notin> X \<Longrightarrow> own (s\<lparr>locks := L\<rparr>) x = Some t"
    "\<And>t. own (s\<lparr>locks := L\<rparr>) x = Some t \<Longrightarrow> own s x = Some t \<or> curthread s = Some t"
  shows "moves X s (s\<lparr>locks := L\<rparr>)"
proof -
  have o: "own (s\<lparr>locks := L\<rparr>) y = own s y" if "y \<noteq> x" for y using assms(1) [OF that] by (simp add: own_def)
  show ?thesis unfolding moves_def
    using assms(2,3) o by (auto simp: ready_def counts_ok_def) (metis)+
qed

lemma cvs_moves: "moves X s (s\<lparr>cvs := C\<rparr>)"
  by (rule moves_same) simp_all

lemma lock_loop_moves:
  assumes core: "threads_core s" and c: "curthread s = Some c" and p: "lock_loop qmem mem lock k s = Some s'"
  shows "moves X s s'" "own s lock = None \<Longrightarrow> own s' lock = Some c"
proof -
  from p obtain lk where lk: "locks s lock = Some lk" by (auto simp: lock_loop_def bind_Some)
  have "moves X s s' \<and> (own s lock = None \<longrightarrow> own s' lock = Some c)"
  proof (cases "lk_owner lk = None")
    case True
    with p lk c have s': "s' = go k (s\<lparr>locks := (locks s)(lock \<mapsto> lk\<lparr>lk_owner := Some c\<rparr>)\<rparr>)" by (simp add: lock_loop_def)
    have "moves X s (s\<lparr>locks := (locks s)(lock \<mapsto> lk\<lparr>lk_owner := Some c\<rparr>)\<rparr>)"
      by (rule locks_moves [of lock]) (use True lk c in \<open>auto simp: own_def\<close>)
    then have "moves X s s'" unfolding s' by (rule moves_trans) (rule go_moves)
    then show ?thesis by (simp add: s' own_def)
  next
    case False
    with p lk c obtain q where sl: "thread_sleep mem (ThreadP c) (F_lock_loop lock # k) (s\<lparr>locks := (locks s)(lock \<mapsto> lk\<lparr>lk_queue := q\<rparr>)\<rparr>) = Some s'"
      by (auto simp: lock_loop_def bind_Some)
    have "moves X s (s\<lparr>locks := (locks s)(lock \<mapsto> lk\<lparr>lk_queue := q\<rparr>)\<rparr>)"
      by (rule locks_moves [of lock]) (use lk in \<open>auto simp: own_def\<close>)
    also have "moves X (s\<lparr>locks := (locks s)(lock \<mapsto> lk\<lparr>lk_queue := q\<rparr>)\<rparr>) s'" by (rule sleep_moves [OF _ sl]) (use core in simp)
    finally show ?thesis using False lk by (auto simp: own_def)
  qed
  then show "moves X s s'" "own s lock = None \<Longrightarrow> own s' lock = Some c" by simp_all
qed

lemma lock_acquire_moves:
  assumes core: "threads_core s" and c: "curthread s = Some c" and p: "lock_acquire qmem mem lock k s = Some s'"
  shows "moves X s s'" "own s lock = None \<Longrightarrow> own s' lock = Some c"
proof -
  let ?s = "s\<lparr>status_IEc := False, curspl := SPL_HIGH\<rparr>"
  from p have l: "lock_loop qmem mem lock (F_splx (curspl s) # k) ?s = Some s'"
    by (auto simp: lock_acquire_def splx_simps Let_def bind_Some split: if_splits)
  have "threads_core ?s" "curthread ?s = Some c" using core c by simp_all
  note m = lock_loop_moves [OF this l]
  have "moves X s ?s" by (rule moves_same) simp_all
  also note m(1)
  finally show "moves X s s'" .
  show "own s' lock = Some c" if "own s lock = None" by (rule m(2)) (use that in \<open>simp add: own_def\<close>)
qed

lemma lock_release_moves:
  assumes core: "threads_core s" and r: "lock_release mem lock s = Some s'"
  shows "moves {lock} s s'" "own s lock = curthread s" "own s' lock = None" "curthread s' = curthread s" "threads_core s'"
proof -
  let ?s = "s\<lparr>status_IEc := False, curspl := SPL_HIGH\<rparr>"
  from r obtain lk where lk: "locks s lock = Some lk" "lk_owner lk = curthread s"
    by (auto simp: lock_release_def lock_do_i_hold_def bind_Some split: if_splits)
  then show "own s lock = curthread s" by (simp add: own_def)
  have "\<exists>q s1. moves {lock} (?s\<lparr>locks := (locks s)(lock \<mapsto> lk\<lparr>lk_owner := None, lk_queue := q\<rparr>)\<rparr>) s1 \<and> s' = snd (splx (curspl s) s1) \<and>
    threads_core s1 \<and> own s1 lock = None \<and> curthread s1 = curthread s"
  proof (cases "q_empty (lk_queue lk)")
    case True
    with r lk have "s' = snd (splx (curspl s) (?s\<lparr>locks := (locks s)(lock \<mapsto> lk\<lparr>lk_owner := None, lk_queue := lk_queue lk\<rparr>)\<rparr>))"
      by (simp add: lock_release_def lock_do_i_hold_def splx_simps Let_def)
    with core moves_refl show ?thesis by (fastforce simp: own_def)
  next
    case False
    with r lk obtain t q s1 where w: "thread_wakeup mem (ThreadP t) (?s\<lparr>locks := (locks s)(lock \<mapsto> lk\<lparr>lk_owner := None, lk_queue := q\<rparr>)\<rparr>) = Some s1"
      "s' = snd (splx (curspl s) s1)"
      by (auto simp: lock_release_def lock_do_i_hold_def splx_simps Let_def bind_Some)
    have core': "threads_core (?s\<lparr>locks := (locks s)(lock \<mapsto> lk\<lparr>lk_owner := None, lk_queue := q\<rparr>)\<rparr>)" using core by simp
    from wakeup_views(5,8) [OF core' w(1)] have "own s1 lock = None" "curthread s1 = curthread s" by (simp_all add: own_def)
    with wakeup_core [OF core' w(1)] wakeup_moves [OF core' w(1)] w(2) show ?thesis by blast
  qed
  then obtain q s1 where m: "moves {lock} (?s\<lparr>locks := (locks s)(lock \<mapsto> lk\<lparr>lk_owner := None, lk_queue := q\<rparr>)\<rparr>) s1"
    and s': "s' = snd (splx (curspl s) s1)" and k: "threads_core s1" "own s1 lock = None" "curthread s1 = curthread s" by blast
  then show "own s' lock = None" "curthread s' = curthread s" "threads_core s'" by (simp_all add: own_def)
  have "moves {lock} s ?s" by (rule moves_same) simp_all
  also have "moves {lock} ?s (?s\<lparr>locks := (locks s)(lock \<mapsto> lk\<lparr>lk_owner := None, lk_queue := q\<rparr>)\<rparr>)"
    by (rule locks_moves [of lock]) (auto simp: own_def)
  also note m
  also have "moves {lock} s1 s'" unfolding s' by (rule splx_moves)
  finally show "moves {lock} s s'" .
qed

lemma moves_reacquired:
  \<comment> \<open>the owner of \<open>l\<close> releases it and takes it again\<close>
  assumes "moves {l} s s'" "own s l = Some c" "own s' l = Some c"
  shows "moves {} s s'"
proof -
  have "own s' x = Some t" if "own s x = Some t" for x t
    using assms that unfolding moves_def by (cases "x = l") auto
  with assms(1) show ?thesis unfolding moves_def by simp
qed

lemma cv_wait_moves:
  assumes core: "threads_core s" and w: "cv_wait qmem mem cv lock k s = Some s'"
  shows "moves {lock} s s'" "own s lock = curthread s"
proof -
  let ?s = "s\<lparr>status_IEc := False, curspl := SPL_HIGH\<rparr>"
  from w obtain s1 c0 t q r where r: "lock_release mem lock ?s = Some s1"
    and t: "thread_sleep mem (ThreadP t) (F_lock_acquire lock # F_splx (curspl s) # k) (s1\<lparr>cvs := (cvs s1)(cv \<mapsto> c0\<lparr>cv_queue := q\<rparr>)\<rparr>) = Some s'"
    by (auto simp: cv_wait_def splx_simps Let_def bind_Some split: if_splits)
  have core': "threads_core ?s" using core by simp
  note m = lock_release_moves [OF core' r]
  from m(2) show "own s lock = curthread s" by (simp add: own_def)
  have "moves {lock} s ?s" by (rule moves_same) simp_all
  also note m(1)
  also have "moves {lock} s1 (s1\<lparr>cvs := (cvs s1)(cv \<mapsto> c0\<lparr>cv_queue := q\<rparr>)\<rparr>)" by (rule cvs_moves)
  also have "moves {lock} (s1\<lparr>cvs := (cvs s1)(cv \<mapsto> c0\<lparr>cv_queue := q\<rparr>)\<rparr>) s'" by (rule sleep_moves [OF _ t]) (use m(5) in simp)
  finally show "moves {lock} s s'" .
qed

lemma cv_wake_moves:
  assumes core: "threads_core s" and w: "thread_wakeup mem a (s\<lparr>cvs := C\<rparr>) = Some s'"
  shows "moves X s s'" "threads_core s'" "curthread s' = curthread s" "own s' = own s"
proof -
  have core': "threads_core (s\<lparr>cvs := C\<rparr>)" using core by simp
  have "moves X s (s\<lparr>cvs := C\<rparr>)" by (rule cvs_moves)
  also have "moves X (s\<lparr>cvs := C\<rparr>) s'" by (rule wakeup_moves [OF core' w])
  finally show "moves X s s'" .
  from wakeup_views [OF core' w] show "curthread s' = curthread s" "own s' = own s" by (auto simp: own_def fun_eq_iff)
  from wakeup_core [OF core' w] show "threads_core s'" .
qed

lemma release_acquire_moves:
  \<comment> \<open>the shape of \<open>cv_signal\<close> and \<open>cv_broadcast\<close>\<close>
  assumes core: "threads_core s" and c: "curthread s = Some c"
    and r: "lock_release mem lock (s\<lparr>status_IEc := False, curspl := SPL_HIGH\<rparr>) = Some s1"
    and m: "moves {lock} s1 s2" "threads_core s2" "curthread s2 = curthread s1" "own s2 = own s1"
    and a: "lock_acquire qmem mem lock k s2 = Some s'"
  shows "moves {} s s'"
proof -
  let ?s = "s\<lparr>status_IEc := False, curspl := SPL_HIGH\<rparr>"
  have core': "threads_core ?s" using core by simp
  note rel = lock_release_moves [OF core' r]
  from rel(4) m(3) c have c2: "curthread s2 = Some c" by simp
  note acq = lock_acquire_moves [OF m(2) c2 a]
  have "moves {lock} s ?s" by (rule moves_same) simp_all
  also note rel(1)
  also note m(1)
  also note acq(1)
  finally have "moves {lock} s s'" .
  moreover have "own s lock = Some c" using rel(2) c by (simp add: own_def)
  moreover have "own s' lock = Some c" using acq(2) m(4) rel(3) by simp
  ultimately show ?thesis by (rule moves_reacquired)
qed

lemma cv_signal_moves:
  assumes core: "threads_core s" and c: "curthread s = Some c" and w: "cv_signal qmem mem cv lock k s = Some s'"
  shows "moves {} s s'"
proof -
  from w obtain s1 s2 c0 where p: "lock_release mem lock (snd (splhigh s)) = Some s1"
    "s2 = s1 \<or> (\<not> q_empty (cv_queue c0) \<and> (\<exists>t q. q_remhead (cv_queue c0) = Some (t, q) \<and>
      thread_wakeup mem (ThreadP t) (s1\<lparr>cvs := (cvs s1)(cv \<mapsto> c0\<lparr>cv_queue := q\<rparr>)\<rparr>) = Some s2))"
    "lock_acquire qmem mem lock (F_splx (fst (splhigh s)) # k) s2 = Some s'"
    by (rule cv_signal_parts_cv)
  from p(1) have r: "lock_release mem lock (s\<lparr>status_IEc := False, curspl := SPL_HIGH\<rparr>) = Some s1" by (simp add: splx_simps)
  have "threads_core s1" using lock_release_moves(5) [OF _ r] core by simp
  with p(2) have "moves {lock} s1 s2 \<and> threads_core s2 \<and> curthread s2 = curthread s1 \<and> own s2 = own s1"
    using cv_wake_moves moves_refl by metis
  with release_acquire_moves [OF core c r _ _ _ _ p(3)] show ?thesis by simp
qed

lemma broadcast_loop_moves:
  "broadcast_loop mem cv s = Some s' \<Longrightarrow> threads_core s \<Longrightarrow>
   moves X s s' \<and> threads_core s' \<and> curthread s' = curthread s \<and> own s' = own s"
proof (induction rule: broadcast_loop.raw_induct [rotated, consumes 1, case_names step])
  case (step loop mem cv s s')
  from step(2) obtain c where c: "cvs s cv = Some c" by (auto simp: bind_Some)
  show ?case
  proof (cases "q_empty (cv_queue c)")
    case True
    with step(2,3) c show ?thesis by (simp add: moves_refl)
  next
    case False
    with step(2) c obtain t q s1 where w: "thread_wakeup mem (ThreadP t) (s\<lparr>cvs := (cvs s)(cv \<mapsto> c\<lparr>cv_queue := q\<rparr>)\<rparr>) = Some s1"
      "loop mem cv s1 = Some s'" by (auto simp: bind_Some)
    note m = cv_wake_moves [OF step(3) w(1)]
    from step(1) [OF w(2) m(2)] m moves_trans [OF m(1)] show ?thesis by auto
  qed
qed

lemma cv_broadcast_moves:
  assumes core: "threads_core s" and c: "curthread s = Some c" and w: "cv_broadcast qmem mem cv lock k s = Some s'"
  shows "moves {} s s'"
proof -
  from w obtain s1 s2 where r: "lock_release mem lock (s\<lparr>status_IEc := False, curspl := SPL_HIGH\<rparr>) = Some s1"
    and b: "broadcast_loop mem cv s1 = Some s2" and a: "lock_acquire qmem mem lock (F_splx (curspl s) # k) s2 = Some s'"
    by (auto simp: cv_broadcast_def splx_simps Let_def bind_Some split: if_splits)
  have "threads_core s1" using lock_release_moves(5) [OF _ r] core by simp
  from broadcast_loop_moves [OF b this] release_acquire_moves [OF core c r _ _ _ _ a] show ?thesis by blast
qed

lemma hardclock_moves:
  assumes core: "threads_core s" and h: "hardclock mem k s = Some s'"
  shows "moves X s s'"
proof -
  from h obtain s1 where y: "thread_yield mem k s1 = Some s'"
    and w: "s1 = s\<lparr>lbolt_counter := lbolt_counter s + 1\<rparr> \<or> thread_wakeup mem LboltP (s\<lparr>lbolt_counter := 0\<rparr>) = Some s1"
    by (auto simp: hardclock_def Let_def bind_Some split: if_splits)
  have f: "moves X s (s\<lparr>lbolt_counter := n\<rparr>)" "threads_core (s\<lparr>lbolt_counter := n\<rparr>)" for n
    by (rule moves_same) (use core in simp_all)
  from w have "moves X s s1 \<and> threads_core s1"
    using f moves_trans [OF f(1) wakeup_moves [OF f(2)]] wakeup_core [OF f(2)] by blast
  with yield_moves [OF _ y] moves_trans show ?thesis by blast
qed

lemma interrupt_moves:
  assumes core: "threads_core s" and t: "take_interrupt mem i s = Some s'"
  shows "moves X s s'"
proof -
  let ?s = "s\<lparr>status_IEc := False, curspl := SPL_HIGH, in_interrupt := 1\<rparr>"
  have "threads_core ?s" using core by simp
  with t have "moves X ?s s'"
    by (auto simp: take_interrupt_def mips_interrupt_def Let_def bind_Some split: irq.splits if_splits intro: hardclock_moves V_moves)
  moreover have "moves X s ?s" by (rule moves_same) simp_all
  ultimately show ?thesis using moves_trans by blast
qed

lemma thread_fork_moves:
  assumes b: "in_body s" and fresh: "\<forall>t. m_thread mem = Some t \<longrightarrow> threads s t = None"
    and room: "length (running s @ ready s @ asleep s @ dead s) + 2 < 2 ^ 28"
    and f: "thread_fork mem name s = Some (r, s')"
  shows "moves X s s'"
  using b fresh room f
  by (cases rule: thread_fork_eff) (simp_all add: moves_def own_def counts_ok_def ready_def)

lemma thread_exit_moves:
  assumes core: "threads_core s" and e: "thread_exit mem s = Some s'"
  shows "moves X s s'"
proof -
  from e obtain c th where c: "curthread s = Some c" "threads s c = Some th"
    by (auto simp: thread_exit_def bind_Some split: if_splits)
  define s3 where "s3 = (let s = s\<lparr>status_IEc := False, curspl := SPL_HIGH\<rparr>;
     s = (if t_vmspace th \<noteq> 0 then log_call (As_destroy (t_vmspace th)) (upd_thread c (\<lambda>th. th\<lparr>t_vmspace := 0\<rparr>) s) else s)
    in (if t_cwd th \<noteq> 0 then upd_thread c (\<lambda>th. th\<lparr>t_cwd := 0\<rparr>) (log_call (Vop_decref (t_cwd th)) s) else s))"
  have sw: "mi_switch mem S_ZOMB [F_dead] (s3\<lparr>numthreads := numthreads s3 - 1\<rparr>) = Some s'"
    using e c by (simp add: s3_def thread_exit_def splx_simps bind_Some Let_def split: if_splits)
  have f: "curthread s3 = curthread s" "locks s3 = locks s" "sems s3 = sems s"
    "runqueue s3 = runqueue s" "sleepers s3 = sleepers s" "zombies s3 = zombies s"
    by (auto simp: s3_def Let_def log_call_def upd_thread_def)
  have "lists_ok (s3\<lparr>numthreads := numthreads s3 - 1\<rparr>)" using core f by (simp add: threads_core_def lists_ok_def view_defs)
  then have "moves X (s3\<lparr>numthreads := numthreads s3 - 1\<rparr>) s'" using sw by (rule switch_moves)
  moreover have "moves X s (s3\<lparr>numthreads := numthreads s3 - 1\<rparr>)" by (rule moves_same) (use f in simp_all)
  ultimately show ?thesis using moves_trans by blast
qed

lemma exorcise_moves:
  assumes "threads_core s" "exorcise s = Some s'"
  shows "moves X s s'"
proof -
  from assms(1) have "lists_ok s" by (simp add: threads_core_def)
  from this assms(2) obtain z where "s' = (kill_threads (set (dead s)) s)\<lparr>zombies := Some z\<rparr>" by (rule exorcise_eff)
  then show ?thesis by (intro moves_same) (simp_all add: kill_threads_def)
qed

lemma activate_moves:
  assumes "activate s = Some s'"
  shows "moves X s s'"
proof -
  from assms have "s' = s \<or> (\<exists>x. s' = s\<lparr>calls := x\<rparr>)" by (auto simp: activate_def log_call_def bind_Some split: if_splits)
  moreover have "moves X s (s\<lparr>calls := x\<rparr>)" for x by (rule moves_same) simp_all
  ultimately show ?thesis using moves_refl by metis
qed

lemma exec_frame_moves:
  assumes core: "threads_core s" and ko: "kok s (f # k)" and e: "exec_frame qmem mem f k s = Some s'"
  shows "moves X s s'"
proof -
  have upd: "moves X s (upd_thread c g s)" for c g by (rule moves_same) (simp_all add: upd_thread_def)
  have field: "moves X s (s\<lparr>in_interrupt := i\<rparr>)" "moves X s ((s\<lparr>status_IEc := False, curspl := SPL_HIGH\<rparr>)\<lparr>curspl := spl, status_IEc := b\<rparr>)" for i spl b
    by (rule moves_same; simp)+
  have cur: "curthread s \<noteq> None" if "f = F_lock_loop l \<or> f = F_lock_acquire l" for l
    using ko that by (auto simp: kok_def idle_ok_def split: option.splits)
  show ?thesis
  proof (cases f)
    case F_switch
    with e obtain s1 s2 where s1: "exorcise s = Some s1" "activate s1 = Some s2" "s' = go k s2"
      by (auto simp: mi_switch_return_def bind_Some)
    from exorcise_moves [OF core s1(1)] activate_moves [OF s1(2)] go_moves [of X s2 k] moves_trans s1(3) show ?thesis by metis
  next
    case F_start
    with e obtain s1 where s1: "activate s = Some s1" "s' = go [] (snd (splx 0 s1))"
      by (auto simp: mi_threadstart_def bind_Some spl0_def)
    from activate_moves [OF s1(1)] splx_moves [of X s1 0] go_moves [of X "snd (splx 0 s1)" "[]"] moves_trans s1(2) show ?thesis by metis
  next
    case F_wake
    with e obtain c where "s' = go k (upd_thread c (\<lambda>th. th\<lparr>t_sleepaddr := NullP\<rparr>) s)"
      by (auto simp: thread_sleep_return_def bind_Some)
    with moves_trans [OF upd go_moves] show ?thesis by simp
  next
    case (F_splx spl)
    with e moves_trans [OF splx_moves go_moves] show ?thesis by auto
  next
    case (F_clocksleep n)
    with e show ?thesis by (auto simp: clocksleep_loop_def intro: go_moves sleep_moves [OF core] split: if_splits)
  next
    case (F_P sem)
    with e P_loop_moves [OF core] show ?thesis by simp
  next
    case (F_lock_loop l)
    with cur e lock_loop_moves(1) [OF core] show ?thesis by auto
  next
    case (F_lock_acquire l)
    with cur e lock_acquire_moves(1) [OF core] show ?thesis by auto
  next
    case (F_interrupt i)
    with e moves_trans [OF field(1) go_moves] show ?thesis by auto
  next
    case (F_trap spl b)
    then have "s' = go k ((s\<lparr>status_IEc := False, curspl := SPL_HIGH\<rparr>)\<lparr>curspl := spl, status_IEc := b\<rparr>)"
      using e by (simp add: trap_done_def splx_simps)
    with moves_trans [OF field(2) go_moves] show ?thesis by metis
  qed (use e in simp)
qed

fun released :: "kact \<Rightarrow> nat set" where
  \<comment> \<open>the lock a call gives up\<close>
  "released (A_call (K_release l)) = {l}"
| "released (A_call (K_wait v l)) = {l}"
| "released a = {}"

fun counted :: "kact \<Rightarrow> bool" where
  \<comment> \<open>the argument of \<open>sem_create\<close> is an \<open>int\<close>\<close>
  "counted (A_call (K_sem_create name n)) = (n < 2 ^ 31)"
| "counted a = True"

lemma create_moves:
  assumes fresh: "fresh_mem mem s"
  shows "sem_create (m_obj mem) nm name n s = Some (r, s') \<Longrightarrow> n < 2 ^ 31 \<Longrightarrow> moves X s s'"
    and "lock_create (m_obj mem) nm q1 q2 name s = Some (r, s') \<Longrightarrow> moves X s s'"
    and "cv_create (m_obj mem) nm q1 q2 name s = Some (r, s') \<Longrightarrow> moves X s s'"
proof -
  assume "sem_create (m_obj mem) nm name n s = Some (r, s')" "n < 2 ^ 31"
  then show "moves X s s'"
    by (auto simp: sem_create_def bind_Some intro: moves_refl intro!: sems_moves split: option.splits if_splits)
next
  assume l: "lock_create (m_obj mem) nm q1 q2 name s = Some (r, s')"
  have "moves X s (s\<lparr>locks := (locks s)(l \<mapsto> \<lparr>lk_name = name, lk_owner = None, lk_queue = q\<rparr>)\<rparr>)" if "locks s l = None" for l q
    by (rule locks_moves [of l]) (use that in \<open>auto simp: own_def\<close>)
  with l fresh show "moves X s s'"
    by (auto simp: lock_create_def fresh_mem_def bind_Some intro: moves_refl split: option.splits if_splits)
next
  assume "cv_create (m_obj mem) nm q1 q2 name s = Some (r, s')"
  then show "moves X s s'" by (auto simp: cv_create_def bind_Some intro: moves_refl cvs_moves split: option.splits if_splits)
qed

lemma destroy_moves:
  assumes b: "in_body s"
  shows "sem_destroy x s = Some s' \<Longrightarrow> moves X s s'"
    and "lock_destroy x s = Some s' \<Longrightarrow> moves X s s'"
    and "cv_destroy x s = Some s' \<Longrightarrow> moves X s s'"
proof -
  assume "sem_destroy x s = Some s'"
  then have "s' = s\<lparr>sems := (sems s)(x := None)\<rparr>" using destroy_eff(1) [OF b] by blast
  then show "moves X s s'" by (auto intro: sems_moves [of _ x])
next
  assume d: "lock_destroy x s = Some s'"
  then have s': "s' = s\<lparr>locks := (locks s)(x := None)\<rparr>" using destroy_eff(2) [OF b] by blast
  moreover from d have "own s x = None"
    by (auto simp: lock_destroy_def own_def splx_simps Let_def bind_Some split: if_splits)
  ultimately show "moves X s s'" by (auto simp: own_def intro!: locks_moves [of x])
next
  assume "cv_destroy x s = Some s'"
  then have "s' = s\<lparr>cvs := (cvs s)(x := None)\<rparr>" using destroy_eff(3) [OF b] by blast
  then show "moves X s s'" by (simp add: cvs_moves)
qed

lemma high_moves: "moves X (s\<lparr>status_IEc := False, curspl := SPL_HIGH\<rparr>) s' \<Longrightarrow> moves X s s'"
  by (erule moves_trans [rotated]) (rule moves_same; simp)

lemma kcall_moves:
  assumes b: "in_body s" and fresh: "fresh_mem mem s" and n: "counted (A_call op)"
    and room: "length (running s @ ready s @ asleep s @ dead s) + 2 < 2 ^ 28" and e: "kcall qmem mem op s = Some s'"
  shows "moves (released (A_call op)) s s' \<and> (\<forall>l \<in> released (A_call op). own s l = curthread s)"
proof -
  from b obtain c where c: "curthread s = Some c" and core: "threads_core s" by (auto simp: in_body_def)
  have f: "\<forall>t. m_thread mem = Some t \<longrightarrow> threads s t = None" using fresh by (auto simp: fresh_mem_def)
  have core': "threads_core (s\<lparr>status_IEc := False, curspl := SPL_HIGH\<rparr>)" using core by simp
  show ?thesis
  proof (cases op)
    case K_yield
    with e yield_moves [OF core] show ?thesis by auto
  next
    case (K_fork name)
    with e thread_fork_moves [OF b f room] show ?thesis by auto
  next
    case K_return
    with e thread_exit_moves [OF core] show ?thesis by auto
  next
    case (K_clocksleep n)
    with e have "clocksleep_loop (m_list mem) n [F_splx (curspl s)] (s\<lparr>status_IEc := False, curspl := SPL_HIGH\<rparr>) = Some s'"
      by (simp add: clocksleep_def splx_simps Let_def)
    then have "moves {} (s\<lparr>status_IEc := False, curspl := SPL_HIGH\<rparr>) s'"
      using sleep_moves [OF core'] by (auto simp: clocksleep_loop_def intro: go_moves split: if_splits)
    with K_clocksleep high_moves show ?thesis by simp
  next
    case (K_sem_create name n)
    with e n create_moves(1) [OF fresh] show ?thesis by auto
  next
    case (K_sem_destroy x)
    with e destroy_moves(1) [OF b] show ?thesis by auto
  next
    case (K_P sem)
    with e have "P_loop (m_list mem) sem [F_splx (curspl s)] (s\<lparr>status_IEc := False, curspl := SPL_HIGH\<rparr>) = Some s'"
      by (simp add: P_def splx_simps Let_def split: if_splits)
    from high_moves [OF P_loop_moves [OF core' this]] K_P show ?thesis by simp
  next
    case (K_V sem)
    with e V_moves [OF core] show ?thesis by auto
  next
    case (K_lock_create name)
    with e create_moves(2) [OF fresh] show ?thesis by auto
  next
    case (K_lock_destroy x)
    with e destroy_moves(2) [OF b] show ?thesis by auto
  next
    case (K_acquire x)
    with e lock_acquire_moves(1) [OF core c] show ?thesis by auto
  next
    case (K_release x)
    with e lock_release_moves(1,2) [OF core] show ?thesis by auto
  next
    case (K_cv_create name)
    with e create_moves(3) [OF fresh] show ?thesis by auto
  next
    case (K_cv_destroy x)
    with e destroy_moves(3) [OF b] show ?thesis by auto
  next
    case (K_wait v x)
    with e cv_wait_moves [OF core] show ?thesis by auto
  next
    case (K_signal v x)
    with e cv_signal_moves [OF core c] show ?thesis by auto
  next
    case (K_broadcast v x)
    with e cv_broadcast_moves [OF core c] show ?thesis by auto
  qed
qed

lemma dispatch_moves:
  assumes core: "threads_core s" and d: "mi_dispatch s = Some s'"
  shows "\<exists>t. ready s = t # ready s' \<and> curthread s' = Some t \<and> locks s' = locks s \<and> sems s' = sems s"
proof -
  from core have "lists_ok s" by (simp add: threads_core_def)
  from this d obtain old nxt q xs where "ready s = nxt # xs" "q_list q = xs"
    "md_switch old nxt (s\<lparr>runqueue := Some q, curthread := Some nxt, switching := None\<rparr>) = Some s'"
    by (rule mi_dispatch_eff)
  then show ?thesis by (auto simp: md_switch_def ready_def upd_thread_def bind_Some split: if_splits)
qed

lemma kstep_moves:
  assumes ok: "threads_ok s" and k: "kstep qmem a s s'" and n: "counted a" and a: "a \<noteq> A_dispatch"
  shows "moves (released a) s s' \<and> (\<forall>l \<in> released a. own s l = curthread s)"
proof -
  note c = threads_ok_cases [OF ok]
  have room: "length (running s @ ready s @ asleep s @ dead s) + 2 < 2 ^ 28" using c(5) by simp
  from ok have core: "threads_core s" by (simp add: threads_ok_def)
  from k show ?thesis
  proof (cases rule: kstep.cases)
    case (frame f k mem)
    with exec_frame_moves [OF core c(3)] show ?thesis by simp
  next
    case dispatch
    with a show ?thesis by simp
  next
    case (call t mem op)
    with kcall_moves [OF c(1) _ _ room] n show ?thesis by auto
  next
    case (irq mem i)
    with interrupt_moves [OF core] show ?thesis by simp
  next
    case (idle mem i)
    then have "take_interrupt mem i s = Some s'" by (auto simp: cpu_idle_def bind_Some split: if_splits)
    with interrupt_moves [OF core] idle show ?thesis by simp
  qed
qed

lemma kstep_order:
  assumes ok: "threads_ok s" and k: "kstep qmem a s s'" and a: "a \<noteq> A_dispatch"
  shows "\<exists>zs. ready s' = ready s @ zs"
    and "own s l = Some t \<Longrightarrow> own s' l = Some t \<or> curthread s = Some t \<and> l \<in> released a"
    and "own s' l = Some t \<Longrightarrow> own s l = Some t \<or> curthread s = Some t"
proof -
  have *: "(\<exists>zs. ready s' = ready s @ zs) \<and> (own s l = Some t \<longrightarrow> own s' l = Some t \<or> curthread s = Some t \<and> l \<in> released a) \<and>
    (own s' l = Some t \<longrightarrow> own s l = Some t \<or> curthread s = Some t)"
  proof (cases "counted a")
    case True
    from kstep_moves [OF ok k True a] have m: "moves (released a) s s'" and o: "\<forall>l \<in> released a. own s l = curthread s" by auto
    from m have "\<exists>zs. ready s' = ready s @ zs" "l \<notin> released a \<Longrightarrow> own s l = Some t \<Longrightarrow> own s' l = Some t"
      "own s' l = Some t \<Longrightarrow> own s l = Some t \<or> curthread s = Some t" by (auto simp: moves_def)
    with o show ?thesis by (cases "l \<in> released a") auto
  next
    case False
    then obtain name m where "a = A_call (K_sem_create name m)" by (cases a rule: counted.cases) auto
    with k have "ready s' = ready s" "own s' = own s"
      by (auto elim!: kstep.cases simp: sem_create_def ready_def own_def fun_eq_iff bind_Some split: option.splits if_splits)
    then show ?thesis by simp
  qed
  from * show "\<exists>zs. ready s' = ready s @ zs"
    "own s l = Some t \<Longrightarrow> own s' l = Some t \<or> curthread s = Some t \<and> l \<in> released a"
    "own s' l = Some t \<Longrightarrow> own s l = Some t \<or> curthread s = Some t" by blast+
qed

lemma kstep_dispatch:
  assumes ok: "threads_ok s" and k: "kstep qmem A_dispatch s s'"
  shows "\<exists>t. ready s = t # ready s' \<and> curthread s' = Some t \<and> locks s' = locks s \<and> sems s' = sems s"
proof -
  from ok have core: "threads_core s" by (simp add: threads_ok_def)
  from k show ?thesis by (cases rule: kstep.cases) (rule dispatch_moves [OF core])
qed

lemma kstep_counts:
  assumes ok: "threads_ok s" and k: "kstep qmem a s s'" and n: "counted a" and c: "counts_ok s"
  shows "counts_ok s'"
proof (cases "a = A_dispatch")
  case True
  with kstep_dispatch [OF ok] k have "sems s' = sems s" by blast
  with c show ?thesis by (simp add: counts_ok_def)
next
  case False
  with kstep_moves [OF ok k n] c show ?thesis by (simp add: moves_def)
qed

lemma kpath_counts: "kpath qmem as s s' \<Longrightarrow> threads_ok s \<Longrightarrow> counts_ok s \<Longrightarrow> \<forall>a \<in> set as. counted a \<Longrightarrow> counts_ok s'"
  by (induction rule: kpath.induct) (auto intro: kstep_threads_ok kstep_counts)

lemma round_robin_path:
  "kpath qmem as s s' \<Longrightarrow> threads_ok s \<Longrightarrow> ready s = xs @ t # ys \<Longrightarrow> length xs < count_list as A_dispatch \<Longrightarrow>
   \<exists>as1 as2 s1. as = as1 @ as2 \<and> kpath qmem as1 s s1 \<and> kpath qmem as2 s1 s' \<and> curthread s1 = Some t \<and>
     count_list as1 A_dispatch = length xs + 1"
proof (induction arbitrary: xs ys rule: kpath.induct)
  case (nil s)
  then show ?case by simp
next
  case (step a s s1 as s')
  note ok = kstep_threads_ok [OF step.prems(1) step.hyps(1)]
  show ?case
  proof (cases "a = A_dispatch")
    case True
    with kstep_dispatch [OF step.prems(1)] step.hyps(1) obtain u where u: "ready s = u # ready s1" "curthread s1 = Some u" by blast
    show ?thesis
    proof (cases xs)
      case Nil
      with u step.prems(2) have "curthread s1 = Some t" by simp
      moreover have "kpath qmem [a] s s1" using step.hyps(1) by (auto intro: kpath.intros)
      ultimately show ?thesis using step.hyps(2) True Nil by (intro exI [of _ "[a]"] exI [of _ as] exI [of _ s1]) simp
    next
      case (Cons x xs')
      with u step.prems(2) have "ready s1 = xs' @ t # ys" by simp
      from step.IH [OF ok this] step.prems(3) Cons True obtain as1 as2 s2 where
        *: "as = as1 @ as2" "kpath qmem as1 s1 s2" "kpath qmem as2 s2 s'" "curthread s2 = Some t" "count_list as1 A_dispatch = length xs' + 1"
        by auto
      have "kpath qmem (a # as1) s s2" using step.hyps(1) *(2) by (rule kpath.step)
      with * True Cons show ?thesis by (intro exI [of _ "a # as1"] exI [of _ as2] exI [of _ s2]) simp
    qed
  next
    case False
    with kstep_order(1) [OF step.prems(1) step.hyps(1)] obtain zs where "ready s1 = xs @ t # (ys @ zs)" using step.prems(2) by auto
    from step.IH [OF ok this] step.prems(3) False obtain as1 as2 s2 where
      *: "as = as1 @ as2" "kpath qmem as1 s1 s2" "kpath qmem as2 s2 s'" "curthread s2 = Some t" "count_list as1 A_dispatch = length xs + 1"
      by auto
    have "kpath qmem (a # as1) s s2" using step.hyps(1) *(2) by (rule kpath.step)
    with * False show ?thesis by (intro exI [of _ "a # as1"] exI [of _ as2] exI [of _ s2]) simp
  qed
qed

lemma dispatch_enabled:
  assumes ok: "threads_ok s" and c: "curthread s = None" "idle_frames s = []" and r: "ready s \<noteq> []"
  shows "\<exists>s'. kstep qmem A_dispatch s s'"
proof -
  from ok have core: "threads_core s" and fits: "fits s" by (simp_all add: threads_ok_def)
  then have "lists_ok s" by (simp add: threads_core_def)
  then obtain q where q: "runqueue s = Some q" "q_inv q" "q_size q < 2 ^ 29" "ready s = q_list q" by (rule lists_okE)
  from r q(4) obtain t xs where t: "q_list q = t # xs" by (cases "q_list q") auto
  from q_remhead_Cons [OF q(2) t] obtain q' where q': "q_remhead q = Some (t, q')" "q_size q' = q_size q" by auto
  from core c obtain old where old: "switching s = Some old" by (auto simp: threads_core_def places_ok_def)
  have "t \<in> dom (threads s)" using core q(4) t by (simp add: threads_core_def places_ok_def)
  then obtain th where th: "threads s t = Some th" by auto
  have spl: "curspl s = SPL_HIGH" using ok c by (simp add: threads_ok_def spl_ok_def)
  have ne: "\<not> q_empty q" using q(2) t by (simp add: q_empty_iff)
  let ?s = "s\<lparr>runqueue := Some q', curthread := Some t, switching := None\<rparr>"
  have "\<exists>s'. md_switch old t ?s = Some s'" using th by (cases "old = t") (simp_all add: md_switch_def upd_thread_def Let_def)
  then obtain s' where md: "md_switch old t ?s = Some s'" by blast
  have d: "mi_dispatch s = Some s'" using old q(1) ne q'(1) spl md by (simp add: mi_dispatch_def scheduler_def)
  have "dom (threads s') = dom (threads s)" "runqueue s' = Some q'" "sleepers s' = sleepers s" "zombies s' = zombies s"
    "locks s' = locks s" "cvs s' = cvs s"
    using md by (auto simp: md_switch_def upd_thread_def Let_def bind_Some split: if_splits)
  with fits q(1) q'(2) have "fits s'" by (auto simp: fits_def)
  with c d show ?thesis by (auto intro: kstep.dispatch)
qed

section \<open>Waking up\<close>

lemma wakeup_loop_returns:
  assumes "array_full a" "0 \<le> i" "i \<le> arr_num a" "runqueue s = Some q" "q_inv q" "q_size q < 2 ^ 29"
    "int (q_count q) + (arr_num a - i) < 2 ^ 28" "curspl s > 0" "\<forall>t \<in> set (array_elems a). threads s t \<noteq> None"
  shows "\<exists>s'. wakeup_loop True addr i s a = Some s'"
  using assms
proof (induction True addr i s a arbitrary: q rule: wakeup_loop.induct)
  case (1 addr i s a)
  have len: "int (length (array_elems a)) = arr_num a" using array_elems_length [OF "1.prems"(1)] .
  show ?case
  proof (cases "i < arr_num a")
    case False
    then show ?thesis by (simp add: wakeup_loop.simps [of True addr i s a] array_getnum_def)
  next
    case True
    then have i: "nat i < length (array_elems a)" using len "1.prems"(2) by simp
    let ?t = "array_elems a ! nat i"
    have get: "array_getguy a i = Some ?t" using array_getguy_full [OF "1.prems"(1) i] "1.prems"(2) by simp
    have "?t \<in> set (array_elems a)" using i by simp
    with "1.prems"(9) obtain th where th: "threads s ?t = Some th" by blast
    show ?thesis
    proof (cases "t_sleepaddr th = addr")
      case match: True
      from array_remove_full [OF "1.prems"(1) i] "1.prems"(2) obtain a1 where a1: "array_remove a i = Some a1"
        "array_full a1" "array_elems a1 = take (nat i) (array_elems a) @ drop (Suc (nat i)) (array_elems a)" by auto
      note num = array_remove_num [OF a1(1)]
      from q_addtail_ok [OF "1.prems"(5,6), of True] obtain q1 where q1: "q_addtail True q ?t = Some (Inr (), q1)" by auto
      from q_addtail_cases [OF "1.prems"(5,6) q1] have q1': "q_inv q1" "q_list q1 = q_list q @ [?t]"
        "q_size q1 = q_size q \<or> int (q_count q) = q_room q \<and> q_size q1 = 2 * q_size q" by auto
      have cnt: "q_count q1 = Suc (q_count q)" using q1'(2) q_list_length [of q] q_list_length [of q1] by simp
      have size: "q_size q1 < 2 ^ 29" using q1'(3) "1.prems"(6,7) True by (auto simp: q_room_def)
      have mk: "make_runnable True ?t s = Some (Inr (), s\<lparr>runqueue := Some q1\<rparr>)"
        using q1 "1.prems"(4,8) by (simp add: make_runnable_def)
      have sub: "set (array_elems a1) \<subseteq> set (array_elems a)" using a1(3) by (auto dest: in_set_takeD in_set_dropD)
      have "\<exists>s'. wakeup_loop True addr i (s\<lparr>runqueue := Some q1\<rparr>) a1 = Some s'"
        by (rule "1.hyps"(1) [where q = q1, OF _ get th match a1(1) mk _ _ a1(2)])
          (use True match size num cnt "1.prems"(2,7,8,9) q1'(1) sub in \<open>auto simp: array_getnum_def\<close>)
      then show ?thesis using True get th match a1(1) mk by (simp add: wakeup_loop.simps [of True addr i s a] array_getnum_def)
    next
      case nomatch: False
      have "\<exists>s'. wakeup_loop True addr (i + 1) s a = Some s'"
        by (rule "1.hyps"(2) [where q = q, OF _ get th nomatch "1.prems"(1)])
          (use True "1.prems" in \<open>auto simp: array_getnum_def\<close>)
      then show ?thesis using True get th nomatch by (simp add: wakeup_loop.simps [of True addr i s a] array_getnum_def)
    qed
  qed
qed

lemma thread_wakeup_returns:
  assumes core: "threads_core s" and spl: "curspl s > 0"
  shows "\<exists>s'. thread_wakeup True addr s = Some s'"
proof -
  from core have lists: "lists_ok s" by (simp add: threads_core_def)
  then obtain q a z where l: "runqueue s = Some q" "sleepers s = Some a" "zombies s = Some z"
    "q_inv q" "q_size q < 2 ^ 29" "array_full a" "array_full z"
    "ready s = q_list q" "asleep s = array_elems a" "dead s = array_elems z"
    "length (running s) + q_count q + length (array_elems a) + length (array_elems z) < 2 ^ 28"
    by (rule lists_okE)
  have num: "0 \<le> arr_num a" "int (q_count q) + (arr_num a - 0) < 2 ^ 28"
    using array_elems_length [OF l(6)] l(11) by simp_all
  have "\<forall>t \<in> set (array_elems a). threads s t \<noteq> None"
    using core l(9) by (auto simp: threads_core_def places_ok_def)
  from wakeup_loop_returns [OF l(6) order_refl num(1) l(1,4,5) num(2) spl this] l(2) spl
  show ?thesis by (simp add: thread_wakeup_def)
qed

lemma filter_eq_distinct: "distinct xs \<Longrightarrow> t \<in> set xs \<Longrightarrow> filter (\<lambda>u. u = t) xs = [t]"
  by (induction xs) (auto simp: filter_empty_conv)

lemma only_sleeper:
  assumes core: "threads_core s" and s: "sync_ok s" and t: "t \<in> set (asleep s)" "sleep_addr s t = ThreadP t"
  shows "filter (\<lambda>u. sleep_addr s u = ThreadP t) (asleep s) = [t]"
    and "filter (\<lambda>u. sleep_addr s u \<noteq> ThreadP t) (asleep s) = filter (\<lambda>u. u \<noteq> t) (asleep s)"
proof -
  have *: "sleep_addr s u = ThreadP t \<longleftrightarrow> u = t" if "u \<in> set (asleep s)" for u
    using s t that by (auto simp: sync_ok_def sync_def asleep_ok_def)
  have "distinct (asleep s)" using core by (simp add: threads_core_def places_ok_def)
  then have "filter (\<lambda>u. u = t) (asleep s) = [t]" using t(1) by (rule filter_eq_distinct)
  moreover have "filter (\<lambda>u. sleep_addr s u = ThreadP t) (asleep s) = filter (\<lambda>u. u = t) (asleep s)"
    by (rule filter_cong) (simp_all add: *)
  ultimately show "filter (\<lambda>u. sleep_addr s u = ThreadP t) (asleep s) = [t]" by simp
  show "filter (\<lambda>u. sleep_addr s u \<noteq> ThreadP t) (asleep s) = filter (\<lambda>u. u \<noteq> t) (asleep s)"
    by (rule filter_cong) (simp_all add: *)
qed

lemma lock_release_returns:
  assumes core: "threads_core s" and s: "sync_ok s" and spl: "curspl s > 0" and lk: "locks s lock = Some lk" "lk_owner lk = curthread s"
  obtains s' q where "lock_release True lock s = Some s'" "locks s' = (locks s)(lock \<mapsto> lk\<lparr>lk_owner := None, lk_queue := q\<rparr>)"
    "q_inv q" "q_list q = drop 1 (q_list (lk_queue lk))" "q_size q = q_size (lk_queue lk)" "cvs s' = cvs s" "curspl s' = curspl s"
    "ready s' = ready s @ take 1 (q_list (lk_queue lk))"
    "asleep s' = filter (\<lambda>u. u \<notin> set (take 1 (q_list (lk_queue lk)))) (asleep s)"
proof (cases "q_list (lk_queue lk)")
  case Nil
  let ?s = "s\<lparr>status_IEc := False, curspl := SPL_HIGH\<rparr>"
  let ?s' = "snd (splx (curspl s) (?s\<lparr>locks := (locks s)(lock \<mapsto> lk\<lparr>lk_owner := None, lk_queue := lk_queue lk\<rparr>)\<rparr>))"
  have inv: "q_inv (lk_queue lk)" using s lk by (simp add: sync_ok_def sync_def locks_ok_def)
  with Nil lk have "lock_release True lock s = Some ?s'"
    by (simp add: lock_release_def lock_do_i_hold_def splx_simps Let_def q_empty_iff)
  moreover have "ready ?s' = ready s" "asleep ?s' = asleep s" "curspl ?s' = curspl s"
    by (simp_all add: view_defs splx_def interrupts_on_def interrupts_off_def Let_def)
  ultimately show thesis using Nil inv by (intro that [of ?s' "lk_queue lk"]) simp_all
next
  case (Cons t ts)
  have lo: "q_inv (lk_queue lk)" "t \<in> set (asleep s)" "sleep_addr s t = ThreadP t"
    using s lk(1) Cons by (auto simp: sync_ok_def sync_def locks_ok_def)
  from q_remhead_Cons [OF lo(1) Cons] obtain q where q: "q_remhead (lk_queue lk) = Some (t, q)" "q_inv q" "q_list q = ts"
    "q_size q = q_size (lk_queue lk)" by auto
  have "\<not> q_empty (lk_queue lk)" using lo(1) Cons by (simp add: q_empty_iff)
  let ?s = "s\<lparr>status_IEc := False, curspl := SPL_HIGH, locks := (locks s)(lock \<mapsto> lk\<lparr>lk_owner := None, lk_queue := q\<rparr>)\<rparr>"
  have core': "threads_core ?s" using core by simp
  have v: "asleep ?s = asleep s" "ready ?s = ready s" "sleep_addr ?s = sleep_addr s" by (rule view_cong; simp)+
  from thread_wakeup_returns [OF core'] obtain s1 where w: "thread_wakeup True (ThreadP t) ?s = Some s1" by auto
  have "lists_ok ?s" using core' by (simp add: threads_core_def)
  from this w obtain rq a where e: "s1 = ?s\<lparr>runqueue := Some rq, sleepers := Some a\<rparr>"
    "ready s1 = ready ?s @ filter (\<lambda>u. sleep_addr ?s u = ThreadP t) (asleep ?s)"
    "asleep s1 = filter (\<lambda>u. sleep_addr ?s u \<noteq> ThreadP t) (asleep ?s)"
    by (rule thread_wakeup_eff)
  from e(2,3) have l: "ready s1 = ready s @ [t]" "asleep s1 = filter (\<lambda>u. u \<noteq> t) (asleep s)"
    unfolding v only_sleeper [OF core s lo(2,3)] by simp_all
  have "lock_release True lock s = Some (snd (splx (curspl s) s1))"
    using lk q(1) w \<open>\<not> q_empty (lk_queue lk)\<close> by (simp add: lock_release_def lock_do_i_hold_def splx_simps Let_def)
  moreover have "ready (snd (splx (curspl s) s1)) = ready s1" "asleep (snd (splx (curspl s) s1)) = asleep s1"
    "curspl (snd (splx (curspl s) s1)) = curspl s"
    by (simp_all add: view_defs splx_def interrupts_on_def interrupts_off_def Let_def)
  ultimately show thesis using Cons q(2-4) e(1) l by (intro that [of "snd (splx (curspl s) s1)" q]) simp_all
qed

lemma cv_wake_returns:
  assumes core: "threads_core s" and s: "sync_ok s" and spl: "curspl s > 0" and c: "cvs s cv = Some c"
    and l: "q_list (cv_queue c) = t # ts"
  obtains q s1 where "q_remhead (cv_queue c) = Some (t, q)" "q_list q = ts" "\<not> q_empty (cv_queue c)"
    "thread_wakeup True (ThreadP t) (s\<lparr>cvs := (cvs s)(cv \<mapsto> c\<lparr>cv_queue := q\<rparr>)\<rparr>) = Some s1"
    "ready s1 = ready s @ [t]" "asleep s1 = filter (\<lambda>u. u \<noteq> t) (asleep s)" "sync_ok s1" "threads_core s1"
    "curspl s1 = curspl s" "cvs s1 = (cvs s)(cv \<mapsto> c\<lparr>cv_queue := q\<rparr>)" "locks s1 = locks s" "curthread s1 = curthread s"
proof -
  have lo: "q_inv (cv_queue c)" "t \<in> set (asleep s)" "sleep_addr s t = ThreadP t"
    using s c l by (auto simp: sync_ok_def sync_def cvs_ok_def)
  from q_remhead_Cons [OF lo(1) l] obtain q where q: "q_remhead (cv_queue c) = Some (t, q)" "q_list q = ts" by auto
  have ne: "\<not> q_empty (cv_queue c)" using lo(1) l by (simp add: q_empty_iff)
  let ?s = "s\<lparr>cvs := (cvs s)(cv \<mapsto> c\<lparr>cv_queue := q\<rparr>)\<rparr>"
  have core': "threads_core ?s" using core by simp
  have v: "asleep ?s = asleep s" "ready ?s = ready s" "sleep_addr ?s = sleep_addr s" by (rule view_cong; simp)+
  from thread_wakeup_returns [OF core'] spl obtain s1 where w: "thread_wakeup True (ThreadP t) ?s = Some s1" by auto
  have "lists_ok ?s" using core' by (simp add: threads_core_def)
  from this w obtain rq a where e: "s1 = ?s\<lparr>runqueue := Some rq, sleepers := Some a\<rparr>"
    "ready s1 = ready ?s @ filter (\<lambda>u. sleep_addr ?s u = ThreadP t) (asleep ?s)"
    "asleep s1 = filter (\<lambda>u. sleep_addr ?s u \<noteq> ThreadP t) (asleep ?s)"
    by (rule thread_wakeup_eff)
  from e(2,3) have r: "ready s1 = ready s @ [t]" "asleep s1 = filter (\<lambda>u. u \<noteq> t) (asleep s)"
    unfolding v only_sleeper [OF core s lo(2,3)] by simp_all
  from cv_wake_sync [OF core s c ne q(1) w] have k: "sync_ok s1" "threads_core s1" by auto
  show thesis by (rule that [OF q ne w r k]) (simp_all add: e(1))
qed

lemma broadcast_returns:
  "threads_core s \<Longrightarrow> sync_ok s \<Longrightarrow> curspl s > 0 \<Longrightarrow> cvs s cv = Some c \<Longrightarrow>
   \<exists>s' q. broadcast_loop True cv s = Some s' \<and> ready s' = ready s @ q_list (cv_queue c) \<and>
     asleep s' = filter (\<lambda>u. u \<notin> set (q_list (cv_queue c))) (asleep s) \<and>
     cvs s' = (cvs s)(cv \<mapsto> c\<lparr>cv_queue := q\<rparr>) \<and> q_list q = [] \<and>
     threads_core s' \<and> locks s' = locks s \<and> curthread s' = curthread s \<and> curspl s' = curspl s"
proof (induction "q_list (cv_queue c)" arbitrary: s c)
  case Nil
  then have "q_inv (cv_queue c)" by (auto simp: sync_ok_def sync_def cvs_ok_def)
  then have "broadcast_loop True cv s = Some s" using Nil by (simp add: broadcast_loop.simps [of True cv s] q_empty_iff)
  with Nil(1) [symmetric] Nil(2,5) show ?case by (intro exI [of _ s] exI [of _ "cv_queue c"]) (auto simp: fun_upd_idem)
next
  case (Cons t ts)
  note l = Cons.hyps(2) [symmetric]
  from Cons.prems l obtain q s1 where w: "q_remhead (cv_queue c) = Some (t, q)" "q_list q = ts" "\<not> q_empty (cv_queue c)"
    "thread_wakeup True (ThreadP t) (s\<lparr>cvs := (cvs s)(cv \<mapsto> c\<lparr>cv_queue := q\<rparr>)\<rparr>) = Some s1"
    "ready s1 = ready s @ [t]" "asleep s1 = filter (\<lambda>u. u \<noteq> t) (asleep s)" "sync_ok s1" "threads_core s1"
    "curspl s1 = curspl s" "cvs s1 = (cvs s)(cv \<mapsto> c\<lparr>cv_queue := q\<rparr>)" "locks s1 = locks s" "curthread s1 = curthread s"
    by (rule cv_wake_returns)
  from Cons.hyps(1) [of "c\<lparr>cv_queue := q\<rparr>" s1] w(2,7-12) Cons.prems(3) obtain s' q' where
    i: "broadcast_loop True cv s1 = Some s'" "ready s' = ready s1 @ ts" "asleep s' = filter (\<lambda>u. u \<notin> set ts) (asleep s1)"
    "cvs s' = (cvs s)(cv \<mapsto> c\<lparr>cv_queue := q'\<rparr>)" "q_list q' = []" "threads_core s'" "locks s' = locks s" "curthread s' = curthread s" "curspl s' = curspl s" by auto
  have "broadcast_loop True cv s = Some s'"
    using Cons.prems(4) w(1,3,4) i(1) by (simp add: broadcast_loop.simps [of True cv s])
  moreover have "ready s' = ready s @ t # ts" using i(2) w(5) by simp
  moreover have "asleep s' = filter (\<lambda>u. u \<notin> set (t # ts)) (asleep s)" using i(3) w(6) by (simp add: conj_commute)
  ultimately show ?case using i(4-9) unfolding l by blast
qed

lemma lock_acquire_free:
  assumes core: "threads_core s" and c: "curthread s = Some c" and l: "locks s lock = Some lk" "lk_owner lk = None"
  shows "\<exists>s'. lock_acquire qmem mem lock k s = Some s' \<and> locks s' = (locks s)(lock \<mapsto> lk\<lparr>lk_owner := Some c\<rparr>) \<and>
    curthread s' = Some c \<and> ready s' = ready s \<and> asleep s' = asleep s \<and> cvs s' = cvs s \<and> frames s' = F_splx (curspl s) # k"
proof -
  let ?s = "s\<lparr>status_IEc := False, curspl := SPL_HIGH, locks := (locks s)(lock \<mapsto> lk\<lparr>lk_owner := Some c\<rparr>)\<rparr>"
  have "threads_core ?s" using core by simp
  note g = go_views [OF this, of c]
  have v: "asleep ?s = asleep s" "ready ?s = ready s" by (rule view_cong; simp)+
  have "lock_acquire qmem mem lock k s = Some (go (F_splx (curspl s) # k) ?s)"
    using c l by (simp add: lock_acquire_def lock_loop_def splx_simps Let_def)
  with g c v show ?thesis by (auto simp: frames_fr)
qed

end
