(* ===== verification/Kern_Threads.thy ===== *)
theory Kern_Threads
  imports Kern_Thread_Props
begin

text \<open>
  The properties of the thread system and of the synchronization primitives. Each speaks of a state the
  machine reaches from the boot.
\<close>

section \<open>Example states\<close>

definition boot_mem :: tmem where
  \<comment> \<open>a machine with memory to spare\<close>
  "boot_mem = \<lparr>m_thread = Some 5, m_name = True, m_stack = 0x80010000, m_sleepers = True, m_zombies = True, m_runqueue = True,
     m_list = True, m_obj = Some 7, m_queue = True\<rparr>"

definition run_mem :: "nat \<Rightarrow> tmem" where
  "run_mem x = boot_mem\<lparr>m_thread := Some 6, m_obj := Some x\<rparr>"

lemmas run_defs = boot_threads_def scheduler_bootstrap_def thread_bootstrap_def thread_create_def array_create_def
  q_create_def kmalloc_words_def kern_start_def md_initpcb0_def spl0_def splx_def interrupts_on_def interrupts_off_def Let_def

definition boot_state :: ksys where
  "boot_state = kern_start\<lparr>curthread := Some 5, sleepers := Some \<lparr>arr_num = 0, arr_max = 0, arr_v = None\<rparr>,
     zombies := Some \<lparr>arr_num = 0, arr_max = 0, arr_v = None\<rparr>, numthreads := 1,
     runqueue := Some \<lparr>q_size = 32, nextwrite = 0, nextread = 0, q_data = replicate 32 None\<rparr>,
     curspl := 0, status_IEc := True,
     threads := [5 \<mapsto> \<lparr>t_pcb = \<lparr>pcb_kstack = 0, pcb_ininterrupt = 0, pcb_frames = []\<rparr>, t_name = ''<boot/menu>'',
       t_sleepaddr = NullP, t_stack = 0, t_stackmem = [], t_vmspace = 0, t_cwd = 0, t_pid = None\<rparr>]\<rparr>"

lemma boot_state: "boot_threads boot_mem = Some boot_state"
  by (simp add: boot_state_def boot_mem_def run_defs)

lemma fits_same:
  assumes "fits s" "dom (threads s') = dom (threads s)" "runqueue s' = runqueue s" "zombies s' = zombies s"
    "\<forall>a. sleepers s' = Some a \<longrightarrow> arr_max a < 2 ^ 27"
    "\<forall>l lk. locks s' l = Some lk \<longrightarrow> q_size (lk_queue lk) < 2 ^ 27" "\<forall>v c. cvs s' v = Some c \<longrightarrow> q_size (cv_queue c) < 2 ^ 27"
  shows "fits s'"
  using assms unfolding fits_def by auto

lemma boot_fits: "fits boot_state"
  using boot_threads_ok [OF boot_state] by (simp add: threads_ok_def)

definition sem_state :: ksys where
  "sem_state = boot_state\<lparr>sems := [7 \<mapsto> \<lparr>sem_name = ''s'', sem_count = 0\<rparr>]\<rparr>"

lemma sem_step: "kstep True (A_call (K_sem_create ''s'' 0)) boot_state sem_state"
proof (rule kstep.call [where mem = "run_mem 7"])
  show "fits sem_state" by (rule fits_same [OF boot_fits]) (simp_all add: sem_state_def boot_state_def kern_start_def)
qed (simp_all add: boot_state_def run_mem_def boot_mem_def sem_state_def kern_start_def frames_def fresh_mem_def sem_create_def)

lemma first_add:
  "array_add True \<lparr>arr_num = 0, arr_max = 0, arr_v = None\<rparr> (5 :: nat) =
   Some (Inr (), \<lparr>arr_num = 1, arr_max = 2, arr_v = Some [Some 5, None]\<rparr>)"
  by (simp add: array_add_def array_setsize_def array_preallocate_def grow_max.simps [of 1 0] grow_max.simps [of 1 2]
      swrap32_def kmalloc_words_def wr_def numeral_2_eq_2)

lemma P_step: "\<exists>s. kstep True (A_call (K_P 7)) sem_state s \<and> asleep s = [5]"
proof -
  have "\<exists>s. kcall True (run_mem 8) (K_P 7) sem_state = Some s \<and> asleep s = [5] \<and> dom (threads s) = dom (threads sem_state) \<and>
    runqueue s = runqueue boot_state \<and> zombies s = zombies boot_state \<and> (\<exists>a. sleepers s = Some a \<and> arr_max a = 2) \<and> locks s = locks boot_state \<and> cvs s = cvs boot_state"
    by (simp add: sem_state_def boot_state_def kern_start_def run_mem_def boot_mem_def P_def P_loop_def thread_sleep_def mi_switch_def
      splx_def splhigh_def interrupts_off_def Let_def upd_thread_def set_frames_def check_stack_def first_add asleep_def array_elems_def array_list_def array_cells_def)
  then obtain s where s: "kcall True (run_mem 8) (K_P 7) sem_state = Some s" "asleep s = [5]" "dom (threads s) = dom (threads boot_state)"
    "runqueue s = runqueue boot_state" "zombies s = zombies boot_state" "\<exists>a. sleepers s = Some a \<and> arr_max a = 2" "locks s = locks boot_state" "cvs s = cvs boot_state" 
    by (auto simp: sem_state_def)
  have "fits s" by (rule fits_same [OF boot_fits s(3-5)]) (use s(6-8) in \<open>auto simp: boot_state_def kern_start_def\<close>)
  with s(1) have "kstep True (A_call (K_P 7)) sem_state s"
    by (rule kstep.call [where mem = "run_mem 8", rotated 3]) (simp_all add: sem_state_def boot_state_def kern_start_def frames_def fresh_mem_def run_mem_def boot_mem_def)
  with s(2) show ?thesis by blast
qed

definition lock_state :: ksys where
  "lock_state = boot_state\<lparr>locks := [7 \<mapsto> \<lparr>lk_name = ''l'', lk_owner = None,
     lk_queue = \<lparr>q_size = 10, nextwrite = 0, nextread = 0, q_data = replicate 10 None\<rparr>\<rparr>]\<rparr>"

lemma lock_step: "kstep True (A_call (K_lock_create ''l'')) boot_state lock_state"
proof (rule kstep.call [where mem = "run_mem 7"])
  show "fits lock_state" by (rule fits_same [OF boot_fits]) (simp_all add: lock_state_def boot_state_def kern_start_def)
qed (simp_all add: boot_state_def run_mem_def boot_mem_def lock_state_def kern_start_def frames_def fresh_mem_def lock_create_def
    q_create_def kmalloc_words_def)

definition cv_state :: ksys where
  "cv_state = lock_state\<lparr>cvs := [8 \<mapsto> \<lparr>cv_name = ''c'',
     cv_queue = \<lparr>q_size = 10, nextwrite = 0, nextread = 0, q_data = replicate 10 None\<rparr>\<rparr>]\<rparr>"

lemma cv_step: "kstep True (A_call (K_cv_create ''c'')) lock_state cv_state"
proof (rule kstep.call [where mem = "run_mem 8"])
  show "fits cv_state" by (rule fits_same [OF boot_fits]) (simp_all add: cv_state_def lock_state_def boot_state_def kern_start_def)
qed (simp_all add: boot_state_def run_mem_def boot_mem_def cv_state_def lock_state_def kern_start_def frames_def fresh_mem_def cv_create_def
    q_create_def kmalloc_words_def)

definition held_state :: ksys where
  \<comment> \<open>the boot thread holds the lock and is back in its body\<close>
  "held_state = cv_state\<lparr>locks := [7 \<mapsto> \<lparr>lk_name = ''l'', lk_owner = Some 5,
     lk_queue = \<lparr>q_size = 10, nextwrite = 0, nextread = 0, q_data = replicate 10 None\<rparr>\<rparr>]\<rparr>"

definition acquired_state :: ksys where
  "acquired_state = go [F_splx 0] (held_state\<lparr>status_IEc := False, curspl := SPL_HIGH\<rparr>)"

lemmas state_defs = acquired_state_def held_state_def cv_state_def lock_state_def boot_state_def kern_start_def

lemma acquire_step: "kstep True (A_call (K_acquire 7)) cv_state acquired_state"
proof (rule kstep.call [where mem = "run_mem 9"])
  show "fits acquired_state" by (rule fits_same [OF boot_fits]) (simp_all add: state_defs go_def set_frames_def upd_thread_def)
qed (simp_all add: run_mem_def boot_mem_def state_defs frames_def fresh_mem_def go_def set_frames_def upd_thread_def
    lock_acquire_def lock_loop_def splx_def interrupts_off_def splhigh_def Let_def)

lemma acquired_step: "kstep True A_frame acquired_state held_state"
proof (rule kstep.frame [where mem = True])
  show "fits held_state" by (rule fits_same [OF boot_fits]) (simp_all add: state_defs)
  show "frames acquired_state = [F_splx 0]" by (simp add: state_defs go_def set_frames_def upd_thread_def frames_def)
  show "exec_frame True True (F_splx 0) [] acquired_state = Some held_state"
    by (simp add: state_defs go_def set_frames_def upd_thread_def splx_def interrupts_on_def Let_def)
qed

lemma held_path: "kpath True [A_call (K_lock_create ''l''), A_call (K_cv_create ''c''), A_call (K_acquire 7), A_frame] boot_state held_state"
  using lock_step cv_step acquire_step acquired_step by (blast intro: kpath.intros)

lemma first_alloc:
  "array_preallocate True \<lparr>arr_num = 0, arr_max = 0, arr_v = None\<rparr> 2 =
   Some (Inr (), \<lparr>arr_num = 0, arr_max = 2, arr_v = Some [None, None :: nat option]\<rparr>)"
  by (simp add: array_preallocate_def grow_max.simps [of 2 0] grow_max.simps [of 2 2]
      swrap32_def kmalloc_words_def numeral_2_eq_2)

abbreviation (input) empty_ring :: "nat queue" where
  "empty_ring \<equiv> \<lparr>q_size = 32, nextwrite = 0, nextread = 0, q_data = replicate 32 None\<rparr>"

lemma empty_ring: "q_inv empty_ring" "q_list empty_ring = []"
  using q_create_ok [of 32] by (auto simp: q_create_def kmalloc_words_def)

lemma fork_step:
  "\<exists>s q. kstep True (A_call (K_fork ''t'')) boot_state s \<and> ready s = [6] \<and> curthread s = Some 5 \<and> frames s = [] \<and>
    runqueue s = Some q \<and> q_size q = 32 \<and> sems s = (\<lambda>_. None) \<and> locks s = (\<lambda>_. None) \<and> cvs s = (\<lambda>_. None)"
proof -
  from q_addtail_room [OF empty_ring(1), of True 6] empty_ring obtain q where
    q: "q_addtail True empty_ring 6 = Some (Inr (), q)" "q_inv q" "q_list q = [6]" "q_size q = 32"
    by (auto simp: q_room_def q_count_def)
  have pre: "q_preallocate True empty_ring 2 = Some (Inr (), empty_ring)" by (simp add: q_preallocate_def)
  have "\<exists>s. kcall True (run_mem 7) (K_fork ''t'') boot_state = Some s \<and> runqueue s = Some q \<and> dom (threads s) = {5, 6} \<and>
    (\<exists>a. sleepers s = Some a \<and> arr_max a = 2) \<and> (\<exists>a. zombies s = Some a \<and> arr_max a = 2) \<and> locks s = locks boot_state \<and> cvs s = cvs boot_state \<and>
    sems s = sems boot_state \<and> curthread s = Some 5 \<and> frames s = []"
    using q(1) pre by (auto simp: boot_state_def kern_start_def run_mem_def boot_mem_def thread_fork_def thread_create_def fork_thread_def
      splx_def splhigh_def interrupts_off_def interrupts_on_def Let_def first_alloc scheduler_preallocate_def make_runnable_def frames_def)
  then obtain s where s: "kcall True (run_mem 7) (K_fork ''t'') boot_state = Some s" "runqueue s = Some q" "dom (threads s) = {5, 6}"
    "\<exists>a. sleepers s = Some a \<and> arr_max a = 2" "\<exists>a. zombies s = Some a \<and> arr_max a = 2" "locks s = locks boot_state" "cvs s = cvs boot_state"
    "sems s = sems boot_state" "curthread s = Some 5" "frames s = []"
    by blast
  have "fits s" unfolding fits_def using s q(4) by (auto simp: boot_state_def kern_start_def)
  with s(1) have "kstep True (A_call (K_fork ''t'')) boot_state s"
    by (rule kstep.call [where mem = "run_mem 7", rotated 3])
      (simp_all add: boot_state_def kern_start_def frames_def fresh_mem_def run_mem_def boot_mem_def)
  with s(2,6-10) q(3,4) show ?thesis by (auto simp: ready_def boot_state_def kern_start_def)
qed

lemma yield_enabled:
  assumes ok: "threads_ok s" and c: "curthread s = Some c" "frames s = []" and q: "runqueue s = Some q" "q_size q < 2 ^ 26"
    and m: "fresh_mem mem s" "m_list mem"
  shows "\<exists>s'. kstep qmem (A_call K_yield) s s' \<and> curthread s' = None \<and> idle_frames s' = []"
proof -
  from ok have core: "threads_core s" and fits: "fits s" and spl: "spl_ok s" by (simp_all add: threads_ok_def)
  from core c(1) obtain th where th: "threads s c = Some th" by (rule core_running)
  have st: "check_stack th = Some ()" using core th by (auto simp: threads_core_def stacks_ok_def check_stack_def)
  have inv: "q_inv q" "sleepers s \<noteq> None" using core q(1) by (auto simp: threads_core_def lists_ok_def split: option.splits)
  from q_addtail_ok [OF inv(1), of True c] q(2) obtain q' where q': "q_addtail True q c = Some (Inr (), q')" by auto
  have "q_size q' \<le> 2 * q_size q" using q_addtail_cases [OF inv(1) _ q'] q(2) inv(1) by (auto simp: q_inv_def)
  then have size: "q_size q' < 2 ^ 27" using q(2) by simp
  let ?s = "s\<lparr>curspl := SPL_HIGH, status_IEc := False, threads := (threads s)(c \<mapsto> th\<lparr>t_pcb := (t_pcb th)\<lparr>pcb_frames := [F_switch, F_splx (curspl s)]\<rparr>\<rparr>),
     curthread := None, runqueue := Some q', switching := Some c\<rparr>"
  have "kcall qmem mem K_yield s = Some ?s"
    using c th st inv q' q(1) m(2)
    by (simp add: thread_yield_def mi_switch_def make_runnable_def splx_simps set_frames_def upd_thread_def Let_def)
  moreover have "insert c (dom (threads s)) = dom (threads s)" using th by auto
  then have "fits ?s" using fits size by (auto simp: fits_def)
  moreover have "idle_frames s = []" using spl c(1) by (simp add: spl_ok_def)
  ultimately show ?thesis using c m(1) by (intro exI [of _ ?s]) (auto intro: kstep.call)
qed

lemma switch_path:
  "\<exists>s1 s2 s3. kpath True [A_call (K_fork ''t'')] boot_state s1 \<and> ready s1 = [6] \<and> kstep True (A_call K_yield) s1 s2 \<and>
    curthread s2 = None \<and> idle_frames s2 = [] \<and> ready s2 = [6] @ drop 1 (ready s2) \<and> kstep True A_dispatch s2 s3"
proof -
  from fork_step obtain s1 q where s1: "kstep True (A_call (K_fork ''t'')) boot_state s1" "ready s1 = [6]" "curthread s1 = Some 5" "frames s1 = []"
    "runqueue s1 = Some q" "q_size q = 32" "sems s1 = (\<lambda>_. None)" "locks s1 = (\<lambda>_. None)" "cvs s1 = (\<lambda>_. None)" by blast
  have ok1: "threads_ok s1" using kstep_threads_ok [OF _ s1(1)] boot_threads_ok [OF boot_state] by blast
  have "fresh_mem ((run_mem 7)\<lparr>m_thread := None\<rparr>) s1" using s1 by (simp add: fresh_mem_def run_mem_def)
  from yield_enabled [OF ok1 s1(3-5) _ this] s1(6) obtain s2 where s2: "kstep True (A_call K_yield) s1 s2" "curthread s2 = None" "idle_frames s2 = []"
    by (auto simp: run_mem_def boot_mem_def)
  have ok2: "threads_ok s2" by (rule kstep_threads_ok [OF ok1 s2(1)])
  from kstep_order(1) [OF ok1 s2(1)] s1(2) have r: "ready s2 = [6] @ drop 1 (ready s2)" by auto
  then have "ready s2 \<noteq> []" by auto
  from dispatch_enabled [OF ok2 s2(2,3) this] obtain s3 where s3: "kstep True A_dispatch s2 s3" by blast
  have "kpath True [A_call (K_fork ''t'')] boot_state s1" using s1(1) by (blast intro: kpath.intros)
  with s1(2) s2 r s3 show ?thesis by blast
qed

section \<open>Signalling a condition variable\<close>

lemma held_release:
  \<comment> \<open>the owner of a lock, at its call of \<open>cv_signal\<close> or \<open>cv_broadcast\<close>, after the lock is released\<close>
  assumes ok: "threads_ok s" and s: "sync_ok s" and c: "curthread s = Some c" "frames s = []"
    and lk: "locks s lock = Some lk" "lk_owner lk = Some c"
  obtains s1 q where "lock_release True lock (s\<lparr>status_IEc := False, curspl := SPL_HIGH\<rparr>) = Some s1"
    "locks s1 = (locks s)(lock \<mapsto> lk\<lparr>lk_owner := None, lk_queue := q\<rparr>)" "q_list q = drop 1 (q_list (lk_queue lk))"
    "cvs s1 = cvs s" "curspl s1 = SPL_HIGH" "ready s1 = ready s @ take 1 (q_list (lk_queue lk))"
    "asleep s1 = filter (\<lambda>u. u \<notin> set (take 1 (q_list (lk_queue lk)))) (asleep s)"
    "threads_core s1" "sync_ok s1" "curthread s1 = Some c" "curspl s = 0"
proof -
  let ?s = "s\<lparr>status_IEc := False, curspl := SPL_HIGH\<rparr>"
  from threads_ok_cases(1) [OF ok c(2)] c(1) have b: "in_body s" by simp
  then have spl: "curspl s = 0" and core: "threads_core ?s" by (simp_all add: in_body_def)
  have s': "sync_ok ?s" using s by simp
  have v: "asleep ?s = asleep s" "ready ?s = ready s" by (rule view_cong; simp)+
  have pre: "curspl ?s > 0" "locks ?s lock = Some lk" "lk_owner lk = curthread ?s" using lk c(1) by simp_all
  from core s' pre obtain s1 q where r: "lock_release True lock ?s = Some s1"
    "locks s1 = (locks ?s)(lock \<mapsto> lk\<lparr>lk_owner := None, lk_queue := q\<rparr>)" "q_list q = drop 1 (q_list (lk_queue lk))"
    "cvs s1 = cvs ?s" "curspl s1 = curspl ?s" "ready s1 = ready ?s @ take 1 (q_list (lk_queue lk))"
    "asleep s1 = filter (\<lambda>u. u \<notin> set (take 1 (q_list (lk_queue lk)))) (asleep ?s)"
    by (rule lock_release_returns)
  from lock_release_sync [OF core s' _ r(1)] c(1) have "sync_ok s1" "threads_core s1" "curthread s1 = Some c" by auto
  then show thesis by (intro that [of s1 q]) (use r spl v in simp_all)
qed

lemma signal_calls:
  assumes "locks s lock = Some lk" "lk_owner lk = Some c" "curthread s = Some c"
  shows "cv_signal qmem mem cv lock k s =
      lock_release mem lock (s\<lparr>status_IEc := False, curspl := SPL_HIGH\<rparr>) \<bind> (\<lambda>s1. cvs s1 cv \<bind> (\<lambda>v.
        (if \<not> q_empty (cv_queue v)
         then q_remhead (cv_queue v) \<bind> (\<lambda>(t, q). thread_wakeup mem (ThreadP t) (s1\<lparr>cvs := (cvs s1)(cv \<mapsto> v\<lparr>cv_queue := q\<rparr>)\<rparr>))
         else Some s1) \<bind> lock_acquire qmem mem lock (F_splx (curspl s) # k)))"
    "cv_broadcast qmem mem cv lock k s =
      lock_release mem lock (s\<lparr>status_IEc := False, curspl := SPL_HIGH\<rparr>) \<bind> (\<lambda>s1. broadcast_loop mem cv s1 \<bind>
        lock_acquire qmem mem lock (F_splx (curspl s) # k))"
  using assms by (simp_all add: cv_signal_def cv_broadcast_def lock_do_i_hold_def splx_simps Let_def)

section \<open>Properties\<close>



text \<open>
  C2. Mutual exclusion. A lock that a thread owns keeps its owner at every step of the machine, whatever the
  other threads and the devices do, until that thread itself calls \<open>lock_release\<close> or \<open>cv_wait\<close> on it; and a
  thread becomes the owner only while it runs and only of a lock no thread owned. In particular \<open>cv_signal\<close>
  and \<open>cv_broadcast\<close>, which release and take the lock, do not let it go.
\<close>

theorem lock_owner_stable:
  assumes "boot_threads mem = Some s0" "kpath qmem as s0 s" "kstep qmem a s s'"
  shows "(own s l = Some t \<longrightarrow> own s' l = Some t \<or>
      curthread s = Some t \<and> (a = A_call (K_release l) \<or> (\<exists>v. a = A_call (K_wait v l)))) \<and>
    (own s' l = Some t \<longrightarrow> own s l = Some t \<or> own s l = None \<and> curthread s = Some t)"
proof -
  have ok: "threads_ok s" using kpath_threads_ok [OF assms(2)] boot_threads_ok [OF assms(1)] by blast
  show ?thesis
  proof (cases "a = A_dispatch")
    case True
    with kstep_dispatch [OF ok] assms(3) have "locks s' = locks s" by blast
    then show ?thesis by (simp add: own_def)
  next
    case False
    note o = kstep_order(2,3) [OF ok assms(3) False]
    have rel: "l \<in> released a \<Longrightarrow> a = A_call (K_release l) \<or> (\<exists>v. a = A_call (K_wait v l))"
      by (cases a rule: released.cases) auto
    have "own s l = None" if "own s' l = Some t" "own s l \<noteq> Some t"
    proof (cases "own s l")
      case (Some u)
      from o(1) [OF this] that Some have "curthread s = Some u" by auto
      with o(2) [OF that(1)] that(2) Some show ?thesis by simp
    qed
    with o rel show ?thesis by blast
  qed
qed

theorem lock_owner_stable_witness:
  "\<exists>s'. kstep True A_frame acquired_state s' \<and> own acquired_state 7 = Some 5 \<and> own s' 7 = Some 5"
proof -
  have "kpath True [A_call (K_lock_create ''l''), A_call (K_cv_create ''c''), A_call (K_acquire 7)] boot_state acquired_state"
    using lock_step cv_step acquire_step by (blast intro: kpath.intros)
  from lock_owner_stable [OF boot_state this acquired_step, of 7 5] acquired_step
  show ?thesis by (auto simp: own_def state_defs)
qed

text \<open>
  C4. No wakeup is lost. As long as the wait queues can grow, a thread that sleeps has a reason to: it waits
  for the clock; or in \<open>P\<close> on a semaphore whose count is 0; or it is in the queue of a lock that is owned or
  that a runnable thread is about to take; or it is in the queue of one condition variable. In the last
  three cases it sleeps on the address the next \<open>V\<close>, \<open>lock_release\<close> or \<open>cv_signal\<close> wakes.
\<close>

theorem no_lost_wakeup:
  assumes "boot_threads mem = Some s0" "kpath True as s0 s" "t \<in> set (asleep s)"
  shows "sleep_addr s t = LboltP \<or>
    (\<exists>x sm k. sleep_addr s t = SemP x \<and> sems s x = Some sm \<and> sem_count sm = 0 \<and> fr s t = F_switch # F_wake # F_P x # k) \<or>
    sleep_addr s t = ThreadP t \<and>
      ((\<exists>l lk. locks s l = Some lk \<and> t \<in> set (q_list (lk_queue lk)) \<and>
         (lk_owner lk \<noteq> None \<or> (\<exists>u \<in> set (running s @ ready s). \<exists>k. resume (fr s u) = F_lock_loop l # k))) \<or>
       (\<exists>!v. \<exists>c. cvs s v = Some c \<and> t \<in> set (q_list (cv_queue c))))"
proof -
  have "threads_ok s0 \<and> sync_ok s0" by (rule boot_threads_ok [OF assms(1)])
  with kpath_sync_ok [OF assms(2)] have s: "sync_ok s" by blast
  then consider "sleep_addr s t = LboltP" | x where "sleep_addr s t = SemP x" "sem_waiter (fr s) (sems s) t x"
    | "sleep_addr s t = ThreadP t" "lock_waiter (fr s) (locks s) t" | "sleep_addr s t = ThreadP t" "cv_waiter (cvs s) t"
    using assms(3) unfolding sync_ok_def sync_def asleep_ok_def by blast
  then show ?thesis
  proof cases
    case 3
    then obtain l lk where l: "locks s l = Some lk" "t \<in> set (q_list (lk_queue lk))" by (auto simp: lock_waiter_def)
    with s have "lk_owner lk = None \<longrightarrow> contends (set (running s @ ready s)) (fr s) l"
      unfolding sync_ok_def sync_def locks_ok_def by (metis empty_iff empty_set)
    with 3(1) l show ?thesis unfolding contends_def by blast
  next
    case 4
    then obtain v c where v: "cvs s v = Some c" "t \<in> set (q_list (cv_queue c))" by (auto simp: cv_waiter_def)
    have "v' = v" if "cvs s v' = Some c'" "t \<in> set (q_list (cv_queue c'))" for v' c'
      using s v that unfolding sync_ok_def sync_def cvs_ok_def by (metis disjoint_iff)
    with v have "\<exists>!v. \<exists>c. cvs s v = Some c \<and> t \<in> set (q_list (cv_queue c))" by blast
    with 4(1) show ?thesis by blast
  qed (auto simp: sem_waiter_def)
qed

theorem no_lost_wakeup_witness:
  "\<exists>s. kpath True [A_call (K_sem_create ''s'' 0), A_call (K_P 7)] boot_state s \<and> 5 \<in> set (asleep s) \<and>
    (sleep_addr s 5 = LboltP \<or>
     (\<exists>x sm k. sleep_addr s 5 = SemP x \<and> sems s x = Some sm \<and> sem_count sm = 0 \<and> fr s 5 = F_switch # F_wake # F_P x # k) \<or>
     sleep_addr s 5 = ThreadP 5 \<and>
      ((\<exists>l lk. locks s l = Some lk \<and> 5 \<in> set (q_list (lk_queue lk)) \<and>
         (lk_owner lk \<noteq> None \<or> (\<exists>u \<in> set (running s @ ready s). \<exists>k. resume (fr s u) = F_lock_loop l # k))) \<or>
       (\<exists>!v. \<exists>c. cvs s v = Some c \<and> 5 \<in> set (q_list (cv_queue c)))))"
proof -
  from P_step obtain s where s: "kstep True (A_call (K_P 7)) sem_state s" "asleep s = [5]" by blast
  then have p: "kpath True [A_call (K_sem_create ''s'' 0), A_call (K_P 7)] boot_state s"
    using sem_step by (blast intro: kpath.intros)
  from s(2) have "5 \<in> set (asleep s)" by simp
  from no_lost_wakeup [OF boot_state p this] p this show ?thesis by blast
qed

text \<open>
  C10. The scheduler is a round robin. A thread with \<open>n\<close> threads before it in the run queue gets the processor
  at the \<open>n + 1\<close>st context switch from now at the latest, whatever the threads do and however many others
  become runnable in between.
\<close>

theorem round_robin:
  assumes "boot_threads mem = Some s0" "kpath qmem as0 s0 s" "ready s = xs @ t # ys"
    "kpath qmem as s s'" "length xs < count_list as A_dispatch"
  shows "\<exists>as1 as2 s1. as = as1 @ as2 \<and> kpath qmem as1 s s1 \<and> kpath qmem as2 s1 s' \<and> curthread s1 = Some t \<and>
    count_list as1 A_dispatch = length xs + 1"
  using round_robin_path [OF assms(4) _ assms(3,5)] kpath_threads_ok [OF assms(2)] boot_threads_ok [OF assms(1)] by blast

theorem round_robin_witness:
  "\<exists>s s' s1. ready s = [] @ 6 # [] \<and> kpath True [A_call K_yield, A_dispatch] s s' \<and> curthread s1 = Some 6 \<and>
    (\<exists>as1 as2. [A_call K_yield, A_dispatch] = as1 @ as2 \<and> kpath True as1 s s1 \<and> kpath True as2 s1 s')"
proof -
  from switch_path obtain s s2 s' where p: "kpath True [A_call (K_fork ''t'')] boot_state s" "ready s = [6]"
    "kstep True (A_call K_yield) s s2" "kstep True A_dispatch s2 s'" by blast
  then have k: "kpath True [A_call K_yield, A_dispatch] s s'" by (blast intro: kpath.intros)
  from p(2) have r: "ready s = [] @ 6 # []" by simp
  from round_robin [OF boot_state p(1) r k] r k show ?thesis by fastforce
qed

text \<open>
  C19. The processor is never idle while a thread can run: when the scheduler is entered with a thread in the
  run queue it switches to a thread, and it cannot wait for an interrupt instead.
\<close>

theorem scheduler_work_conserving:
  assumes "boot_threads mem = Some s0" "kpath qmem as s0 s" "curthread s = None" "idle_frames s = []" "ready s \<noteq> []"
  shows "(\<exists>s'. kstep qmem A_dispatch s s') \<and> (\<forall>a s'. kstep qmem a s s' \<longrightarrow> a = A_dispatch \<and> curthread s' = Some (hd (ready s)))"
proof -
  have ok: "threads_ok s" using kpath_threads_ok [OF assms(2)] boot_threads_ok [OF assms(1)] by blast
  from ok obtain q where q: "runqueue s = Some q" "q_inv q" "ready s = q_list q"
    unfolding threads_ok_def threads_core_def by (blast elim: lists_okE)
  have off: "\<not> status_IEc s" using ok assms(3) by (simp add: threads_ok_def spl_ok_def)
  have "a = A_dispatch" if "kstep qmem a s s'" for a s'
    using that by (cases rule: kstep.cases) (use off assms(3-5) q in \<open>auto simp: frames_def cpu_idle_def q_empty_iff split: if_splits\<close>)
  moreover have "curthread s' = Some (hd (ready s))" if "kstep qmem A_dispatch s s'" for s'
    using kstep_dispatch [OF ok that] by auto
  ultimately show ?thesis using dispatch_enabled [OF ok assms(3-5)] by blast
qed

theorem scheduler_work_conserving_witness:
  "\<exists>s. curthread s = None \<and> idle_frames s = [] \<and> ready s \<noteq> [] \<and> (\<exists>s'. kstep True A_dispatch s s') \<and>
    (\<forall>a s'. kstep True a s s' \<longrightarrow> a = A_dispatch \<and> curthread s' = Some (hd (ready s)))"
proof -
  from switch_path obtain s1 s where p: "kpath True [A_call (K_fork ''t'')] boot_state s1" "kstep True (A_call K_yield) s1 s"
    "curthread s = None" "idle_frames s = []" "ready s = [6] @ drop 1 (ready s)" by blast
  from p(1) have f: "kstep True (A_call (K_fork ''t'')) boot_state s1" by (auto elim: kpath.cases)
  have k: "kpath True [A_call (K_fork ''t''), A_call K_yield] boot_state s" using f p(2) by (blast intro: kpath.intros)
  from p(5) have "ready s \<noteq> []" by auto
  from scheduler_work_conserving [OF boot_state k p(3,4) this] p(3,4) this show ?thesis by blast
qed

text \<open>
  C21. Semaphore counts never leave the range of a C \<open>int\<close> and never become negative: \<open>P\<close> only counts down
  from a positive count, and \<open>V\<close> stops rather than let the count wrap around.
\<close>

theorem semaphore_counts:
  assumes "boot_threads mem = Some s0" "kpath qmem as s0 s" "\<forall>a \<in> set as. counted a" "sems s x = Some sm"
  shows "0 \<le> sem_count sm \<and> sem_count sm < 2 ^ 31"
proof -
  have "counts_ok s0" using assms(1) by (rule boot_eff) (simp add: counts_ok_def)
  with kpath_counts [OF assms(2)] boot_threads_ok [OF assms(1)] assms(3) have "counts_ok s" by blast
  with assms(4) show ?thesis by (auto simp: counts_ok_def)
qed

theorem semaphore_counts_witness:
  "kpath True [A_call (K_sem_create ''s'' 0)] boot_state sem_state \<and> (\<exists>sm. sems sem_state 7 = Some sm \<and> 0 \<le> sem_count sm \<and> sem_count sm < 2 ^ 31)"
proof -
  have k: "kpath True [A_call (K_sem_create ''s'' 0)] boot_state sem_state" using sem_step by (blast intro: kpath.intros)
  with semaphore_counts [OF boot_state k, of 7] show ?thesis by (simp add: sem_state_def)
qed

text \<open>
  C15. \<open>cv_signal\<close>, called by the owner of the lock, returns to it as the owner and wakes the thread that has
  waited longest on the condition variable, and no other waiter; the queue of the condition variable loses
  that thread. It also wakes the first thread in the queue of the lock, because it releases the lock on the
  way; that thread finds the lock taken again.
\<close>

theorem cv_signal_spec:
  assumes "boot_threads mem = Some s0" "kpath True as s0 s" "curthread s = Some c" "frames s = []"
    "locks s lock = Some lk" "lk_owner lk = Some c" "cvs s cv = Some v"
  shows "\<exists>s' q. cv_signal True True cv lock [] s = Some s' \<and> curthread s' = Some c \<and> own s' lock = Some c \<and> frames s' = [F_splx SPL_HIGH, F_splx 0] \<and>
    ready s' = ready s @ take 1 (q_list (lk_queue lk)) @ take 1 (q_list (cv_queue v)) \<and>
    asleep s' = filter (\<lambda>u. u \<notin> set (take 1 (q_list (lk_queue lk)) @ take 1 (q_list (cv_queue v)))) (asleep s) \<and>
    cvs s' = (cvs s)(cv \<mapsto> v\<lparr>cv_queue := q\<rparr>) \<and> q_list q = drop 1 (q_list (cv_queue v))"
proof -
  have ok: "threads_ok s" and sy: "sync_ok s"
    using boot_threads_ok [OF assms(1)] kpath_threads_ok [OF assms(2)] kpath_sync_ok [OF assms(2)] by blast+
  from ok sy assms(3-6) obtain s1 q1 where r: "lock_release True lock (s\<lparr>status_IEc := False, curspl := SPL_HIGH\<rparr>) = Some s1"
    "locks s1 = (locks s)(lock \<mapsto> lk\<lparr>lk_owner := None, lk_queue := q1\<rparr>)" "q_list q1 = drop 1 (q_list (lk_queue lk))"
    "cvs s1 = cvs s" "curspl s1 = SPL_HIGH" "ready s1 = ready s @ take 1 (q_list (lk_queue lk))"
    "asleep s1 = filter (\<lambda>u. u \<notin> set (take 1 (q_list (lk_queue lk)))) (asleep s)"
    "threads_core s1" "sync_ok s1" "curthread s1 = Some c" "curspl s = 0"
    by (rule held_release)
  have "\<exists>s2 q. (if \<not> q_empty (cv_queue v)
       then q_remhead (cv_queue v) \<bind> (\<lambda>(t, q). thread_wakeup True (ThreadP t) (s1\<lparr>cvs := (cvs s1)(cv \<mapsto> v\<lparr>cv_queue := q\<rparr>)\<rparr>))
       else Some s1) = Some s2 \<and> threads_core s2 \<and> curthread s2 = Some c \<and> locks s2 = locks s1 \<and> curspl s2 = SPL_HIGH \<and>
     ready s2 = ready s1 @ take 1 (q_list (cv_queue v)) \<and> asleep s2 = filter (\<lambda>u. u \<notin> set (take 1 (q_list (cv_queue v)))) (asleep s1) \<and>
     cvs s2 = (cvs s)(cv \<mapsto> v\<lparr>cv_queue := q\<rparr>) \<and> q_list q = drop 1 (q_list (cv_queue v))"
  proof (cases "q_list (cv_queue v)")
    case Nil
    moreover have "q_inv (cv_queue v)" using sy assms(7) by (auto simp: sync_ok_def sync_def cvs_ok_def)
    ultimately show ?thesis using r assms(7) by (intro exI [of _ s1] exI [of _ "cv_queue v"]) (auto simp: q_empty_iff fun_upd_idem)
  next
    case (Cons t ts)
    have "cvs s1 cv = Some v" "curspl s1 > 0" using r(4,5) assms(7) by simp_all
    with Cons r(8,9) obtain q s2 where "q_remhead (cv_queue v) = Some (t, q)" "q_list q = ts" "\<not> q_empty (cv_queue v)"
      "thread_wakeup True (ThreadP t) (s1\<lparr>cvs := (cvs s1)(cv \<mapsto> v\<lparr>cv_queue := q\<rparr>)\<rparr>) = Some s2"
      "ready s2 = ready s1 @ [t]" "asleep s2 = filter (\<lambda>u. u \<noteq> t) (asleep s1)" "threads_core s2"
      "curspl s2 = curspl s1" "cvs s2 = (cvs s1)(cv \<mapsto> v\<lparr>cv_queue := q\<rparr>)" "locks s2 = locks s1" "curthread s2 = curthread s1"
      using cv_wake_returns by metis
    with Cons r(4,5,10) show ?thesis by (intro exI [of _ s2] exI [of _ q]) auto
  qed
  then obtain s2 q where w: "(if \<not> q_empty (cv_queue v)
       then q_remhead (cv_queue v) \<bind> (\<lambda>(t, q). thread_wakeup True (ThreadP t) (s1\<lparr>cvs := (cvs s1)(cv \<mapsto> v\<lparr>cv_queue := q\<rparr>)\<rparr>))
       else Some s1) = Some s2" "threads_core s2" "curthread s2 = Some c" "locks s2 = locks s1" "curspl s2 = SPL_HIGH"
     "ready s2 = ready s1 @ take 1 (q_list (cv_queue v))" "asleep s2 = filter (\<lambda>u. u \<notin> set (take 1 (q_list (cv_queue v)))) (asleep s1)"
     "cvs s2 = (cvs s)(cv \<mapsto> v\<lparr>cv_queue := q\<rparr>)" "q_list q = drop 1 (q_list (cv_queue v))" by blast
  from lock_acquire_free [OF w(2,3), of lock "lk\<lparr>lk_owner := None, lk_queue := q1\<rparr>" True True "[F_splx 0]"] w(4) r(2)
  obtain s' where a: "lock_acquire True True lock [F_splx 0] s2 = Some s'" "own s' lock = Some c" "curthread s' = Some c"
    "ready s' = ready s2" "asleep s' = asleep s2" "cvs s' = cvs s2" "frames s' = [F_splx SPL_HIGH, F_splx 0]"
    using w(5) by (auto simp: own_def)
  have "cv_signal True True cv lock [] s = Some s'"
    using signal_calls(1) [OF assms(5,6,3)] r(1,4,11) assms(7) w(1) a(1) by simp
  moreover have "asleep s' = filter (\<lambda>u. u \<notin> set (take 1 (q_list (lk_queue lk)) @ take 1 (q_list (cv_queue v)))) (asleep s)"
    using a(5) w(7) r(7) by (simp add: conj_commute)
  ultimately show ?thesis using a w(6,8,9) r(6) by auto
qed

theorem cv_signal_spec_witness:
  "\<exists>s' q. cv_signal True True 8 7 [] held_state = Some s' \<and> own s' 7 = Some 5 \<and> ready s' = ready held_state \<and> q_list q = [] \<and>
    cvs s' = (cvs held_state)(8 \<mapsto> (the (cvs held_state 8))\<lparr>cv_queue := q\<rparr>)"
proof -
  let ?q = "\<lparr>q_size = 10, nextwrite = 0, nextread = 0, q_data = replicate 10 None\<rparr> :: nat queue"
  have l: "q_list ?q = []" by (simp add: q_list_def q_count_def)
  have h: "curthread held_state = Some 5" "frames held_state = []"
    "locks held_state 7 = Some \<lparr>lk_name = ''l'', lk_owner = Some 5, lk_queue = ?q\<rparr>"
    "cvs held_state 8 = Some \<lparr>cv_name = ''c'', cv_queue = ?q\<rparr>"
    by (simp_all add: state_defs frames_def)
  from cv_signal_spec [OF boot_state held_path h(1,2,3) _ h(4)] l h(4) show ?thesis by auto
qed



section \<open>What the code does not handle\<close>

theorem lock_acquire_unqueued_sleeper:
  \<comment> \<open>\<open>lock_acquire\<close> drops the error of \<open>q_addtail\<close>: out of memory the thread sleeps on its own address in no queue\<close>
  assumes core: "threads_core s" and c: "curthread s = Some c" and i: "in_interrupt s = 0" "curspl s > 0"
    and lk: "locks s lock = Some lk" "lk_owner lk = Some d" "d \<noteq> c"
    and q: "q_inv (lk_queue lk)" "q_size (lk_queue lk) < 2 ^ 29" "int (q_count (lk_queue lk)) = q_room (lk_queue lk)"
    and a: "lock_acquire False True lock k s = Some s'"
  shows "c \<in> set (asleep s') \<and> sleep_addr s' c = ThreadP c \<and> locks s' = locks s"
proof -
  let ?s = "s\<lparr>status_IEc := False, curspl := SPL_HIGH\<rparr>"
  from q_addtail_nomem [OF q] have "q_addtail False (lk_queue lk) c = Some (Inl ENOMEM, lk_queue lk)" .
  moreover have "(locks s)(lock \<mapsto> lk\<lparr>lk_queue := lk_queue lk\<rparr>) = locks s" using lk(1) by (simp add: fun_upd_idem)
  ultimately have sl: "thread_sleep True (ThreadP c) (F_lock_loop lock # F_splx (curspl s) # k) (?s\<lparr>locks := locks s\<rparr>) = Some s'"
    using a lk c by (simp add: lock_acquire_def lock_loop_def splx_simps Let_def)
  have "threads_core (?s\<lparr>locks := locks s\<rparr>)" "curthread (?s\<lparr>locks := locks s\<rparr>) = Some c" using core c by simp_all
  note v = thread_sleep_views(1,5,6) [OF this sl]
  show ?thesis unfolding v by simp
qed

theorem exorcise_loses_reservation:
  \<comment> \<open>\<open>exorcise\<close> frees an array of more than 16 entries, and with it the space \<open>thread_fork\<close> reserved\<close>
  assumes "lists_ok s" "zombies s = Some z" "arr_max z > 16" "exorcise s = Some s'"
  shows "\<exists>z'. zombies s' = Some z' \<and> arr_max z' = 0 \<and> array_add False z' t = Some (Inl ENOMEM, z')"
proof -
  have "array_full z" using assms(1,2) by (simp add: lists_ok_def split: option.splits)
  then have z: "arr_v z \<noteq> None" "0 \<le> arr_num z" "arr_num z \<le> arr_max z" using assms(3) by (auto simp: array_full_def array_inv_def split: option.splits)
  then have "array_setsize True z 0 = Some (Inr (), z\<lparr>arr_v := None, arr_max := 0, arr_num := 0\<rparr>)"
    using assms(3) by (simp add: array_setsize_def)
  with assms(2,4) have "zombies s' = Some (z\<lparr>arr_v := None, arr_max := 0, arr_num := 0\<rparr>)"
    by (auto simp: exorcise_def bind_Some split: if_splits)
  moreover have "array_add False (z\<lparr>arr_v := None, arr_max := 0, arr_num := 0\<rparr>) t =
      Some (Inl ENOMEM, z\<lparr>arr_v := None, arr_max := 0, arr_num := 0\<rparr>)"
    by (simp add: array_add_def array_setsize_def array_preallocate_def grow_max.simps [of 1 0] grow_max.simps [of 1 2]
        swrap32_def kmalloc_words_def)
  ultimately show ?thesis by simp
qed

end
