(* ===== verification/Kern_Kheap.thy ===== *)
theory Kern_Kheap
  imports Kern_Coremap
begin

text \<open>
  The kernel heap \<open>kern/lib/kheap.c\<close>: \<open>kmalloc\<close> and \<open>kfree\<close> over the page allocator.

  A page that is cut into blocks of one size has a \<open>struct pageref\<close>; a pointer to one is its index in the
  array \<open>pagerefs\<close> (\<open>None\<close> is \<open>NULL\<close>) and the array is the function from the index to the structure. Memory is the
  function \<open>kh_mem\<close> from the address of a word to its value: the free list of a page is threaded through the first
  words of its free blocks. Each of the two allocation routines runs between \<open>splhigh\<close> and \<open>splx\<close> and is one
  step here. The consistency checks are not compiled (\<open>SLOW\<close> and \<open>SLOWER\<close> are undefined). A list walk that meets a
  cycle never ends and is \<open>None\<close>.
\<close>

unbundle bit_operations_syntax

section \<open>Data structures\<close>

definition sizes :: "nat list" where
  "sizes = [16, 32, 64, 128, 256, 512, 1024, 2048]"

abbreviation NSIZES :: nat where "NSIZES \<equiv> 8"
abbreviation LARGEST_SUBPAGE_SIZE :: nat where "LARGEST_SUBPAGE_SIZE \<equiv> 2048"
abbreviation PAGE_FRAME :: addr where "PAGE_FRAME \<equiv> 0xfffff000"
abbreviation INVALID_OFFSET :: nat where "INVALID_OFFSET \<equiv> 0xffff"
abbreviation NPAGEREFS :: nat where "NPAGEREFS \<equiv> 256"
abbreviation INUSE_WORDS :: nat where "INUSE_WORDS \<equiv> 8"

record pageref =
  next_samesize :: "nat option"
  next_all :: "nat option"
  pageaddr_and_blocktype :: addr
  freelist_offset :: nat
  nfree :: nat

definition PR_PAGEADDR :: "pageref \<Rightarrow> addr" where
  "PR_PAGEADDR pr = pageaddr_and_blocktype pr AND PAGE_FRAME"

definition PR_BLOCKTYPE :: "pageref \<Rightarrow> nat" where
  "PR_BLOCKTYPE pr = unat (pageaddr_and_blocktype pr AND NOT PAGE_FRAME)"

definition MKPAB :: "addr \<Rightarrow> nat \<Rightarrow> addr" where
  "MKPAB pa blk = (pa AND PAGE_FRAME) OR (of_nat blk AND NOT PAGE_FRAME)"

record 'as kheap =
  pagerefs :: "nat \<Rightarrow> pageref"
  pagerefs_inuse :: "32 word list"
  sizebases :: "nat \<Rightarrow> nat option"
  allbase :: "nat option"
  kh_mem :: "addr \<Rightarrow> addr"
  kh_cm :: "'as coremap"

definition fill_deadbeef :: "addr \<Rightarrow> nat \<Rightarrow> (addr \<Rightarrow> addr) \<Rightarrow> addr \<Rightarrow> addr" where
  "fill_deadbeef ptr len m = fold (\<lambda>i m. m(ptr + of_nat (4 * i) := 0xdeadbeef)) [0..<len div 4] m"

section \<open>The table of page references\<close>

definition allocpageref :: "'as kheap \<Rightarrow> (nat option \<times> 'as kheap) option" where
  "allocpageref h =
     (case find (\<lambda>i. pagerefs_inuse h ! i \<noteq> 0xffffffff) [0..<INUSE_WORDS] of
        None \<Rightarrow> Some (None, h)
      | Some i \<Rightarrow>
          (case find (\<lambda>j. pagerefs_inuse h ! i AND push_bit j 1 = 0) [0..<32] of
             None \<Rightarrow> None
           | Some j \<Rightarrow> Some (Some (i * 32 + j),
               h\<lparr>pagerefs_inuse := (pagerefs_inuse h)[i := pagerefs_inuse h ! i OR push_bit j 1]\<rparr>)))"

definition freepageref :: "nat \<Rightarrow> 'as kheap \<Rightarrow> 'as kheap option" where
  "freepageref j h = do {
     kassert (j < NPAGEREFS);
     let i = j div 32;
     let k = push_bit (j mod 32) 1;
     kassert (pagerefs_inuse h ! i AND k \<noteq> 0);
     Some (h\<lparr>pagerefs_inuse := (pagerefs_inuse h)[i := pagerefs_inuse h ! i AND NOT k]\<rparr>)
   }"

section \<open>Lists of pages\<close>

partial_function (option) find_guy :: "(nat \<Rightarrow> nat option) \<Rightarrow> nat \<Rightarrow> nat option \<Rightarrow> nat option \<Rightarrow> nat option option option" where
  \<comment> \<open>the walk of \<open>remove_lists\<close>: \<open>guy\<close> is the base of the list (\<open>None\<close>) or the link of a page, \<open>cur\<close> is \<open>*guy\<close>\<close>
  "find_guy nxt pr guy cur =
     (if cur = None then Some None
      else do {
        c \<leftarrow> cur;
        (if c = pr then Some (Some guy) else find_guy nxt pr (Some c) (nxt c))
      })"

definition remove_samesize :: "nat \<Rightarrow> nat \<Rightarrow> 'as kheap \<Rightarrow> 'as kheap option" where
  "remove_samesize pr blktype h = do {
     r \<leftarrow> find_guy (\<lambda>p. next_samesize (pagerefs h p)) pr None (sizebases h blktype);
     Some (case r of
        None \<Rightarrow> h
      | Some None \<Rightarrow> h\<lparr>sizebases := (sizebases h)(blktype := next_samesize (pagerefs h pr))\<rparr>
      | Some (Some g) \<Rightarrow> h\<lparr>pagerefs := (pagerefs h)(g := (pagerefs h g)\<lparr>next_samesize := next_samesize (pagerefs h pr)\<rparr>)\<rparr>)
   }"

definition remove_all :: "nat \<Rightarrow> 'as kheap \<Rightarrow> 'as kheap option" where
  "remove_all pr h = do {
     r \<leftarrow> find_guy (\<lambda>p. next_all (pagerefs h p)) pr None (allbase h);
     Some (case r of
        None \<Rightarrow> h
      | Some None \<Rightarrow> h\<lparr>allbase := next_all (pagerefs h pr)\<rparr>
      | Some (Some g) \<Rightarrow> h\<lparr>pagerefs := (pagerefs h)(g := (pagerefs h g)\<lparr>next_all := next_all (pagerefs h pr)\<rparr>)\<rparr>)
   }"

definition remove_lists :: "nat \<Rightarrow> nat \<Rightarrow> 'as kheap \<Rightarrow> 'as kheap option" where
  "remove_lists pr blktype h = do {
     kassert (blktype < NSIZES);
     h1 \<leftarrow> remove_samesize pr blktype h;
     remove_all pr h1
   }"

section \<open>Blocks smaller than a page\<close>

definition blocktype :: "nat \<Rightarrow> nat option" where
  "blocktype sz = find (\<lambda>i. sz \<le> sizes ! i) [0..<NSIZES]"

partial_function (option) find_page :: "(nat \<Rightarrow> pageref) \<Rightarrow> nat \<Rightarrow> nat option \<Rightarrow> nat option option" where
  \<comment> \<open>the loop of \<open>subpage_kmalloc\<close>: the first page of the size with a free block\<close>
  "find_page prs blktype pr =
     (if pr = None then Some None
      else do {
        p \<leftarrow> pr;
        kassert (PR_BLOCKTYPE (prs p) = blktype);
        (if nfree (prs p) > 0 then Some (Some p) else find_page prs blktype (next_samesize (prs p)))
      })"

definition doalloc :: "nat \<Rightarrow> 'as kheap \<Rightarrow> (addr \<times> 'as kheap) option" where
  "doalloc p h = do {
     let pr = pagerefs h p;
     kassert (freelist_offset pr < PAGE_SIZE);
     let prpage = PR_PAGEADDR pr;
     let fla = prpage + of_nat (freelist_offset pr);
     let fl = kh_mem h fla;
     let nf = nfree pr - 1;
     (if fl \<noteq> 0 then do {
        kassert (nf > 0);
        kassert (unat (fl - prpage) < PAGE_SIZE);
        Some (fla, h\<lparr>pagerefs := (pagerefs h)(p := pr\<lparr>nfree := nf, freelist_offset := unat (fl - prpage)\<rparr>)\<rparr>)
      } else do {
        kassert (nf = 0);
        Some (fla, h\<lparr>pagerefs := (pagerefs h)(p := pr\<lparr>nfree := nf, freelist_offset := INVALID_OFFSET\<rparr>)\<rparr>)
      })
   }"

definition thread_blocks :: "addr \<Rightarrow> nat \<Rightarrow> nat \<Rightarrow> (addr \<Rightarrow> addr) \<Rightarrow> addr \<Rightarrow> addr" where
  \<comment> \<open>the free list of a fresh page: each block points to the one before it\<close>
  "thread_blocks fla sz n m =
     fold (\<lambda>i m. m(fla + of_nat (i * sz) := fla + of_nat ((i - 1) * sz))) [1..<n] (m(fla := 0))"

definition fresh_page :: "nat \<Rightarrow> nat \<Rightarrow> addr \<Rightarrow> 'as kheap \<Rightarrow> 'as kheap option" where
  \<comment> \<open>\<open>subpage_kmalloc\<close> from the assignment of \<open>pageaddr_and_blocktype\<close> up to \<open>goto doalloc\<close>\<close>
  "fresh_page p blktype prpage h = do {
     let sz = sizes ! blktype;
     let n = PAGE_SIZE div sz;
     kassert (\<forall>i \<in> set [1..<n]. prpage + of_nat (i * sz) \<noteq> prpage + of_nat ((i - 1) * sz));
     let fla = prpage + of_nat ((n - 1) * sz);
     kassert (unat (fla - prpage) = (n - 1) * sz);
     Some (h\<lparr>kh_mem := thread_blocks prpage sz n (kh_mem h),
             pagerefs := (pagerefs h)(p := \<lparr>next_samesize = sizebases h blktype, next_all = allbase h,
               pageaddr_and_blocktype = MKPAB prpage blktype, freelist_offset = unat (fla - prpage), nfree = n\<rparr>),
             sizebases := (sizebases h)(blktype := Some p),
             allbase := Some p\<rparr>)
   }"

definition subpage_kmalloc :: "nat \<Rightarrow> 'as kheap \<Rightarrow> (addr option \<times> 'as kheap) option" where
  \<comment> \<open>\<open>None\<close> in the result is \<open>NULL\<close>\<close>
  "subpage_kmalloc sz h = do {
     blktype \<leftarrow> blocktype sz;
     r \<leftarrow> find_page (pagerefs h) blktype (sizebases h blktype);
     (case r of
        Some p \<Rightarrow> do { (a, h') \<leftarrow> doalloc p h; Some (Some a, h') }
      | None \<Rightarrow> do {
          (pr, h1) \<leftarrow> allocpageref h;
          (case pr of
             None \<Rightarrow> Some (None, h1)
           | Some p \<Rightarrow> do {
               (prpage, cm) \<leftarrow> alloc_kpages 1 (kh_cm h1);
               let h2 = h1\<lparr>kh_cm := cm\<rparr>;
               (if prpage = 0 then do { h3 \<leftarrow> freepageref p h2; Some (None, h3) }
                else do {
                  h3 \<leftarrow> fresh_page p blktype prpage h2;
                  (a, h4) \<leftarrow> doalloc p h3;
                  Some (Some a, h4)
                })
             })
        })
   }"

partial_function (option) find_owner :: "(nat \<Rightarrow> pageref) \<Rightarrow> addr \<Rightarrow> nat option \<Rightarrow> nat option option" where
  \<comment> \<open>the loop of \<open>subpage_kfree\<close>: the page the address is on\<close>
  "find_owner prs ptraddr pr =
     (if pr = None then Some None
      else do {
        p \<leftarrow> pr;
        kassert (PR_BLOCKTYPE (prs p) < NSIZES);
        (if PR_PAGEADDR (prs p) \<le> ptraddr \<and> ptraddr < PR_PAGEADDR (prs p) + of_nat PAGE_SIZE then Some (Some p)
         else find_owner prs ptraddr (next_all (prs p)))
      })"

definition subpage_kfree :: "addr \<Rightarrow> 'as kheap \<Rightarrow> (bool \<times> 'as kheap) option" where
  \<comment> \<open>\<open>True\<close> is the return value 0, \<open>False\<close> is -1: the address is on none of the pages\<close>
  "subpage_kfree ptraddr h = do {
     r \<leftarrow> find_owner (pagerefs h) ptraddr (allbase h);
     (case r of
        None \<Rightarrow> Some (False, h)
      | Some p \<Rightarrow> do {
          let pr = pagerefs h p;
          let prpage = PR_PAGEADDR pr;
          let blktype = PR_BLOCKTYPE pr;
          let offset = unat (ptraddr - prpage);
          kassert (\<not> (offset \<ge> PAGE_SIZE \<or> offset mod sizes ! blktype \<noteq> 0));
          let m = fill_deadbeef ptraddr (sizes ! blktype) (kh_mem h);
          let fla = prpage + of_nat offset;
          let m' = m(fla := if freelist_offset pr = INVALID_OFFSET then 0 else prpage + of_nat (freelist_offset pr));
          let nf = nfree pr + 1;
          let h1 = h\<lparr>kh_mem := m', pagerefs := (pagerefs h)(p := pr\<lparr>freelist_offset := offset, nfree := nf\<rparr>)\<rparr>;
          kassert (nf \<le> PAGE_SIZE div sizes ! blktype);
          (if nf = PAGE_SIZE div sizes ! blktype then do {
             h2 \<leftarrow> remove_lists p blktype h1;
             cm \<leftarrow> free_kpages prpage (kh_cm h2);
             h3 \<leftarrow> freepageref p (h2\<lparr>kh_cm := cm\<rparr>);
             Some (True, h3)
           }
           else Some (True, h1))
        })
   }"

section \<open>The heap\<close>

definition kmalloc :: "nat \<Rightarrow> 'as kheap \<Rightarrow> (addr option \<times> 'as kheap) option" where
  \<comment> \<open>the number of pages is computed in the 32-bit type \<open>size_t\<close>\<close>
  "kmalloc sz h =
     (if sz \<ge> LARGEST_SUBPAGE_SIZE then do {
        let npages = (sz + PAGE_SIZE - 1) mod 2 ^ 32 div PAGE_SIZE;
        (address, cm) \<leftarrow> alloc_kpages npages (kh_cm h);
        Some (if address = 0 then None else Some address, h\<lparr>kh_cm := cm\<rparr>)
      }
      else subpage_kmalloc sz h)"

definition kfree :: "addr \<Rightarrow> 'as kheap \<Rightarrow> 'as kheap option" where
  "kfree ptr h =
     (if ptr = 0 then Some h
      else do {
        (freed, h') \<leftarrow> subpage_kfree ptr h;
        (if freed then Some h'
         else do {
           kassert (unat ptr mod PAGE_SIZE = 0);
           cm \<leftarrow> free_kpages ptr (kh_cm h');
           Some (h'\<lparr>kh_cm := cm\<rparr>)
         })
      })"

end
