(* ===== verification/Kern_Kheap_Inv.thy ===== *)
theory Kern_Kheap_Inv
  imports Kern_Kheap
begin

text \<open>
  The invariant of the kernel heap and what its routines do to it.

  \<open>heap_map h\<close> is the abstract heap: the finite map from the address of every block in use, small or whole pages,
  to its size. \<open>kheap_inv\<close> says that the lists of pages contain every page reference in use once, that two
  references have different pages, that each page is one frame the page allocator handed out, and that its free list
  visits \<open>nfree\<close> different blocks of the page.
\<close>

section \<open>Linked lists\<close>

fun chain :: "('a \<Rightarrow> 'a option) \<Rightarrow> 'a option \<Rightarrow> 'a list \<Rightarrow> bool" where
  "chain nxt p [] \<longleftrightarrow> p = None"
| "chain nxt p (x # xs) \<longleftrightarrow> p = Some x \<and> chain nxt (nxt x) xs"

lemma chain_cong: "(\<And>x. x \<in> set xs \<Longrightarrow> f x = g x) \<Longrightarrow> chain f p xs \<longleftrightarrow> chain g p xs"
  by (induction xs arbitrary: p) auto

lemma chain_upd [simp]: "x \<notin> set xs \<Longrightarrow> chain (f(x := y)) p xs \<longleftrightarrow> chain f p xs"
  by (rule chain_cong) auto

lemma find_guy_chain:
  assumes "chain nxt cur xs" "distinct xs" "p \<in> set xs"
  obtains (head) ys where "xs = p # ys" "find_guy nxt p guy cur = Some (Some guy)" "chain nxt (nxt p) ys"
  | (inner) us g vs where "xs = us @ g # p # vs" "find_guy nxt p guy cur = Some (Some (Some g))"
      "chain (nxt(g := nxt p)) cur (us @ g # vs)"
  using assms
proof (induction xs arbitrary: cur guy thesis)
  case Nil
  then show ?case by simp
next
  case (Cons x xs)
  from Cons.prems(3) have x: "cur = Some x" "chain nxt (nxt x) xs" by simp_all
  show ?case
  proof (cases "x = p")
    case True
    with x Cons.prems(1) [of xs] show ?thesis by (simp add: find_guy.simps [of nxt p guy])
  next
    case False
    then have p: "p \<in> set xs" "distinct xs" "x \<notin> set xs" using Cons.prems(4,5) by auto
    have step: "find_guy nxt p guy cur = find_guy nxt p (Some x) (nxt x)"
      using x False by (simp add: find_guy.simps [of nxt p guy])
    show ?thesis
    proof (rule Cons.IH [OF _ _ x(2) p(2,1), of "Some x"])
      fix ys
      assume ys: "xs = p # ys" "find_guy nxt p (Some x) (nxt x) = Some (Some (Some x))" "chain nxt (nxt p) ys"
      have "chain (nxt(x := nxt p)) cur ([] @ x # ys)" using ys p(3) x(1) by simp
      moreover have "x # xs = [] @ x # p # ys" "find_guy nxt p guy cur = Some (Some (Some x))" using ys step by simp_all
      ultimately show ?thesis using Cons.prems(2) by blast
    next
      fix us g vs
      assume us: "xs = us @ g # p # vs" "find_guy nxt p (Some x) (nxt x) = Some (Some (Some g))"
        "chain (nxt(g := nxt p)) (nxt x) (us @ g # vs)"
      have "g \<noteq> x" using us(1) p(3) by auto
      then have "chain (nxt(g := nxt p)) cur ((x # us) @ g # vs)" using us(3) x(1) by simp
      moreover have "x # xs = (x # us) @ g # p # vs" "find_guy nxt p guy cur = Some (Some (Some g))" using us step by simp_all
      ultimately show ?thesis using Cons.prems(2) by blast
    qed
  qed
qed

lemma find_page_chain:
  assumes "chain (\<lambda>p. next_samesize (prs p)) cur xs" "\<forall>p \<in> set xs. PR_BLOCKTYPE (prs p) = t"
  shows "find_page prs t cur = Some (find (\<lambda>p. nfree (prs p) > 0) xs)"
  using assms by (induction xs arbitrary: cur) (auto simp: find_page.simps [of prs])

lemma find_owner_chain:
  assumes "chain (\<lambda>p. next_all (prs p)) cur xs" "\<forall>p \<in> set xs. PR_BLOCKTYPE (prs p) < NSIZES"
  shows "find_owner prs a cur =
    Some (find (\<lambda>p. PR_PAGEADDR (prs p) \<le> a \<and> a < PR_PAGEADDR (prs p) + of_nat PAGE_SIZE) xs)"
  using assms by (induction xs arbitrary: cur) (auto simp: find_owner.simps [of prs])

section \<open>Addresses\<close>

lemma unat_bound: "unat a < 2 ^ 32" for a :: addr
proof -
  have "unat a < 2 ^ LENGTH(32)" by (rule unsigned_less)
  then show ?thesis by simp
qed

lemma PAGE_FRAME_mask: "PAGE_FRAME = NOT (mask 12)"
  by (simp add: mask_eq_exp_minus_1)

lemma page_part: "unat (a AND PAGE_FRAME) = unat a div PAGE_SIZE * PAGE_SIZE" for a :: addr
proof -
  have "a AND NOT (mask 12) = push_bit 12 (drop_bit 12 a)" by (rule bit_eqI) (auto simp: bit_simps)
  then have "a AND PAGE_FRAME = (a div 4096) * 4096"
    unfolding PAGE_FRAME_mask by (simp add: push_bit_eq_mult drop_bit_eq_div)
  moreover have "unat a div PAGE_SIZE * PAGE_SIZE < 2 ^ 32"
    using unat_bound [of a] by (intro order_le_less_trans [OF div_times_less_eq_dividend])
  ultimately show ?thesis by (simp add: unat_word_ariths unat_div)
qed

lemma PR_PAGEADDR_aligned [simp]: "unat (PR_PAGEADDR pr) mod PAGE_SIZE = 0"
  by (simp add: PR_PAGEADDR_def page_part)

lemma page_aligned: "unat a mod PAGE_SIZE = 0 \<Longrightarrow> a AND PAGE_FRAME = a" for a :: addr
  using div_mult_mod_eq [of "unat a" PAGE_SIZE] by (simp add: word_unat_eq_iff page_part)

lemma MKPAB_parts:
  assumes "pageaddr_and_blocktype pr = MKPAB a t" "unat a mod PAGE_SIZE = 0" "t < PAGE_SIZE"
  shows "PR_PAGEADDR pr = a" "PR_BLOCKTYPE pr = t"
proof -
  have parts: "((x AND w) OR (y AND NOT w)) AND w = x AND w" "((x AND w) OR (y AND NOT w)) AND NOT w = y AND NOT w"
    for x y w :: addr by (rule bit_eqI; auto simp: bit_simps)+
  show "PR_PAGEADDR pr = a"
    unfolding PR_PAGEADDR_def assms(1) MKPAB_def parts(1) by (rule page_aligned [OF assms(2)])
  have "unat (of_nat t AND NOT PAGE_FRAME :: addr) = t"
    using assms(3) unfolding PAGE_FRAME_mask
    by (simp add: take_bit_eq_mask [symmetric] take_bit_eq_mod unat_mod unat_of_nat)
  then show "PR_BLOCKTYPE pr = t" unfolding PR_BLOCKTYPE_def assms(1) MKPAB_def parts(2) .
qed

lemma page_offset:
  fixes a :: addr
  assumes "unat a mod PAGE_SIZE = 0" "k < PAGE_SIZE"
  shows "unat (a + of_nat k) = unat a + k"
proof -
  define q where "q = unat a div PAGE_SIZE"
  have q: "unat a = q * PAGE_SIZE" using assms(1) div_mult_mod_eq [of "unat a" PAGE_SIZE] by (simp add: q_def)
  with unat_bound [of a] have "q < 2 ^ 20" by simp
  with q assms(2) have "unat a + k < 2 ^ 32" by simp
  with assms(2) show ?thesis by (simp add: unat_word_ariths unat_of_nat)
qed

section \<open>Blocks of page frames\<close>

definition bytes :: "addr \<Rightarrow> nat \<Rightarrow> nat set" where
  "bytes a n = {unat a..<unat a + n}"

lemma km_block_bounds:
  assumes "coremap_inv c" "km_block c a = Some n"
  shows "0 < n" "unat a = 2 ^ 31 + PAGE_SIZE * frame_no (a - MIPS_KSEG0)" "frame_no (a - MIPS_KSEG0) + n \<le> coremap_size c"
    "page_count (cm_pages c ! frame_no (a - MIPS_KSEG0)) = n"
proof -
  note I = coremap_invD [OF assms(1)]
  let ?p = "a - MIPS_KSEG0"
  let ?f = "frame_no ?p"
  from assms(2) have p: "unat ?p mod PAGE_SIZE = 0" "?f < coremap_size c" "page_count (cm_pages c ! ?f) = n" "0 < n"
    using I(2) by (auto simp: km_block_def cm_block_def split: if_splits)
  show "0 < n" "page_count (cm_pages c ! ?f) = n" by fact+
  show "?f + n \<le> coremap_size c" using I(8) [OF p(2)] p(3) I(2) by (simp add: block_ok_def)
  have u: "unat ?p = PAGE_SIZE * ?f" using div_mult_mod_eq [of "unat ?p" PAGE_SIZE] p(1) by (simp add: unat_div)
  have "unat ?p < 2 ^ 31" using u p(2) I(3) by simp
  moreover have "unat (p + MIPS_KSEG0) = unat p + 2 ^ 31" if "unat p < 2 ^ 31" for p :: addr using that by (simp add: unat_word_ariths)
  ultimately have "unat (?p + MIPS_KSEG0) = unat ?p + 2 ^ 31" by blast
  with u show "unat a = 2 ^ 31 + PAGE_SIZE * ?f" by (simp only: diff_add_cancel)
qed

lemma km_blocks_disjoint:
  assumes "coremap_inv c" "km_block c a = Some n" "km_block c b = Some m" "a \<noteq> b"
  shows "bytes a (n * PAGE_SIZE) \<inter> bytes b (m * PAGE_SIZE) = {}"
proof -
  note A = km_block_bounds [OF assms(1,2)] and B = km_block_bounds [OF assms(1,3)]
  have outside: "\<not> (frame_no (x - MIPS_KSEG0) < frame_no (y - MIPS_KSEG0) \<and> frame_no (y - MIPS_KSEG0) < frame_no (x - MIPS_KSEG0) + k)"
    if "km_block c x = Some k" "km_block c y = Some l" for x y k l
  proof
    let ?x = "frame_no (x - MIPS_KSEG0)" and ?y = "frame_no (y - MIPS_KSEG0)"
    assume y: "?x < ?y \<and> ?y < ?x + k"
    note X = km_block_bounds [OF assms(1) that(1)] and Y = km_block_bounds [OF assms(1) that(2)]
    have "block_ok (cm_pages c) ?x k" using coremap_invD(8) [OF assms(1), of ?x] X by auto
    then have "page_count (cm_pages c ! (?x + (?y - ?x))) = 0" using y by (auto simp: block_ok_def dest!: spec [of _ "?y - ?x"])
    with y Y show False by simp
  qed
  have ne: "frame_no (a - MIPS_KSEG0) \<noteq> frame_no (b - MIPS_KSEG0)"
    using A(2) B(2) assms(4) by (auto simp: word_unat_eq_iff)
  define fa fb where "fa = frame_no (a - MIPS_KSEG0)" and "fb = frame_no (b - MIPS_KSEG0)"
  have "fa + n \<le> fb \<or> fb + m \<le> fa"
    using outside [OF assms(2,3)] outside [OF assms(3,2)] ne unfolding fa_def fb_def by linarith
  then have "(fa + n) * PAGE_SIZE \<le> fb * PAGE_SIZE \<or> (fb + m) * PAGE_SIZE \<le> fa * PAGE_SIZE" by (meson mult_le_mono1)
  then show ?thesis using A(2) B(2) unfolding bytes_def fa_def fb_def by (auto simp: algebra_simps)
qed

lemma alloc_kpages_size: "coremap_inv c \<Longrightarrow> alloc_kpages n c = Some (a, c') \<Longrightarrow> coremap_size c' = coremap_size c"
proof -
  assume inv: "coremap_inv c" and a: "alloc_kpages n c = Some (a, c')"
  then have "0 < n" by (cases n) (auto simp: alloc_kpages_def coremap_getpages_def)
  with inv show ?thesis using a by (cases rule: coremap_getpages_cases) (auto simp: alloc_kpages_def bind_Some)
qed

lemma free_kpages_size: "free_kpages a c = Some c' \<Longrightarrow> coremap_size c' = coremap_size c"
  by (auto simp: free_kpages_def coremap_freepages_def bind_Some Let_def split: if_splits)

section \<open>The blocks of a page\<close>

definition bsize :: "pageref \<Rightarrow> nat" where
  "bsize pr = sizes ! PR_BLOCKTYPE pr"

definition bcount :: "pageref \<Rightarrow> nat" where
  "bcount pr = PAGE_SIZE div bsize pr"

definition blk :: "pageref \<Rightarrow> nat \<Rightarrow> addr" where
  "blk pr i = PR_PAGEADDR pr + of_nat (i * bsize pr)"

fun links :: "(addr \<Rightarrow> addr) \<Rightarrow> pageref \<Rightarrow> nat list \<Rightarrow> bool" where
  "links m pr [] \<longleftrightarrow> True"
| "links m pr [i] \<longleftrightarrow> m (blk pr i) = 0"
| "links m pr (i # j # fs) \<longleftrightarrow> m (blk pr i) = blk pr j \<and> links m pr (j # fs)"

definition head_offset :: "pageref \<Rightarrow> nat list \<Rightarrow> nat" where
  "head_offset pr fs = (case fs of [] \<Rightarrow> INVALID_OFFSET | i # _ \<Rightarrow> i * bsize pr)"

definition page_free :: "(addr \<Rightarrow> addr) \<Rightarrow> pageref \<Rightarrow> nat list \<Rightarrow> bool" where
  \<comment> \<open>the free list of the page runs through the blocks \<open>fs\<close>\<close>
  "page_free m pr fs \<longleftrightarrow> distinct fs \<and> set fs \<subseteq> {..<bcount pr} \<and> length fs = nfree pr \<and>
     freelist_offset pr = head_offset pr fs \<and> links m pr fs"

fun walk_free :: "(addr \<Rightarrow> addr) \<Rightarrow> pageref \<Rightarrow> nat \<Rightarrow> nat \<Rightarrow> nat list" where
  "walk_free m pr 0 off = []"
| "walk_free m pr (Suc n) off =
     off div bsize pr # walk_free m pr n (unat (m (PR_PAGEADDR pr + of_nat off) - PR_PAGEADDR pr))"

definition free_blocks :: "(addr \<Rightarrow> addr) \<Rightarrow> pageref \<Rightarrow> nat list" where
  "free_blocks m pr = walk_free m pr (nfree pr) (freelist_offset pr)"

lemma sizes_dvd:
  assumes "t < NSIZES"
  shows "16 \<le> sizes ! t \<and> sizes ! t dvd PAGE_SIZE \<and> sizes ! t \<le> 2048 \<and> sizes ! t mod 4 = 0"
proof -
  have "t = 0 \<or> t = 1 \<or> t = 2 \<or> t = 3 \<or> t = 4 \<or> t = 5 \<or> t = 6 \<or> t = 7" using assms by linarith
  then show ?thesis by (elim disjE) (simp_all add: sizes_def)
qed

lemma bsize_facts:
  assumes "PR_BLOCKTYPE pr < NSIZES"
  shows "0 < bsize pr" "bcount pr * bsize pr = PAGE_SIZE" "2 \<le> bcount pr" "bsize pr mod 4 = 0"
proof -
  from sizes_dvd [OF assms] have b: "16 \<le> bsize pr" "bsize pr dvd PAGE_SIZE" "bsize pr \<le> 2048" "bsize pr mod 4 = 0"
    by (auto simp: bsize_def)
  show "0 < bsize pr" "bsize pr mod 4 = 0" using b by simp_all
  show c: "bcount pr * bsize pr = PAGE_SIZE" using b(2) by (simp add: bcount_def)
  show "2 \<le> bcount pr"
  proof (rule ccontr)
    assume "\<not> 2 \<le> bcount pr"
    then have "bcount pr * bsize pr \<le> 1 * 2048" using b(3) by (intro mult_le_mono) simp_all
    with c show False by simp
  qed
qed

lemma block_end: "PR_BLOCKTYPE pr < NSIZES \<Longrightarrow> i < bcount pr \<Longrightarrow> i * bsize pr + bsize pr \<le> PAGE_SIZE"
  using bsize_facts [of pr] mult_le_mono1 [of "Suc i" "bcount pr" "bsize pr"] by simp

lemma unat_blk:
  assumes "PR_BLOCKTYPE pr < NSIZES" "i < bcount pr"
  shows "unat (blk pr i) = unat (PR_PAGEADDR pr) + i * bsize pr"
  unfolding blk_def using block_end [OF assms] bsize_facts(1) [OF assms(1)] by (intro page_offset) simp_all

lemma pr_update [simp]:
  "PR_PAGEADDR (pr\<lparr>nfree := n\<rparr>) = PR_PAGEADDR pr" "PR_PAGEADDR (pr\<lparr>freelist_offset := k\<rparr>) = PR_PAGEADDR pr"
  "PR_PAGEADDR (pr\<lparr>next_samesize := p\<rparr>) = PR_PAGEADDR pr" "PR_PAGEADDR (pr\<lparr>next_all := p\<rparr>) = PR_PAGEADDR pr"
  "PR_BLOCKTYPE (pr\<lparr>nfree := n\<rparr>) = PR_BLOCKTYPE pr" "PR_BLOCKTYPE (pr\<lparr>freelist_offset := k\<rparr>) = PR_BLOCKTYPE pr"
  "PR_BLOCKTYPE (pr\<lparr>next_samesize := p\<rparr>) = PR_BLOCKTYPE pr" "PR_BLOCKTYPE (pr\<lparr>next_all := p\<rparr>) = PR_BLOCKTYPE pr"
  by (simp_all add: PR_PAGEADDR_def PR_BLOCKTYPE_def)

lemma same_pab:
  assumes "pageaddr_and_blocktype pr' = pageaddr_and_blocktype pr"
  shows "PR_PAGEADDR pr' = PR_PAGEADDR pr" "PR_BLOCKTYPE pr' = PR_BLOCKTYPE pr" "bsize pr' = bsize pr" "bcount pr' = bcount pr"
    "blk pr' = blk pr" "head_offset pr' = head_offset pr"
  using assms by (simp_all add: PR_PAGEADDR_def PR_BLOCKTYPE_def bsize_def bcount_def blk_def head_offset_def fun_eq_iff split: list.split)

lemma links_same_pab: "pageaddr_and_blocktype pr' = pageaddr_and_blocktype pr \<Longrightarrow> links m pr' fs \<longleftrightarrow> links m pr fs"
proof -
  assume "pageaddr_and_blocktype pr' = pageaddr_and_blocktype pr"
  then have "blk pr' = blk pr" by (rule same_pab)
  then show ?thesis by (induction m pr fs rule: links.induct) simp_all
qed

lemma links_cong: "(\<And>i. i \<in> set fs \<Longrightarrow> m' (blk pr i) = m (blk pr i)) \<Longrightarrow> links m' pr fs \<longleftrightarrow> links m pr fs"
  by (induction m pr fs rule: links.induct) simp_all

lemma links_Cons: "links m pr (i # fs) \<longleftrightarrow> m (blk pr i) = (if fs = [] then 0 else blk pr (hd fs)) \<and> links m pr fs"
  by (cases fs) simp_all

lemma page_free_cong:
  "(\<And>i. i \<in> set fs \<Longrightarrow> m' (blk pr i) = m (blk pr i)) \<Longrightarrow> page_free m pr fs \<Longrightarrow> page_free m' pr fs"
  using links_cong [of fs m' pr m] by (simp add: page_free_def)

lemma page_free_transfer:
  assumes "pageaddr_and_blocktype pr' = pageaddr_and_blocktype pr"
  shows "page_free m pr' fs \<longleftrightarrow> distinct fs \<and> set fs \<subseteq> {..<bcount pr} \<and> length fs = nfree pr' \<and>
    freelist_offset pr' = head_offset pr fs \<and> links m pr fs"
  by (simp only: page_free_def same_pab [OF assms] links_same_pab [OF assms])

lemma page_free_pop:
  assumes "page_free m pr (i # fs)"
  shows "page_free m (pr\<lparr>nfree := length fs, freelist_offset := head_offset pr fs\<rparr>) fs"
proof -
  let ?pr = "pr\<lparr>nfree := length fs, freelist_offset := head_offset pr fs\<rparr>"
  have same: "pageaddr_and_blocktype ?pr = pageaddr_and_blocktype pr" by simp
  from assms show ?thesis unfolding page_free_transfer [OF same] by (simp add: page_free_def links_Cons)
qed

lemma page_free_push:
  assumes "page_free m pr fs" "i \<notin> set fs" "i < bcount pr" "\<And>j. j \<in> set fs \<Longrightarrow> m' (blk pr j) = m (blk pr j)"
    "m' (blk pr i) = (if fs = [] then 0 else blk pr (hd fs))"
  shows "page_free m' (pr\<lparr>freelist_offset := i * bsize pr, nfree := nfree pr + 1\<rparr>) (i # fs)"
proof -
  let ?pr = "pr\<lparr>freelist_offset := i * bsize pr, nfree := nfree pr + 1\<rparr>"
  have same: "pageaddr_and_blocktype ?pr = pageaddr_and_blocktype pr" by simp
  from assms links_cong [of fs m' pr m] show ?thesis unfolding page_free_transfer [OF same]
    by (simp add: page_free_def links_Cons head_offset_def)
qed

lemma blk_offset:
  assumes "PR_BLOCKTYPE pr < NSIZES" "i < bcount pr"
  shows "unat (blk pr i - PR_PAGEADDR pr) = i * bsize pr" "i * bsize pr < PAGE_SIZE"
  using block_end [OF assms] bsize_facts(1) [OF assms(1)] by (simp_all add: blk_def unat_of_nat del: of_nat_mult)

lemma page_free_unique:
  assumes t: "PR_BLOCKTYPE pr < NSIZES" and free: "page_free m pr fs"
  shows "free_blocks m pr = fs"
proof -
  have walk: "walk_free m pr (length fs) (head_offset pr fs) = fs" if "links m pr fs" "set fs \<subseteq> {..<bcount pr}"
    using that
  proof (induction fs)
    case Nil
    then show ?case by simp
  next
    case (Cons i fs)
    have "walk_free m pr (length fs) (unat (m (blk pr i) - PR_PAGEADDR pr)) = fs"
      using Cons blk_offset(1) [OF t] by (cases fs) (auto simp: head_offset_def)
    then show ?case using bsize_facts(1) [OF t] by (simp add: head_offset_def blk_def)
  qed
  from free have f: "links m pr fs" "set fs \<subseteq> {..<bcount pr}" "length fs = nfree pr" "freelist_offset pr = head_offset pr fs"
    unfolding page_free_def by blast+
  from walk [OF f(1,2)] show ?thesis unfolding free_blocks_def f(3) f(4) .
qed

lemma blk_inj:
  assumes "PR_BLOCKTYPE pr < NSIZES" "i < bcount pr" "j < bcount pr" "blk pr i = blk pr j"
  shows "i = j"
proof -
  have "i * bsize pr = j * bsize pr"
    by (rule add_left_imp_eq [OF trans [OF unat_blk [OF assms(1,2), unfolded assms(4), symmetric] unat_blk [OF assms(1,3)]]])
  with bsize_facts(1) [OF assms(1)] show ?thesis by simp
qed

lemma doalloc_pop:
  assumes t: "PR_BLOCKTYPE pr < NSIZES" and nz: "PR_PAGEADDR pr \<noteq> 0" and free: "page_free (kh_mem h) pr (i # fs)" and pr: "pagerefs h p = pr"
  shows "doalloc p h = Some (blk pr i, h\<lparr>pagerefs := (pagerefs h)(p := pr\<lparr>nfree := length fs, freelist_offset := head_offset pr fs\<rparr>)\<rparr>)"
proof -
  from free have f: "freelist_offset pr = i * bsize pr" "i < bcount pr" "nfree pr = Suc (length fs)"
    "set fs \<subseteq> {..<bcount pr}" "kh_mem h (blk pr i) = (if fs = [] then 0 else blk pr (hd fs))"
    by (auto simp: page_free_def head_offset_def links_Cons)
  have nz': "blk pr j \<noteq> 0" if "j < bcount pr" for j
    using unat_blk [OF t that] nz by (metis add_is_0 unsigned_0 unsigned_word_eqI)
  have off: "freelist_offset pr < PAGE_SIZE" using blk_offset(2) [OF t f(2)] f(1) by simp
  have at: "PR_PAGEADDR pr + of_nat (freelist_offset pr) = blk pr i" by (simp add: f(1) blk_def)
  show ?thesis
  proof (cases fs)
    case Nil
    then show ?thesis using f off unfolding doalloc_def pr Let_def at by (simp add: head_offset_def)
  next
    case (Cons j gs)
    then have j: "j < bcount pr" using f(4) by simp
    show ?thesis using f off Cons nz' [OF j] blk_offset [OF t j] unfolding doalloc_def pr Let_def at by (simp add: head_offset_def)
  qed
qed

section \<open>Writing to memory\<close>

lemma fill_deadbeef_out:
  assumes "\<And>i. i < len div 4 \<Longrightarrow> a \<noteq> ptr + of_nat (4 * i)"
  shows "fill_deadbeef ptr len m a = m a"
proof -
  have "fold (\<lambda>i m. m(ptr + of_nat (4 * i) := 0xdeadbeef)) [0..<n] m a = m a" if "n \<le> len div 4" for n
    using that assms by (induction n) auto
  then show ?thesis by (simp add: fill_deadbeef_def)
qed

lemma thread_blocks_Suc:
  "0 < n \<Longrightarrow> thread_blocks fla sz (Suc n) m = (thread_blocks fla sz n m)(fla + of_nat (n * sz) := fla + of_nat ((n - 1) * sz))"
  by (simp add: thread_blocks_def)

lemma thread_blocks_out:
  assumes "0 < n" "\<And>i. i < n \<Longrightarrow> a \<noteq> fla + of_nat (i * sz)"
  shows "thread_blocks fla sz n m a = m a"
  using assms
proof (induction n rule: nat_induct_non_zero)
  case 1
  then show ?case using 1 [of 0] by (simp add: thread_blocks_def)
next
  case (Suc n)
  have "a \<noteq> fla + of_nat (n * sz)" using Suc.prems [of n] by simp
  moreover have "thread_blocks fla sz n m a = m a" using Suc by simp
  ultimately show ?case by (simp only: thread_blocks_Suc [OF Suc.hyps(1)] fun_upd_apply if_False)
qed

lemma thread_blocks_at:
  assumes "0 < n" "i < n" "inj_on (\<lambda>i. fla + of_nat (i * sz)) {..<n}"
  shows "thread_blocks fla sz n m (fla + of_nat (i * sz)) = (if i = 0 then 0 else fla + of_nat ((i - 1) * sz))"
  using assms
proof (induction n arbitrary: i rule: nat_induct_non_zero)
  case 1
  then show ?case by (simp add: thread_blocks_def)
next
  case (Suc n)
  have inj: "inj_on (\<lambda>i. fla + of_nat (i * sz)) {..<n}" by (rule inj_on_subset [OF Suc.prems(2)]) auto
  have "fla + of_nat (i * sz) \<noteq> fla + of_nat (n * sz)" if "i \<noteq> n"
    using inj_onD [OF Suc.prems(2), of i n] that Suc.prems(1) by auto
  moreover have "i < n" if "i \<noteq> n" using Suc.prems(1) that by simp
  ultimately show ?case using Suc.IH [OF _ inj, of i] Suc.hyps(1)
    unfolding thread_blocks_Suc [OF Suc.hyps(1)] fun_upd_apply by (cases "i = n") (simp_all del: of_nat_mult)
qed

section \<open>The table of page references\<close>

definition pr_inuse :: "'as kheap \<Rightarrow> nat \<Rightarrow> bool" where
  "pr_inuse h p \<longleftrightarrow> p < NPAGEREFS \<and> bit (pagerefs_inuse h ! (p div 32)) (p mod 32)"

lemma full_word: "w \<noteq> 0xffffffff \<Longrightarrow> \<exists>j < 32. \<not> bit w j" for w :: "32 word"
proof (rule ccontr)
  assume w: "w \<noteq> 0xffffffff" "\<not> (\<exists>j < 32. \<not> bit w j)"
  have "w = - 1" by (rule bit_eqI) (use w(2) in \<open>auto simp: bit_simps dest: bit_imp_le_length\<close>)
  with w(1) show False by simp
qed

lemma pr_index: "j < 32 \<Longrightarrow> q div 32 = i \<and> q mod 32 = j \<longleftrightarrow> q = i * 32 + j" for q i j :: nat
  by auto

lemma allocpageref_cases:
  assumes len: "length (pagerefs_inuse h) = INUSE_WORDS"
  obtains (full) "allocpageref h = Some (None, h)" "\<forall>p < NPAGEREFS. pr_inuse h p"
  | (found) p ws where "allocpageref h = Some (Some p, h\<lparr>pagerefs_inuse := ws\<rparr>)" "length ws = INUSE_WORDS" "\<not> pr_inuse h p"
      "\<And>q. pr_inuse (h\<lparr>pagerefs_inuse := ws\<rparr>) q \<longleftrightarrow> q = p \<or> pr_inuse h q"
proof (cases "find (\<lambda>i. pagerefs_inuse h ! i \<noteq> 0xffffffff) [0..<INUSE_WORDS]")
  case None
  have "pr_inuse h p" if p: "p < NPAGEREFS" for p
  proof -
    from p None have "pagerefs_inuse h ! (p div 32) = 0xffffffff" by (auto simp: find_None_iff)
    then have "pagerefs_inuse h ! (p div 32) = - 1" by simp
    then show ?thesis using p by (simp add: pr_inuse_def bit_simps)
  qed
  with None full show ?thesis by (simp add: allocpageref_def)
next
  case (Some i)
  then have i: "i < INUSE_WORDS" "pagerefs_inuse h ! i \<noteq> 0xffffffff" by (auto simp: find_Some_iff)
  let ?w = "pagerefs_inuse h ! i"
  from full_word [OF i(2)] obtain j where j: "find (\<lambda>j. ?w AND push_bit j 1 = 0) [0..<32] = Some j"
    by (cases "find (\<lambda>j. ?w AND push_bit j 1 = 0) [0..<32]") (auto simp: find_None_iff bit_iff_and_push_bit_not_eq_0)
  then have jb: "j < 32" "\<not> bit ?w j" by (auto simp: find_Some_iff bit_iff_and_push_bit_not_eq_0)
  let ?ws = "(pagerefs_inuse h)[i := ?w OR push_bit j 1]"
  have "pr_inuse (h\<lparr>pagerefs_inuse := ?ws\<rparr>) q \<longleftrightarrow> q = i * 32 + j \<or> pr_inuse h q" for q
    using i(1) jb len pr_index [OF jb(1), of q i] by (auto simp: pr_inuse_def nth_list_update bit_simps)
  moreover have "\<not> pr_inuse h (i * 32 + j)" using jb by (simp add: pr_inuse_def)
  moreover have "allocpageref h = Some (Some (i * 32 + j), h\<lparr>pagerefs_inuse := ?ws\<rparr>)"
    unfolding allocpageref_def Some option.case j ..
  moreover have "length ?ws = INUSE_WORDS" using len by simp
  ultimately show ?thesis using found by blast
qed

lemma freepageref_used:
  assumes len: "length (pagerefs_inuse h) = INUSE_WORDS" and p: "pr_inuse h p"
  obtains ws where "freepageref p h = Some (h\<lparr>pagerefs_inuse := ws\<rparr>)" "length ws = INUSE_WORDS"
    "\<And>q. pr_inuse (h\<lparr>pagerefs_inuse := ws\<rparr>) q \<longleftrightarrow> q \<noteq> p \<and> pr_inuse h q"
proof -
  let ?i = "p div 32" and ?j = "p mod 32"
  let ?ws = "(pagerefs_inuse h)[?i := pagerefs_inuse h ! ?i AND NOT (push_bit ?j 1)]"
  have b: "p < NPAGEREFS" "bit (pagerefs_inuse h ! ?i) ?j" using p by (simp_all add: pr_inuse_def)
  have "pr_inuse (h\<lparr>pagerefs_inuse := ?ws\<rparr>) q \<longleftrightarrow> q \<noteq> p \<and> pr_inuse h q" for q
    using b len pr_index [of ?j q ?i] by (auto simp: pr_inuse_def nth_list_update bit_simps)
  moreover have "freepageref p h = Some (h\<lparr>pagerefs_inuse := ?ws\<rparr>)"
    using b by (simp add: freepageref_def bit_iff_and_push_bit_not_eq_0 Let_def)
  moreover have "length ?ws = INUSE_WORDS" using len by simp
  ultimately show ?thesis using that by blast
qed

lemma blocktype_fits:
  assumes "sz < LARGEST_SUBPAGE_SIZE"
  obtains t where "blocktype sz = Some t" "t < NSIZES" "sz \<le> sizes ! t" "\<forall>u < t. sizes ! u < sz"
proof -
  have "sz \<le> sizes ! 7" using assms by (simp add: sizes_def)
  then obtain t where t: "blocktype sz = Some t"
    by (cases "blocktype sz") (auto simp: blocktype_def find_None_iff)
  then have "t < NSIZES" "sz \<le> sizes ! t" "\<forall>u < t. sizes ! u < sz"
    by (auto simp: blocktype_def find_Some_iff not_le)
  with t that show ?thesis by blast
qed

section \<open>A fresh page\<close>

lemma fresh_page_free:
  assumes t: "t < NSIZES" and a: "unat a mod PAGE_SIZE = 0"
  obtains pr where "pageaddr_and_blocktype pr = MKPAB a t" "PR_PAGEADDR pr = a" "PR_BLOCKTYPE pr = t"
    "next_samesize pr = sizebases h t" "next_all pr = allbase h" "nfree pr = bcount pr"
    "fresh_page p t a h = Some (h\<lparr>kh_mem := thread_blocks a (bsize pr) (bcount pr) (kh_mem h),
       pagerefs := (pagerefs h)(p := pr), sizebases := (sizebases h)(t := Some p), allbase := Some p\<rparr>)"
    "page_free (thread_blocks a (bsize pr) (bcount pr) (kh_mem h)) pr (rev [0..<bcount pr])"
proof -
  define sz where "sz = sizes ! t"
  define n where "n = PAGE_SIZE div sz"
  define pr where "pr = \<lparr>next_samesize = sizebases h t, next_all = allbase h, pageaddr_and_blocktype = MKPAB a t,
    freelist_offset = (n - 1) * sz, nfree = n\<rparr>"
  have pab: "PR_PAGEADDR pr = a" "PR_BLOCKTYPE pr = t"
    using MKPAB_parts [of pr a t] a t by (simp_all add: pr_def)
  have b: "bsize pr = sz" "bcount pr = n" by (simp_all add: bsize_def bcount_def pab sz_def n_def)
  have T: "PR_BLOCKTYPE pr < NSIZES" using pab t by simp
  note F = bsize_facts [OF T, unfolded b]
  have at: "blk pr i = a + of_nat (i * sz)" for i by (simp add: blk_def pab b)
  have inj: "inj_on (\<lambda>i. a + of_nat (i * sz)) {..<n}"
    by (rule inj_onI) (use blk_inj [OF T] in \<open>auto simp: at b simp del: of_nat_mult\<close>)
  have "a + of_nat (i * sz) \<noteq> a + of_nat ((i - 1) * sz)" if "i \<in> set [1..<n]" for i
  proof
    assume "a + of_nat (i * sz) = a + of_nat ((i - 1) * sz)"
    from inj_onD [OF inj this] that have "i = i - 1" by (simp add: less_imp_diff_less)
    moreover have "1 \<le> i" using that by simp
    ultimately show False by linarith
  qed
  moreover have "unat (a + of_nat ((n - 1) * sz) - a) = (n - 1) * sz"
    using blk_offset(1) [OF T, of "n - 1"] F by (simp add: at pab b del: of_nat_mult)
  ultimately have fresh: "fresh_page p t a h = Some (h\<lparr>kh_mem := thread_blocks a sz n (kh_mem h),
     pagerefs := (pagerefs h)(p := pr), sizebases := (sizebases h)(t := Some p), allbase := Some p\<rparr>)"
    by (simp add: fresh_page_def Let_def sz_def [symmetric] n_def [symmetric] pr_def del: of_nat_mult)
  let ?m = "thread_blocks a sz n (kh_mem h)"
  have links: "links ?m pr (rev [0..<k])" if "k \<le> n" for k
    using that
  proof (induction k)
    case 0
    then show ?case by simp
  next
    case (Suc k)
    have "?m (blk pr k) = (if k = 0 then 0 else blk pr (k - 1))"
      using thread_blocks_at [of n k a sz "kh_mem h"] Suc.prems inj by (simp add: at del: of_nat_mult)
    moreover have "hd (rev [0..<k]) = k - 1" if "k \<noteq> 0" using that by (simp add: hd_rev)
    ultimately show ?case using Suc by (simp add: links_Cons)
  qed
  have "rev [0..<n] = (n - 1) # rev [0..<n - 1]" using F(3) by (cases n) simp_all
  then have "head_offset pr (rev [0..<n]) = (n - 1) * sz" by (simp add: head_offset_def b)
  then have "page_free ?m pr (rev [0..<n])"
    using links [of n] by (auto simp: page_free_def b) (simp_all add: pr_def)
  with that [of pr] pab fresh show ?thesis by (simp add: b) (simp add: pr_def)
qed

section \<open>The invariant\<close>

definition page_ok :: "'as coremap \<Rightarrow> (addr \<Rightarrow> addr) \<Rightarrow> pageref \<Rightarrow> bool" where
  "page_ok cm m pr \<longleftrightarrow> PR_BLOCKTYPE pr < NSIZES \<and> km_block cm (PR_PAGEADDR pr) = Some 1 \<and>
     page_free m pr (free_blocks m pr) \<and> nfree pr < bcount pr"

definition pages_ok :: "'as kheap \<Rightarrow> nat list \<Rightarrow> bool" where
  "pages_ok h ps \<longleftrightarrow> distinct ps \<and> set ps = {p. pr_inuse h p} \<and>
     chain (\<lambda>p. next_all (pagerefs h p)) (allbase h) ps \<and>
     (\<forall>t < NSIZES. chain (\<lambda>p. next_samesize (pagerefs h p)) (sizebases h t) (filter (\<lambda>p. PR_BLOCKTYPE (pagerefs h p) = t) ps)) \<and>
     inj_on (\<lambda>p. PR_PAGEADDR (pagerefs h p)) (set ps) \<and>
     (\<forall>p \<in> set ps. page_ok (kh_cm h) (kh_mem h) (pagerefs h p))"

definition kheap_inv :: "'as kheap \<Rightarrow> bool" where
  "kheap_inv h \<longleftrightarrow> coremap_inv (kh_cm h) \<and> coremap_size (kh_cm h) < 2 ^ 19 \<and>
     length (pagerefs_inuse h) = INUSE_WORDS \<and> (\<exists>ps. pages_ok h ps)"

definition owner :: "'as kheap \<Rightarrow> addr \<Rightarrow> nat option" where
  \<comment> \<open>the page reference of the page an address is on\<close>
  "owner h a = find (\<lambda>p. pr_inuse h p \<and> unat (PR_PAGEADDR (pagerefs h p)) div PAGE_SIZE = unat a div PAGE_SIZE) [0..<NPAGEREFS]"

definition heap_map :: "'as kheap \<Rightarrow> addr \<Rightarrow> nat option" where
  \<comment> \<open>the size of the block in use at an address\<close>
  "heap_map h a = (case owner h a of
     Some p \<Rightarrow>
       (let pr = pagerefs h p; off = unat a mod PAGE_SIZE in
        if off mod bsize pr = 0 \<and> off div bsize pr \<notin> set (free_blocks (kh_mem h) pr) then Some (bsize pr) else None)
   | None \<Rightarrow> map_option (\<lambda>n. n * PAGE_SIZE) (km_block (kh_cm h) a))"

end
