(* ===== verification/Kern_Kheap_Spec.thy ===== *)
theory Kern_Kheap_Spec
  imports Kern_Kheap_Inv
begin

text \<open>
  The contract of the kernel heap: \<open>kmalloc\<close> and \<open>kfree\<close> implement the abstract heap \<open>heap_map\<close>. A block that is handed out
  overlaps no block in use and is at least as large as asked for, \<open>kfree\<close> takes back exactly the block it is
  given, and neither changes a byte of another block.
\<close>

section \<open>Owners of addresses\<close>

abbreviation page_no :: "addr \<Rightarrow> nat" where "page_no a \<equiv> unat a div PAGE_SIZE"

lemma page_no_eq:
  assumes "unat a mod PAGE_SIZE = 0" "unat b mod PAGE_SIZE = 0" "page_no a = page_no b"
  shows "a = b"
  using assms div_mult_mod_eq [of "unat a" PAGE_SIZE] div_mult_mod_eq [of "unat b" PAGE_SIZE] by (simp add: word_unat_eq_iff)

lemma pages_okD:
  assumes "pages_ok h ps"
  shows "distinct ps" "set ps = {p. pr_inuse h p}" "chain (\<lambda>p. next_all (pagerefs h p)) (allbase h) ps"
    "\<And>t. t < NSIZES \<Longrightarrow> chain (\<lambda>p. next_samesize (pagerefs h p)) (sizebases h t) (filter (\<lambda>p. PR_BLOCKTYPE (pagerefs h p) = t) ps)"
    "\<And>p q. pr_inuse h p \<Longrightarrow> pr_inuse h q \<Longrightarrow> PR_PAGEADDR (pagerefs h p) = PR_PAGEADDR (pagerefs h q) \<Longrightarrow> p = q"
    "\<And>p. pr_inuse h p \<Longrightarrow> page_ok (kh_cm h) (kh_mem h) (pagerefs h p)"
  using assms by (auto simp: pages_ok_def dest: inj_onD)

lemma page_okD:
  assumes "page_ok cm m pr"
  shows "PR_BLOCKTYPE pr < NSIZES" "km_block cm (PR_PAGEADDR pr) = Some 1" "page_free m pr (free_blocks m pr)" "nfree pr < bcount pr"
  using assms by (simp_all add: page_ok_def)

lemma owner_None: "owner h a = None \<longleftrightarrow> (\<forall>p. pr_inuse h p \<longrightarrow> page_no (PR_PAGEADDR (pagerefs h p)) \<noteq> page_no a)"
  by (auto simp: owner_def find_None_iff pr_inuse_def)

lemma owner_Some:
  assumes "pages_ok h ps"
  shows "owner h a = Some p \<longleftrightarrow> pr_inuse h p \<and> page_no (PR_PAGEADDR (pagerefs h p)) = page_no a"
proof
  assume "owner h a = Some p"
  then show "pr_inuse h p \<and> page_no (PR_PAGEADDR (pagerefs h p)) = page_no a" by (auto simp: owner_def find_Some_iff)
next
  assume p: "pr_inuse h p \<and> page_no (PR_PAGEADDR (pagerefs h p)) = page_no a"
  then obtain q where q: "owner h a = Some q" using owner_None [of h a] by (cases "owner h a") auto
  then have "pr_inuse h q" "page_no (PR_PAGEADDR (pagerefs h q)) = page_no a" by (auto simp: owner_def find_Some_iff)
  with p have "q = p" by (intro pages_okD(5) [OF assms]) (auto intro: page_no_eq)
  with q show "owner h a = Some p" by simp
qed

lemma page_bound:
  assumes "kheap_inv h" "km_block (kh_cm h) a = Some n"
  shows "unat a + PAGE_SIZE * n < 2 ^ 32" "2 ^ 31 \<le> unat a" "unat a mod PAGE_SIZE = 0"
proof -
  from assms(1) have c: "coremap_inv (kh_cm h)" "coremap_size (kh_cm h) < 2 ^ 19" by (simp_all add: kheap_inv_def)
  note B = km_block_bounds [OF c(1) assms(2)]
  from B(2) show "2 ^ 31 \<le> unat a" "unat a mod PAGE_SIZE = 0" by simp_all
  from B(3) c(2) have "frame_no (a - MIPS_KSEG0) + n < 2 ^ 19" by simp
  with B(2) show "unat a + PAGE_SIZE * n < 2 ^ 32" by simp
qed

lemma find_unique:
  assumes "x \<in> set xs" "P x" "\<And>y. y \<in> set xs \<Longrightarrow> P y \<Longrightarrow> y = x"
  shows "find P xs = Some x"
proof -
  obtain y where "find P xs = Some y" using assms(1,2) by (cases "find P xs") (auto simp: find_None_iff)
  moreover from this have "y \<in> set xs" "P y" by (auto simp: find_Some_iff)
  ultimately show ?thesis using assms(3) [of y] by simp
qed

lemma same_page: "m mod PAGE_SIZE = 0 \<Longrightarrow> m \<le> k \<and> k < m + PAGE_SIZE \<longleftrightarrow> m div PAGE_SIZE = k div PAGE_SIZE" for m k :: nat
proof -
  assume m: "m mod PAGE_SIZE = 0"
  define q r where "q = k div PAGE_SIZE" and "r = k mod PAGE_SIZE"
  have k: "k = q * PAGE_SIZE + r" "r < PAGE_SIZE" by (simp_all add: q_def r_def)
  define p where "p = m div PAGE_SIZE"
  have p: "m = p * PAGE_SIZE" using m div_mult_mod_eq [of m PAGE_SIZE] by (simp add: p_def)
  show ?thesis unfolding p_def [symmetric] q_def [symmetric] unfolding k(1) p using k(2) by auto
qed

lemma find_owner_eq:
  assumes inv: "kheap_inv h" and ps: "pages_ok h ps"
  shows "find_owner (pagerefs h) a (allbase h) = Some (owner h a)"
proof -
  note P = pages_okD [OF ps]
  let ?P = "\<lambda>p. PR_PAGEADDR (pagerefs h p) \<le> a \<and> a < PR_PAGEADDR (pagerefs h p) + of_nat PAGE_SIZE"
  have cond: "?P p \<longleftrightarrow> page_no (PR_PAGEADDR (pagerefs h p)) = page_no a" if "p \<in> set ps" for p
  proof -
    from that P(2,6) have "km_block (kh_cm h) (PR_PAGEADDR (pagerefs h p)) = Some 1" by (auto simp: page_ok_def)
    from page_bound [OF inv this] have b: "unat (PR_PAGEADDR (pagerefs h p)) + PAGE_SIZE < 2 ^ 32"
      "unat (PR_PAGEADDR (pagerefs h p)) mod PAGE_SIZE = 0" by simp_all
    then have "unat (PR_PAGEADDR (pagerefs h p) + of_nat PAGE_SIZE) = unat (PR_PAGEADDR (pagerefs h p)) + PAGE_SIZE"
      by (simp add: unat_word_ariths)
    then show ?thesis using same_page [OF b(2), of "unat a"] unfolding word_le_nat_alt word_less_nat_alt by (simp only:)
  qed
  have "\<forall>p \<in> set ps. PR_BLOCKTYPE (pagerefs h p) < NSIZES" using P(2,6) by (auto simp: page_ok_def)
  then have "find_owner (pagerefs h) a (allbase h) = Some (find ?P ps)" by (rule find_owner_chain [OF P(3)])
  moreover have "find ?P ps = owner h a"
  proof (cases "owner h a")
    case None
    then have "\<not> (\<exists>p. p \<in> set ps \<and> ?P p)" using cond P(2) unfolding owner_None by blast
    then have "find ?P ps = None" by (simp only: find_None_iff) simp
    with None show ?thesis by simp
  next
    case (Some p)
    then have p: "p \<in> set ps" "?P p" using cond P(2) owner_Some [OF ps] by auto
    have "y = p" if "y \<in> set ps" "?P y" for y
    proof -
      from that cond P(2) have "owner h a = Some y" by (simp add: owner_Some [OF ps])
      with Some show ?thesis by simp
    qed
    from find_unique [where P = ?P, OF p this] Some show ?thesis by (rule trans [OF _ sym])
  qed
  ultimately show ?thesis by simp
qed

section \<open>The abstract heap\<close>

lemma blk_page:
  assumes "PR_BLOCKTYPE pr < NSIZES" "i < bcount pr"
  shows "page_no (blk pr i) = page_no (PR_PAGEADDR pr)" "unat (blk pr i) mod PAGE_SIZE = i * bsize pr"
proof -
  have "i * bsize pr < PAGE_SIZE" by (rule blk_offset(2) [OF assms])
  moreover have "unat (blk pr i) = PAGE_SIZE * page_no (PR_PAGEADDR pr) + i * bsize pr"
    using unat_blk [OF assms] div_mult_mod_eq [of "unat (PR_PAGEADDR pr)" PAGE_SIZE] by simp
  ultimately show "page_no (blk pr i) = page_no (PR_PAGEADDR pr)" "unat (blk pr i) mod PAGE_SIZE = i * bsize pr" by simp_all
qed

lemma blk_cover:
  assumes t: "PR_BLOCKTYPE pr < NSIZES" and a: "page_no (PR_PAGEADDR pr) = page_no a" "unat a mod PAGE_SIZE mod bsize pr = 0"
  shows "unat a mod PAGE_SIZE div bsize pr < bcount pr" "a = blk pr (unat a mod PAGE_SIZE div bsize pr)"
proof -
  let ?i = "unat a mod PAGE_SIZE div bsize pr"
  note F = bsize_facts [OF t]
  have off: "?i * bsize pr = unat a mod PAGE_SIZE" using a(2) by (metis add.right_neutral div_mult_mod_eq)
  then have "?i * bsize pr < bcount pr * bsize pr" using F(2) by simp
  then show i: "?i < bcount pr" by (rule mult_less_cancel2 [THEN iffD1, THEN conjunct2])
  have "unat a = unat (blk pr ?i)"
    using unat_blk [OF t i] off a(1) div_mult_mod_eq [of "unat (PR_PAGEADDR pr)" PAGE_SIZE] div_mult_mod_eq [of "unat a" PAGE_SIZE] by simp
  then show "a = blk pr ?i" by (simp add: word_unat_eq_iff)
qed

lemma heap_map_in:
  assumes ps: "pages_ok h ps" and p: "pr_inuse h p" "page_no (PR_PAGEADDR (pagerefs h p)) = page_no a"
  shows "heap_map h a = (if \<exists>i < bcount (pagerefs h p). a = blk (pagerefs h p) i \<and> i \<notin> set (free_blocks (kh_mem h) (pagerefs h p))
    then Some (bsize (pagerefs h p)) else None)"
proof -
  let ?pr = "pagerefs h p"
  let ?off = "unat a mod PAGE_SIZE"
  have t: "PR_BLOCKTYPE ?pr < NSIZES" using pages_okD(6) [OF ps p(1)] by (rule page_okD)
  have own: "owner h a = Some p" using p owner_Some [OF ps] by blast
  have "?off mod bsize ?pr = 0 \<and> ?off div bsize ?pr \<notin> S \<longleftrightarrow> (\<exists>i < bcount ?pr. a = blk ?pr i \<and> i \<notin> S)" for S
  proof
    assume a: "?off mod bsize ?pr = 0 \<and> ?off div bsize ?pr \<notin> S"
    note c = blk_cover [OF t p(2) conjunct1 [OF a]]
    show "\<exists>i < bcount ?pr. a = blk ?pr i \<and> i \<notin> S"
      by (intro exI conjI, rule c(1), rule c(2), rule conjunct2 [OF a])
  next
    assume "\<exists>i < bcount ?pr. a = blk ?pr i \<and> i \<notin> S"
    then obtain i where i: "i < bcount ?pr" "a = blk ?pr i" "i \<notin> S" by blast
    then have "?off = i * bsize ?pr" using blk_page(2) [OF t i(1)] by simp
    then show "?off mod bsize ?pr = 0 \<and> ?off div bsize ?pr \<notin> S" using i(3) bsize_facts(1) [OF t] by simp
  qed
  then show ?thesis unfolding heap_map_def own Let_def by simp
qed

lemma heap_map_out: "owner h a = None \<Longrightarrow> heap_map h a = map_option (\<lambda>n. n * PAGE_SIZE) (km_block (kh_cm h) a)"
  by (simp add: heap_map_def)

section \<open>One page changes\<close>

lemma page_ok_frame:
  assumes ok: "page_ok cm m pr" and same: "\<And>a. page_no a = page_no (PR_PAGEADDR pr) \<Longrightarrow> m' a = m a"
  shows "page_ok cm m' pr \<and> free_blocks m' pr = free_blocks m pr"
proof -
  note O = page_okD [OF ok]
  have "m' (blk pr i) = m (blk pr i)" if "i \<in> set (free_blocks m pr)" for i
    using that O(3) blk_page(1) [OF O(1)] by (intro same) (auto simp: page_free_def)
  then have f: "page_free m' pr (free_blocks m pr)" by (rule page_free_cong [OF _ O(3)])
  from page_free_unique [OF O(1) this] have "free_blocks m' pr = free_blocks m pr" .
  with f O show ?thesis by (simp add: page_ok_def)
qed

lemma page_free_ok:
  assumes "page_free m pr fs" "PR_BLOCKTYPE pr < NSIZES" "km_block cm (PR_PAGEADDR pr) = Some 1" "length fs < bcount pr"
  shows "page_ok cm m pr" "free_blocks m pr = fs"
proof -
  show f: "free_blocks m pr = fs" by (rule page_free_unique [OF assms(2,1)])
  have "length fs = nfree pr" using assms(1) by (simp add: page_free_def)
  then show "page_ok cm m pr" using assms f by (simp add: page_ok_def)
qed

lemma pages_ok_upd:
  assumes ps: "pages_ok h ps" and p: "pr_inuse h p"
    and pr': "pageaddr_and_blocktype pr' = pageaddr_and_blocktype (pagerefs h p)" "next_all pr' = next_all (pagerefs h p)"
      "next_samesize pr' = next_samesize (pagerefs h p)"
    and ok: "page_ok (kh_cm h) m' pr'"
    and others: "\<And>q. pr_inuse h q \<Longrightarrow> q \<noteq> p \<Longrightarrow> page_ok (kh_cm h) m' (pagerefs h q)"
  shows "pages_ok (h\<lparr>kh_mem := m', pagerefs := (pagerefs h)(p := pr')\<rparr>) ps"
proof -
  let ?h = "h\<lparr>kh_mem := m', pagerefs := (pagerefs h)(p := pr')\<rparr>"
  note P = pages_okD [OF ps]
  have pr: "pr_inuse ?h = pr_inuse h" by (simp add: pr_inuse_def fun_eq_iff)
  have f: "PR_PAGEADDR (pagerefs ?h q) = PR_PAGEADDR (pagerefs h q)" "PR_BLOCKTYPE (pagerefs ?h q) = PR_BLOCKTYPE (pagerefs h q)"
    "next_all (pagerefs ?h q) = next_all (pagerefs h q)" "next_samesize (pagerefs ?h q) = next_samesize (pagerefs h q)" for q
    using pr' by (simp_all add: PR_PAGEADDR_def PR_BLOCKTYPE_def)
  have "page_ok (kh_cm ?h) (kh_mem ?h) (pagerefs ?h q)" if "pr_inuse h q" for q
    using ok others [OF that] by simp
  moreover have "sizebases ?h = sizebases h" "allbase ?h = allbase h" by simp_all
  ultimately show ?thesis using ps unfolding pages_ok_def pr f by (elim conjE) simp
qed

lemma heap_map_upd:
  assumes ps: "pages_ok h ps" and p: "pr_inuse h p"
    and pr': "pageaddr_and_blocktype pr' = pageaddr_and_blocktype (pagerefs h p)"
    and ok: "pages_ok (h\<lparr>kh_mem := m', pagerefs := (pagerefs h)(p := pr')\<rparr>) ps"
    and others: "\<And>q. pr_inuse h q \<Longrightarrow> q \<noteq> p \<Longrightarrow> free_blocks m' (pagerefs h q) = free_blocks (kh_mem h) (pagerefs h q)"
  shows "heap_map (h\<lparr>kh_mem := m', pagerefs := (pagerefs h)(p := pr')\<rparr>) a =
    (if page_no (PR_PAGEADDR (pagerefs h p)) = page_no a
     then (if \<exists>i < bcount (pagerefs h p). a = blk (pagerefs h p) i \<and> i \<notin> set (free_blocks m' pr') then Some (bsize (pagerefs h p)) else None)
     else heap_map h a)"
proof -
  let ?h = "h\<lparr>kh_mem := m', pagerefs := (pagerefs h)(p := pr')\<rparr>"
  have pr: "pr_inuse ?h q \<longleftrightarrow> pr_inuse h q" for q by (simp add: pr_inuse_def)
  note S = same_pab [OF pr']
  have A: "PR_PAGEADDR (pagerefs ?h q) = PR_PAGEADDR (pagerefs h q)" for q using S by simp
  have own: "owner ?h a = owner h a" by (simp only: owner_def pr A)
  show ?thesis
  proof (cases "owner h a")
    case None
    then have "page_no (PR_PAGEADDR (pagerefs h p)) \<noteq> page_no a" using p by (simp add: owner_None)
    moreover have "heap_map ?h a = heap_map h a" using None own by (simp add: heap_map_out)
    ultimately show ?thesis by simp
  next
    case (Some q)
    then have q: "pr_inuse h q" "page_no (PR_PAGEADDR (pagerefs h q)) = page_no a" using owner_Some [OF ps] by auto
    have new: "heap_map ?h a = (if \<exists>i < bcount (pagerefs ?h q). a = blk (pagerefs ?h q) i \<and> i \<notin> set (free_blocks (kh_mem ?h) (pagerefs ?h q))
      then Some (bsize (pagerefs ?h q)) else None)"
      by (rule heap_map_in [OF ok]) (use q pr A in auto)
    show ?thesis
    proof (cases "q = p")
      case True
      then have r: "pagerefs ?h q = pr'" "kh_mem ?h = m'" by simp_all
      show ?thesis unfolding new r S using q(2) True by simp
    next
      case False
      have "page_no (PR_PAGEADDR (pagerefs h p)) \<noteq> page_no a" using Some False p owner_Some [OF ps, of a p] by simp
      moreover have r: "pagerefs ?h q = pagerefs h q" "kh_mem ?h = m'" using False by simp_all
      have "heap_map ?h a = heap_map h a" unfolding new heap_map_in [OF ps q] r others [OF q(1) False] ..
      ultimately show ?thesis by simp
    qed
  qed
qed

section \<open>Blocks in use\<close>

lemma heap_block_cases:
  assumes ps: "pages_ok h ps" and b: "heap_map h b = Some n"
  obtains (small) p i where "pr_inuse h p" "i < bcount (pagerefs h p)" "b = blk (pagerefs h p) i" "n = bsize (pagerefs h p)"
      "i \<notin> set (free_blocks (kh_mem h) (pagerefs h p))" "owner h b = Some p"
  | (large) k where "owner h b = None" "km_block (kh_cm h) b = Some k" "n = k * PAGE_SIZE"
proof (cases "owner h b")
  case None
  with b large show ?thesis by (auto simp: heap_map_out)
next
  case (Some p)
  then have p: "pr_inuse h p" "page_no (PR_PAGEADDR (pagerefs h p)) = page_no b" using owner_Some [OF ps] by auto
  from b heap_map_in [OF ps p] small [OF p(1)] Some show ?thesis by (auto split: if_splits)
qed

lemma heap_block_home:
  assumes inv: "kheap_inv h" and ps: "pages_ok h ps" and b: "heap_map h b = Some n"
  obtains A k where "km_block (kh_cm h) A = Some k" "bytes b n \<subseteq> bytes A (k * PAGE_SIZE)" "page_no A = page_no b"
    "(owner h b = None \<and> A = b \<and> n = k * PAGE_SIZE) \<or> (\<exists>p. owner h b = Some p \<and> A = PR_PAGEADDR (pagerefs h p) \<and> k = 1)"
  using ps b
proof (cases rule: heap_block_cases)
  case (small p i)
  note O = page_okD [OF pages_okD(6) [OF ps small(1)]]
  have "bytes b n \<subseteq> bytes (PR_PAGEADDR (pagerefs h p)) (1 * PAGE_SIZE)"
    using unat_blk [OF O(1) small(2)] block_end [OF O(1) small(2)] small(3,4) by (auto simp: bytes_def)
  with that [OF O(2)] small blk_page(1) [OF O(1) small(2)] show ?thesis by simp
next
  case (large k)
  with that [OF large(2)] show ?thesis by simp
qed

lemma heap_block_fits:
  assumes inv: "kheap_inv h" and ps: "pages_ok h ps" and b: "heap_map h b = Some n" and k: "k < n"
  shows "unat (b + of_nat k) = unat b + k" "unat (b + of_nat k) \<in> bytes b n"
proof -
  obtain A j where A: "km_block (kh_cm h) A = Some j" "bytes b n \<subseteq> bytes A (j * PAGE_SIZE)" using heap_block_home [OF inv ps b] .
  have "unat b + k \<in> bytes b n" using k by (simp add: bytes_def)
  with A(2) page_bound(1) [OF inv A(1)] have "unat b + k < 2 ^ 32" by (auto simp: bytes_def)
  then show "unat (b + of_nat k) = unat b + k" by (simp add: unat_word_ariths unat_of_nat)
  with k show "unat (b + of_nat k) \<in> bytes b n" by (simp add: bytes_def)
qed

lemma multiples_disjoint: "i \<noteq> j \<Longrightarrow> {x + i * n..<x + i * n + n} \<inter> {x + j * n..<x + j * n + n} = {}" for i j n x :: nat
proof -
  assume "i \<noteq> j"
  then have "Suc i \<le> j \<or> Suc j \<le> i" by linarith
  then have "Suc i * n \<le> j * n \<or> Suc j * n \<le> i * n" by (meson mult_le_mono1)
  then show ?thesis by auto
qed

lemma heap_blocks_disjoint:
  assumes inv: "kheap_inv h" and a: "heap_map h a = Some n" and b: "heap_map h b = Some m" and ne: "a \<noteq> b"
  shows "bytes a n \<inter> bytes b m = {}"
proof -
  from inv obtain ps where ps: "pages_ok h ps" and cm: "coremap_inv (kh_cm h)" by (auto simp: kheap_inv_def)
  obtain A k where A: "km_block (kh_cm h) A = Some k" "bytes a n \<subseteq> bytes A (k * PAGE_SIZE)" "page_no A = page_no a"
    "(owner h a = None \<and> A = a \<and> n = k * PAGE_SIZE) \<or> (\<exists>p. owner h a = Some p \<and> A = PR_PAGEADDR (pagerefs h p) \<and> k = 1)"
    using heap_block_home [OF inv ps a] .
  obtain B l where B: "km_block (kh_cm h) B = Some l" "bytes b m \<subseteq> bytes B (l * PAGE_SIZE)" "page_no B = page_no b"
    "(owner h b = None \<and> B = b \<and> m = l * PAGE_SIZE) \<or> (\<exists>p. owner h b = Some p \<and> B = PR_PAGEADDR (pagerefs h p) \<and> l = 1)"
    using heap_block_home [OF inv ps b] .
  show ?thesis
  proof (cases "A = B")
    case False
    from km_blocks_disjoint [OF cm A(1) B(1) False] A(2) B(2) show ?thesis by blast
  next
    case True
    then have pn: "page_no a = page_no b" using A(3) B(3) by simp
    then have own: "owner h a = owner h b" by (simp add: owner_def)
    from ps a show ?thesis
    proof (cases rule: heap_block_cases)
      case (large k')
      with own A(4) B(4) True ne show ?thesis by auto
    next
      case a': (small p i)
      from ps b show ?thesis
      proof (cases rule: heap_block_cases)
        case (large k')
        with a'(6) own show ?thesis by simp
      next
        case b': (small q j)
        from a'(6) b'(6) own have "q = p" by simp
        note O = page_okD [OF pages_okD(6) [OF ps a'(1)]]
        have "i \<noteq> j" using ne a'(3) b'(3) \<open>q = p\<close> by auto
        from multiples_disjoint [OF this] unat_blk [OF O(1) a'(2)] unat_blk [OF O(1), of j] a'(3,4) b'(2,3,4) \<open>q = p\<close>
        show ?thesis by (simp add: bytes_def)
      qed
    qed
  qed
qed

end
