(* ===== verification/Kern_Kheap_Ops.thy ===== *)
theory Kern_Kheap_Ops
  imports Kern_Kheap_Spec
begin

text \<open>
  What \<open>kmalloc\<close> and \<open>kfree\<close> do to the invariant and to the abstract heap, one lemma per path of the code: a block from a page with
  room, a block from a fresh page, whole pages, a block given back to its page, and the last block of a page,
  with which the page goes back to the page allocator.
\<close>

section \<open>Taking a block\<close>

definition kept :: "'as kheap \<Rightarrow> 'as kheap \<Rightarrow> addr set \<Rightarrow> bool" where
  \<comment> \<open>every block in use in \<open>h\<close> but those in \<open>S\<close> has the same contents in \<open>h'\<close>\<close>
  "kept h h' S \<longleftrightarrow> (\<forall>b n. heap_map h b = Some n \<longrightarrow> b \<notin> S \<longrightarrow> (\<forall>k < n. kh_mem h' (b + of_nat k) = kh_mem h (b + of_nat k)))"

lemma kept_same_mem [simp]: "kh_mem h' = kh_mem h \<Longrightarrow> kept h h' S"
  by (simp add: kept_def)

lemma page_nonzero: "kheap_inv h \<Longrightarrow> page_ok (kh_cm h) m pr \<Longrightarrow> PR_PAGEADDR pr \<noteq> 0"
  using page_bound(2) [of h "PR_PAGEADDR pr" 1] by (auto simp: page_ok_def)

lemma doalloc_ok:
  assumes inv: "kheap_inv h" and ps: "pages_ok h ps" and p: "pr_inuse h p" and nf: "0 < nfree (pagerefs h p)"
  obtains a h' where "doalloc p h = Some (a, h')" "kheap_inv h'" "heap_map h a = None"
    "heap_map h' = (heap_map h)(a \<mapsto> bsize (pagerefs h p))" "kh_mem h' = kh_mem h"
proof -
  let ?pr = "pagerefs h p" and ?m = "kh_mem h"
  note O = page_okD [OF pages_okD(6) [OF ps p]]
  from nf O(3) obtain i fs where fs: "free_blocks ?m ?pr = i # fs" by (cases "free_blocks ?m ?pr") (auto simp: page_free_def)
  with O(3) have free: "page_free ?m ?pr (i # fs)" by simp
  then have i: "i < bcount ?pr" "i \<notin> set fs" "length fs < nfree ?pr" by (auto simp: page_free_def)
  define pr' where "pr' = ?pr\<lparr>nfree := length fs, freelist_offset := head_offset ?pr fs\<rparr>"
  have same: "pageaddr_and_blocktype pr' = pageaddr_and_blocktype ?pr" "next_all pr' = next_all ?pr" "next_samesize pr' = next_samesize ?pr"
    by (simp_all add: pr'_def)
  note S = same_pab [OF same(1)]
  have "page_free ?m pr' fs" unfolding pr'_def by (rule page_free_pop [OF free])
  then have ok: "page_ok (kh_cm h) ?m pr'" "free_blocks ?m pr' = fs"
    using O i(3) by (auto intro!: page_free_ok [where fs = fs and cm = "kh_cm h"] simp: S)
  let ?h = "h\<lparr>kh_mem := ?m, pagerefs := (pagerefs h)(p := pr')\<rparr>"
  have ps': "pages_ok ?h ps" using pages_okD(6) [OF ps] by (intro pages_ok_upd [OF ps p same ok(1)])
  then have "kheap_inv ?h" using inv by (auto simp: kheap_inv_def)
  moreover have "doalloc p h = Some (blk ?pr i, ?h)"
    using doalloc_pop [OF O(1) page_nonzero [OF inv pages_okD(6) [OF ps p]] free refl] by (simp add: pr'_def)
  moreover note pg = blk_page(1) [OF O(1) i(1), symmetric]
  have none: "heap_map h (blk ?pr i) = None"
    using heap_map_in [OF ps p, of "blk ?pr i"] pg fs blk_inj [OF O(1) _ i(1)] by auto
  moreover have "heap_map ?h a = ((heap_map h)(blk ?pr i \<mapsto> bsize ?pr)) a" for a
  proof (cases "page_no (PR_PAGEADDR ?pr) = page_no a")
    case True
    then show ?thesis
      using heap_map_upd [OF ps p same(1) ps', of a] heap_map_in [OF ps p, of a] fs ok(2) i blk_inj [OF O(1) _ i(1)] by auto
  next
    case False
    then show ?thesis using heap_map_upd [OF ps p same(1) ps', of a] pg by auto
  qed
  ultimately show ?thesis using that [of "blk ?pr i" ?h] by (simp add: fun_eq_iff)
qed

section \<open>A new page\<close>

lemma pages_ok_new:
  assumes ps: "pages_ok h ps" and p: "\<not> pr_inuse h p" "\<And>q. pr_inuse h' q \<longleftrightarrow> q = p \<or> pr_inuse h q"
    and h': "pagerefs h' = (pagerefs h)(p := pr)" "allbase h' = Some p" "sizebases h' = (sizebases h)(PR_BLOCKTYPE pr := Some p)"
    and pr: "next_all pr = allbase h" "next_samesize pr = sizebases h (PR_BLOCKTYPE pr)" "page_ok (kh_cm h') (kh_mem h') pr"
    and others: "\<And>q. pr_inuse h q \<Longrightarrow> page_ok (kh_cm h') (kh_mem h') (pagerefs h q) \<and> PR_PAGEADDR (pagerefs h q) \<noteq> PR_PAGEADDR pr"
  shows "pages_ok h' (p # ps)"
proof -
  note P = pages_okD [OF ps]
  have np: "p \<notin> set ps" using p P(2) by simp
  have old: "pagerefs h' q = pagerefs h q" if "q \<in> set ps" for q using that np h'(1) by auto
  have filt: "filter (\<lambda>q. PR_BLOCKTYPE (pagerefs h' q) = t) ps = filter (\<lambda>q. PR_BLOCKTYPE (pagerefs h q) = t) ps" for t
    using old by (intro filter_cong) auto
  have all: "chain (\<lambda>q. next_all (pagerefs h' q)) (allbase h) ps"
    using P(3) chain_cong [of ps "\<lambda>q. next_all (pagerefs h' q)" "\<lambda>q. next_all (pagerefs h q)" "allbase h"] old by simp
  have size: "chain (\<lambda>q. next_samesize (pagerefs h' q)) (sizebases h t) (filter (\<lambda>q. PR_BLOCKTYPE (pagerefs h q) = t) ps)"
    if "t < NSIZES" for t
    using P(4) [OF that] old
      chain_cong [of "filter (\<lambda>q. PR_BLOCKTYPE (pagerefs h q) = t) ps" "\<lambda>q. next_samesize (pagerefs h' q)" "\<lambda>q. next_samesize (pagerefs h q)" "sizebases h t"]
    by simp
  have new: "pagerefs h' p = pr" using h'(1) by simp
  have inj: "inj_on (\<lambda>q. PR_PAGEADDR (pagerefs h' q)) (set (p # ps))"
  proof (rule inj_onI)
    fix x y
    assume x: "x \<in> set (p # ps)" and y: "y \<in> set (p # ps)" and e: "PR_PAGEADDR (pagerefs h' x) = PR_PAGEADDR (pagerefs h' y)"
    show "x = y" using x y e new old others P(2) P(5) [of x y] by (cases "x = p"; cases "y = p") auto
  qed
  have oks: "\<forall>q \<in> set (p # ps). page_ok (kh_cm h') (kh_mem h') (pagerefs h' q)" using pr(3) new others old P(2) by auto
  have sizes: "\<forall>t < NSIZES. chain (\<lambda>q. next_samesize (pagerefs h' q)) (sizebases h' t) (filter (\<lambda>q. PR_BLOCKTYPE (pagerefs h' q) = t) (p # ps))"
    using size h'(3) new pr(2) filt by simp
  have "set (p # ps) = {q. pr_inuse h' q}" using p(2) P(2) by auto
  moreover have "distinct (p # ps)" using np P(1) by simp
  moreover have "chain (\<lambda>q. next_all (pagerefs h' q)) (allbase h') (p # ps)" using all h'(2) new pr(1) by simp
  ultimately show ?thesis using sizes inj oks unfolding pages_ok_def by blast
qed

lemma fresh_block_ok:
  assumes inv: "kheap_inv h" and ps: "pages_ok h ps" and t: "t < NSIZES"
    and new: "\<not> pr_inuse h p" "\<And>q. pr_inuse (h\<lparr>pagerefs_inuse := ws\<rparr>) q \<longleftrightarrow> q = p \<or> pr_inuse h q" "length ws = INUSE_WORDS"
    and a: "alloc_kpages 1 (kh_cm h) = Some (a, cm)"
  obtains h3 b h4 where "fresh_page p t a (h\<lparr>pagerefs_inuse := ws, kh_cm := cm\<rparr>) = Some h3" "doalloc p h3 = Some (b, h4)" "kheap_inv h4"
    "heap_map h b = None" "heap_map h4 = (heap_map h)(b \<mapsto> sizes ! t)" "kept h h4 {}"
proof -
  from inv have cm: "coremap_inv (kh_cm h)" "coremap_size (kh_cm h) < 2 ^ 19" by (simp_all add: kheap_inv_def)
  from kp.alloc_ok [OF cm(1) a] alloc_kpages_size [OF cm(1) a] cm(2)
  have A: "km_block (kh_cm h) a = None" "coremap_inv cm" "km_block cm = (km_block (kh_cm h))(a \<mapsto> 1)" "coremap_size cm < 2 ^ 19" by auto
  note B = km_block_bounds [OF A(2), of a 1, unfolded A(3), simplified]
  have al: "unat a mod PAGE_SIZE = 0" using B(2) by simp
  let ?h2 = "h\<lparr>pagerefs_inuse := ws, kh_cm := cm\<rparr>"
  obtain pr where pr: "PR_PAGEADDR pr = a" "PR_BLOCKTYPE pr = t"
    "next_samesize pr = sizebases h t" "next_all pr = allbase h" "nfree pr = bcount pr"
    "fresh_page p t a ?h2 = Some (?h2\<lparr>kh_mem := thread_blocks a (bsize pr) (bcount pr) (kh_mem h),
       pagerefs := (pagerefs h)(p := pr), sizebases := (sizebases h)(t := Some p), allbase := Some p\<rparr>)"
    "page_free (thread_blocks a (bsize pr) (bcount pr) (kh_mem h)) pr (rev [0..<bcount pr])"
    using fresh_page_free [OF t al, of ?h2 p] by auto
  define m where "m = thread_blocks a (bsize pr) (bcount pr) (kh_mem h)"
  define h3 where "h3 = ?h2\<lparr>kh_mem := m, pagerefs := (pagerefs h)(p := pr), sizebases := (sizebases h)(t := Some p), allbase := Some p\<rparr>"
  have T: "PR_BLOCKTYPE pr < NSIZES" using pr(2) t by simp
  define n where "n = bcount pr"
  have n: "2 \<le> n" using bsize_facts(3) [OF T] by (simp add: n_def)
  then have fs: "rev [0..<n] = (n - 1) # rev [0..<n - 1]" by (cases n) simp_all
  define pr' where "pr' = pr\<lparr>nfree := length (rev [0..<n - 1]), freelist_offset := head_offset pr (rev [0..<n - 1])\<rparr>"
  have same: "pageaddr_and_blocktype pr' = pageaddr_and_blocktype pr" "next_all pr' = allbase h" "next_samesize pr' = sizebases h t"
    using pr by (simp_all add: pr'_def)
  note S = same_pab [OF same(1)]
  have free: "page_free m pr ((n - 1) # rev [0..<n - 1])" using pr(7) fs by (simp add: m_def n_def)
  have pf: "page_free m pr' (rev [0..<n - 1])" unfolding pr'_def by (rule page_free_pop [OF free])
  have "PR_BLOCKTYPE pr' < NSIZES" "km_block cm (PR_PAGEADDR pr') = Some 1" "length (rev [0..<n - 1]) < bcount pr'"
    using T n A(3) unfolding S pr(1) n_def by simp_all
  note ok = page_free_ok [OF pf this]
  have out: "m x = kh_mem h x" if x: "page_no x \<noteq> page_no a" for x
    unfolding m_def
  proof (rule thread_blocks_out)
    show "0 < bcount pr" using n by (simp add: n_def)
    show "x \<noteq> a + of_nat (i * bsize pr)" if "i < bcount pr" for i
      using blk_page(1) [OF T that] x unfolding blk_def pr(1) by auto
  qed
  have others: "page_ok cm m (pagerefs h q)" "free_blocks m (pagerefs h q) = free_blocks (kh_mem h) (pagerefs h q)"
    "PR_PAGEADDR (pagerefs h q) \<noteq> a" if "pr_inuse h q" for q
  proof -
    note Q = pages_okD(6) [OF ps that]
    show ne: "PR_PAGEADDR (pagerefs h q) \<noteq> a" using page_okD(2) [OF Q] A(1) by auto
    then have "page_no (PR_PAGEADDR (pagerefs h q)) \<noteq> page_no a" using page_no_eq [OF PR_PAGEADDR_aligned al] by blast
    then have f: "page_ok (kh_cm h) m (pagerefs h q) \<and> free_blocks m (pagerefs h q) = free_blocks (kh_mem h) (pagerefs h q)"
      by (intro page_ok_frame [OF Q] out) simp
    then show "free_blocks m (pagerefs h q) = free_blocks (kh_mem h) (pagerefs h q)" by (rule conjunct2)
    show "page_ok cm m (pagerefs h q)" using conjunct1 [OF f] ne by (simp add: page_ok_def A(3))
  qed
  define h4 where "h4 = h3\<lparr>pagerefs := (pagerefs h)(p := pr')\<rparr>"
  have f4: "pagerefs h4 = (pagerefs h)(p := pr')" "allbase h4 = Some p" "sizebases h4 = (sizebases h)(t := Some p)" "kh_cm h4 = cm"
    "kh_mem h4 = m" "pagerefs_inuse h4 = ws" by (simp_all add: h4_def h3_def)
  have in4: "pr_inuse h4 q \<longleftrightarrow> q = p \<or> pr_inuse h q" for q using new(2) [of q] by (simp add: pr_inuse_def f4)
  have ps4: "pages_ok h4 (p # ps)"
    by (rule pages_ok_new [OF ps new(1) in4, where pr = pr']) (use f4 same S pr ok others in auto)
  have inv4: "kheap_inv h4" using ps4 A new(3) by (auto simp: kheap_inv_def f4)
  have "a \<noteq> 0" using B(2) by auto
  then have "doalloc p h3 = Some (blk pr (n - 1), h4)"
    using doalloc_pop [of pr h3 "n - 1" "rev [0..<n - 1]" p] T pr(1) free by (simp add: h3_def h4_def pr'_def)
  moreover have "fresh_page p t a ?h2 = Some h3" by (simp add: pr(6) h3_def m_def)
  moreover have fresh: "heap_map h x = None" if x: "page_no x = page_no a" for x
  proof -
    have "owner h x = None" using others(3) page_no_eq [OF PR_PAGEADDR_aligned al] x unfolding owner_None by metis
    moreover have "km_block (kh_cm h) x = None"
      using page_bound(3) [OF inv, of x] page_no_eq [OF _ al, of x] x A(1) by (cases "km_block (kh_cm h) x") auto
    ultimately show ?thesis by (simp add: heap_map_out)
  qed
  moreover have last: "page_no (blk pr (n - 1)) = page_no a" using blk_page(1) [OF T, of "n - 1"] n pr(1) by (simp add: n_def)
  have "heap_map h4 x = ((heap_map h)(blk pr (n - 1) \<mapsto> sizes ! t)) x" for x
  proof (cases "page_no a = page_no x")
    case True
    have "i < n \<and> i \<notin> set (rev [0..<n - 1]) \<longleftrightarrow> i = n - 1" for i using n by auto
    then have "(\<exists>i < n. x = blk pr i \<and> i \<notin> set (rev [0..<n - 1])) \<longleftrightarrow> x = blk pr (n - 1)" by metis
    then show ?thesis
      using heap_map_in [OF ps4, of p x] in4 [of p] f4 S ok(2) pr(1,2) True fresh [of x] by (simp add: n_def bsize_def)
  next
    case False
    then have "x \<noteq> blk pr (n - 1)" using last by auto
    moreover have "heap_map h4 x = heap_map h x"
    proof (cases "owner h x")
      case None
      then have "owner h4 x = None" using False in4 f4(1) S(1) pr(1) new(1) by (auto simp: owner_None)
      moreover have "km_block cm x = km_block (kh_cm h) x" using False A(3) by auto
      ultimately show ?thesis using None by (simp add: heap_map_out f4)
    next
      case (Some q)
      then have q: "pr_inuse h q" "page_no (PR_PAGEADDR (pagerefs h q)) = page_no x" using owner_Some [OF ps] by auto
      then have q': "q \<noteq> p" "pagerefs h4 q = pagerefs h q" "pr_inuse h4 q" using new(1) f4(1) in4 by auto
      show ?thesis using heap_map_in [OF ps q] heap_map_in [OF ps4 q'(3), unfolded q'(2), OF q(2)] others(2) [OF q(1)]
        by (simp only: f4 q')
    qed
    ultimately show ?thesis by simp
  qed
  moreover have "kept h h4 {}"
    unfolding kept_def f4
  proof (intro allI impI out notI)
    fix b l k
    assume b: "heap_map h b = Some l" and k: "k < l" and pg: "page_no (b + of_nat k) = page_no a"
    obtain H j where H: "km_block (kh_cm h) H = Some j" "bytes b l \<subseteq> bytes H (j * PAGE_SIZE)" using heap_block_home [OF inv ps b] .
    have "unat (b + of_nat k) \<in> bytes a (1 * PAGE_SIZE)"
      using same_page [OF al, of "unat (b + of_nat k)"] pg by (simp add: bytes_def)
    moreover have "H \<noteq> a" using H(1) A(1) by auto
    ultimately show False
      using km_blocks_disjoint [OF A(2), of H j a 1] H A(3) heap_block_fits(2) [OF inv ps b k] by auto
  qed
  ultimately show ?thesis using that inv4 last by (simp add: fun_eq_iff)
qed

section \<open>Whole pages\<close>

lemma pages_ok_cm:
  assumes ps: "pages_ok h ps" and cm: "\<And>q. pr_inuse h q \<Longrightarrow> km_block cm (PR_PAGEADDR (pagerefs h q)) = km_block (kh_cm h) (PR_PAGEADDR (pagerefs h q))"
  shows "pages_ok (h\<lparr>kh_cm := cm\<rparr>) ps"
proof -
  have pr: "pr_inuse (h\<lparr>kh_cm := cm\<rparr>) = pr_inuse h" by (simp add: pr_inuse_def fun_eq_iff)
  have "page_ok cm (kh_mem h) (pagerefs h q)" if "pr_inuse h q" for q
    using pages_okD(6) [OF ps that] cm [OF that] by (simp add: page_ok_def)
  then show ?thesis using ps unfolding pages_ok_def pr by (elim conjE) simp
qed

lemma heap_map_cm:
  "heap_map (h\<lparr>kh_cm := cm\<rparr>) b = (if owner h b = None then map_option (\<lambda>n. n * PAGE_SIZE) (km_block cm b) else heap_map h b)"
  by (auto simp: heap_map_def owner_def pr_inuse_def split: option.split)

lemma kmalloc_large:
  assumes inv: "kheap_inv h" and a: "alloc_kpages n (kh_cm h) = Some (a, cm)"
  shows "a \<noteq> 0" "kheap_inv (h\<lparr>kh_cm := cm\<rparr>)" "heap_map h a = None" "heap_map (h\<lparr>kh_cm := cm\<rparr>) = (heap_map h)(a \<mapsto> n * PAGE_SIZE)"
    "owner h a = None"
proof -
  from inv obtain ps where ps: "pages_ok h ps" and cm: "coremap_inv (kh_cm h)" "coremap_size (kh_cm h) < 2 ^ 19"
    by (auto simp: kheap_inv_def)
  from kp.alloc_ok [OF cm(1) a] alloc_kpages_size [OF cm(1) a] cm(2)
  have A: "km_block (kh_cm h) a = None" "coremap_inv cm" "km_block cm = (km_block (kh_cm h))(a \<mapsto> n)" "coremap_size cm < 2 ^ 19" by auto
  note B = km_block_bounds [OF A(2), of a n, unfolded A(3), simplified]
  show "a \<noteq> 0" using B(2) by auto
  have al: "unat a mod PAGE_SIZE = 0" using B(2) by simp
  have ne: "PR_PAGEADDR (pagerefs h q) \<noteq> a" if "pr_inuse h q" for q
    using page_okD(2) [OF pages_okD(6) [OF ps that]] A(1) by auto
  have "pages_ok (h\<lparr>kh_cm := cm\<rparr>) ps" by (rule pages_ok_cm [OF ps]) (use ne A(3) in auto)
  then show "kheap_inv (h\<lparr>kh_cm := cm\<rparr>)" using inv A by (auto simp: kheap_inv_def)
  show own: "owner h a = None" using ne page_no_eq [OF PR_PAGEADDR_aligned al] unfolding owner_None by metis
  then show "heap_map h a = None" using A(1) by (simp add: heap_map_out)
  show "heap_map (h\<lparr>kh_cm := cm\<rparr>) = (heap_map h)(a \<mapsto> n * PAGE_SIZE)"
    using own A(3) by (auto simp: heap_map_cm fun_eq_iff heap_map_out)
qed

lemma kfree_large:
  assumes inv: "kheap_inv h" and a: "owner h a = None" "km_block (kh_cm h) a = Some n"
  obtains cm where "free_kpages a (kh_cm h) = Some cm" "kheap_inv (h\<lparr>kh_cm := cm\<rparr>)" "heap_map (h\<lparr>kh_cm := cm\<rparr>) = (heap_map h)(a := None)"
proof -
  from inv obtain ps where ps: "pages_ok h ps" and cm: "coremap_inv (kh_cm h)" by (auto simp: kheap_inv_def)
  from kp.release_ok [OF cm a(2)] obtain cm' where c: "free_kpages a (kh_cm h) = Some cm'" "coremap_inv cm'"
    "km_block cm' = (km_block (kh_cm h))(a := None)" by blast
  from a(1) have ne: "PR_PAGEADDR (pagerefs h q) \<noteq> a" if "pr_inuse h q" for q using that by (auto simp: owner_None)
  have "pages_ok (h\<lparr>kh_cm := cm'\<rparr>) ps" by (rule pages_ok_cm [OF ps]) (use ne c(3) in auto)
  then have "kheap_inv (h\<lparr>kh_cm := cm'\<rparr>)" using inv c free_kpages_size [OF c(1)] by (auto simp: kheap_inv_def)
  moreover have "heap_map (h\<lparr>kh_cm := cm'\<rparr>) = (heap_map h)(a := None)"
    using a(1) c(3) by (auto simp: heap_map_cm fun_eq_iff heap_map_out)
  ultimately show ?thesis using that c(1) by blast
qed

section \<open>kmalloc\<close>

lemma subpage_kmalloc_ok:
  assumes inv: "kheap_inv h" and sz: "sz < LARGEST_SUBPAGE_SIZE"
  obtains (stuck) "subpage_kmalloc sz h = None" "alloc_kpages 1 (kh_cm h) = None"
  | (full) "subpage_kmalloc sz h = Some (None, h)" "\<forall>p < NPAGEREFS. pr_inuse h p"
  | (block) a n h' where "subpage_kmalloc sz h = Some (Some a, h')" "kheap_inv h'" "heap_map h a = None" "sz \<le> n"
      "heap_map h' = (heap_map h)(a \<mapsto> n)" "kept h h' {}"
proof -
  from inv obtain ps where ps: "pages_ok h ps" and len: "length (pagerefs_inuse h) = INUSE_WORDS" by (auto simp: kheap_inv_def)
  obtain t where t: "blocktype sz = Some t" "t < NSIZES" "sz \<le> sizes ! t" using blocktype_fits [OF sz] .
  note P = pages_okD [OF ps]
  let ?xs = "filter (\<lambda>p. PR_BLOCKTYPE (pagerefs h p) = t) ps"
  have page: "find_page (pagerefs h) t (sizebases h t) = Some (find (\<lambda>p. nfree (pagerefs h p) > 0) ?xs)"
    by (rule find_page_chain [OF P(4) [OF t(2)]]) auto
  show ?thesis
  proof (cases "find (\<lambda>p. nfree (pagerefs h p) > 0) ?xs")
    case (Some p)
    then have "p \<in> set ?xs" "nfree (pagerefs h p) > 0" by (auto simp: find_Some_iff simp del: set_filter dest: nth_mem)
    then have p: "pr_inuse h p" "0 < nfree (pagerefs h p)" "bsize (pagerefs h p) = sizes ! t" using P(2) by (auto simp: bsize_def)
    obtain a h' where "doalloc p h = Some (a, h')" "kheap_inv h'" "heap_map h a = None"
      "heap_map h' = (heap_map h)(a \<mapsto> bsize (pagerefs h p))" "kh_mem h' = kh_mem h" using doalloc_ok [OF inv ps p(1,2)] .
    then show ?thesis using block [of a h' "sizes ! t"] page Some t p(3) by (simp add: subpage_kmalloc_def)
  next
    case None
    from len show ?thesis
    proof (cases rule: allocpageref_cases)
      case 1: full
      then show ?thesis using full page None t by (simp add: subpage_kmalloc_def)
    next
      case (found p ws)
      show ?thesis
      proof (cases "alloc_kpages 1 (kh_cm h)")
        case no: None
        then show ?thesis using stuck page None t found(1) by (simp add: subpage_kmalloc_def)
      next
        case (Some r)
        obtain a cm where r: "alloc_kpages 1 (kh_cm h) = Some (a, cm)" using Some by (cases r) simp
        obtain h3 b h4 where f: "fresh_page p t a (h\<lparr>pagerefs_inuse := ws, kh_cm := cm\<rparr>) = Some h3" "doalloc p h3 = Some (b, h4)" "kheap_inv h4"
          "heap_map h b = None" "heap_map h4 = (heap_map h)(b \<mapsto> sizes ! t)" "kept h h4 {}"
          using fresh_block_ok [OF inv ps t(2) found(3,4,2) r] .
        have "subpage_kmalloc sz h = Some (Some b, h4)"
          using page None t found(1) r f(1,2) kmalloc_large(1) [OF inv r] by (simp add: subpage_kmalloc_def)
        then show ?thesis using block [of b h4 "sizes ! t"] f t(3) by simp
      qed
    qed
  qed
qed

lemma round_up:
  assumes "sz < 2 ^ 32" "0 < (sz + PAGE_SIZE - 1) mod 2 ^ 32 div PAGE_SIZE"
  shows "sz \<le> (sz + PAGE_SIZE - 1) mod 2 ^ 32 div PAGE_SIZE * PAGE_SIZE"
proof (cases "sz + PAGE_SIZE - 1 < 2 ^ 32")
  case True
  then have "(sz + PAGE_SIZE - 1) mod 2 ^ 32 = sz + PAGE_SIZE - 1" by simp
  moreover have "sz + PAGE_SIZE - 1 = (sz + PAGE_SIZE - 1) div PAGE_SIZE * PAGE_SIZE + (sz + PAGE_SIZE - 1) mod PAGE_SIZE"
    by (rule div_mult_mod_eq [symmetric])
  moreover have "(sz + PAGE_SIZE - 1) mod PAGE_SIZE < PAGE_SIZE" by simp
  ultimately show ?thesis by linarith
next
  case False
  then have "(sz + PAGE_SIZE - 1) mod 2 ^ 32 = sz + PAGE_SIZE - 1 - 2 ^ 32" using assms(1) by (simp add: mod_if)
  with assms show ?thesis by simp
qed

lemma kmalloc_ok:
  assumes inv: "kheap_inv h"
  obtains (stuck) "kmalloc sz h = None"
      "alloc_kpages (if sz < LARGEST_SUBPAGE_SIZE then 1 else (sz + PAGE_SIZE - 1) mod 2 ^ 32 div PAGE_SIZE) (kh_cm h) = None"
  | (full) "kmalloc sz h = Some (None, h)" "\<forall>p < NPAGEREFS. pr_inuse h p"
  | (block) a n h' where "kmalloc sz h = Some (Some a, h')" "kheap_inv h'" "heap_map h a = None" "sz < 2 ^ 32 \<Longrightarrow> sz \<le> n"
      "heap_map h' = (heap_map h)(a \<mapsto> n)" "kept h h' {}"
proof (cases "sz < LARGEST_SUBPAGE_SIZE")
  case True
  then have k: "kmalloc sz h = subpage_kmalloc sz h" by (simp add: kmalloc_def)
  from inv True show ?thesis
  proof (cases rule: subpage_kmalloc_ok)
    case 1: stuck
    then show ?thesis using stuck k True by simp
  next
    case 2: full
    then show ?thesis using full k by simp
  next
    case (block a n h')
    then show ?thesis using that(3) [of a h' n] k by simp
  qed
next
  case False
  let ?n = "(sz + PAGE_SIZE - 1) mod 2 ^ 32 div PAGE_SIZE"
  show ?thesis
  proof (cases "alloc_kpages ?n (kh_cm h)")
    case None
    then show ?thesis using stuck False by (simp add: kmalloc_def Let_def)
  next
    case (Some r)
    obtain a cm where r: "alloc_kpages ?n (kh_cm h) = Some (a, cm)" using Some by (cases r) simp
    note L = kmalloc_large [OF inv r]
    have n: "sz \<le> ?n * PAGE_SIZE" if "sz < 2 ^ 32"
    proof (rule round_up [OF that])
      show "0 < ?n" using r by (cases "?n = 0") (simp_all add: alloc_kpages_def coremap_getpages_def)
    qed
    have "kmalloc sz h = Some (Some a, h\<lparr>kh_cm := cm\<rparr>)" using False r L(1) by (simp add: kmalloc_def Let_def)
    then show ?thesis using block [of a "h\<lparr>kh_cm := cm\<rparr>" "?n * PAGE_SIZE"] L n by simp
  qed
qed

section \<open>Removing a page\<close>

definition relinked :: "(nat \<Rightarrow> pageref) \<Rightarrow> (nat \<Rightarrow> pageref) \<Rightarrow> bool" where
  \<comment> \<open>the page references differ in their links only\<close>
  "relinked prs prs' \<longleftrightarrow> (\<forall>q. pageaddr_and_blocktype (prs' q) = pageaddr_and_blocktype (prs q) \<and>
     freelist_offset (prs' q) = freelist_offset (prs q) \<and> nfree (prs' q) = nfree (prs q))"

lemma filter_absent: "p \<notin> set xs \<Longrightarrow> filter (\<lambda>q. q \<noteq> p) xs = xs"
  by (induction xs) auto

lemma filter_out: "distinct (us @ g # p # vs) \<Longrightarrow> filter (\<lambda>q. q \<noteq> p) (us @ g # p # vs) = us @ g # vs"
  by (simp add: filter_absent)

lemma remove_samesize_ok:
  assumes ps: "distinct ps" "p \<in> set ps" "PR_BLOCKTYPE (pagerefs h p) = t" "t < NSIZES"
    and chains: "\<And>u. u < NSIZES \<Longrightarrow>
      chain (\<lambda>q. next_samesize (pagerefs h q)) (sizebases h u) (filter (\<lambda>q. PR_BLOCKTYPE (pagerefs h q) = u) ps)"
  obtains prs sb where "remove_samesize p t h = Some (h\<lparr>pagerefs := prs, sizebases := sb\<rparr>)"
    "relinked (pagerefs h) prs" "\<And>q. next_all (prs q) = next_all (pagerefs h q)"
    "\<And>u. u < NSIZES \<Longrightarrow> chain (\<lambda>q. next_samesize (prs q)) (sb u)
       (filter (\<lambda>q. PR_BLOCKTYPE (pagerefs h q) = u) (filter (\<lambda>q. q \<noteq> p) ps))"
proof -
  let ?nx = "\<lambda>q. next_samesize (pagerefs h q)"
  let ?l = "\<lambda>u. filter (\<lambda>q. PR_BLOCKTYPE (pagerefs h q) = u) ps"
  have swap: "filter (\<lambda>q. PR_BLOCKTYPE (pagerefs h q) = u) (filter (\<lambda>q. q \<noteq> p) ps) = filter (\<lambda>q. q \<noteq> p) (?l u)" for u
    by (simp add: conj_commute)
  have other: "filter (\<lambda>q. q \<noteq> p) (?l u) = ?l u" if "u \<noteq> t" for u using that ps(3) by (intro filter_absent) auto
  have l: "distinct (?l t)" "p \<in> set (?l t)" using ps by auto
  from chains [OF ps(4)] l show ?thesis
  proof (cases rule: find_guy_chain [where guy = None])
    case (head ys)
    have ys: "filter (\<lambda>q. q \<noteq> p) (?l t) = ys" using head(1) l(1) by (simp add: filter_absent)
    let ?sb = "(sizebases h)(t := ?nx p)"
    have "chain ?nx (?sb u) (filter (\<lambda>q. q \<noteq> p) (?l u))" if "u < NSIZES" for u
      using chains [OF that] head(3) ys other by (cases "u = t") auto
    then show ?thesis using that [where prs = "pagerefs h" and sb = ?sb] head(2) swap by (simp add: remove_samesize_def relinked_def)
  next
    case (inner us g vs)
    have vs: "filter (\<lambda>q. q \<noteq> p) (?l t) = us @ g # vs" using filter_out inner(1) l(1) by metis
    have g: "g \<in> set (?l t)" using inner(1) by simp
    let ?prs = "(pagerefs h)(g := (pagerefs h g)\<lparr>next_samesize := ?nx p\<rparr>)"
    have nx: "(\<lambda>q. next_samesize (?prs q)) = ?nx(g := ?nx p)" by auto
    have "chain (\<lambda>q. next_samesize (?prs q)) (sizebases h u) (filter (\<lambda>q. q \<noteq> p) (?l u))" if "u < NSIZES" for u
    proof (cases "u = t")
      case True
      then show ?thesis using inner(3) vs nx by simp
    next
      case False
      then have "g \<notin> set (?l u)" using g by auto
      then show ?thesis using chains [OF that] other [OF False] nx by simp
    qed
    moreover have "relinked (pagerefs h) ?prs" "next_all (?prs q) = next_all (pagerefs h q)" for q by (simp_all add: relinked_def)
    moreover have "remove_samesize p t h = Some (h\<lparr>pagerefs := ?prs, sizebases := sizebases h\<rparr>)" using inner(2) by (simp add: remove_samesize_def)
    ultimately show ?thesis using that [where prs = ?prs and sb = "sizebases h"] swap by simp
  qed
qed

lemma remove_all_ok:
  assumes ps: "distinct ps" "p \<in> set ps" and all: "chain (\<lambda>q. next_all (pagerefs h q)) (allbase h) ps"
  obtains prs ab where "remove_all p h = Some (h\<lparr>pagerefs := prs, allbase := ab\<rparr>)"
    "relinked (pagerefs h) prs" "\<And>q. next_samesize (prs q) = next_samesize (pagerefs h q)" "chain (\<lambda>q. next_all (prs q)) ab (filter (\<lambda>q. q \<noteq> p) ps)"
proof -
  let ?nx = "\<lambda>q. next_all (pagerefs h q)"
  from all ps show ?thesis
  proof (cases rule: find_guy_chain [where guy = None])
    case (head ys)
    have ys: "filter (\<lambda>q. q \<noteq> p) ps = ys" using head(1) ps(1) by (simp add: filter_absent)
    then show ?thesis using that [where prs = "pagerefs h" and ab = "?nx p"] head(2,3) by (simp add: remove_all_def relinked_def)
  next
    case (inner us g vs)
    have vs: "filter (\<lambda>q. q \<noteq> p) ps = us @ g # vs" using filter_out inner(1) ps(1) by metis
    let ?prs = "(pagerefs h)(g := (pagerefs h g)\<lparr>next_all := ?nx p\<rparr>)"
    have "(\<lambda>q. next_all (?prs q)) = ?nx(g := ?nx p)" by auto
    then show ?thesis using that [where prs = ?prs and ab = "allbase h"] inner(2,3) vs by (simp add: remove_all_def relinked_def)
  qed
qed

lemma remove_lists_ok:
  assumes ps: "distinct ps" "p \<in> set ps" "PR_BLOCKTYPE (pagerefs h p) = t" "t < NSIZES"
    and all: "chain (\<lambda>q. next_all (pagerefs h q)) (allbase h) ps"
    and chains: "\<And>u. u < NSIZES \<Longrightarrow>
      chain (\<lambda>q. next_samesize (pagerefs h q)) (sizebases h u) (filter (\<lambda>q. PR_BLOCKTYPE (pagerefs h q) = u) ps)"
  obtains prs sb ab where "remove_lists p t h = Some (h\<lparr>pagerefs := prs, sizebases := sb, allbase := ab\<rparr>)"
    "relinked (pagerefs h) prs"
    "chain (\<lambda>q. next_all (prs q)) ab (filter (\<lambda>q. q \<noteq> p) ps)"
    "\<And>u. u < NSIZES \<Longrightarrow> chain (\<lambda>q. next_samesize (prs q)) (sb u) (filter (\<lambda>q. PR_BLOCKTYPE (pagerefs h q) = u) (filter (\<lambda>q. q \<noteq> p) ps))"
proof (rule remove_samesize_ok [OF ps chains])
  fix prs sb
  assume s: "remove_samesize p t h = Some (h\<lparr>pagerefs := prs, sizebases := sb\<rparr>)"
    "relinked (pagerefs h) prs" "\<And>q. next_all (prs q) = next_all (pagerefs h q)"
    "\<And>u. u < NSIZES \<Longrightarrow> chain (\<lambda>q. next_samesize (prs q)) (sb u)
       (filter (\<lambda>q. PR_BLOCKTYPE (pagerefs h q) = u) (filter (\<lambda>q. q \<noteq> p) ps))"
  let ?h = "h\<lparr>pagerefs := prs, sizebases := sb\<rparr>"
  have all': "chain (\<lambda>q. next_all (pagerefs ?h q)) (allbase ?h) ps" using all by (simp add: s(3))
  show ?thesis
  proof (rule remove_all_ok [OF ps(1,2) all'])
    fix prs' ab
    assume a: "remove_all p ?h = Some (?h\<lparr>pagerefs := prs', allbase := ab\<rparr>)"
      "relinked (pagerefs ?h) prs'" "\<And>q. next_samesize (prs' q) = next_samesize (pagerefs ?h q)"
      "chain (\<lambda>q. next_all (prs' q)) ab (filter (\<lambda>q. q \<noteq> p) ps)"
    have "relinked (pagerefs h) prs'" using a(2) s(2) by (simp add: relinked_def)
    moreover have "remove_lists p t h = Some (h\<lparr>pagerefs := prs', sizebases := sb, allbase := ab\<rparr>)"
      using s(1) a(1) ps(4) by (simp add: remove_lists_def)
    moreover have "chain (\<lambda>q. next_samesize (prs' q)) (sb u) (filter (\<lambda>q. PR_BLOCKTYPE (pagerefs h q) = u) (filter (\<lambda>q. q \<noteq> p) ps))"
      if "u < NSIZES" for u using s(4) [OF that] a(3) by simp
    ultimately show ?thesis using that a(4) by blast
  qed
qed

section \<open>Giving a block back\<close>

definition freed_mem :: "pageref \<Rightarrow> nat \<Rightarrow> (addr \<Rightarrow> addr) \<Rightarrow> addr \<Rightarrow> addr" where
  \<comment> \<open>memory after \<open>subpage_kfree\<close> has filled block \<open>i\<close> and linked it into the free list\<close>
  "freed_mem pr i m = (fill_deadbeef (blk pr i) (bsize pr) m)
     (blk pr i := if freelist_offset pr = INVALID_OFFSET then 0 else PR_PAGEADDR pr + of_nat (freelist_offset pr))"

definition freed_ref :: "pageref \<Rightarrow> nat \<Rightarrow> pageref" where
  "freed_ref pr i = pr\<lparr>freelist_offset := i * bsize pr, nfree := nfree pr + 1\<rparr>"

lemma freed_ref_simps [simp]:
  "pageaddr_and_blocktype (freed_ref pr i) = pageaddr_and_blocktype pr" "next_all (freed_ref pr i) = next_all pr"
  "next_samesize (freed_ref pr i) = next_samesize pr" "nfree (freed_ref pr i) = nfree pr + 1"
  by (simp_all add: freed_ref_def)

lemma freed_mem_out:
  assumes t: "PR_BLOCKTYPE pr < NSIZES" and i: "i < bcount pr" and x: "unat x \<notin> bytes (blk pr i) (bsize pr)"
  shows "freed_mem pr i m x = m x"
proof -
  note F = bsize_facts [OF t]
  have "x \<noteq> blk pr i + of_nat (4 * k)" if k: "k < bsize pr div 4" for k
  proof
    assume e: "x = blk pr i + of_nat (4 * k)"
    have "i * bsize pr + 4 * k < PAGE_SIZE" using block_end [OF t i] k by linarith
    then have "unat (PR_PAGEADDR pr + of_nat (i * bsize pr + 4 * k)) = unat (PR_PAGEADDR pr) + (i * bsize pr + 4 * k)"
      by (intro page_offset) simp_all
    then have "unat x = unat (blk pr i) + 4 * k" using unat_blk [OF t i] unfolding e blk_def by (simp add: add.assoc)
    with k x show False by (simp add: bytes_def)
  qed
  moreover have "x \<noteq> blk pr i" using x F(1) by (auto simp: bytes_def)
  ultimately show ?thesis by (simp add: freed_mem_def fill_deadbeef_out del: of_nat_mult)
qed

lemma blk_bytes_page:
  assumes "PR_BLOCKTYPE pr < NSIZES" "i < bcount pr" "unat x \<in> bytes (blk pr i) (bsize pr)"
  shows "page_no x = page_no (PR_PAGEADDR pr)"
  using same_page [OF PR_PAGEADDR_aligned, of pr "unat x"] unat_blk [OF assms(1,2)] block_end [OF assms(1,2)] assms(3)
  by (auto simp: bytes_def)

lemma freed_page:
  assumes t: "PR_BLOCKTYPE pr < NSIZES" and free: "page_free m pr fs" and i: "i < bcount pr" "i \<notin> set fs"
  shows "page_free (freed_mem pr i m) (freed_ref pr i) (i # fs)"
  unfolding freed_ref_def
proof (rule page_free_push [OF free i(2,1)])
  from free have f: "freelist_offset pr = head_offset pr fs" "set fs \<subseteq> {..<bcount pr}" by (simp_all add: page_free_def)
  show "freed_mem pr i m (blk pr j) = m (blk pr j)" if j: "j \<in> set fs" for j
  proof (rule freed_mem_out [OF t i(1)])
    from j f(2) i(2) have "j < bcount pr" "j \<noteq> i" by auto
    then have "{unat (PR_PAGEADDR pr) + j * bsize pr..<unat (PR_PAGEADDR pr) + j * bsize pr + bsize pr} \<inter>
      {unat (PR_PAGEADDR pr) + i * bsize pr..<unat (PR_PAGEADDR pr) + i * bsize pr + bsize pr} = {}" by (intro multiples_disjoint)
    moreover have "unat (PR_PAGEADDR pr) + j * bsize pr \<in> {unat (PR_PAGEADDR pr) + j * bsize pr..<unat (PR_PAGEADDR pr) + j * bsize pr + bsize pr}"
      using bsize_facts(1) [OF t] by simp
    ultimately show "unat (blk pr j) \<notin> bytes (blk pr i) (bsize pr)"
      unfolding bytes_def unat_blk [OF t i(1)] unat_blk [OF t \<open>j < bcount pr\<close>] by blast
  qed
  show "freed_mem pr i m (blk pr i) = (if fs = [] then 0 else blk pr (hd fs))"
  proof (cases fs)
    case Nil
    then show ?thesis using f(1) by (simp add: freed_mem_def head_offset_def)
  next
    case (Cons j gs)
    with f(2) have "j * bsize pr < PAGE_SIZE" using blk_offset(2) [OF t, of j] by simp
    then show ?thesis using f(1) Cons by (simp add: freed_mem_def head_offset_def blk_def)
  qed
qed

lemma page_ok_relinked:
  assumes "pageaddr_and_blocktype pr' = pageaddr_and_blocktype pr" "freelist_offset pr' = freelist_offset pr" "nfree pr' = nfree pr"
  shows "page_ok cm m pr' \<longleftrightarrow> page_ok cm m pr" "free_blocks m pr' = free_blocks m pr"
proof -
  note S = same_pab [OF assms(1)]
  have "walk_free m pr' n k = walk_free m pr n k" for n k by (induction n arbitrary: k) (simp_all add: S)
  then show f: "free_blocks m pr' = free_blocks m pr" by (simp add: free_blocks_def assms)
  show "page_ok cm m pr' \<longleftrightarrow> page_ok cm m pr"
    unfolding page_ok_def page_free_def f S links_same_pab [OF assms(1)] assms ..
qed

text \<open>A block in use, and what is known of its page.\<close>

lemma subpage_kfree_steps:
  assumes inv: "kheap_inv h" and ps: "pages_ok h ps" and p: "pr_inuse h p" and i: "i < bcount (pagerefs h p)"
    and own: "owner h (blk (pagerefs h p) i) = Some p" and nf: "nfree (pagerefs h p) < bcount (pagerefs h p)"
  shows "subpage_kfree (blk (pagerefs h p) i) h =
    (let h1 = h\<lparr>kh_mem := freed_mem (pagerefs h p) i (kh_mem h), pagerefs := (pagerefs h)(p := freed_ref (pagerefs h p) i)\<rparr> in
     if nfree (pagerefs h p) + 1 = bcount (pagerefs h p) then do {
       h2 \<leftarrow> remove_lists p (PR_BLOCKTYPE (pagerefs h p)) h1;
       cm \<leftarrow> free_kpages (PR_PAGEADDR (pagerefs h p)) (kh_cm h2);
       h3 \<leftarrow> freepageref p (h2\<lparr>kh_cm := cm\<rparr>);
       Some (True, h3)
     }
     else Some (True, h1))"
proof -
  let ?pr = "pagerefs h p"
  note O = page_okD [OF pages_okD(6) [OF ps p]]
  have off: "unat (blk ?pr i - PR_PAGEADDR ?pr) = i * bsize ?pr" "i * bsize ?pr < PAGE_SIZE" using blk_offset [OF O(1) i] by simp_all
  have nle: "\<not> PAGE_SIZE \<le> i * bsize ?pr" using off(2) by simp
  have fl: "PR_PAGEADDR ?pr + of_nat (i * bsize ?pr) = blk ?pr i" by (simp only: blk_def)
  have "sizes ! PR_BLOCKTYPE ?pr = bsize ?pr" "PAGE_SIZE div sizes ! PR_BLOCKTYPE ?pr = bcount ?pr" by (simp_all add: bsize_def bcount_def)
  then show ?thesis
    using find_owner_eq [OF inv ps, of "blk ?pr i"] own nf
    unfolding subpage_kfree_def Let_def freed_mem_def freed_ref_def
    by (simp only: off(1) fl bind.bind_lunit option.case) (simp add: nle)
qed

lemma freed_others:
  assumes ps: "pages_ok h ps" and p: "pr_inuse h p" and i: "i < bcount (pagerefs h p)" and q: "pr_inuse h q" "q \<noteq> p"
  defines "m \<equiv> freed_mem (pagerefs h p) i (kh_mem h)"
  shows "page_ok (kh_cm h) m (pagerefs h q)" "free_blocks m (pagerefs h q) = free_blocks (kh_mem h) (pagerefs h q)"
    "page_no (PR_PAGEADDR (pagerefs h q)) \<noteq> page_no (PR_PAGEADDR (pagerefs h p))"
proof -
  note O = page_okD [OF pages_okD(6) [OF ps p]]
  show ne: "page_no (PR_PAGEADDR (pagerefs h q)) \<noteq> page_no (PR_PAGEADDR (pagerefs h p))"
    using pages_okD(5) [OF ps q(1) p] q(2) page_no_eq [OF PR_PAGEADDR_aligned PR_PAGEADDR_aligned] by blast
  have "page_ok (kh_cm h) m (pagerefs h q) \<and> free_blocks m (pagerefs h q) = free_blocks (kh_mem h) (pagerefs h q)"
  proof (rule page_ok_frame [OF pages_okD(6) [OF ps q(1)]])
    fix x
    assume "page_no x = page_no (PR_PAGEADDR (pagerefs h q))"
    with ne blk_bytes_page [OF O(1) i, of x] show "m x = kh_mem h x" unfolding m_def by (intro freed_mem_out [OF O(1) i]) auto
  qed
  then show "page_ok (kh_cm h) m (pagerefs h q)" "free_blocks m (pagerefs h q) = free_blocks (kh_mem h) (pagerefs h q)" by simp_all
qed

lemma freed_kept:
  assumes inv: "kheap_inv h" and ps: "pages_ok h ps" and p: "pr_inuse h p" and i: "i < bcount (pagerefs h p)"
    and blk: "heap_map h (blk (pagerefs h p) i) = Some (bsize (pagerefs h p))"
    and m: "kh_mem h' = freed_mem (pagerefs h p) i (kh_mem h)"
  shows "kept h h' {blk (pagerefs h p) i}"
  unfolding kept_def m
proof (intro allI impI)
  fix b n k
  assume b: "heap_map h b = Some n" and ne: "b \<notin> {blk (pagerefs h p) i}" and k: "k < n"
  note O = page_okD [OF pages_okD(6) [OF ps p]]
  have "unat (b + of_nat k) \<notin> bytes (blk (pagerefs h p) i) (bsize (pagerefs h p))"
    using heap_blocks_disjoint [OF inv b blk] ne heap_block_fits(2) [OF inv ps b k] by auto
  then show "freed_mem (pagerefs h p) i (kh_mem h) (b + of_nat k) = kh_mem h (b + of_nat k)" by (rule freed_mem_out [OF O(1) i])
qed

lemma kfree_keeps_page:
  assumes inv: "kheap_inv h" and ps: "pages_ok h ps" and p: "pr_inuse h p" and i: "i < bcount (pagerefs h p)"
    and used: "i \<notin> set (free_blocks (kh_mem h) (pagerefs h p))" and nf: "nfree (pagerefs h p) + 1 < bcount (pagerefs h p)"
  defines "h1 \<equiv> h\<lparr>kh_mem := freed_mem (pagerefs h p) i (kh_mem h), pagerefs := (pagerefs h)(p := freed_ref (pagerefs h p) i)\<rparr>"
  shows "kheap_inv h1" "heap_map h1 = (heap_map h)(blk (pagerefs h p) i := None)"
proof -
  let ?pr = "pagerefs h p" and ?m = "freed_mem (pagerefs h p) i (kh_mem h)" and ?fs = "free_blocks (kh_mem h) (pagerefs h p)"
  note O = page_okD [OF pages_okD(6) [OF ps p]]
  have pab: "pageaddr_and_blocktype (freed_ref ?pr i) = pageaddr_and_blocktype ?pr" by simp
  note S = same_pab [OF pab]
  have pf: "page_free ?m (freed_ref ?pr i) (i # ?fs)" by (rule freed_page [OF O(1,3) i used])
  have "PR_BLOCKTYPE (freed_ref ?pr i) < NSIZES" "km_block (kh_cm h) (PR_PAGEADDR (freed_ref ?pr i)) = Some 1"
    "length (i # ?fs) < bcount (freed_ref ?pr i)"
    using O nf unfolding S by (simp_all add: page_free_def)
  note ok = page_free_ok [OF pf this]
  have ps1: "pages_ok h1 ps" unfolding h1_def
    by (rule pages_ok_upd [OF ps p _ _ _ ok(1)]) (use freed_others [OF ps p i] in simp_all)
  then show "kheap_inv h1" using inv by (auto simp: kheap_inv_def h1_def)
  show "heap_map h1 = (heap_map h)(blk ?pr i := None)"
  proof
    fix x
    have new: "heap_map h1 x = (if page_no (PR_PAGEADDR ?pr) = page_no x
      then (if \<exists>j < bcount ?pr. x = blk ?pr j \<and> j \<notin> set (i # ?fs) then Some (bsize ?pr) else None) else heap_map h x)"
      using heap_map_upd [OF ps p pab ps1 [unfolded h1_def] freed_others(2) [OF ps p i]] unfolding ok(2) h1_def by blast
    show "heap_map h1 x = ((heap_map h)(blk ?pr i := None)) x"
    proof (cases "page_no (PR_PAGEADDR ?pr) = page_no x")
      case True
      then show ?thesis unfolding new using heap_map_in [OF ps p True] blk_inj [OF O(1) _ i] by auto
    next
      case False
      then show ?thesis unfolding new using blk_page(1) [OF O(1) i] by auto
    qed
  qed
qed

lemma pages_ok_del:
  assumes ps: "pages_ok h ps" and p: "pr_inuse h p" and i: "i < bcount (pagerefs h p)"
    and h': "\<And>q. pr_inuse h' q \<longleftrightarrow> q \<noteq> p \<and> pr_inuse h q" "kh_mem h' = freed_mem (pagerefs h p) i (kh_mem h)"
      "km_block (kh_cm h') = (km_block (kh_cm h))(PR_PAGEADDR (pagerefs h p) := None)"
    and same: "\<And>q. q \<noteq> p \<Longrightarrow> pageaddr_and_blocktype (pagerefs h' q) = pageaddr_and_blocktype (pagerefs h q) \<and>
      freelist_offset (pagerefs h' q) = freelist_offset (pagerefs h q) \<and> nfree (pagerefs h' q) = nfree (pagerefs h q)"
    and all: "chain (\<lambda>q. next_all (pagerefs h' q)) (allbase h') (filter (\<lambda>q. q \<noteq> p) ps)"
    and sizes: "\<And>u. u < NSIZES \<Longrightarrow> chain (\<lambda>q. next_samesize (pagerefs h' q)) (sizebases h' u)
      (filter (\<lambda>q. PR_BLOCKTYPE (pagerefs h q) = u) (filter (\<lambda>q. q \<noteq> p) ps))"
  shows "pages_ok h' (filter (\<lambda>q. q \<noteq> p) ps)"
proof -
  let ?ps = "filter (\<lambda>q. q \<noteq> p) ps"
  note P = pages_okD [OF ps]
  have pab: "PR_PAGEADDR (pagerefs h' q) = PR_PAGEADDR (pagerefs h q)" "PR_BLOCKTYPE (pagerefs h' q) = PR_BLOCKTYPE (pagerefs h q)"
    if "q \<noteq> p" for q using same_pab(1,2) [OF conjunct1 [OF same [OF that]]] .
  have filt: "filter (\<lambda>q. PR_BLOCKTYPE (pagerefs h' q) = u) ?ps = filter (\<lambda>q. PR_BLOCKTYPE (pagerefs h q) = u) ?ps" for u
    using pab(2) by (intro filter_cong) auto
  have "page_ok (kh_cm h') (kh_mem h') (pagerefs h' q)" if q: "q \<in> set ?ps" for q
  proof -
    from q P(2) have q': "pr_inuse h q" "q \<noteq> p" by auto
    note F = freed_others [OF ps p i q']
    have "page_ok (kh_cm h') (kh_mem h') (pagerefs h q)" using F(1,3) unfolding page_ok_def h' by auto
    then show ?thesis using page_ok_relinked(1) [of "pagerefs h' q" "pagerefs h q" "kh_cm h'" "kh_mem h'"] same [OF q'(2)] by simp
  qed
  moreover have "inj_on (\<lambda>q. PR_PAGEADDR (pagerefs h' q)) (set ?ps)"
    using P(2) P(5) pab(1) by (auto simp: inj_on_def)
  moreover have "set ?ps = {q. pr_inuse h' q}" using P(2) h'(1) by auto
  moreover have "distinct ?ps" using P(1) by simp
  moreover have "chain (\<lambda>q. next_samesize (pagerefs h' q)) (sizebases h' u) (filter (\<lambda>q. PR_BLOCKTYPE (pagerefs h' q) = u) ?ps)"
    if "u < NSIZES" for u unfolding filt by (rule sizes [OF that])
  ultimately show ?thesis using all unfolding pages_ok_def by blast
qed

lemma heap_map_del:
  assumes inv: "kheap_inv h" and ps: "pages_ok h ps" and p: "pr_inuse h p" and i: "i < bcount (pagerefs h p)"
    and used: "i \<notin> set (free_blocks (kh_mem h) (pagerefs h p))" and nf: "nfree (pagerefs h p) + 1 = bcount (pagerefs h p)"
    and h': "\<And>q. pr_inuse h' q \<longleftrightarrow> q \<noteq> p \<and> pr_inuse h q" "kh_mem h' = freed_mem (pagerefs h p) i (kh_mem h)"
      "km_block (kh_cm h') = (km_block (kh_cm h))(PR_PAGEADDR (pagerefs h p) := None)"
    and same: "\<And>q. q \<noteq> p \<Longrightarrow> pageaddr_and_blocktype (pagerefs h' q) = pageaddr_and_blocktype (pagerefs h q) \<and>
      freelist_offset (pagerefs h' q) = freelist_offset (pagerefs h q) \<and> nfree (pagerefs h' q) = nfree (pagerefs h q)"
    and ps': "pages_ok h' ps'"
  shows "heap_map h' x = ((heap_map h)(blk (pagerefs h p) i := None)) x"
proof (cases "page_no (PR_PAGEADDR (pagerefs h p)) = page_no x")
  case True
  let ?pr = "pagerefs h p" and ?fs = "free_blocks (kh_mem h) (pagerefs h p)"
  note O = page_okD [OF pages_okD(6) [OF ps p]]
  have all: "set (i # ?fs) = {..<bcount ?pr}"
  proof (rule card_subset_eq)
    show "card (set (i # ?fs)) = card {..<bcount ?pr}"
      using distinct_card [of "i # ?fs"] O(3) used nf by (simp add: page_free_def)
  qed (use O(3) i in \<open>auto simp: page_free_def\<close>)
  have "((heap_map h)(blk ?pr i := None)) x = None"
  proof (cases "x = blk ?pr i")
    case False
    have "j = i" if "j < bcount ?pr" "j \<notin> set ?fs" for j using that all lessThan_iff [of j "bcount ?pr"] by (metis set_ConsD)
    with False have "\<not> (\<exists>j < bcount ?pr. x = blk ?pr j \<and> j \<notin> set ?fs)" by blast
    with False show ?thesis unfolding fun_upd_other [OF False] heap_map_in [OF ps p True] by (rule_tac if_not_P)
  qed simp
  moreover have "PR_PAGEADDR (pagerefs h' q) = PR_PAGEADDR (pagerefs h q)" if "q \<noteq> p" for q by (rule same_pab(1) [OF conjunct1 [OF same [OF that]]])
  then have "owner h' x = None" using True h'(1) freed_others(3) [OF ps p i] unfolding owner_None by metis
  moreover have "km_block (kh_cm h') x = None"
  proof (cases "km_block (kh_cm h) x")
    case (Some n)
    have "x = PR_PAGEADDR ?pr" by (rule page_no_eq [OF page_bound(3) [OF inv Some] PR_PAGEADDR_aligned True [symmetric]])
    then show ?thesis by (simp add: h'(3))
  qed (simp add: h'(3))
  ultimately show ?thesis by (simp add: heap_map_out)
next
  case False
  let ?pr = "pagerefs h p"
  note O = page_okD [OF pages_okD(6) [OF ps p]]
  have x: "x \<noteq> blk ?pr i" "x \<noteq> PR_PAGEADDR ?pr" using False blk_page(1) [OF O(1) i] by auto
  have "heap_map h' x = heap_map h x"
  proof (cases "owner h x")
    case None
    moreover have "PR_PAGEADDR (pagerefs h' q) = PR_PAGEADDR (pagerefs h q)" if "q \<noteq> p" for q by (rule same_pab(1) [OF conjunct1 [OF same [OF that]]])
    then have "owner h' x = None" using None h'(1) unfolding owner_None by metis
    ultimately show ?thesis using x(2) by (simp add: heap_map_out h'(3))
  next
    case (Some q)
    then have q: "pr_inuse h q" "page_no (PR_PAGEADDR (pagerefs h q)) = page_no x" using owner_Some [OF ps] by auto
    then have qp: "q \<noteq> p" using False by auto
    note S = same [OF qp]
    have A: "PR_PAGEADDR (pagerefs h' q) = PR_PAGEADDR (pagerefs h q)" "bsize (pagerefs h' q) = bsize (pagerefs h q)"
      "bcount (pagerefs h' q) = bcount (pagerefs h q)" "blk (pagerefs h' q) = blk (pagerefs h q)" using same_pab(1,3,4,5) [OF conjunct1 [OF S]] .
    have f: "free_blocks (kh_mem h') (pagerefs h' q) = free_blocks (kh_mem h) (pagerefs h q)"
      using page_ok_relinked(2) [of "pagerefs h' q" "pagerefs h q"] S freed_others(2) [OF ps p i q(1) qp] h'(2) by simp
    have "pr_inuse h' q" "page_no (PR_PAGEADDR (pagerefs h' q)) = page_no x" using q qp h'(1) A(1) by simp_all
    from heap_map_in [OF ps' this] heap_map_in [OF ps q] show ?thesis unfolding A f by simp
  qed
  with x show ?thesis by simp
qed

lemma kfree_releases_page:
  assumes inv: "kheap_inv h" and ps: "pages_ok h ps" and p: "pr_inuse h p" and i: "i < bcount (pagerefs h p)"
    and used: "i \<notin> set (free_blocks (kh_mem h) (pagerefs h p))" and nf: "nfree (pagerefs h p) + 1 = bcount (pagerefs h p)"
  defines "h1 \<equiv> h\<lparr>kh_mem := freed_mem (pagerefs h p) i (kh_mem h), pagerefs := (pagerefs h)(p := freed_ref (pagerefs h p) i)\<rparr>"
  obtains h2 cm h3 where "remove_lists p (PR_BLOCKTYPE (pagerefs h p)) h1 = Some h2" "free_kpages (PR_PAGEADDR (pagerefs h p)) (kh_cm h2) = Some cm"
    "freepageref p (h2\<lparr>kh_cm := cm\<rparr>) = Some h3" "kheap_inv h3" "heap_map h3 = (heap_map h)(blk (pagerefs h p) i := None)"
    "kh_mem h3 = freed_mem (pagerefs h p) i (kh_mem h)"
proof -
  let ?pr = "pagerefs h p"
  note P = pages_okD [OF ps] and O = page_okD [OF pages_okD(6) [OF ps p]]
  from inv have c: "coremap_inv (kh_cm h)" "coremap_size (kh_cm h) < 2 ^ 19" "length (pagerefs_inuse h) = INUSE_WORDS"
    by (simp_all add: kheap_inv_def)
  have pab: "pageaddr_and_blocktype (freed_ref ?pr i) = pageaddr_and_blocktype ?pr" by simp
  note S = same_pab [OF pab]
  have r1: "PR_BLOCKTYPE (pagerefs h1 q) = PR_BLOCKTYPE (pagerefs h q)" "next_all (pagerefs h1 q) = next_all (pagerefs h q)"
    "next_samesize (pagerefs h1 q) = next_samesize (pagerefs h q)" for q by (simp_all add: h1_def S)
  have h1: "allbase h1 = allbase h" "sizebases h1 = sizebases h" "kh_cm h1 = kh_cm h" "pagerefs_inuse h1 = pagerefs_inuse h"
    by (simp_all add: h1_def)
  have "p \<in> set ps" using p P(2) by simp
  then show ?thesis
  proof (rule remove_lists_ok [OF P(1), where t = "PR_BLOCKTYPE ?pr" and h = h1])
    show "PR_BLOCKTYPE (pagerefs h1 p) = PR_BLOCKTYPE ?pr" "PR_BLOCKTYPE ?pr < NSIZES" using r1 O(1) by simp_all
    show "chain (\<lambda>q. next_all (pagerefs h1 q)) (allbase h1) ps" using P(3) by (simp add: r1 h1)
    show "chain (\<lambda>q. next_samesize (pagerefs h1 q)) (sizebases h1 u) (filter (\<lambda>q. PR_BLOCKTYPE (pagerefs h1 q) = u) ps)" if "u < NSIZES" for u
      using P(4) [OF that] by (simp add: r1 h1)
    fix prs sb ab
    assume r: "remove_lists p (PR_BLOCKTYPE ?pr) h1 = Some (h1\<lparr>pagerefs := prs, sizebases := sb, allbase := ab\<rparr>)"
      "relinked (pagerefs h1) prs" "chain (\<lambda>q. next_all (prs q)) ab (filter (\<lambda>q. q \<noteq> p) ps)"
      "\<And>u. u < NSIZES \<Longrightarrow> chain (\<lambda>q. next_samesize (prs q)) (sb u)
         (filter (\<lambda>q. PR_BLOCKTYPE (pagerefs h1 q) = u) (filter (\<lambda>q. q \<noteq> p) ps))"
    let ?h2 = "h1\<lparr>pagerefs := prs, sizebases := sb, allbase := ab\<rparr>"
    from kp.release_ok [OF c(1) O(2)] obtain cm where cm: "free_kpages (PR_PAGEADDR ?pr) (kh_cm h) = Some cm" "coremap_inv cm"
      "km_block cm = (km_block (kh_cm h))(PR_PAGEADDR ?pr := None)" by blast
    let ?h2' = "?h2\<lparr>kh_cm := cm\<rparr>"
    have len: "length (pagerefs_inuse ?h2') = INUSE_WORDS" using c(3) h1(4) by simp
    have in2: "pr_inuse ?h2' q \<longleftrightarrow> pr_inuse h q" for q by (simp add: pr_inuse_def h1)
    from len in2 p obtain ws where ws: "freepageref p ?h2' = Some (?h2'\<lparr>pagerefs_inuse := ws\<rparr>)" "length ws = INUSE_WORDS"
      "\<And>q. pr_inuse (?h2'\<lparr>pagerefs_inuse := ws\<rparr>) q \<longleftrightarrow> q \<noteq> p \<and> pr_inuse ?h2' q" using freepageref_used [of ?h2' p] by blast
    define h3 where "h3 = ?h2'\<lparr>pagerefs_inuse := ws\<rparr>"
    have f3: "pagerefs h3 = prs" "allbase h3 = ab" "sizebases h3 = sb" "kh_cm h3 = cm" "pagerefs_inuse h3 = ws"
      "kh_mem h3 = freed_mem ?pr i (kh_mem h)" by (simp_all add: h3_def h1_def)
    have in3: "pr_inuse h3 q \<longleftrightarrow> q \<noteq> p \<and> pr_inuse h q" for q using ws(3) in2 by (simp add: h3_def)
    have same: "pageaddr_and_blocktype (pagerefs h3 q) = pageaddr_and_blocktype (pagerefs h q) \<and>
      freelist_offset (pagerefs h3 q) = freelist_offset (pagerefs h q) \<and> nfree (pagerefs h3 q) = nfree (pagerefs h q)" if "q \<noteq> p" for q
      using r(2) that by (simp add: relinked_def f3 h1_def)
    have ps3: "pages_ok h3 (filter (\<lambda>q. q \<noteq> p) ps)"
      by (rule pages_ok_del [OF ps p i in3 f3(6) _ same]) (use cm(3) r(3,4) f3 r1 in simp_all)
    have "kheap_inv h3" using ps3 cm(2) ws(2) c(2) free_kpages_size [OF cm(1)] by (auto simp: kheap_inv_def f3)
    moreover have "heap_map h3 = (heap_map h)(blk ?pr i := None)"
      by (rule ext, rule heap_map_del [OF inv ps p i used nf in3 f3(6) _ same ps3]) (use cm(3) f3 in simp_all)
    moreover have "free_kpages (PR_PAGEADDR ?pr) (kh_cm ?h2) = Some cm" using cm(1) h1(3) by simp
    ultimately show ?thesis using that [of ?h2 cm h3] r(1) ws(1) f3(6) by (simp add: h3_def)
  qed
qed

lemma kfree_ok:
  assumes inv: "kheap_inv h" and a: "heap_map h a = Some n"
  obtains h' where "kfree a h = Some h'" "kheap_inv h'" "heap_map h' = (heap_map h)(a := None)" "kept h h' {a}"
proof -
  from inv obtain ps where ps: "pages_ok h ps" by (auto simp: kheap_inv_def)
  note own = find_owner_eq [OF inv ps, of a]
  obtain A k where A: "km_block (kh_cm h) A = Some k" "page_no A = page_no a" using heap_block_home [OF inv ps a] .
  have nz: "a \<noteq> 0" using page_bound(2) [OF inv A(1)] A(2) by auto
  from ps a show ?thesis
  proof (cases rule: heap_block_cases)
    case (large k)
    obtain cm where cm: "free_kpages a (kh_cm h) = Some cm" "kheap_inv (h\<lparr>kh_cm := cm\<rparr>)" "heap_map (h\<lparr>kh_cm := cm\<rparr>) = (heap_map h)(a := None)"
      using kfree_large [OF inv large(1,2)] .
    have "kfree a h = Some (h\<lparr>kh_cm := cm\<rparr>)"
      using nz own large(1) cm(1) page_bound(3) [OF inv large(2)] by (simp add: kfree_def subpage_kfree_def)
    then show ?thesis using that [of "h\<lparr>kh_cm := cm\<rparr>"] cm by simp
  next
    case (small p i)
    let ?pr = "pagerefs h p"
    note O = page_okD [OF pages_okD(6) [OF ps small(1)]]
    note steps = subpage_kfree_steps [OF inv ps small(1,2) small(6) [unfolded small(3)] O(4)]
    have blk: "heap_map h (blk ?pr i) = Some (bsize ?pr)" using a small(3,4) by simp
    show ?thesis
    proof (cases "nfree ?pr + 1 = bcount ?pr")
      case True
      obtain h2 cm h3 where r: "remove_lists p (PR_BLOCKTYPE ?pr) (h\<lparr>kh_mem := freed_mem ?pr i (kh_mem h), pagerefs := (pagerefs h)(p := freed_ref ?pr i)\<rparr>) = Some h2"
        "free_kpages (PR_PAGEADDR ?pr) (kh_cm h2) = Some cm" "freepageref p (h2\<lparr>kh_cm := cm\<rparr>) = Some h3" "kheap_inv h3"
        "heap_map h3 = (heap_map h)(blk ?pr i := None)" "kh_mem h3 = freed_mem ?pr i (kh_mem h)"
        using kfree_releases_page [OF inv ps small(1,2,5) True] .
      have "kfree a h = Some h3" using nz steps True r(1-3) by (simp add: kfree_def small(3) Let_def)
      then show ?thesis using that [of h3] r(4,5) freed_kept [OF inv ps small(1,2) blk r(6)] small(3) by simp
    next
      case False
      let ?h1 = "h\<lparr>kh_mem := freed_mem ?pr i (kh_mem h), pagerefs := (pagerefs h)(p := freed_ref ?pr i)\<rparr>"
      have nf: "nfree ?pr + 1 < bcount ?pr" using False O(4) by simp
      have "kfree a h = Some ?h1" using nz steps False by (simp add: kfree_def small(3) Let_def)
      moreover have "kept h ?h1 {a}" unfolding small(3) by (rule freed_kept [OF inv ps small(1,2) blk]) simp
      ultimately show ?thesis using that [of ?h1] kfree_keeps_page [OF inv ps small(1,2,5) nf] small(3) by simp
    qed
  qed
qed

interpretation kh: block_heap kheap_inv heap_map bytes kept "2 ^ 32" kmalloc kfree
proof
  fix h h' :: "'as kheap" and a b n m sz
  assume inv: "kheap_inv h"
  { assume "heap_map h a = Some n" "heap_map h b = Some m" "a \<noteq> b"
    with inv show "bytes a n \<inter> bytes b m = {}" by (rule heap_blocks_disjoint) }
  { assume sz: "sz < 2 ^ 32" and k: "kmalloc sz h = Some (Some a, h')"
    from inv show "kheap_inv h' \<and> heap_map h a = None \<and> (\<exists>m \<ge> sz. heap_map h' = (heap_map h)(a \<mapsto> m)) \<and> kept h h' {}"
      by (cases rule: kmalloc_ok [where sz = sz]) (use sz k in auto) }
  { assume k: "kmalloc sz h = Some (None, h')"
    from inv show "h' = h" by (cases rule: kmalloc_ok [where sz = sz]) (use k in auto) }
  { assume "heap_map h a = Some n"
    from kfree_ok [OF inv this] show "\<exists>s'. kfree a h = Some s' \<and> kheap_inv s' \<and> heap_map s' = (heap_map h)(a := None) \<and> kept h s' {a}"
      by metis }
qed

end
