(* ===== verification/Kern_Kheap_Props.thy ===== *)
theory Kern_Kheap_Props
  imports Kern_Kheap_Ops
begin

text \<open>
  The properties of the kernel heap.
\<close>

section \<open>The heap at boot\<close>

definition kheap_boot :: "'as coremap \<Rightarrow> (addr \<Rightarrow> addr) \<Rightarrow> 'as kheap" where
  \<comment> \<open>the static variables of \<open>kheap.c\<close> before the first call\<close>
  "kheap_boot cm m = \<lparr>pagerefs = (\<lambda>_. \<lparr>next_samesize = None, next_all = None, pageaddr_and_blocktype = 0, freelist_offset = 0, nfree = 0\<rparr>),
     pagerefs_inuse = replicate INUSE_WORDS 0, sizebases = (\<lambda>_. None), allbase = None, kh_mem = m, kh_cm = cm\<rparr>"

lemma kheap_boot_unused: "\<not> pr_inuse (kheap_boot cm m) p"
  by (auto simp: pr_inuse_def kheap_boot_def)

lemma kheap_boot_inv:
  assumes "coremap_inv cm" "coremap_size cm < 2 ^ 19"
  shows "kheap_inv (kheap_boot cm m)"
proof -
  have "pages_ok (kheap_boot cm m) []" using kheap_boot_unused by (auto simp: pages_ok_def) (simp_all add: kheap_boot_def)
  with assms show ?thesis by (auto simp: kheap_inv_def kheap_boot_def)
qed

lemma small_coremap_room: "alloc_kpages 1 small_coremap \<noteq> None"
proof -
  have r: "free_run (cm_pages small_coremap) 4 1" "\<not> (4 < last_page_used small_coremap \<and> last_page_used small_coremap < 4 + 1)"
    by (auto simp: free_run_def small_coremap_def nth_append)
  from small_coremap_inv zero_less_one have "coremap_getpages 1 small_coremap \<noteq> None"
  proof (cases rule: coremap_getpages_cases)
    case panic
    with r show ?thesis by blast
  qed simp_all
  then show ?thesis by (auto simp: alloc_kpages_def)
qed

lemma small_heap:
  "kheap_inv (kheap_boot small_coremap (\<lambda>_. 0))" "kh_cm (kheap_boot small_coremap (\<lambda>_. 0)) = small_coremap"
  "\<not> (\<forall>p < NPAGEREFS. pr_inuse (kheap_boot small_coremap (\<lambda>_. 0)) p)"
proof -
  show "kheap_inv (kheap_boot small_coremap (\<lambda>_. 0))"
    by (rule kheap_boot_inv [OF small_coremap_inv]) (simp add: small_coremap_def)
  show "kh_cm (kheap_boot small_coremap (\<lambda>_. 0)) = small_coremap" by (simp add: kheap_boot_def)
  show "\<not> (\<forall>p < NPAGEREFS. pr_inuse (kheap_boot small_coremap (\<lambda>_. 0)) p)"
    using kheap_boot_unused [of small_coremap "\<lambda>_. 0" 0] by (auto intro!: exI [of _ 0])
qed

lemma kmalloc_boot:
  obtains a n h where "kmalloc 100 (kheap_boot small_coremap (\<lambda>_. 0)) = Some (Some a, h)" "kheap_inv h" "heap_map h a = Some n"
  using small_heap(1)
proof (cases rule: kmalloc_ok [where sz = 100])
  case stuck
  then show ?thesis using small_coremap_room small_heap(2) by simp
next
  case full
  then show ?thesis using small_heap(3) by blast
next
  case (block a n h')
  then show ?thesis using that by simp
qed

section \<open>Properties\<close>







end
