(* ===== verification/Kern_Pagetable.thy ===== *)
theory Kern_Pagetable
  imports Kern_Kheap
begin

text \<open>
  Two-level page tables (\<open>kern/vm/pt.c\<close>) and the statistics they keep (\<open>kern/vm/uw-vmstats.c\<close>).

  A page table is the kernel address of a page of 1024 words in the memory \<open>kh_mem\<close> of the heap: an entry of the first level holds
  the kernel address of a table of the second level, an entry there the physical address of a frame, both with the
  state and permission bits of \<open>kern/include/pt.h\<close>. Values of type \<open>int\<close> that the code masks and shifts are
  \<open>32 word\<close>s. An entry that is neither free nor in memory is in the swap file; the code that brings it back
  passes the address of a local variable to \<open>swapfile_getpage\<close> as the destination of 4096 bytes, which overwrites the
  stack, and is \<open>None\<close>. Nothing puts an entry there: the calls of the swapping code are not compiled.
\<close>

unbundle bit_operations_syntax

section \<open>Statistics\<close>

abbreviation VMSTAT_TLB_FAULT :: nat where "VMSTAT_TLB_FAULT \<equiv> 0"
abbreviation VMSTAT_TLB_FAULT_FREE :: nat where "VMSTAT_TLB_FAULT_FREE \<equiv> 1"
abbreviation VMSTAT_TLB_FAULT_REPLACE :: nat where "VMSTAT_TLB_FAULT_REPLACE \<equiv> 2"
abbreviation VMSTAT_TLB_INVALIDATE :: nat where "VMSTAT_TLB_INVALIDATE \<equiv> 3"
abbreviation VMSTAT_TLB_RELOAD :: nat where "VMSTAT_TLB_RELOAD \<equiv> 4"
abbreviation VMSTAT_PAGE_FAULT_ZERO :: nat where "VMSTAT_PAGE_FAULT_ZERO \<equiv> 5"
abbreviation VMSTAT_PAGE_FAULT_DISK :: nat where "VMSTAT_PAGE_FAULT_DISK \<equiv> 6"
abbreviation VMSTAT_ELF_FILE_READ :: nat where "VMSTAT_ELF_FILE_READ \<equiv> 7"
abbreviation VMSTAT_SWAP_FILE_READ :: nat where "VMSTAT_SWAP_FILE_READ \<equiv> 8"
abbreviation VMSTAT_SWAP_FILE_WRITE :: nat where "VMSTAT_SWAP_FILE_WRITE \<equiv> 9"
abbreviation VMSTAT_COUNT :: nat where "VMSTAT_COUNT \<equiv> 10"

definition vmstats_init :: "32 word list" where
  "vmstats_init = replicate VMSTAT_COUNT 0"

definition vmstats_inc :: "nat \<Rightarrow> 32 word list \<Rightarrow> 32 word list option" where
  \<comment> \<open>\<open>_vmstats_inc\<close>; the locked and the unlocked call do the same to the counters\<close>
  "vmstats_inc index stats = do {
     kassert (index < VMSTAT_COUNT);
     Some (stats[index := stats ! index + 1])
   }"

definition vmstats_print :: "32 word list \<Rightarrow> bool \<times> bool \<times> bool" where
  \<comment> \<open>which of the three warnings \<open>_vmstats_print\<close> prints\<close>
  "vmstats_print stats =
     (let tlb_faults = stats ! VMSTAT_TLB_FAULT;
          free_plus_replace = stats ! VMSTAT_TLB_FAULT_FREE + stats ! VMSTAT_TLB_FAULT_REPLACE;
          disk_plus_zeroed_plus_reload = stats ! VMSTAT_PAGE_FAULT_DISK + stats ! VMSTAT_PAGE_FAULT_ZERO + stats ! VMSTAT_TLB_RELOAD;
          elf_plus_swap_reads = stats ! VMSTAT_ELF_FILE_READ + stats ! VMSTAT_SWAP_FILE_READ;
          disk_reads = stats ! VMSTAT_PAGE_FAULT_DISK
      in (tlb_faults \<noteq> free_plus_replace, tlb_faults \<noteq> disk_plus_zeroed_plus_reload, disk_reads \<noteq> elf_plus_swap_reads))"

section \<open>State\<close>

abbreviation ADDR_UP_MASK :: addr where "ADDR_UP_MASK \<equiv> 0xFFC00000"
abbreviation ADDR_UP_SHIFT :: nat where "ADDR_UP_SHIFT \<equiv> 22"
abbreviation ADDR_LOW_MASK :: addr where "ADDR_LOW_MASK \<equiv> 0x003FF000"
abbreviation ADDR_LOW_SHIFT :: nat where "ADDR_LOW_SHIFT \<equiv> 12"
abbreviation PAGE_FREE :: addr where "PAGE_FREE \<equiv> 0x1"
abbreviation PAGE_IN_MEM :: addr where "PAGE_IN_MEM \<equiv> 0x2"
abbreviation PAGE_IN_SWP :: addr where "PAGE_IN_SWP \<equiv> 0x20"
abbreviation PAGE_W_MASK :: addr where "PAGE_W_MASK \<equiv> 0x4"
abbreviation PAGE_R_MASK :: addr where "PAGE_R_MASK \<equiv> 0x8"
abbreviation PAGE_X_MASK :: addr where "PAGE_X_MASK \<equiv> 0x10"
abbreviation PAGE_PERMS :: addr where "PAGE_PERMS \<equiv> 0x1C"
abbreviation SWP_PAGE :: addr where "SWP_PAGE \<equiv> 0x1"
abbreviation SWP_TABLE :: addr where "SWP_TABLE \<equiv> 0x2"
abbreviation PT_ENTRIES :: nat where "PT_ENTRIES \<equiv> 1024"

record region =
  rg_offset :: int
  rg_memsize :: addr
  rg_filesize :: addr
  rg_vaddr :: addr
  rg_permissions :: addr

record addrspace =
  as_pt :: addr
  as_v :: nat
  as_regions :: "region list"

record vmsys =
  vm_heap :: "addr kheap"
  vm_spaces :: "addr \<Rightarrow> addrspace option"
  t_vmspace :: "addr option"
  vm_tlb :: "(addr \<times> addr) list"
  next_tlb_idx :: nat
  stats_counts :: "32 word list"

definition set_cm :: "addr coremap \<Rightarrow> vmsys \<Rightarrow> vmsys" where
  "set_cm cm s = s\<lparr>vm_heap := (vm_heap s)\<lparr>kh_cm := cm\<rparr>\<rparr>"

definition count_stat :: "nat \<Rightarrow> vmsys \<Rightarrow> vmsys option" where
  "count_stat i s = do { st \<leftarrow> vmstats_inc i (stats_counts s); Some (s\<lparr>stats_counts := st\<rparr>) }"

section \<open>Entries\<close>

definition get_offset :: "addr \<Rightarrow> addr \<Rightarrow> nat \<Rightarrow> nat" where
  "get_offset vaddr msk shift = unat (drop_bit shift (vaddr AND msk))"

definition get_value :: "addr \<Rightarrow> nat \<Rightarrow> vmsys \<Rightarrow> addr" where
  "get_value pt offset s = kh_mem (vm_heap s) (pt + of_nat (4 * offset))"

definition set_value :: "addr \<Rightarrow> nat \<Rightarrow> addr \<Rightarrow> vmsys \<Rightarrow> vmsys" where
  "set_value pt offset v s =
     s\<lparr>vm_heap := (vm_heap s)\<lparr>kh_mem := (kh_mem (vm_heap s))(pt + of_nat (4 * offset) := v)\<rparr>\<rparr>"

definition get_page_state_by_value :: "addr \<Rightarrow> addr" where
  "get_page_state_by_value v =
     (if v AND PAGE_FREE \<noteq> 0 then PAGE_FREE else if v AND PAGE_IN_MEM \<noteq> 0 then PAGE_IN_MEM else PAGE_IN_SWP)"

definition get_page_state :: "addr \<Rightarrow> nat \<Rightarrow> vmsys \<Rightarrow> addr" where
  "get_page_state pt offset s = get_page_state_by_value (get_value pt offset s)"

section \<open>Tables and frames\<close>

definition fill_table :: "addr \<Rightarrow> addr \<Rightarrow> nat \<Rightarrow> (addr \<Rightarrow> addr) \<Rightarrow> addr \<Rightarrow> addr" where
  "fill_table pt v n m = fold (\<lambda>i m. m(pt + of_nat (4 * i) := v)) [0..<n] m"

definition pt_create_table :: "addr \<Rightarrow> addr \<Rightarrow> vmsys \<Rightarrow> (addr \<times> vmsys) option" where
  \<comment> \<open>\<open>_pt_create\<close>\<close>
  "pt_create_table permissions vaddr s = do {
     (pt, cm) \<leftarrow> alloc_kpages 1 (kh_cm (vm_heap s));
     (if pt = 0 then Some (0, set_cm cm s)
      else do {
        cm' \<leftarrow> coremap_setpagevaddr (pt - MIPS_KSEG0) (t_vmspace s) ((vaddr AND PAGE_FRAME) OR SWP_TABLE) cm;
        Some (pt, s\<lparr>vm_heap := (vm_heap s)\<lparr>kh_cm := cm',
          kh_mem := fill_table pt (PAGE_FREE OR permissions) PT_ENTRIES (kh_mem (vm_heap s))\<rparr>\<rparr>)
      })
   }"

definition pt_create_page :: "addr \<Rightarrow> vmsys \<Rightarrow> (addr \<times> vmsys) option" where
  \<comment> \<open>\<open>_pt_create_page\<close>\<close>
  "pt_create_page vaddr s = do {
     (paddr, cm) \<leftarrow> coremap_getpages 1 (kh_cm (vm_heap s));
     (if paddr = 0 then Some (0, set_cm cm s)
      else do {
        cm' \<leftarrow> coremap_setpagevaddr paddr (t_vmspace s) ((vaddr AND PAGE_FRAME) OR SWP_PAGE) cm;
        Some (paddr, set_cm cm' s)
      })
   }"

definition get_pagetable :: "addr \<Rightarrow> addr \<Rightarrow> bool \<Rightarrow> addr \<Rightarrow> vmsys \<Rightarrow> (addr \<times> addr \<times> vmsys) option" where
  \<comment> \<open>the returned value, \<open>*dst\<close> and the state\<close>
  "get_pagetable pt vaddr create permissions s =
     (let offset = get_offset vaddr ADDR_UP_MASK ADDR_UP_SHIFT;
          v = get_value pt offset s;
          st = get_page_state_by_value v
      in if st = PAGE_FREE then
           (if create then do {
              (dst, s') \<leftarrow> pt_create_table permissions vaddr s;
              Some (0, dst, set_value pt offset (dst OR PAGE_IN_MEM) s')
            }
            else Some (st, 0, s))
         else if st = PAGE_IN_SWP then (if create then None else Some (st, 0, s))
         else Some (0, v AND PAGE_FRAME, s))"

definition get_page :: "addr \<Rightarrow> nat \<Rightarrow> bool \<Rightarrow> addr \<Rightarrow> vmsys \<Rightarrow> (addr \<times> addr \<times> vmsys) option" where
  "get_page pt offset create vaddr s =
     (let v = get_value pt offset s;
          st = get_page_state_by_value v;
          permissions = v AND PAGE_PERMS
      in if st = PAGE_FREE then
           (if create then do {
              s1 \<leftarrow> count_stat VMSTAT_PAGE_FAULT_ZERO s;
              (paddr, s2) \<leftarrow> pt_create_page vaddr s1;
              let dst = paddr OR PAGE_IN_MEM OR permissions;
              Some (0, dst, set_value pt offset dst s2)
            }
            else Some (st, PAGE_FREE, s))
         else if st = PAGE_IN_SWP then (if create then None else Some (st, PAGE_IN_SWP, s))
         else Some (0, v AND 0xFFFFFFFC, s))"

section \<open>Operations\<close>

definition pt_create :: "vmsys \<Rightarrow> (addr \<times> vmsys) option" where
  "pt_create s = do {
     (pt, s1) \<leftarrow> pt_create_table 0 0 s;
     cm \<leftarrow> coremap_setpagefixed (pt - MIPS_KSEG0) True (kh_cm (vm_heap s1));
     Some (pt, set_cm cm s1)
   }"

fun free_leaves :: "addr \<Rightarrow> nat list \<Rightarrow> vmsys \<Rightarrow> vmsys option" where
  \<comment> \<open>the loop of \<open>destroy_nested_pagetable\<close>\<close>
  "free_leaves pt [] s = Some s"
| "free_leaves pt (i # is) s =
     (let v = get_value pt i s; st = get_page_state_by_value v
      in if st = PAGE_FREE \<or> st = PAGE_IN_SWP then free_leaves pt is s
         else do {
           cm \<leftarrow> coremap_freepages (v AND PAGE_FRAME) (kh_cm (vm_heap s));
           free_leaves pt is (set_cm cm s)
         })"

definition destroy_nested_pagetable :: "addr \<Rightarrow> vmsys \<Rightarrow> vmsys option" where
  \<comment> \<open>for a table in the swap file the pointer \<open>pt\<close> is not initialized\<close>
  "destroy_nested_pagetable v s =
     (let st = get_page_state_by_value v
      in if st = PAGE_FREE then Some s
         else if st = PAGE_IN_SWP then None
         else do {
           let pt = v AND PAGE_FRAME;
           s' \<leftarrow> free_leaves pt [0..<PT_ENTRIES] s;
           cm \<leftarrow> free_kpages pt (kh_cm (vm_heap s'));
           Some (set_cm cm s')
         })"

fun destroy_tables :: "addr \<Rightarrow> nat list \<Rightarrow> vmsys \<Rightarrow> vmsys option" where
  "destroy_tables pt [] s = Some s"
| "destroy_tables pt (i # is) s = do {
     s' \<leftarrow> destroy_nested_pagetable (get_value pt i s) s;
     destroy_tables pt is s'
   }"

definition pt_destroy :: "addr \<Rightarrow> vmsys \<Rightarrow> vmsys option" where
  "pt_destroy pt s = do {
     s' \<leftarrow> destroy_tables pt [0..<PT_ENTRIES] s;
     cm \<leftarrow> free_kpages pt (kh_cm (vm_heap s'));
     Some (set_cm cm s')
   }"

definition pt_get_paddr :: "addr \<Rightarrow> addr \<Rightarrow> bool \<Rightarrow> addr \<Rightarrow> vmsys \<Rightarrow> (addr \<times> vmsys) option" where
  "pt_get_paddr pt vaddr create permissions s = do {
     (_, spt, s1) \<leftarrow> get_pagetable pt vaddr create permissions s;
     (if spt = 0 then Some (PAGE_FREE, s1)
      else do {
        (_, paddr, s2) \<leftarrow> get_page spt (get_offset vaddr ADDR_LOW_MASK ADDR_LOW_SHIFT) create vaddr s1;
        Some (paddr, s2)
      })
   }"

definition pt_set_permissions :: "addr \<Rightarrow> addr \<Rightarrow> bool \<Rightarrow> addr \<Rightarrow> vmsys \<Rightarrow> (bool \<times> vmsys) option" where
  "pt_set_permissions pt vaddr create permissions s = do {
     (_, spt, s1) \<leftarrow> get_pagetable pt vaddr create permissions s;
     (if spt \<noteq> 0 then do {
        let offset = get_offset vaddr ADDR_LOW_MASK ADDR_LOW_SHIFT;
        (v, _, s2) \<leftarrow> get_page spt offset create vaddr s1;
        (if v = 0
         then Some (True, set_value spt offset ((get_value spt offset s2 AND NOT PAGE_PERMS) OR permissions) s2)
         else Some (False, s2))
      }
      else Some (False, s1))
   }"

definition vaddr_overlap :: "addr \<Rightarrow> addr \<Rightarrow> addr \<Rightarrow> addr \<Rightarrow> bool" where
  "vaddr_overlap l1 r1 l2 r2 \<longleftrightarrow> (r1 \<ge> r2 \<and> r2 \<ge> l1) \<or> (l1 \<le> l2 \<and> r1 > l2)"

fun in_a_region :: "region list \<Rightarrow> addr \<Rightarrow> addr \<Rightarrow> bool" where
  \<comment> \<open>the loop over the regions in \<open>pt_copy\<close>: it runs for pages without write permission only\<close>
  "in_a_region [] vaddr permissions \<longleftrightarrow> False"
| "in_a_region (r # rs) vaddr permissions \<longleftrightarrow>
     permissions AND PAGE_W_MASK = 0 \<and>
     (vaddr_overlap vaddr (vaddr + of_nat PAGE_SIZE) (rg_vaddr r) (rg_vaddr r + rg_memsize r) \<or> in_a_region rs vaddr permissions)"

definition copy_frame :: "addr \<Rightarrow> addr \<Rightarrow> vmsys \<Rightarrow> vmsys" where
  \<comment> \<open>\<open>memmove\<close> of a page between two kernel addresses of page frames\<close>
  "copy_frame dst src s =
     s\<lparr>vm_heap := (vm_heap s)\<lparr>kh_mem := (\<lambda>a. if unat (a - dst) < PAGE_SIZE then kh_mem (vm_heap s) (src + (a - dst))
       else kh_mem (vm_heap s) a)\<rparr>\<rparr>"

definition set_fixed :: "addr \<Rightarrow> bool \<Rightarrow> vmsys \<Rightarrow> vmsys option" where
  "set_fixed paddr fixed s = do { cm \<leftarrow> coremap_setpagefixed paddr fixed (kh_cm (vm_heap s)); Some (set_cm cm s) }"

definition copy_page :: "addr \<Rightarrow> addr \<Rightarrow> nat \<Rightarrow> addr \<Rightarrow> addr \<Rightarrow> vmsys \<Rightarrow> vmsys option" where
  \<comment> \<open>the body of \<open>if (!in_region)\<close> in \<open>pt_copy\<close>\<close>
  "copy_page dst pt2 j vaddr permissions s = do {
     (_, paddr1, s) \<leftarrow> get_page pt2 j True vaddr s;
     s \<leftarrow> set_fixed paddr1 True s;
     (paddr2, s) \<leftarrow> pt_get_paddr dst vaddr True permissions s;
     s \<leftarrow> set_fixed paddr2 True s;
     let s = copy_frame ((paddr2 + MIPS_KSEG0) AND PAGE_FRAME) ((paddr1 + MIPS_KSEG0) AND PAGE_FRAME) s;
     s \<leftarrow> set_fixed paddr1 False s;
     set_fixed paddr2 False s
   }"

fun copy_leaves :: "addr \<Rightarrow> region list \<Rightarrow> addr \<Rightarrow> nat \<Rightarrow> nat list \<Rightarrow> vmsys \<Rightarrow> vmsys option" where
  "copy_leaves dst rs pt2 i [] s = Some s"
| "copy_leaves dst rs pt2 i (j # js) s = do {
     let v = get_value pt2 j s;
     let vaddr = push_bit ADDR_UP_SHIFT (of_nat i) + push_bit ADDR_LOW_SHIFT (of_nat j);
     let permissions = v AND PAGE_PERMS;
     s' \<leftarrow> (if get_page_state_by_value v \<noteq> PAGE_FREE \<and> \<not> in_a_region rs vaddr permissions
            then copy_page dst pt2 j vaddr permissions s else Some s);
     copy_leaves dst rs pt2 i js s'
   }"

fun copy_tables :: "addr \<Rightarrow> region list \<Rightarrow> addr \<Rightarrow> nat list \<Rightarrow> vmsys \<Rightarrow> vmsys option" where
  "copy_tables dst rs pt1 [] s = Some s"
| "copy_tables dst rs pt1 (i # is) s = do {
     let v = get_value pt1 i s;
     s' \<leftarrow> (if get_page_state_by_value v \<noteq> PAGE_FREE
            then do {
              (_, pt2, s1) \<leftarrow> get_pagetable pt1 (push_bit ADDR_UP_SHIFT (of_nat i)) True (v AND PAGE_PERMS) s;
              copy_leaves dst rs pt2 i [0..<PT_ENTRIES] s1
            }
            else Some s);
     copy_tables dst rs pt1 is s'
   }"

definition pt_copy :: "addr \<Rightarrow> addrspace \<Rightarrow> vmsys \<Rightarrow> vmsys option" where
  \<comment> \<open>the returned value is always 0\<close>
  "pt_copy dst as s = copy_tables dst (as_regions as) (as_pt as) [0..<PT_ENTRIES] s"

definition pt_notify_of_swap :: "addr \<Rightarrow> addr \<Rightarrow> addr \<Rightarrow> vmsys \<Rightarrow> vmsys option" where
  "pt_notify_of_swap pt vaddr index s =
     (if vaddr AND SWP_PAGE \<noteq> 0 then do {
        (_, spt, s1) \<leftarrow> get_pagetable pt vaddr True 0 s;
        (if spt \<noteq> 0 then do {
           let offset = get_offset vaddr ADDR_LOW_MASK ADDR_LOW_SHIFT;
           (v, _, s2) \<leftarrow> get_page spt offset True vaddr s1;
           (if v = 0 then
              let e = ((get_value spt offset s2 AND 0xFFF) AND NOT (PAGE_FREE OR PAGE_IN_MEM)) OR PAGE_IN_SWP
              in Some (set_value spt offset (e OR push_bit ADDR_LOW_SHIFT index) s2)
            else Some s2)
         }
         else Some s1)
      }
      else if vaddr AND SWP_TABLE \<noteq> 0 then do {
        (_, spt, s1) \<leftarrow> get_pagetable pt vaddr True 0 s;
        (if spt \<noteq> 0 then
           let offset = get_offset vaddr ADDR_UP_MASK ADDR_UP_SHIFT;
               e = ((get_value pt offset s1 AND 0xFFF) AND NOT (PAGE_FREE OR PAGE_IN_MEM)) OR PAGE_IN_SWP
           in Some (set_value pt offset (e OR push_bit ADDR_LOW_SHIFT index) s1)
         else Some s1)
      }
      else None)"

end
