(* ===== verification/Kern_Pagetable_Inv.thy ===== *)
theory Kern_Pagetable_Inv
  imports Kern_Pagetable Kern_Kheap_Ops "HOL-Library.Multiset"
begin

text \<open>
  The invariant of page tables and the meaning of a page table as a map from virtual pages to entries. The tables and the frames of
  a page table are blocks of the heap of one page each, all different.
\<close>

section \<open>Entries\<close>

definition vacant :: "addr \<Rightarrow> bool" where
  "vacant v \<longleftrightarrow> v AND PAGE_FREE \<noteq> 0"

definition present :: "addr \<Rightarrow> bool" where
  "present v \<longleftrightarrow> v AND PAGE_FREE = 0 \<and> v AND PAGE_IN_MEM \<noteq> 0"

lemma state_by_value:
  "get_page_state_by_value v = PAGE_FREE \<longleftrightarrow> vacant v" "get_page_state_by_value v = PAGE_IN_MEM \<longleftrightarrow> present v"
  "get_page_state_by_value v = PAGE_IN_SWP \<longleftrightarrow> \<not> vacant v \<and> \<not> present v"
  by (auto simp: get_page_state_by_value_def vacant_def present_def)

lemma present_not_vacant: "present v \<Longrightarrow> \<not> vacant v"
  by (simp add: present_def vacant_def)

lemma and_within: "p AND m = p \<Longrightarrow> m AND w = k \<Longrightarrow> p AND w = p AND k" for p m w k :: addr
proof -
  assume p: "p AND m = p" and k: "m AND w = k"
  have "p AND w = (p AND m) AND w" by (simp only: p)
  also have "\<dots> = p AND (m AND w)" by (rule and.assoc)
  finally show ?thesis by (simp only: k)
qed

lemma entry_bits:
  assumes p: "p AND PAGE_FRAME = p" and q: "q AND PAGE_PERMS = q"
  shows "(p OR PAGE_IN_MEM OR q) AND PAGE_FRAME = p" "present (p OR PAGE_IN_MEM OR q)" "(p OR PAGE_IN_MEM OR q) AND PAGE_PERMS = q"
    "(p OR PAGE_IN_MEM OR q) AND 0xFFFFFFFC = p OR q"
proof -
  have P: "p AND PAGE_PERMS = 0" "p AND PAGE_FREE = 0" "p AND PAGE_IN_MEM = 0" "p AND 0xFFFFFFFC = p"
    using and_within [OF p, of PAGE_PERMS 0] and_within [OF p, of PAGE_FREE 0] and_within [OF p, of PAGE_IN_MEM 0]
      and_within [OF p, of "0xFFFFFFFC" PAGE_FRAME] p by simp_all
  have Q: "q AND PAGE_FRAME = 0" "q AND PAGE_FREE = 0" "q AND PAGE_IN_MEM = 0" "q AND 0xFFFFFFFC = q"
    using and_within [OF q, of PAGE_FRAME 0] and_within [OF q, of PAGE_FREE 0] and_within [OF q, of PAGE_IN_MEM 0]
      and_within [OF q, of "0xFFFFFFFC" PAGE_PERMS] q by simp_all
  show "(p OR PAGE_IN_MEM OR q) AND PAGE_FRAME = p" "(p OR PAGE_IN_MEM OR q) AND PAGE_PERMS = q"
    "(p OR PAGE_IN_MEM OR q) AND 0xFFFFFFFC = p OR q" "present (p OR PAGE_IN_MEM OR q)"
    using p q P Q by (simp_all add: bit.conj_disj_distrib2 present_def)
qed

lemma table_bits:
  assumes "p AND PAGE_FRAME = p"
  shows "(p OR PAGE_IN_MEM) AND PAGE_FRAME = p" "present (p OR PAGE_IN_MEM)"
  using entry_bits(1,2) [OF assms, of 0] by simp_all

lemma free_bits:
  assumes "q AND PAGE_PERMS = q"
  shows "vacant (PAGE_FREE OR q)" "(PAGE_FREE OR q) AND PAGE_PERMS = q"
  using assms and_within [OF assms, of PAGE_FREE 0] by (simp_all add: vacant_def bit.conj_disj_distrib2)

lemma perm_bits:
  assumes v: "present v" and q: "q AND PAGE_PERMS = q"
  shows "present ((v AND NOT PAGE_PERMS) OR q)" "((v AND NOT PAGE_PERMS) OR q) AND PAGE_FRAME = v AND PAGE_FRAME"
    "((v AND NOT PAGE_PERMS) OR q) AND PAGE_PERMS = q"
proof -
  have Q: "q AND PAGE_FRAME = 0" "q AND PAGE_FREE = 0" "q AND PAGE_IN_MEM = 0"
    using and_within [OF q, of PAGE_FRAME 0] and_within [OF q, of PAGE_FREE 0] and_within [OF q, of PAGE_IN_MEM 0] by simp_all
  show "present ((v AND NOT PAGE_PERMS) OR q)" "((v AND NOT PAGE_PERMS) OR q) AND PAGE_FRAME = v AND PAGE_FRAME"
    "((v AND NOT PAGE_PERMS) OR q) AND PAGE_PERMS = q"
    using v q Q by (simp_all add: bit.conj_disj_distrib2 present_def and.assoc)
qed

section \<open>Words of a page\<close>

lemma word_in_page:
  fixes t :: addr
  assumes "unat t mod PAGE_SIZE = 0" "j < PT_ENTRIES"
  shows "unat (t + of_nat (4 * j)) = unat t + 4 * j" "page_no (t + of_nat (4 * j)) = page_no t"
proof -
  show u: "unat (t + of_nat (4 * j)) = unat t + 4 * j" using assms by (intro page_offset) simp_all
  then show "page_no (t + of_nat (4 * j)) = page_no t" using same_page [OF assms(1), of "unat t + 4 * j"] assms(2) by simp
qed

lemma word_eq:
  fixes t u :: addr
  assumes "unat t mod PAGE_SIZE = 0" "j < PT_ENTRIES" "unat u mod PAGE_SIZE = 0" "k < PT_ENTRIES"
  shows "t + of_nat (4 * j) = u + of_nat (4 * k) \<longleftrightarrow> t = u \<and> j = k"
proof
  assume e: "t + of_nat (4 * j) = u + of_nat (4 * k)"
  then have "page_no t = page_no u" using word_in_page(2) [OF assms(1,2)] word_in_page(2) [OF assms(3,4)] by simp
  then have "t = u" by (rule page_no_eq [OF assms(1,3)])
  moreover have "unat t + 4 * j = unat u + 4 * k" using e word_in_page(1) [OF assms(1,2)] word_in_page(1) [OF assms(3,4)] by simp
  ultimately show "t = u \<and> j = k" by simp
qed simp

definition entry :: "'as kheap \<Rightarrow> addr \<Rightarrow> nat \<Rightarrow> addr" where
  "entry h t j = kh_mem h (t + of_nat (4 * j))"

lemma get_value_entry: "get_value t j s = entry (vm_heap s) t j"
  by (simp add: get_value_def entry_def)

definition up :: "addr \<Rightarrow> nat" where
  "up va = get_offset va ADDR_UP_MASK ADDR_UP_SHIFT"

definition lo :: "addr \<Rightarrow> nat" where
  "lo va = get_offset va ADDR_LOW_MASK ADDR_LOW_SHIFT"

lemma up_div: "up va = unat va div 2 ^ 22"
proof -
  have "ADDR_UP_MASK = NOT (mask 22)" by (simp add: mask_eq_exp_minus_1)
  moreover have "drop_bit 22 (va AND NOT (mask 22)) = drop_bit 22 va" by (rule bit_eqI) (auto simp: bit_simps dest: bit_imp_le_length)
  ultimately have "up va = unat (drop_bit 22 va)" by (simp only: up_def get_offset_def)
  then show ?thesis by (simp add: drop_bit_eq_div unat_div)
qed

lemma lo_div: "lo va = unat va div 2 ^ 12 mod 2 ^ 10"
proof -
  have "ADDR_LOW_MASK = push_bit 12 (mask 10)" by (simp add: mask_eq_exp_minus_1 push_bit_eq_mult)
  moreover have "drop_bit 12 (va AND push_bit 12 (mask 10)) = take_bit 10 (drop_bit 12 va)" by (rule bit_eqI) (auto simp: bit_simps dest: bit_imp_le_length)
  ultimately have "lo va = unat (take_bit 10 (drop_bit 12 va))" by (simp only: lo_def get_offset_def)
  then show ?thesis by (simp add: drop_bit_eq_div take_bit_eq_mod unat_div unat_mod)
qed

lemma up_lo_bound: "up va < PT_ENTRIES" "lo va < PT_ENTRIES"
  using unat_bound [of va] by (simp_all add: up_div lo_div)

lemma up_lo_page: "up a = up b \<and> lo a = lo b \<longleftrightarrow> page_no a = page_no b"
proof -
  have d: "up x = page_no x div PT_ENTRIES" "lo x = page_no x mod PT_ENTRIES" for x
    by (simp_all add: up_div lo_div div_mult2_eq [symmetric])
  show ?thesis unfolding d by (metis div_mult_mod_eq)
qed

section \<open>The heap around a page table\<close>

definition page_block :: "'as kheap \<Rightarrow> addr \<Rightarrow> bool" where
  \<comment> \<open>a block of one whole page\<close>
  "page_block h a \<longleftrightarrow> owner h a = None \<and> km_block (kh_cm h) a = Some 1"

lemma page_block_facts:
  assumes "kheap_inv h" "page_block h a"
  shows "unat a mod PAGE_SIZE = 0" "2 ^ 31 \<le> unat a" "unat a + PAGE_SIZE < 2 ^ 32" "a \<noteq> 0" "a AND PAGE_FRAME = a"
proof -
  have b: "km_block (kh_cm h) a = Some 1" using assms(2) by (simp add: page_block_def)
  show al: "unat a mod PAGE_SIZE = 0" "2 ^ 31 \<le> unat a" "unat a + PAGE_SIZE < 2 ^ 32" using page_bound [OF assms(1) b] by simp_all
  then show "a \<noteq> 0" by auto
  show "a AND PAGE_FRAME = a" by (rule page_aligned [OF al(1)])
qed

lemma page_block_heap_map: "page_block h a \<Longrightarrow> heap_map h a = Some PAGE_SIZE"
  by (simp add: page_block_def heap_map_out)

lemma kheap_write:
  assumes inv: "kheap_inv h" and a: "page_block h a" and m: "\<And>x. page_no x \<noteq> page_no a \<Longrightarrow> m x = kh_mem h x"
  shows "kheap_inv (h\<lparr>kh_mem := m\<rparr>)" "heap_map (h\<lparr>kh_mem := m\<rparr>) = heap_map h" "owner (h\<lparr>kh_mem := m\<rparr>) = owner h"
proof -
  from inv obtain ps where ps: "pages_ok h ps" by (auto simp: kheap_inv_def)
  let ?h = "h\<lparr>kh_mem := m\<rparr>"
  have pr: "pr_inuse ?h = pr_inuse h" by (simp add: pr_inuse_def fun_eq_iff)
  show own: "owner ?h = owner h" by (simp add: owner_def pr fun_eq_iff)
  have ok: "page_ok (kh_cm h) m (pagerefs h q) \<and> free_blocks m (pagerefs h q) = free_blocks (kh_mem h) (pagerefs h q)" if "pr_inuse h q" for q
  proof (rule page_ok_frame [OF pages_okD(6) [OF ps that]])
    fix x
    assume x: "page_no x = page_no (PR_PAGEADDR (pagerefs h q))"
    have "page_no (PR_PAGEADDR (pagerefs h q)) \<noteq> page_no a" using a that by (auto simp: page_block_def owner_None)
    with x show "m x = kh_mem h x" by (intro m) simp
  qed
  then have ps': "pages_ok ?h ps" using ps unfolding pages_ok_def pr by (elim conjE) simp
  then show "kheap_inv ?h" using inv by (auto simp: kheap_inv_def)
  show "heap_map ?h = heap_map h"
  proof
    fix x
    show "heap_map ?h x = heap_map h x"
    proof (cases "owner h x")
      case None
      then show ?thesis using own by (simp add: heap_map_out)
    next
      case (Some q)
      then have "pr_inuse h q" using owner_Some [OF ps] by blast
      with ok Some own show ?thesis by (simp add: heap_map_def)
    qed
  qed
qed

lemma kheap_same_blocks:
  assumes inv: "kheap_inv h" and cm: "coremap_inv cm" "coremap_size cm = coremap_size (kh_cm h)" "km_block cm = km_block (kh_cm h)"
  shows "kheap_inv (h\<lparr>kh_cm := cm\<rparr>)" "heap_map (h\<lparr>kh_cm := cm\<rparr>) = heap_map h" "owner (h\<lparr>kh_cm := cm\<rparr>) = owner h"
proof -
  from inv obtain ps where ps: "pages_ok h ps" by (auto simp: kheap_inv_def)
  have "pages_ok (h\<lparr>kh_cm := cm\<rparr>) ps" by (rule pages_ok_cm [OF ps]) (simp add: cm(3))
  then show "kheap_inv (h\<lparr>kh_cm := cm\<rparr>)" using inv cm by (auto simp: kheap_inv_def)
  show "owner (h\<lparr>kh_cm := cm\<rparr>) = owner h" by (simp add: owner_def pr_inuse_def fun_eq_iff)
  show "heap_map (h\<lparr>kh_cm := cm\<rparr>) = heap_map h" by (auto simp: heap_map_cm cm(3) heap_map_out fun_eq_iff)
qed

lemma km_block_mark:
  assumes "length (cm_pages c') = length (cm_pages c)" "\<forall>k. page_count (cm_pages c' ! k) = page_count (cm_pages c ! k)"
  shows "km_block c' = km_block c"
  using assms by (auto simp: km_block_def cm_block_def fun_eq_iff)

lemma setpagevaddr_blocks:
  assumes inv: "coremap_inv c" and b: "km_block c (p + MIPS_KSEG0) = Some n"
  obtains c' where "coremap_setpagevaddr p as v c = Some c'" "coremap_inv c'" "km_block c' = km_block c" "coremap_size c' = coremap_size c"
proof -
  have "frame_no p < length (cm_pages c)" using b by (auto simp: km_block_def cm_block_def split: if_splits)
  then have "coremap_setpagevaddr p as v c \<noteq> None" by (auto simp: coremap_setpagevaddr_def Let_def)
  then obtain c' where c': "coremap_setpagevaddr p as v c = Some c'" by auto
  moreover have "length (cm_pages c') = length (cm_pages c)" "coremap_size c' = coremap_size c"
    using c' by (auto simp: coremap_setpagevaddr_def Let_def bind_Some wr_Some split: if_splits)
  ultimately show ?thesis using that coremap_setpagevaddr_inv [OF inv c'] km_block_mark by blast
qed

lemma setpagefixed_blocks:
  assumes inv: "coremap_inv c" and b: "frame_no p < length (cm_pages c)"
  obtains c' where "coremap_setpagefixed p f c = Some c'" "coremap_inv c'" "km_block c' = km_block c" "coremap_size c' = coremap_size c"
proof -
  have "coremap_setpagefixed p f c \<noteq> None" using b by (auto simp: coremap_setpagefixed_def Let_def)
  then obtain c' where c': "coremap_setpagefixed p f c = Some c'" by auto
  moreover have "length (cm_pages c') = length (cm_pages c)" "coremap_size c' = coremap_size c"
    using c' by (auto simp: coremap_setpagefixed_def Let_def bind_Some wr_Some split: if_splits)
  ultimately show ?thesis using that coremap_setpagefixed_inv [OF inv c'] km_block_mark by blast
qed

lemma page_block_new:
  assumes inv: "kheap_inv h" and a: "alloc_kpages 1 (kh_cm h) = Some (a, cm)"
  obtains cm' where "coremap_setpagevaddr (a - MIPS_KSEG0) as v cm = Some cm'" "kheap_inv (h\<lparr>kh_cm := cm'\<rparr>)"
    "heap_map (h\<lparr>kh_cm := cm'\<rparr>) = (heap_map h)(a \<mapsto> PAGE_SIZE)" "heap_map h a = None"
    "\<And>b. page_block (h\<lparr>kh_cm := cm'\<rparr>) b \<longleftrightarrow> b = a \<or> page_block h b" "\<not> page_block h a" "a \<noteq> 0"
proof -
  note L = kmalloc_large [OF inv a, unfolded mult_1]
  from inv have cm: "coremap_inv (kh_cm h)" by (simp add: kheap_inv_def)
  from kp.alloc_ok [OF cm a] have A: "coremap_inv cm" "km_block cm = (km_block (kh_cm h))(a \<mapsto> 1)" "km_block (kh_cm h) a = None" by auto
  then have "km_block cm (a - MIPS_KSEG0 + MIPS_KSEG0) = Some 1" by simp
  from setpagevaddr_blocks [OF A(1) this, of as v]
  obtain cm' where c: "coremap_setpagevaddr (a - MIPS_KSEG0) as v cm = Some cm'" "coremap_inv cm'" "km_block cm' = km_block cm"
    "coremap_size cm' = coremap_size cm" .
  let ?h = "h\<lparr>kh_cm := cm\<rparr>"
  have same: "coremap_size cm' = coremap_size (kh_cm ?h)" "km_block cm' = km_block (kh_cm ?h)" using c by simp_all
  note S = kheap_same_blocks [OF L(2) c(2) same, simplified]
  have own: "owner ?h = owner h" by (simp add: owner_def pr_inuse_def fun_eq_iff)
  have "page_block (h\<lparr>kh_cm := cm'\<rparr>) b \<longleftrightarrow> b = a \<or> page_block h b" for b
    using L(5) A(2) S(3) own by (auto simp: page_block_def c(3))
  moreover have "\<not> page_block h a" using A(3) by (simp add: page_block_def)
  ultimately show ?thesis using that c(1) S L by simp
qed

section \<open>Page tables\<close>

definition leaf_addr :: "addr \<Rightarrow> addr" where
  "leaf_addr v = (v AND PAGE_FRAME) + MIPS_KSEG0"

definition leaf_blocks :: "addr \<Rightarrow> addr list" where
  "leaf_blocks v = (if present v then [leaf_addr v] else [])"

definition leaves :: "'as kheap \<Rightarrow> addr \<Rightarrow> addr list" where
  "leaves h t = concat (map (\<lambda>j. leaf_blocks (entry h t j)) [0..<PT_ENTRIES])"

definition nodes :: "'as kheap \<Rightarrow> addr \<Rightarrow> addr list" where
  "nodes h v = (if present v then leaves h (v AND PAGE_FRAME) @ [v AND PAGE_FRAME] else [])"

definition pt_blocks :: "'as kheap \<Rightarrow> addr \<Rightarrow> addr list" where
  \<comment> \<open>the pages a page table owns, in the order in which \<open>pt_destroy\<close> frees them\<close>
  "pt_blocks h pt = concat (map (\<lambda>i. nodes h (entry h pt i)) [0..<PT_ENTRIES]) @ [pt]"

definition entry_ok :: "addr \<Rightarrow> bool" where
  "entry_ok v \<longleftrightarrow> vacant v \<or> present v"

definition pt_wf :: "'as kheap \<Rightarrow> addr \<Rightarrow> bool" where
  "pt_wf h pt \<longleftrightarrow> distinct (pt_blocks h pt) \<and> (\<forall>a \<in> set (pt_blocks h pt). page_block h a) \<and>
     (\<forall>i < PT_ENTRIES. entry_ok (entry h pt i) \<and>
        (present (entry h pt i) \<longrightarrow> (\<forall>j < PT_ENTRIES. entry_ok (entry h (entry h pt i AND PAGE_FRAME) j))))"

definition pt_lookup :: "'as kheap \<Rightarrow> addr \<Rightarrow> addr \<Rightarrow> addr option" where
  \<comment> \<open>the entry of a virtual address\<close>
  "pt_lookup h pt va =
     (let v = entry h pt (up va); w = entry h (v AND PAGE_FRAME) (lo va)
      in if present v \<and> present w then Some w else None)"

definition others :: "'as kheap \<Rightarrow> addr \<Rightarrow> addr \<rightharpoonup> nat" where
  \<comment> \<open>the blocks in use that a page table does not own\<close>
  "others h pt = heap_map h |` (- set (pt_blocks h pt))"

lemma others_insert:
  assumes "set (pt_blocks h' pt) = insert x (set (pt_blocks h pt))" "heap_map h x = None" "heap_map h' = (heap_map h)(x \<mapsto> n)"
  shows "others h' pt = others h pt"
  using assms by (auto simp: others_def restrict_map_def fun_eq_iff)

lemma in_concat: "i < n \<Longrightarrow> a \<in> set (f i) \<Longrightarrow> a \<in> set (concat (map f [0..<n]))"
  by auto

lemma distinct_concat_parts:
  assumes "distinct (concat (map f [0..<n]))" "i < n" "j < n" "i \<noteq> j"
  shows "set (f i) \<inter> set (f j) = {}"
  using assms
proof (induction n)
  case (Suc n)
  have sub: "set (f k) \<subseteq> set (concat (map f [0..<n]))" if "k < n" for k using that by auto
  have d: "distinct (concat (map f [0..<n]))" "set (concat (map f [0..<n])) \<inter> set (f n) = {}" using Suc.prems(1) by simp_all
  consider "i < n" "j < n" | "i < n" "j = n" | "i = n" "j < n" using Suc.prems(2-4) by linarith
  then show ?case using Suc.IH [OF d(1) _ _ Suc.prems(4)] sub d(2) by cases blast+
qed simp

lemma mset_concat_upd:
  assumes "i < n" "\<And>k. k < n \<Longrightarrow> k \<noteq> i \<Longrightarrow> f k = g k" "mset (f i) = add_mset x (mset (g i))"
  shows "mset (concat (map f [0..<n])) = add_mset x (mset (concat (map g [0..<n])))"
proof -
  have split: "[0..<n] = [0..<i] @ i # [Suc i..<n]" using assms(1) upt_add_eq_append [of 0 i "n - i"] by (simp add: upt_conv_Cons)
  have e: "map f [0..<i] = map g [0..<i]" "map f [Suc i..<n] = map g [Suc i..<n]" using assms(1,2) by auto
  show ?thesis unfolding split map_append list.map concat_append concat.simps mset_append e by (simp add: assms(3))
qed

lemma pt_wfD:
  assumes "pt_wf h pt"
  shows "page_block h pt" "\<And>i. i < PT_ENTRIES \<Longrightarrow> entry_ok (entry h pt i)"
    "\<And>i. i < PT_ENTRIES \<Longrightarrow> present (entry h pt i) \<Longrightarrow> page_block h (entry h pt i AND PAGE_FRAME)"
    "\<And>i. i < PT_ENTRIES \<Longrightarrow> present (entry h pt i) \<Longrightarrow> entry h pt i AND PAGE_FRAME \<noteq> pt"
    "\<And>i j. i < PT_ENTRIES \<Longrightarrow> present (entry h pt i) \<Longrightarrow> j < PT_ENTRIES \<Longrightarrow> entry_ok (entry h (entry h pt i AND PAGE_FRAME) j)"
    "\<And>i k. i < PT_ENTRIES \<Longrightarrow> k < PT_ENTRIES \<Longrightarrow> present (entry h pt i) \<Longrightarrow> present (entry h pt k) \<Longrightarrow>
       entry h pt i AND PAGE_FRAME = entry h pt k AND PAGE_FRAME \<Longrightarrow> i = k"
    "\<And>i j. i < PT_ENTRIES \<Longrightarrow> present (entry h pt i) \<Longrightarrow> j < PT_ENTRIES \<Longrightarrow> present (entry h (entry h pt i AND PAGE_FRAME) j) \<Longrightarrow>
       page_block h (leaf_addr (entry h (entry h pt i AND PAGE_FRAME) j))"
proof -
  let ?f = "\<lambda>i. nodes h (entry h pt i)"
  from assms have d: "distinct (concat (map ?f [0..<PT_ENTRIES]))" "pt \<notin> set (concat (map ?f [0..<PT_ENTRIES]))"
    and b: "\<And>a. a \<in> set (pt_blocks h pt) \<Longrightarrow> page_block h a"
    by (auto simp: pt_wf_def pt_blocks_def)
  show "page_block h pt" by (rule b) (simp add: pt_blocks_def)
  show "\<And>i. i < PT_ENTRIES \<Longrightarrow> entry_ok (entry h pt i)"
    "\<And>i j. i < PT_ENTRIES \<Longrightarrow> present (entry h pt i) \<Longrightarrow> j < PT_ENTRIES \<Longrightarrow> entry_ok (entry h (entry h pt i AND PAGE_FRAME) j)"
    using assms by (auto simp: pt_wf_def)
  have t: "entry h pt i AND PAGE_FRAME \<in> set (?f i)" if "present (entry h pt i)" for i using that by (simp add: nodes_def)
  have c: "a \<in> set (concat (map ?f [0..<PT_ENTRIES]))" if "i < PT_ENTRIES" "a \<in> set (?f i)" for i a by (rule in_concat [where f = ?f, OF that])
  have c': "page_block h a" if "i < PT_ENTRIES" "a \<in> set (?f i)" for i a
    by (rule b, unfold pt_blocks_def set_append, rule UnI1, rule c [OF that])
  show "page_block h (entry h pt i AND PAGE_FRAME)" if "i < PT_ENTRIES" "present (entry h pt i)" for i
    by (rule c' [OF that(1) t [OF that(2)]])
  show "entry h pt i AND PAGE_FRAME \<noteq> pt" if "i < PT_ENTRIES" "present (entry h pt i)" for i
    using c [OF that(1) t [OF that(2)]] d(2) by metis
  show "i = k" if "i < PT_ENTRIES" "k < PT_ENTRIES" "present (entry h pt i)" "present (entry h pt k)"
    "entry h pt i AND PAGE_FRAME = entry h pt k AND PAGE_FRAME" for i k
    using distinct_concat_parts [OF d(1) that(1,2)] t [OF that(3)] t [OF that(4)] that(5) by auto
  show "page_block h (leaf_addr (entry h (entry h pt i AND PAGE_FRAME) j))"
    if "i < PT_ENTRIES" "present (entry h pt i)" "j < PT_ENTRIES" "present (entry h (entry h pt i AND PAGE_FRAME) j)" for i j
  proof (rule c' [OF that(1)])
    have "leaf_addr (entry h (entry h pt i AND PAGE_FRAME) j) \<in> set (leaves h (entry h pt i AND PAGE_FRAME))"
      unfolding leaves_def
      by (rule in_concat [where f = "\<lambda>j. leaf_blocks (entry h (entry h pt i AND PAGE_FRAME) j)", OF that(3)]) (simp add: leaf_blocks_def that(4))
    then show "leaf_addr (entry h (entry h pt i AND PAGE_FRAME) j) \<in> set (?f i)" using that(2) by (simp add: nodes_def)
  qed
qed

lemma nodes_cong:
  assumes "present v \<Longrightarrow> \<forall>j < PT_ENTRIES. entry h' (v AND PAGE_FRAME) j = entry h (v AND PAGE_FRAME) j"
  shows "nodes h' v = nodes h v"
proof (cases "present v")
  case True
  with assms have "map (\<lambda>j. leaf_blocks (entry h' (v AND PAGE_FRAME) j)) [0..<PT_ENTRIES] =
    map (\<lambda>j. leaf_blocks (entry h (v AND PAGE_FRAME) j)) [0..<PT_ENTRIES]" by (intro map_cong) auto
  then have "leaves h' (v AND PAGE_FRAME) = leaves h (v AND PAGE_FRAME)" unfolding leaves_def by (rule arg_cong)
  then show ?thesis by (simp only: nodes_def)
qed (simp add: nodes_def)

lemma pt_wf_insert:
  assumes wf: "pt_wf h pt" and i: "i < PT_ENTRIES"
    and same: "\<And>k. k < PT_ENTRIES \<Longrightarrow> k \<noteq> i \<Longrightarrow> entry h' pt k = entry h pt k"
    and same': "\<And>k j. k < PT_ENTRIES \<Longrightarrow> k \<noteq> i \<Longrightarrow> present (entry h pt k) \<Longrightarrow> j < PT_ENTRIES \<Longrightarrow>
      entry h' (entry h pt k AND PAGE_FRAME) j = entry h (entry h pt k AND PAGE_FRAME) j"
    and node: "mset (nodes h' (entry h' pt i)) = add_mset x (mset (nodes h (entry h pt i)))"
    and ok: "present (entry h' pt i)" "\<And>j. j < PT_ENTRIES \<Longrightarrow> entry_ok (entry h' (entry h' pt i AND PAGE_FRAME) j)"
    and blocks: "\<And>b. page_block h' b \<longleftrightarrow> b = x \<or> page_block h b" "\<not> page_block h x"
  shows "pt_wf h' pt" "set (pt_blocks h' pt) = insert x (set (pt_blocks h pt))"
proof -
  note W = pt_wfD [OF wf]
  let ?f = "\<lambda>h k. nodes h (entry h pt k)"
  have "?f h' k = ?f h k" if "k < PT_ENTRIES" "k \<noteq> i" for k
    using nodes_cong [of "entry h pt k" h' h] same [OF that] same' [OF that] by simp
  then have "mset (concat (map (?f h') [0..<PT_ENTRIES])) = add_mset x (mset (concat (map (?f h) [0..<PT_ENTRIES])))"
    using node by (intro mset_concat_upd [OF i]) simp_all
  then have m: "mset (pt_blocks h' pt) = mset (x # pt_blocks h pt)" unfolding pt_blocks_def mset_append mset.simps by simp
  have old: "distinct (pt_blocks h pt)" "\<And>b. b \<in> set (pt_blocks h pt) \<Longrightarrow> page_block h b" using wf by (auto simp: pt_wf_def)
  then have "distinct (x # pt_blocks h pt)" using blocks(2) by auto
  then have "distinct (pt_blocks h' pt)" using mset_eq_imp_distinct_iff [OF m] by simp
  moreover show b: "set (pt_blocks h' pt) = insert x (set (pt_blocks h pt))" using mset_eq_setD [OF m] by simp
  from b have "\<forall>b \<in> set (pt_blocks h' pt). page_block h' b" using old(2) blocks(1) by auto
  moreover have "entry_ok (entry h' pt k) \<and>
    (present (entry h' pt k) \<longrightarrow> (\<forall>j < PT_ENTRIES. entry_ok (entry h' (entry h' pt k AND PAGE_FRAME) j)))" if "k < PT_ENTRIES" for k
  proof (cases "k = i")
    case True
    then show ?thesis using ok by (simp add: entry_ok_def)
  next
    case False
    then show ?thesis using same [OF that False] same' [OF that False] W(2) [OF that] W(5) [OF that] by simp
  qed
  ultimately show "pt_wf h' pt" by (simp only: pt_wf_def) blast
qed

lemma entry_write:
  assumes "kheap_inv h" "page_block h t" "page_block h u" "j < PT_ENTRIES" "k < PT_ENTRIES"
  shows "kh_mem (h\<lparr>kh_mem := (kh_mem h)(t + of_nat (4 * j) := v)\<rparr>) (u + of_nat (4 * k)) = (if u = t \<and> k = j then v else entry h u k)"
  using word_eq [OF page_block_facts(1) [OF assms(1,3)] assms(5) page_block_facts(1) [OF assms(1,2)] assms(4)]
  by (auto simp: entry_def)

lemma fill_table_out:
  assumes "\<And>i. i < n \<Longrightarrow> x \<noteq> t + of_nat (4 * i)"
  shows "fill_table t v n m x = m x"
proof -
  have "fold (\<lambda>i m. m(t + of_nat (4 * i) := v)) [0..<k] m x = m x" if "k \<le> n" for k
    using that assms by (induction k) auto
  then show ?thesis by (simp add: fill_table_def)
qed

lemma fill_table_in:
  assumes "unat t mod PAGE_SIZE = 0" "j < n" "n \<le> PT_ENTRIES"
  shows "fill_table t v n m (t + of_nat (4 * j)) = v"
  using assms(2,3)
proof (induction n)
  case (Suc n)
  have "fill_table t v (Suc n) m = (fill_table t v n m)(t + of_nat (4 * n) := v)" by (simp add: fill_table_def)
  moreover have "t + of_nat (4 * j) = t + of_nat (4 * n) \<longleftrightarrow> j = n" using word_eq [OF assms(1) _ assms(1), of j n] Suc.prems by simp
  moreover have "fill_table t v n m (t + of_nat (4 * j)) = v" if "j \<noteq> n" using Suc.IH Suc.prems that by simp
  ultimately show ?case unfolding fun_upd_apply by (cases "j = n") (simp_all only: if_True if_False simp_thms)
qed simp

section \<open>Page tables and other memory\<close>

definition pt_tables :: "'as kheap \<Rightarrow> addr \<Rightarrow> addr set" where
  "pt_tables h pt = insert pt {entry h pt i AND PAGE_FRAME | i. i < PT_ENTRIES \<and> present (entry h pt i)}"

lemma pt_tables_in: "pt \<in> pt_tables h pt" "i < PT_ENTRIES \<Longrightarrow> present (entry h pt i) \<Longrightarrow> entry h pt i AND PAGE_FRAME \<in> pt_tables h pt"
  by (auto simp: pt_tables_def)

lemma pt_tables_blocks: "pt_tables h pt \<subseteq> set (pt_blocks h pt)"
  by (auto simp: pt_tables_def pt_blocks_def nodes_def)

lemma pt_same_tables:
  assumes wf: "pt_wf h pt" and e: "\<And>t j. t \<in> pt_tables h pt \<Longrightarrow> j < PT_ENTRIES \<Longrightarrow> entry h' t j = entry h t j"
    and b: "\<And>x. x \<in> set (pt_blocks h pt) \<Longrightarrow> page_block h' x"
  shows "pt_wf h' pt" "pt_lookup h' pt = pt_lookup h pt" "pt_blocks h' pt = pt_blocks h pt" "pt_tables h' pt = pt_tables h pt"
proof -
  have top: "entry h' pt i = entry h pt i" if "i < PT_ENTRIES" for i by (rule e [OF pt_tables_in(1) that])
  have sub: "entry h' (entry h pt i AND PAGE_FRAME) j = entry h (entry h pt i AND PAGE_FRAME) j"
    if "i < PT_ENTRIES" "present (entry h pt i)" "j < PT_ENTRIES" for i j by (rule e [OF pt_tables_in(2) [OF that(1,2)] that(3)])
  have "nodes h' (entry h pt i) = nodes h (entry h pt i)" if "i < PT_ENTRIES" for i by (rule nodes_cong) (use sub [OF that] in blast)
  then show bl: "pt_blocks h' pt = pt_blocks h pt" unfolding pt_blocks_def using top
    by (intro arg_cong2 [of _ _ _ _ "(@)"] arg_cong [of _ _ concat] map_cong) auto
  show "pt_wf h' pt" using wf top sub b unfolding pt_wf_def bl by simp
  show "pt_lookup h' pt = pt_lookup h pt"
    using top [OF up_lo_bound(1)] sub [OF up_lo_bound(1) _ up_lo_bound(2)] by (auto simp: pt_lookup_def Let_def fun_eq_iff)
  show "pt_tables h' pt = pt_tables h pt"
    unfolding pt_tables_def by (intro arg_cong [of _ _ "insert pt"] Collect_cong) (use top in metis)
qed

lemma pt_lookupD:
  assumes "pt_lookup h pt va = Some v"
  shows "present (entry h pt (up va))" "present v" "v = entry h (entry h pt (up va) AND PAGE_FRAME) (lo va)"
  using assms by (auto simp: pt_lookup_def Let_def split: if_splits)

lemma pt_lookup_page: "page_no a = page_no b \<Longrightarrow> pt_lookup h pt a = pt_lookup h pt b"
  using up_lo_page [of a b] by (simp add: pt_lookup_def)

lemma distinct_concat_part:
  assumes "distinct (concat (map f [0..<n]))" "i < n"
  shows "distinct (f i)"
  using assms by (auto simp: distinct_concat_iff)

lemma leaf_block:
  assumes "pt_wf h pt" "pt_lookup h pt va = Some v"
  shows "page_block h (leaf_addr v)" "leaf_addr v \<in> set (pt_blocks h pt)" "leaf_addr v \<notin> pt_tables h pt"
proof -
  note L = pt_lookupD [OF assms(2)] and B = up_lo_bound [of va]
  let ?f = "\<lambda>i. nodes h (entry h pt i)" and ?t = "entry h pt (up va) AND PAGE_FRAME"
  have l: "leaf_addr v \<in> set (leaves h ?t)" unfolding leaves_def
    by (rule in_concat [where f = "\<lambda>j. leaf_blocks (entry h ?t j)", OF B(2)]) (use L in \<open>auto simp: leaf_blocks_def\<close>)
  then have n: "leaf_addr v \<in> set (?f (up va))" using L(1) by (simp add: nodes_def)
  from in_concat [where f = ?f, OF B(1) this] show b: "leaf_addr v \<in> set (pt_blocks h pt)" by (simp only: pt_blocks_def) simp
  from b assms(1) show "page_block h (leaf_addr v)" by (simp add: pt_wf_def)
  have d: "distinct (concat (map ?f [0..<PT_ENTRIES]))" "pt \<notin> set (concat (map ?f [0..<PT_ENTRIES]))"
    using assms(1) by (auto simp: pt_wf_def pt_blocks_def)
  have "leaf_addr v \<noteq> pt" using in_concat [where f = ?f, OF B(1) n] d(2) by metis
  moreover have "leaf_addr v \<noteq> entry h pt i AND PAGE_FRAME" if i: "i < PT_ENTRIES" "present (entry h pt i)" for i
  proof (cases "i = up va")
    case True
    then show ?thesis using distinct_concat_part [OF d(1) B(1)] l L(1) by (auto simp: nodes_def)
  next
    case False
    have "entry h pt i AND PAGE_FRAME \<in> set (?f i)" using i(2) by (simp add: nodes_def)
    then show ?thesis using distinct_concat_parts [OF d(1) i(1) B(1) False] n by auto
  qed
  ultimately show "leaf_addr v \<notin> pt_tables h pt" by (auto simp: pt_tables_def)
qed

lemma other_page_entry:
  assumes inv: "kheap_inv h" and f: "page_block h f" and t: "page_block h t" "t \<noteq> f" and j: "j < PT_ENTRIES"
    and m: "\<And>x. page_no x \<noteq> page_no f \<Longrightarrow> m x = kh_mem h x"
  shows "entry (h\<lparr>kh_mem := m\<rparr>) t j = entry h t j"
proof -
  note T = page_block_facts(1) [OF inv t(1)] and F = page_block_facts(1) [OF inv f]
  have "page_no (t + of_nat (4 * j)) \<noteq> page_no f" using word_in_page(2) [OF T j] page_no_eq [OF T F] t(2) by metis
  from m [OF this] show ?thesis by (simp add: entry_def)
qed

lemma frame_store_ok:
  assumes inv: "kheap_inv h" and wf: "pt_wf h pt" and f: "page_block h f" "f \<notin> pt_tables h pt"
    and m: "\<And>x. page_no x \<noteq> page_no f \<Longrightarrow> m x = kh_mem h x"
  defines "h' \<equiv> h\<lparr>kh_mem := m\<rparr>"
  shows "kheap_inv h'" "heap_map h' = heap_map h" "\<And>b. page_block h' b \<longleftrightarrow> page_block h b"
    "pt_wf h' pt" "pt_lookup h' pt = pt_lookup h pt" "pt_blocks h' pt = pt_blocks h pt" "others h' pt = others h pt"
proof -
  note K = kheap_write [OF inv f(1) m, folded h'_def]
  show "kheap_inv h'" by (rule K(1))
  show hm: "heap_map h' = heap_map h" by (rule K(2))
  show b: "page_block h' b \<longleftrightarrow> page_block h b" for b using K(3) by (simp add: page_block_def h'_def)
  have "entry h' t j = entry h t j" if t: "t \<in> pt_tables h pt" and j: "j < PT_ENTRIES" for t j
  proof -
    have "page_block h t" using t pt_tables_blocks wf by (auto simp: pt_wf_def)
    moreover have "t \<noteq> f" using t f(2) by auto
    ultimately show ?thesis unfolding h'_def by (rule other_page_entry [OF inv f(1) _ _ j m])
  qed
  note S = pt_same_tables [OF wf this]
  have "page_block h' x" if "x \<in> set (pt_blocks h pt)" for x using that wf unfolding b by (simp add: pt_wf_def)
  note S = S [OF _ _ this]
  show "pt_wf h' pt" by (rule S(1))
  show "pt_lookup h' pt = pt_lookup h pt" by (rule S(2))
  show bl: "pt_blocks h' pt = pt_blocks h pt" by (rule S(3))
  show "others h' pt = others h pt" by (simp only: others_def bl hm)
qed

end
