(* ===== verification/Kern_Pagetable_Ops.thy ===== *)
theory Kern_Pagetable_Ops
  imports Kern_Pagetable_Inv
begin

text \<open>
  What the operations on page tables do to the invariant, to the heap and to the map from virtual pages to entries.
\<close>

section \<open>A new table and a new frame\<close>

lemma new_table_ok:
  assumes inv: "kheap_inv h" and wf: "pt_wf h pt" and i: "i < PT_ENTRIES" and free: "vacant (entry h pt i)"
    and q: "q AND PAGE_PERMS = q"
    and new: "kheap_inv (h\<lparr>kh_cm := cm\<rparr>)" "heap_map (h\<lparr>kh_cm := cm\<rparr>) = (heap_map h)(t \<mapsto> PAGE_SIZE)"
      "\<And>b. page_block (h\<lparr>kh_cm := cm\<rparr>) b \<longleftrightarrow> b = t \<or> page_block h b" "\<not> page_block h t"
  defines "h' \<equiv> h\<lparr>kh_cm := cm, kh_mem := (fill_table t (PAGE_FREE OR q) PT_ENTRIES (kh_mem h))(pt + of_nat (4 * i) := t OR PAGE_IN_MEM)\<rparr>"
  shows "kheap_inv h'" "heap_map h' = (heap_map h)(t \<mapsto> PAGE_SIZE)" "pt_wf h' pt" "pt_lookup h' pt = pt_lookup h pt"
    "entry h' pt i = t OR PAGE_IN_MEM" "\<And>j. j < PT_ENTRIES \<Longrightarrow> entry h' t j = PAGE_FREE OR q"
    "\<And>b. page_block h' b \<longleftrightarrow> b = t \<or> page_block h b"
    "\<And>x. page_no x \<noteq> page_no t \<Longrightarrow> page_no x \<noteq> page_no pt \<Longrightarrow> kh_mem h' x = kh_mem h x"
    "set (pt_blocks h' pt) = insert t (set (pt_blocks h pt))"
proof -
  note W = pt_wfD [OF wf]
  let ?h1 = "h\<lparr>kh_cm := cm\<rparr>"
  let ?m = "fill_table t (PAGE_FREE OR q) PT_ENTRIES (kh_mem h)"
  let ?h2 = "?h1\<lparr>kh_mem := ?m\<rparr>"
  have t: "page_block ?h1 t" "page_block ?h1 pt" "t \<noteq> pt" using new(3,4) W(1) by auto
  note T = page_block_facts [OF new(1) t(1)] and P = page_block_facts [OF new(1) t(2)]
  have out: "?m x = kh_mem h x" if "page_no x \<noteq> page_no t" for x
    by (rule fill_table_out) (use that word_in_page(2) [OF T(1)] in auto)
  note K2 = kheap_write [OF new(1) t(1), of ?m, simplified, OF out, simplified]
  have b2: "page_block ?h2 b \<longleftrightarrow> page_block ?h1 b" for b using K2(3) by (simp add: page_block_def)
  have h': "h' = ?h2\<lparr>kh_mem := (kh_mem ?h2)(pt + of_nat (4 * i) := t OR PAGE_IN_MEM)\<rparr>" by (simp add: h'_def)
  have "kh_mem ?h2 x = ((kh_mem ?h2)(pt + of_nat (4 * i) := t OR PAGE_IN_MEM)) x" if "page_no x \<noteq> page_no pt" for x
    using that word_in_page(2) [OF P(1) i] by auto
  note K3 = kheap_write [OF K2(1), of pt, unfolded b2, OF t(2) this [symmetric], folded h']
  show "kheap_inv h'" by (rule K3(1))
  show "heap_map h' = (heap_map h)(t \<mapsto> PAGE_SIZE)" using K3(2) K2(2) new(2) by simp
  have own: "owner h' = owner ?h1" using K3(3) K2(3) by simp
  show b': "page_block h' b \<longleftrightarrow> b = t \<or> page_block h b" for b using new(3) [of b] own by (simp add: page_block_def h'_def)
  show "kh_mem h' x = kh_mem h x" if "page_no x \<noteq> page_no t" "page_no x \<noteq> page_no pt" for x
    using out [OF that(1)] that(2) word_in_page(2) [OF P(1) i] by (auto simp: h'_def)
  have e: "entry h' u k = (if u = pt \<and> k = i then t OR PAGE_IN_MEM else entry ?h2 u k)" if "page_block ?h1 u" "k < PT_ENTRIES" for u k
    using entry_write [OF K2(1), of pt u i k "t OR PAGE_IN_MEM"] that t(2) i unfolding b2 entry_def h' by simp
  have e2: "entry ?h2 u k = entry h u k" if "page_block h u" "k < PT_ENTRIES" for u k
  proof -
    have "page_block ?h1 u" "u \<noteq> t" using that(1) new(3,4) by auto
    then have "page_no u \<noteq> page_no t" using page_no_eq [OF page_block_facts(1) [OF new(1)] T(1)] by blast
    then show ?thesis using out [of "u + of_nat (4 * k)"] word_in_page(2) [OF page_block_facts(1) [OF inv that(1)] that(2)]
      by (simp add: entry_def)
  qed
  show ei: "entry h' pt i = t OR PAGE_IN_MEM" using e [OF t(2) i] by simp
  show et: "entry h' t j = PAGE_FREE OR q" if "j < PT_ENTRIES" for j
    using e [OF t(1) that] t(3) fill_table_in [OF T(1) that] by (simp add: entry_def)
  have same: "entry h' pt k = entry h pt k" if "k < PT_ENTRIES" "k \<noteq> i" for k using e [OF t(2) that(1)] e2 [OF W(1) that(1)] that(2) by simp
  have same': "entry h' (entry h pt k AND PAGE_FRAME) j = entry h (entry h pt k AND PAGE_FRAME) j"
    if "k < PT_ENTRIES" "present (entry h pt k)" "j < PT_ENTRIES" for k j
    using e [of "entry h pt k AND PAGE_FRAME" j] e2 [OF W(3) [OF that(1,2)] that(3)] W(3,4) [OF that(1,2)] new(3) that(3) by simp
  have ti: "entry h' pt i AND PAGE_FRAME = t" "present (entry h' pt i)" using table_bits [OF T(5)] by (simp_all add: ei)
  have "map (\<lambda>j. leaf_blocks (entry h' t j)) [0..<PT_ENTRIES] = map (\<lambda>j. []) [0..<PT_ENTRIES]"
    using et free_bits(1) [OF q] present_not_vacant by (intro map_cong) (auto simp: leaf_blocks_def)
  then have "leaves h' t = []" unfolding leaves_def by (simp only: concat_map_singleton map_replicate_const) simp
  then have "nodes h' (entry h' pt i) = [t]" using ti by (simp add: nodes_def)
  moreover have "nodes h (entry h pt i) = []" using free present_not_vacant by (auto simp: nodes_def)
  ultimately have node: "mset (nodes h' (entry h' pt i)) = add_mset t (mset (nodes h (entry h pt i)))" by simp
  have "entry_ok (entry h' (entry h' pt i AND PAGE_FRAME) j)" if "j < PT_ENTRIES" for j
    using ti(1) et [OF that] free_bits(1) [OF q] by (simp add: entry_ok_def)
  note I = pt_wf_insert [OF wf i same same' node ti(2) this b' new(4)]
  show "pt_wf h' pt" by (rule I(1))
  show "set (pt_blocks h' pt) = insert t (set (pt_blocks h pt))" by (rule I(2))
  show "pt_lookup h' pt = pt_lookup h pt"
  proof
    fix va
    note B = up_lo_bound [of va]
    show "pt_lookup h' pt va = pt_lookup h pt va"
    proof (cases "up va = i")
      case True
      then show ?thesis
        using ti(1) et [OF B(2)] free_bits(1) [OF q] free present_not_vacant by (auto simp: pt_lookup_def Let_def)
    next
      case False
      then show ?thesis using same [OF B(1) False] same' [OF B(1) _ B(2)] by (auto simp: pt_lookup_def Let_def)
    qed
  qed
qed

lemma write_entry_ok:
  fixes v :: addr
  assumes inv: "kheap_inv h" and t: "page_block h t" and j: "j < PT_ENTRIES"
  defines "h' \<equiv> h\<lparr>kh_mem := (kh_mem h)(t + of_nat (4 * j) := v)\<rparr>"
  shows "kheap_inv h'" "heap_map h' = heap_map h" "\<And>b. page_block h' b \<longleftrightarrow> page_block h b"
    "\<And>u k. page_block h u \<Longrightarrow> k < PT_ENTRIES \<Longrightarrow> entry h' u k = (if u = t \<and> k = j then v else entry h u k)"
proof -
  note T = page_block_facts [OF inv t]
  have "((kh_mem h)(t + of_nat (4 * j) := v)) x = kh_mem h x" if "page_no x \<noteq> page_no t" for x
    using that word_in_page(2) [OF T(1) j] by auto
  note K = kheap_write [OF inv t this, folded h'_def]
  show "kheap_inv h'" by (rule K(1))
  show "heap_map h' = heap_map h" by (rule K(2))
  show "page_block h' b \<longleftrightarrow> page_block h b" for b using K(3) by (simp add: page_block_def h'_def)
  show "entry h' u k = (if u = t \<and> k = j then v else entry h u k)" if "page_block h u" "k < PT_ENTRIES" for u k
    using entry_write [OF inv t that(1) j that(2), of v] by (simp add: entry_def h'_def)
qed

lemma lookup_write:
  assumes wf: "pt_wf h pt" and i: "i < PT_ENTRIES" "present (entry h pt i)" and j: "j < PT_ENTRIES" and v: "present v"
    and e: "\<And>u k. page_block h u \<Longrightarrow> k < PT_ENTRIES \<Longrightarrow> entry h' u k = (if u = entry h pt i AND PAGE_FRAME \<and> k = j then v else entry h u k)"
  shows "pt_lookup h' pt va = (if up va = i \<and> lo va = j then Some v else pt_lookup h pt va)"
proof -
  note W = pt_wfD [OF wf] and B = up_lo_bound [of va]
  let ?t = "entry h pt i AND PAGE_FRAME"
  have top: "entry h' pt (up va) = entry h pt (up va)" using e [OF W(1) B(1)] W(4) [OF i] by simp
  show ?thesis
  proof (cases "present (entry h pt (up va))")
    case False
    then show ?thesis using top i(2) by (auto simp: pt_lookup_def Let_def)
  next
    case True
    note u = W(3) [OF B(1) True]
    have "entry h pt (up va) AND PAGE_FRAME = ?t \<longleftrightarrow> up va = i" using W(6) [OF B(1) i(1) True i(2)] by auto
    with e [OF u B(2)] top True v show ?thesis by (auto simp: pt_lookup_def Let_def)
  qed
qed

lemma new_leaf_ok:
  assumes inv: "kheap_inv h" and wf: "pt_wf h pt" and i: "i < PT_ENTRIES" "present (entry h pt i)" and j: "j < PT_ENTRIES"
    and free: "vacant (entry h (entry h pt i AND PAGE_FRAME) j)" and q: "q AND PAGE_PERMS = q" and p: "p AND PAGE_FRAME = p"
    and new: "kheap_inv (h\<lparr>kh_cm := cm\<rparr>)" "heap_map (h\<lparr>kh_cm := cm\<rparr>) = (heap_map h)(p + MIPS_KSEG0 \<mapsto> PAGE_SIZE)"
      "\<And>b. page_block (h\<lparr>kh_cm := cm\<rparr>) b \<longleftrightarrow> b = p + MIPS_KSEG0 \<or> page_block h b" "\<not> page_block h (p + MIPS_KSEG0)"
  defines "h' \<equiv> h\<lparr>kh_cm := cm, kh_mem := (kh_mem h)((entry h pt i AND PAGE_FRAME) + of_nat (4 * j) := p OR PAGE_IN_MEM OR q)\<rparr>"
  shows "kheap_inv h'" "heap_map h' = (heap_map h)(p + MIPS_KSEG0 \<mapsto> PAGE_SIZE)" "pt_wf h' pt"
    "pt_lookup h' pt = (\<lambda>va. if up va = i \<and> lo va = j then Some (p OR PAGE_IN_MEM OR q) else pt_lookup h pt va)"
    "\<And>b. page_block h' b \<longleftrightarrow> b = p + MIPS_KSEG0 \<or> page_block h b"
    "set (pt_blocks h' pt) = insert (p + MIPS_KSEG0) (set (pt_blocks h pt))"
    "pt_tables h' pt = pt_tables h pt" "\<And>x. page_no x \<notin> page_no ` pt_tables h pt \<Longrightarrow> kh_mem h' x = kh_mem h x"
proof -
  note W = pt_wfD [OF wf]
  let ?h1 = "h\<lparr>kh_cm := cm\<rparr>" and ?t = "entry h pt i AND PAGE_FRAME" and ?v = "p OR PAGE_IN_MEM OR q"
  note t = W(3) [OF i]
  have t1: "page_block ?h1 ?t" using t new(3) by simp
  have h': "h' = ?h1\<lparr>kh_mem := (kh_mem ?h1)(?t + of_nat (4 * j) := ?v)\<rparr>" by (simp add: h'_def)
  note K = write_entry_ok [where v = ?v, OF new(1) t1 j, folded h']
  show "kheap_inv h'" "heap_map h' = (heap_map h)(p + MIPS_KSEG0 \<mapsto> PAGE_SIZE)" using K(1,2) new(2) by simp_all
  show b': "page_block h' b \<longleftrightarrow> b = p + MIPS_KSEG0 \<or> page_block h b" for b using K(3) new(3) by simp
  have e: "entry h' u k = (if u = ?t \<and> k = j then ?v else entry h u k)" if "page_block h u" "k < PT_ENTRIES" for u k
    using K(4) [OF iffD2 [OF new(3) disjI2 [OF that(1)]] that(2)] by (simp add: entry_def)
  show "kh_mem h' x = kh_mem h x" if "page_no x \<notin> page_no ` pt_tables h pt" for x
    using that pt_tables_in(2) [OF i] word_in_page(2) [OF page_block_facts(1) [OF inv t] j] by (auto simp: h'_def)
  note V = entry_bits [OF p q]
  show "pt_lookup h' pt = (\<lambda>va. if up va = i \<and> lo va = j then Some ?v else pt_lookup h pt va)"
    by (rule ext, rule lookup_write [OF wf i j V(2) e])
  have top: "entry h' pt k = entry h pt k" if "k < PT_ENTRIES" for k using e [OF W(1) that] W(4) [OF i] by simp
  have same': "entry h' (entry h pt k AND PAGE_FRAME) l = entry h (entry h pt k AND PAGE_FRAME) l"
    if "k < PT_ENTRIES" "k \<noteq> i" "present (entry h pt k)" "l < PT_ENTRIES" for k l
    using e [OF W(3) [OF that(1,3)] that(4)] W(6) [OF that(1) i(1) that(3) i(2)] that(2) by auto
  have leaf: "mset (leaves h' ?t) = add_mset (p + MIPS_KSEG0) (mset (leaves h ?t))"
    unfolding leaves_def
  proof (rule mset_concat_upd [OF j])
    show "leaf_blocks (entry h' ?t k) = leaf_blocks (entry h ?t k)" if "k < PT_ENTRIES" "k \<noteq> j" for k using e [OF t that(1)] that(2) by simp
    show "mset (leaf_blocks (entry h' ?t j)) = add_mset (p + MIPS_KSEG0) (mset (leaf_blocks (entry h ?t j)))"
      using e [OF t j] V(1,2) free present_not_vacant by (auto simp: leaf_blocks_def leaf_addr_def)
  qed
  then have node: "mset (nodes h' (entry h' pt i)) = add_mset (p + MIPS_KSEG0) (mset (nodes h (entry h pt i)))"
    using i(2) top [OF i(1)] by (simp add: nodes_def)
  show "pt_tables h' pt = pt_tables h pt"
    unfolding pt_tables_def by (intro arg_cong [of _ _ "insert pt"] Collect_cong) (use top in metis)
  have pi: "present (entry h' pt i)" using top i by simp
  have "entry_ok (entry h' (entry h' pt i AND PAGE_FRAME) k)" if "k < PT_ENTRIES" for k
    using top [OF i(1)] e [OF t that] W(5) [OF i that] V(2) by (auto simp: entry_ok_def)
  note I = pt_wf_insert [OF wf i(1) top same' node pi this b' new(4)]
  show "pt_wf h' pt" by (rule I(1))
  show "set (pt_blocks h' pt) = insert (p + MIPS_KSEG0) (set (pt_blocks h pt))" by (rule I(2))
qed

lemma set_perm_ok:
  assumes inv: "kheap_inv h" and wf: "pt_wf h pt" and i: "i < PT_ENTRIES" "present (entry h pt i)" and j: "j < PT_ENTRIES"
    and pres: "present (entry h (entry h pt i AND PAGE_FRAME) j)" and v: "present v" "leaf_addr v = leaf_addr (entry h (entry h pt i AND PAGE_FRAME) j)"
  defines "h' \<equiv> h\<lparr>kh_mem := (kh_mem h)((entry h pt i AND PAGE_FRAME) + of_nat (4 * j) := v)\<rparr>"
  shows "kheap_inv h'" "heap_map h' = heap_map h" "pt_wf h' pt"
    "pt_lookup h' pt = (\<lambda>va. if up va = i \<and> lo va = j then Some v else pt_lookup h pt va)" "\<And>b. page_block h' b \<longleftrightarrow> page_block h b"
    "pt_blocks h' pt = pt_blocks h pt" "\<And>x. page_no x \<notin> page_no ` pt_tables h pt \<Longrightarrow> kh_mem h' x = kh_mem h x"
proof -
  note W = pt_wfD [OF wf]
  let ?t = "entry h pt i AND PAGE_FRAME"
  note t = W(3) [OF i]
  show "kh_mem h' x = kh_mem h x" if "page_no x \<notin> page_no ` pt_tables h pt" for x
    using that pt_tables_in(2) [OF i] word_in_page(2) [OF page_block_facts(1) [OF inv t] j] by (auto simp: h'_def)
  note K = write_entry_ok [where v = v, OF inv t j, folded h'_def]
  show "kheap_inv h'" by (rule K(1))
  show "heap_map h' = heap_map h" by (rule K(2))
  show "\<And>b. page_block h' b \<longleftrightarrow> page_block h b" by (rule K(3))
  note e = K(4)
  show "pt_lookup h' pt = (\<lambda>va. if up va = i \<and> lo va = j then Some v else pt_lookup h pt va)"
    by (rule ext, rule lookup_write [OF wf i j v(1) e])
  have top: "entry h' pt k = entry h pt k" if "k < PT_ENTRIES" for k using e [OF W(1) that] W(4) [OF i] by simp
  have leaf: "leaf_blocks (entry h' u k) = leaf_blocks (entry h u k)" "entry_ok (entry h' u k) = entry_ok (entry h u k)"
    if "page_block h u" "k < PT_ENTRIES" for u k
    using e [OF that] v pres by (auto simp: leaf_blocks_def entry_ok_def)
  have "leaves h' u = leaves h u" if "page_block h u" for u
    unfolding leaves_def using leaf(1) [OF that] by (intro arg_cong [of _ _ concat] map_cong) auto
  then have "nodes h' (entry h pt k) = nodes h (entry h pt k)" if "k < PT_ENTRIES" for k using W(3) [OF that] by (auto simp: nodes_def)
  then show "pt_blocks h' pt = pt_blocks h pt" unfolding pt_blocks_def using top
    by (intro arg_cong2 [of _ _ _ _ "(@)"] arg_cong [of _ _ concat] map_cong) auto
  then show "pt_wf h' pt" using wf top leaf(2) W(3) unfolding pt_wf_def K(3) by simp
qed

section \<open>Allocation\<close>

lemma one_page_left:
  assumes inv: "coremap_inv c" and none: "alloc_kpages 1 c = None"
  shows "cm_avail c = {}"
proof (rule ccontr)
  assume "cm_avail c \<noteq> {}"
  then obtain k where k: "k \<in> cm_avail c" by blast
  then have "free_run (cm_pages c) k 1" by (auto simp: free_run_def cm_avail_def)
  moreover from none have "coremap_getpages 1 c = None" by (auto simp: alloc_kpages_def split: bind_splits)
  moreover from inv zero_less_one have "\<forall>s. free_run (cm_pages c) s 1 \<longrightarrow> s < last_page_used c \<and> last_page_used c < s + 1" if "coremap_getpages 1 c = None"
    by (cases rule: coremap_getpages_cases) (use that in auto)
  ultimately show False by fastforce
qed

definition frames_left :: "vmsys \<Rightarrow> nat" where
  "frames_left s = card (cm_avail (kh_cm (vm_heap s)))"

lemma alloc_counts:
  assumes inv: "coremap_inv c" and a: "alloc_kpages 1 c = Some (t, cm)" and m: "coremap_setpagevaddr p as v cm = Some cm'"
  shows "card (cm_avail c) = Suc (card (cm_avail cm'))"
proof -
  from kp.alloc_ok [OF inv a] have A: "km_frames t 1 \<subseteq> cm_avail c" "coremap_inv cm" "cm_avail cm = cm_avail c - km_frames t 1" by auto
  have "cm_avail cm' = cm_avail cm" using coremap_setpagevaddr_inv [OF A(2) m] by blast
  moreover have "km_frames t 1 = {frame_no (t - MIPS_KSEG0)}" by (auto simp: km_frames_def cm_frames_def)
  ultimately show ?thesis using A(1,3) card_Suc_Diff1 [of "cm_avail c" "frame_no (t - MIPS_KSEG0)"] by simp
qed

lemma pt_create_table_ok:
  assumes inv: "kheap_inv (vm_heap s)"
  obtains (stuck) "pt_create_table q va s = None" "frames_left s = 0"
  | (new) t cm where "pt_create_table q va s = Some (t, s\<lparr>vm_heap := (vm_heap s)\<lparr>kh_cm := cm, kh_mem := fill_table t (PAGE_FREE OR q) PT_ENTRIES (kh_mem (vm_heap s))\<rparr>\<rparr>)"
      "kheap_inv ((vm_heap s)\<lparr>kh_cm := cm\<rparr>)" "heap_map ((vm_heap s)\<lparr>kh_cm := cm\<rparr>) = (heap_map (vm_heap s))(t \<mapsto> PAGE_SIZE)"
      "heap_map (vm_heap s) t = None" "\<And>b. page_block ((vm_heap s)\<lparr>kh_cm := cm\<rparr>) b \<longleftrightarrow> b = t \<or> page_block (vm_heap s) b" "\<not> page_block (vm_heap s) t"
      "t \<noteq> 0" "frames_left s = Suc (card (cm_avail cm))"
proof (cases "alloc_kpages 1 (kh_cm (vm_heap s))")
  case None
  have c: "coremap_inv (kh_cm (vm_heap s))" using inv by (simp add: kheap_inv_def)
  show ?thesis using stuck None one_page_left [OF c None] by (simp add: pt_create_table_def frames_left_def)
next
  case (Some r)
  have c: "coremap_inv (kh_cm (vm_heap s))" using inv by (simp add: kheap_inv_def)
  obtain t cm where a: "alloc_kpages 1 (kh_cm (vm_heap s)) = Some (t, cm)" using Some by (cases r) simp
  show ?thesis
  proof (rule page_block_new [OF inv a, of "t_vmspace s" "(va AND PAGE_FRAME) OR SWP_TABLE"])
    fix cm'
    assume n: "coremap_setpagevaddr (t - MIPS_KSEG0) (t_vmspace s) ((va AND PAGE_FRAME) OR SWP_TABLE) cm = Some cm'"
      "kheap_inv ((vm_heap s)\<lparr>kh_cm := cm'\<rparr>)" "heap_map ((vm_heap s)\<lparr>kh_cm := cm'\<rparr>) = (heap_map (vm_heap s))(t \<mapsto> PAGE_SIZE)"
      "heap_map (vm_heap s) t = None" "\<And>b. page_block ((vm_heap s)\<lparr>kh_cm := cm'\<rparr>) b \<longleftrightarrow> b = t \<or> page_block (vm_heap s) b" "\<not> page_block (vm_heap s) t" "t \<noteq> 0"
    then show ?thesis using new [of t cm'] a alloc_counts [OF c a n(1)] by (simp add: pt_create_table_def frames_left_def)
  qed
qed

lemma pt_create_page_ok:
  assumes inv: "kheap_inv (vm_heap s)"
  obtains (stuck) "pt_create_page va s = None" "frames_left s = 0"
  | (new) p cm where "pt_create_page va s = Some (p, set_cm cm s)" "p AND PAGE_FRAME = p"
      "kheap_inv ((vm_heap s)\<lparr>kh_cm := cm\<rparr>)" "heap_map ((vm_heap s)\<lparr>kh_cm := cm\<rparr>) = (heap_map (vm_heap s))(p + MIPS_KSEG0 \<mapsto> PAGE_SIZE)"
      "heap_map (vm_heap s) (p + MIPS_KSEG0) = None"
      "\<And>b. page_block ((vm_heap s)\<lparr>kh_cm := cm\<rparr>) b \<longleftrightarrow> b = p + MIPS_KSEG0 \<or> page_block (vm_heap s) b" "\<not> page_block (vm_heap s) (p + MIPS_KSEG0)"
      "frames_left s = Suc (card (cm_avail cm))"
proof (cases "coremap_getpages 1 (kh_cm (vm_heap s))")
  case None
  have c: "coremap_inv (kh_cm (vm_heap s))" using inv by (simp add: kheap_inv_def)
  have "alloc_kpages 1 (kh_cm (vm_heap s)) = None" using None by (simp add: alloc_kpages_def)
  then show ?thesis using stuck None one_page_left [OF c] by (simp add: pt_create_page_def frames_left_def)
next
  case (Some r)
  have c: "coremap_inv (kh_cm (vm_heap s))" using inv by (simp add: kheap_inv_def)
  obtain p cm where g: "coremap_getpages 1 (kh_cm (vm_heap s)) = Some (p, cm)" using Some by (cases r) simp
  have pz: "p \<noteq> 0" using coremap_getpages_addr [OF c g] by simp
  then have a: "alloc_kpages 1 (kh_cm (vm_heap s)) = Some (p + MIPS_KSEG0, cm)" using g by (simp add: alloc_kpages_def)
  show ?thesis
  proof (rule page_block_new [OF inv a, of "t_vmspace s" "(va AND PAGE_FRAME) OR SWP_PAGE"])
    fix cm'
    assume n: "coremap_setpagevaddr (p + MIPS_KSEG0 - MIPS_KSEG0) (t_vmspace s) ((va AND PAGE_FRAME) OR SWP_PAGE) cm = Some cm'"
      "kheap_inv ((vm_heap s)\<lparr>kh_cm := cm'\<rparr>)" "heap_map ((vm_heap s)\<lparr>kh_cm := cm'\<rparr>) = (heap_map (vm_heap s))(p + MIPS_KSEG0 \<mapsto> PAGE_SIZE)"
      "heap_map (vm_heap s) (p + MIPS_KSEG0) = None" "\<And>b. page_block ((vm_heap s)\<lparr>kh_cm := cm'\<rparr>) b \<longleftrightarrow> b = p + MIPS_KSEG0 \<or> page_block (vm_heap s) b"
      "\<not> page_block (vm_heap s) (p + MIPS_KSEG0)"
    have "page_block ((vm_heap s)\<lparr>kh_cm := cm'\<rparr>) (p + MIPS_KSEG0)" using n(5) by simp
    then have "km_block cm' (p + MIPS_KSEG0) = Some 1" by (simp add: page_block_def)
    then have "unat (p + MIPS_KSEG0 - MIPS_KSEG0) mod PAGE_SIZE = 0" by (auto simp: km_block_def cm_block_def split: if_splits)
    then have "p AND PAGE_FRAME = p" using page_aligned [of p] by simp
    then show ?thesis using new [of p cm'] g pz n alloc_counts [OF c a n(1)] by (simp add: pt_create_page_def frames_left_def)
  qed
qed

section \<open>Lookup\<close>

lemma get_pagetable_present:
  assumes "present (entry (vm_heap s) pt (up va))"
  shows "get_pagetable pt va c q s = Some (0, entry (vm_heap s) pt (up va) AND PAGE_FRAME, s)"
  using assms present_not_vacant [OF assms] by (simp add: get_pagetable_def get_value_entry up_def state_by_value Let_def)

lemma get_page_present:
  assumes "present (entry (vm_heap s) t j)"
  shows "get_page t j c va s = Some (0, entry (vm_heap s) t j AND 0xFFFFFFFC, s)"
  using assms present_not_vacant [OF assms] by (simp add: get_page_def get_value_entry state_by_value Let_def)

lemma get_pagetable_absent:
  assumes "vacant (entry (vm_heap s) pt (up va))"
  shows "get_pagetable pt va False q s = Some (PAGE_FREE, 0, s)"
  using assms by (simp add: get_pagetable_def get_value_entry up_def state_by_value Let_def)

lemma get_page_absent:
  assumes "vacant (entry (vm_heap s) t j)"
  shows "get_page t j False va s = Some (PAGE_FREE, PAGE_FREE, s)"
  using assms by (simp add: get_page_def get_value_entry state_by_value Let_def)

lemma pt_get_paddr_lookup:
  assumes inv: "kheap_inv (vm_heap s)" and wf: "pt_wf (vm_heap s) pt"
  shows "pt_get_paddr pt va False q s =
    Some (case pt_lookup (vm_heap s) pt va of None \<Rightarrow> PAGE_FREE | Some v \<Rightarrow> v AND 0xFFFFFFFC, s)"
proof -
  note W = pt_wfD [OF wf] and B = up_lo_bound [of va]
  let ?v = "entry (vm_heap s) pt (up va)"
  show ?thesis
  proof (cases "present ?v")
    case False
    then have "vacant ?v" using W(2) [OF B(1)] by (simp add: entry_ok_def)
    then show ?thesis using False by (simp add: pt_get_paddr_def get_pagetable_absent pt_lookup_def)
  next
    case True
    let ?w = "entry (vm_heap s) (?v AND PAGE_FRAME) (lo va)"
    have t: "?v AND PAGE_FRAME \<noteq> 0" by (rule page_block_facts(4) [OF inv W(3) [OF B(1) True]])
    show ?thesis
    proof (cases "present ?w")
      case p: True
      then show ?thesis using True t get_page_present [of s _ "lo va" False va, OF p]
        by (simp add: pt_get_paddr_def get_pagetable_present [OF True] pt_lookup_def lo_def)
    next
      case False
      then have "vacant ?w" using W(5) [OF B(1) True B(2)] by (simp add: entry_ok_def)
      then show ?thesis using True t False get_page_absent [of s "?v AND PAGE_FRAME" "lo va" va]
        by (simp add: pt_get_paddr_def get_pagetable_present [OF True] pt_lookup_def lo_def)
    qed
  qed
qed

section \<open>Lookup with creation\<close>

lemma get_pagetable_create:
  assumes inv: "kheap_inv (vm_heap s)" and wf: "pt_wf (vm_heap s) pt" and free: "vacant (entry (vm_heap s) pt (up va))" and q: "q AND PAGE_PERMS = q"
  obtains (stuck) "get_pagetable pt va True q s = None" "frames_left s = 0"
  | (new) t h where "get_pagetable pt va True q s = Some (0, t, s\<lparr>vm_heap := h\<rparr>)" "t \<noteq> 0" "kheap_inv h" "pt_wf h pt"
      "heap_map (vm_heap s) t = None" "heap_map h = (heap_map (vm_heap s))(t \<mapsto> PAGE_SIZE)" "pt_lookup h pt = pt_lookup (vm_heap s) pt"
      "present (entry h pt (up va))" "entry h pt (up va) AND PAGE_FRAME = t" "\<And>j. j < PT_ENTRIES \<Longrightarrow> entry h t j = PAGE_FREE OR q"
      "frames_left s = Suc (frames_left (s\<lparr>vm_heap := h\<rparr>))" "\<And>b. page_block h b \<longleftrightarrow> b = t \<or> page_block (vm_heap s) b"
      "others h pt = others (vm_heap s) pt" "\<And>x. page_no x \<notin> page_no ` pt_tables h pt \<Longrightarrow> kh_mem h x = kh_mem (vm_heap s) x"
proof -
  note B = up_lo_bound [of va]
  from inv show ?thesis
  proof (cases rule: pt_create_table_ok [where q = q and va = va])
    case 1: stuck
    then show ?thesis using stuck free by (simp add: get_pagetable_def get_value_entry state_by_value Let_def up_def)
  next
    case (new t cm)
    note N = new_table_ok [OF inv wf B(1) free q new(2,3,5,6)]
    define h where "h = (vm_heap s)\<lparr>kh_cm := cm, kh_mem := (fill_table t (PAGE_FREE OR q) PT_ENTRIES (kh_mem (vm_heap s)))(pt + of_nat (4 * up va) := t OR PAGE_IN_MEM)\<rparr>"
    note N = N [folded h_def]
    have g: "get_pagetable pt va True q s = Some (0, t, s\<lparr>vm_heap := h\<rparr>)"
      using free new(1) by (simp add: get_pagetable_def get_value_entry state_by_value Let_def up_def set_value_def h_def)
    have "page_block h t" using N(7) by simp
    note T = table_bits [OF page_block_facts(5) [OF N(1) this]]
    have f: "frames_left s = Suc (frames_left (s\<lparr>vm_heap := h\<rparr>))" using new(8) by (simp add: frames_left_def h_def)
    have P: "present (entry h pt (up va))" "entry h pt (up va) AND PAGE_FRAME = t" by (simp_all add: N(5) T)
    have m: "kh_mem h x = kh_mem (vm_heap s) x" if "page_no x \<notin> page_no ` pt_tables h pt" for x
      by (rule N(8)) (use that pt_tables_in(1) [of pt h] pt_tables_in(2) [OF B(1) P(1)] P(2) in auto)
    show ?thesis by (rule that(2) [OF g new(7) N(1,3) new(4) N(2,4) P N(6) f N(7) others_insert [OF N(9) new(4) N(2)] m])
  qed
qed

lemma get_page_create:
  assumes inv: "kheap_inv (vm_heap s)" and wf: "pt_wf (vm_heap s) pt" and i: "i < PT_ENTRIES" "present (entry (vm_heap s) pt i)"
    and j: "j < PT_ENTRIES" and t: "t = entry (vm_heap s) pt i AND PAGE_FRAME" and free: "vacant (entry (vm_heap s) t j)"
  obtains (stuck) "get_page t j True va s = None" "frames_left s = 0"
  | (new) p h st where "get_page t j True va s = Some (0, p OR PAGE_IN_MEM OR (entry (vm_heap s) t j AND PAGE_PERMS), s\<lparr>vm_heap := h, stats_counts := st\<rparr>)"
      "p AND PAGE_FRAME = p" "kheap_inv h" "pt_wf h pt" "heap_map (vm_heap s) (p + MIPS_KSEG0) = None"
      "heap_map h = (heap_map (vm_heap s))(p + MIPS_KSEG0 \<mapsto> PAGE_SIZE)"
      "pt_lookup h pt = (\<lambda>va. if up va = i \<and> lo va = j then Some (p OR PAGE_IN_MEM OR (entry (vm_heap s) t j AND PAGE_PERMS)) else pt_lookup (vm_heap s) pt va)"
      "\<And>b. page_block h b \<longleftrightarrow> b = p + MIPS_KSEG0 \<or> page_block (vm_heap s) b"
      "vmstats_inc VMSTAT_PAGE_FAULT_ZERO (stats_counts s) = Some st" "others h pt = others (vm_heap s) pt"
      "pt_tables h pt = pt_tables (vm_heap s) pt" "\<And>x. page_no x \<notin> page_no ` pt_tables h pt \<Longrightarrow> kh_mem h x = kh_mem (vm_heap s) x"
proof -
  let ?q = "entry (vm_heap s) t j AND PAGE_PERMS"
  obtain st where st: "vmstats_inc VMSTAT_PAGE_FAULT_ZERO (stats_counts s) = Some st" by (simp add: vmstats_inc_def)
  let ?s1 = "s\<lparr>stats_counts := st\<rparr>"
  have c: "count_stat VMSTAT_PAGE_FAULT_ZERO s = Some ?s1" by (simp add: count_stat_def st)
  have q: "?q AND PAGE_PERMS = ?q" by (simp add: and.assoc)
  have "kheap_inv (vm_heap ?s1)" using inv by simp
  then show ?thesis
  proof (cases rule: pt_create_page_ok [where va = va])
    case 1: stuck
    then have "frames_left s = 0" by (simp add: frames_left_def)
    then show ?thesis using 1(1) stuck free c by (simp add: get_page_def get_value_entry state_by_value Let_def)
  next
    case (new p cm)
    note new = new [simplified]
    note N = new_leaf_ok [OF inv wf i j free [unfolded t] q new(2,3,4,6,7)]
    define h where "h = (vm_heap s)\<lparr>kh_cm := cm, kh_mem := (kh_mem (vm_heap s))(t + of_nat (4 * j) := p OR PAGE_IN_MEM OR ?q)\<rparr>"
    note N = N [folded t, folded h_def]
    have g: "get_page t j True va s = Some (0, p OR PAGE_IN_MEM OR ?q, s\<lparr>vm_heap := h, stats_counts := st\<rparr>)"
      using free new(1) c by (simp add: get_page_def get_value_entry state_by_value Let_def set_value_def set_cm_def h_def)
    have m: "kh_mem h x = kh_mem (vm_heap s) x" if "page_no x \<notin> page_no ` pt_tables h pt" for x using N(8) [of x] that N(7) by simp
    show ?thesis by (rule that(2) [OF g new(2) N(1,3) new(5) N(2,4,5) st others_insert [OF N(6) new(5) N(2)] N(7) m])
  qed
qed

lemma pt_get_paddr_mapped:
  assumes inv: "kheap_inv (vm_heap s)" and wf: "pt_wf (vm_heap s) pt" and v: "pt_lookup (vm_heap s) pt va = Some v"
  shows "pt_get_paddr pt va c q s = Some (v AND 0xFFFFFFFC, s)"
proof -
  note W = pt_wfD [OF wf] and B = up_lo_bound [of va]
  from v have p: "present (entry (vm_heap s) pt (up va))" "present (entry (vm_heap s) (entry (vm_heap s) pt (up va) AND PAGE_FRAME) (lo va))"
    "v = entry (vm_heap s) (entry (vm_heap s) pt (up va) AND PAGE_FRAME) (lo va)" by (auto simp: pt_lookup_def Let_def split: if_splits)
  have "entry (vm_heap s) pt (up va) AND PAGE_FRAME \<noteq> 0" by (rule page_block_facts(4) [OF inv W(3) [OF B(1) p(1)]])
  then show ?thesis using get_page_present [OF p(2), of c va] by (simp add: pt_get_paddr_def get_pagetable_present [OF p(1)] p(3) lo_def)
qed

lemma pt_get_paddr_create:
  assumes inv: "kheap_inv (vm_heap s)" and wf: "pt_wf (vm_heap s) pt" and none: "pt_lookup (vm_heap s) pt va = None" and q: "q AND PAGE_PERMS = q"
  obtains (stuck) "pt_get_paddr pt va True q s = None" "frames_left s < 2"
  | (new) v h st where "pt_get_paddr pt va True q s = Some (v, s\<lparr>vm_heap := h, stats_counts := st\<rparr>)" "present v" "kheap_inv h" "pt_wf h pt"
      "pt_lookup h pt = (\<lambda>w. if page_no w = page_no va then Some v else pt_lookup (vm_heap s) pt w)"
      "heap_map (vm_heap s) (leaf_addr v) = None" "heap_map h (leaf_addr v) = Some PAGE_SIZE"
      "heap_map (vm_heap s) \<subseteq>\<^sub>m heap_map h" "\<And>b. page_block (vm_heap s) b \<Longrightarrow> page_block h b"
      "v AND PAGE_PERMS = (let e = entry (vm_heap s) pt (up va) in
         if present e then entry (vm_heap s) (e AND PAGE_FRAME) (lo va) AND PAGE_PERMS else q)"
      "vmstats_inc VMSTAT_PAGE_FAULT_ZERO (stats_counts s) = Some st" "others h pt = others (vm_heap s) pt"
      "\<And>x. page_no x \<notin> page_no ` pt_tables h pt \<Longrightarrow> kh_mem h x = kh_mem (vm_heap s) x"
proof -
  note W = pt_wfD [OF wf] and B = up_lo_bound [of va]
  let ?e = "entry (vm_heap s) pt (up va)"
  have pg: "up w = up va \<and> lo w = lo va \<longleftrightarrow> page_no w = page_no va" for w by (rule up_lo_page)
  show ?thesis
  proof (cases "present ?e")
    case True
    let ?t = "?e AND PAGE_FRAME"
    have tz: "?t \<noteq> 0" by (rule page_block_facts(4) [OF inv W(3) [OF B(1) True]])
    have free: "vacant (entry (vm_heap s) ?t (lo va))"
      using none True W(5) [OF B(1) True B(2)] by (auto simp: pt_lookup_def Let_def entry_ok_def)
    from inv wf B(1) True B(2) refl free show ?thesis
    proof (cases rule: get_page_create [where va = va])
      case 1: stuck
      then show ?thesis using stuck tz by (simp add: pt_get_paddr_def get_pagetable_present [OF True] lo_def)
    next
      case (new p h st)
      let ?q = "entry (vm_heap s) ?t (lo va) AND PAGE_PERMS"
      let ?v = "p OR PAGE_IN_MEM OR ?q"
      have "?q AND PAGE_PERMS = ?q" by (simp add: and.assoc)
      note V = entry_bits [OF new(2) this]
      have la: "leaf_addr ?v = p + MIPS_KSEG0" using V(1) by (simp add: leaf_addr_def)
      show ?thesis
      proof (rule that(2) [where v = ?v and h = h and st = st])
        show "pt_get_paddr pt va True q s = Some (?v, s\<lparr>vm_heap := h, stats_counts := st\<rparr>)"
          using new(1) tz by (simp add: pt_get_paddr_def get_pagetable_present [OF True] lo_def)
        show "pt_lookup h pt = (\<lambda>w. if page_no w = page_no va then Some ?v else pt_lookup (vm_heap s) pt w)" by (simp only: new(7) pg)
        show "heap_map (vm_heap s) \<subseteq>\<^sub>m heap_map h" using new(5) by (auto simp: new(6) map_le_def)
      qed (use new V True la in \<open>simp_all add: Let_def\<close>)
    qed
  next
    case False
    then have free: "vacant ?e" using W(2) [OF B(1)] by (simp add: entry_ok_def)
    from inv wf free q show ?thesis
    proof (cases rule: get_pagetable_create)
      case 1: stuck
      then show ?thesis using stuck by (simp add: pt_get_paddr_def)
    next
      case n: (new t h)
      let ?s1 = "s\<lparr>vm_heap := h\<rparr>"
      have f: "vacant (entry (vm_heap ?s1) t (lo va))" using n(10) [OF B(2)] free_bits(1) [OF q] by simp
      have "kheap_inv (vm_heap ?s1)" "pt_wf (vm_heap ?s1) pt" "present (entry (vm_heap ?s1) pt (up va))" "t = entry (vm_heap ?s1) pt (up va) AND PAGE_FRAME"
        using n by simp_all
      from this(1,2) B(1) this(3) B(2) this(4) f show ?thesis
      proof (cases rule: get_page_create [where va = va])
        case 1: stuck
        then show ?thesis using stuck n(1,2,11) by (simp add: pt_get_paddr_def lo_def)
      next
        case (new p h2 st)
        have qq: "entry (vm_heap ?s1) t (lo va) AND PAGE_PERMS = q" using n(10) [OF B(2)] free_bits(2) [OF q] by simp
        note new = new [unfolded qq, simplified]
        let ?v = "p OR PAGE_IN_MEM OR q"
        note V = entry_bits [OF new(2) q]
        have la: "leaf_addr ?v = p + MIPS_KSEG0" using V(1) by (simp add: leaf_addr_def)
        have l: "pt_lookup (vm_heap ?s1) pt = pt_lookup (vm_heap s) pt" using n(7) by simp
        have pn: "heap_map (vm_heap s) (p + MIPS_KSEG0) = None" "p + MIPS_KSEG0 \<noteq> t" using new(5) n(6) by (auto split: if_splits)
        show ?thesis
        proof (rule that(2) [where v = ?v and h = h2 and st = st])
          show "pt_get_paddr pt va True q s = Some (?v, s\<lparr>vm_heap := h2, stats_counts := st\<rparr>)"
            using new(1) n(1,2) by (simp add: pt_get_paddr_def lo_def)
          show "pt_lookup h2 pt = (\<lambda>w. if page_no w = page_no va then Some ?v else pt_lookup (vm_heap s) pt w)" unfolding new(7) pg l ..
          show "heap_map (vm_heap s) \<subseteq>\<^sub>m heap_map h2" using pn n(5) by (auto simp: new(6) n(6) map_le_def)
        qed (use new V False la pn n(12,13,14) in \<open>simp_all add: Let_def\<close>)
      qed
    qed
  qed
qed

lemma pt_set_permissions_mapped:
  assumes inv: "kheap_inv (vm_heap s)" and wf: "pt_wf (vm_heap s) pt" and v: "pt_lookup (vm_heap s) pt va = Some v" and q: "q AND PAGE_PERMS = q"
  obtains h where "pt_set_permissions pt va c q s = Some (True, s\<lparr>vm_heap := h\<rparr>)" "kheap_inv h" "pt_wf h pt" "heap_map h = heap_map (vm_heap s)"
    "pt_lookup h pt = (\<lambda>w. if page_no w = page_no va then Some ((v AND NOT PAGE_PERMS) OR q) else pt_lookup (vm_heap s) pt w)"
    "\<And>b. page_block h b \<longleftrightarrow> page_block (vm_heap s) b" "others h pt = others (vm_heap s) pt"
    "\<And>x. page_no x \<notin> page_no ` pt_tables (vm_heap s) pt \<Longrightarrow> kh_mem h x = kh_mem (vm_heap s) x"
proof -
  note W = pt_wfD [OF wf] and B = up_lo_bound [of va]
  let ?t = "entry (vm_heap s) pt (up va) AND PAGE_FRAME"
  from v have p: "present (entry (vm_heap s) pt (up va))" "present (entry (vm_heap s) ?t (lo va))" "v = entry (vm_heap s) ?t (lo va)"
    by (auto simp: pt_lookup_def Let_def split: if_splits)
  have tz: "?t \<noteq> 0" by (rule page_block_facts(4) [OF inv W(3) [OF B(1) p(1)]])
  let ?w = "(v AND NOT PAGE_PERMS) OR q"
  have P: "present ?w" "leaf_addr ?w = leaf_addr (entry (vm_heap s) ?t (lo va))"
    using perm_bits(1,2) [OF p(2) [folded p(3)] q] p(3) by (simp_all add: leaf_addr_def)
  note N = set_perm_ok [OF inv wf B(1) p(1) B(2) p(2) P]
  define h where "h = (vm_heap s)\<lparr>kh_mem := (kh_mem (vm_heap s))(?t + of_nat (4 * lo va) := ?w)\<rparr>"
  note N = N [folded h_def]
  have "pt_set_permissions pt va c q s = Some (True, s\<lparr>vm_heap := h\<rparr>)"
    using tz get_page_present [OF p(2), of c va]
    by (simp add: pt_set_permissions_def get_pagetable_present [OF p(1)] Let_def lo_def [symmetric] get_value_entry set_value_def h_def p(3))
  moreover have "pt_lookup h pt = (\<lambda>w. if page_no w = page_no va then Some ?w else pt_lookup (vm_heap s) pt w)" by (simp only: N(4) up_lo_page)
  moreover have "others h pt = others (vm_heap s) pt" using N(2,6) by (simp add: others_def)
  ultimately show ?thesis using that N by blast
qed

end
