(* ===== verification/Kern_Pagetable_Props.thy ===== *)
theory Kern_Pagetable_Props
  imports Kern_Pagetable_Ops Kern_Kheap_Props
begin

text \<open>
  Creation and destruction of page tables, and the properties of page tables.
\<close>

section \<open>Destruction\<close>

definition freed :: "vmsys \<Rightarrow> addr list \<Rightarrow> vmsys \<Rightarrow> bool" where
  \<comment> \<open>\<open>s'\<close> is \<open>s\<close> after the pages \<open>as\<close> went back to the page allocator\<close>
  "freed s as s' \<longleftrightarrow> (\<exists>cm. s' = set_cm cm s) \<and> kheap_inv (vm_heap s') \<and>
     heap_map (vm_heap s') = heap_map (vm_heap s) |` (- set as) \<and>
     (\<forall>b. page_block (vm_heap s') b \<longleftrightarrow> b \<notin> set as \<and> page_block (vm_heap s) b) \<and> frames_left s' = frames_left s + length as"

lemma set_cm_simps [simp]:
  "kh_mem (vm_heap (set_cm cm s)) = kh_mem (vm_heap s)" "entry (vm_heap (set_cm cm s)) = entry (vm_heap s)"
  "kh_cm (vm_heap (set_cm cm s)) = cm" "vm_heap (set_cm cm s) = (vm_heap s)\<lparr>kh_cm := cm\<rparr>" "set_cm cm' (set_cm cm s) = set_cm cm' s"
  by (simp_all add: set_cm_def entry_def fun_eq_iff)

lemma freed_entry: "freed s as s' \<Longrightarrow> entry (vm_heap s') = entry (vm_heap s)"
  by (auto simp: freed_def simp del: set_cm_simps(4))

lemma freed_refl: "kheap_inv (vm_heap s) \<Longrightarrow> freed s [] s"
  unfolding freed_def by (auto intro!: exI [of _ "kh_cm (vm_heap s)"] simp: set_cm_def)

lemma freed_trans: "freed s as s1 \<Longrightarrow> freed s1 bs s2 \<Longrightarrow> freed s (as @ bs) s2"
  unfolding freed_def by (auto simp: Int_Un_distrib restrict_map_def fun_eq_iff simp del: set_cm_simps(4))

lemma freed_one:
  assumes inv: "kheap_inv (vm_heap s)" and a: "page_block (vm_heap s) a"
  obtains cm where "free_kpages a (kh_cm (vm_heap s)) = Some cm" "freed s [a] (set_cm cm s)"
proof -
  let ?h = "vm_heap s"
  from a have o: "owner ?h a = None" "km_block (kh_cm ?h) a = Some 1" by (simp_all add: page_block_def)
  have c: "coremap_inv (kh_cm ?h)" using inv by (simp add: kheap_inv_def)
  obtain cm where k: "free_kpages a (kh_cm ?h) = Some cm" "kheap_inv (?h\<lparr>kh_cm := cm\<rparr>)" "heap_map (?h\<lparr>kh_cm := cm\<rparr>) = (heap_map ?h)(a := None)"
    using kfree_large [OF inv o] .
  from kp.release_ok [OF c o(2)] k(1) have r: "cm_avail cm = cm_avail (kh_cm ?h) \<union> km_frames a 1" "km_block cm = (km_block (kh_cm ?h))(a := None)" by auto
  have "km_frames a 1 = {frame_no (a - MIPS_KSEG0)}" by (auto simp: km_frames_def cm_frames_def)
  with r(1) kp.block_used [OF c o(2)] have "card (cm_avail cm) = Suc (card (cm_avail (kh_cm ?h)))" by simp
  moreover have "owner (?h\<lparr>kh_cm := cm\<rparr>) = owner ?h" by (simp add: owner_def pr_inuse_def fun_eq_iff)
  ultimately have "freed s [a] (set_cm cm s)"
    using k(2,3) r(2) unfolding freed_def by (auto simp: frames_left_def page_block_def restrict_map_def fun_eq_iff)
  with k(1) that show ?thesis by blast
qed

lemma free_leaves_ok:
  assumes inv: "kheap_inv (vm_heap s)"
    and ys: "distinct (concat (map (\<lambda>j. leaf_blocks (entry (vm_heap s) t j)) js))"
      "\<forall>a \<in> set (concat (map (\<lambda>j. leaf_blocks (entry (vm_heap s) t j)) js)). page_block (vm_heap s) a"
    and ok: "\<forall>j \<in> set js. entry_ok (entry (vm_heap s) t j)"
  shows "\<exists>s'. free_leaves t js s = Some s' \<and> freed s (concat (map (\<lambda>j. leaf_blocks (entry (vm_heap s) t j)) js)) s'"
  using assms
proof (induction js arbitrary: s)
  case Nil
  then show ?case by (simp add: freed_refl)
next
  case (Cons j js)
  let ?v = "entry (vm_heap s) t j"
  let ?ys = "concat (map (\<lambda>j. leaf_blocks (entry (vm_heap s) t j)) js)"
  show ?case
  proof (cases "present ?v")
    case False
    then have "vacant ?v" using Cons.prems(4) by (simp add: entry_ok_def)
    then have step: "free_leaves t (j # js) s = free_leaves t js s" by (simp add: get_value_entry state_by_value Let_def)
    have "leaf_blocks ?v = []" using False by (simp add: leaf_blocks_def)
    then show ?thesis using Cons.IH [OF Cons.prems(1)] Cons.prems(2-4) unfolding step by simp
  next
    case True
    then have lb: "leaf_blocks ?v = [leaf_addr ?v]" by (simp add: leaf_blocks_def)
    then have b: "page_block (vm_heap s) (leaf_addr ?v)" "leaf_addr ?v \<notin> set ?ys" using Cons.prems(2,3) by auto
    obtain cm where cm: "free_kpages (leaf_addr ?v) (kh_cm (vm_heap s)) = Some cm" "freed s [leaf_addr ?v] (set_cm cm s)"
      using freed_one [OF Cons.prems(1) b(1)] .
    have "coremap_freepages (?v AND PAGE_FRAME) (kh_cm (vm_heap s)) = Some cm" using cm(1) by (simp add: free_kpages_def leaf_addr_def)
    then have step: "free_leaves t (j # js) s = free_leaves t js (set_cm cm s)"
      using True present_not_vacant [OF True] by (simp add: get_value_entry state_by_value Let_def)
    have e: "entry (vm_heap (set_cm cm s)) = entry (vm_heap s)" by (rule set_cm_simps)
    have "kheap_inv (vm_heap (set_cm cm s))" using cm(2) by (simp add: freed_def)
    moreover have "\<forall>a \<in> set ?ys. page_block (vm_heap (set_cm cm s)) a"
    proof
      fix a
      assume "a \<in> set ?ys"
      with b(2) Cons.prems(3) have "a \<noteq> leaf_addr ?v" "page_block (vm_heap s) a" by auto
      with cm(2) show "page_block (vm_heap (set_cm cm s)) a" unfolding freed_def by simp
    qed
    moreover have "distinct ?ys" "\<forall>j \<in> set js. entry_ok (entry (vm_heap s) t j)" using Cons.prems(2,4) by auto
    ultimately obtain s' where s': "free_leaves t js (set_cm cm s) = Some s'" "freed (set_cm cm s) ?ys s'"
      using Cons.IH [of "set_cm cm s"] unfolding e by blast
    have "concat (map (\<lambda>j. leaf_blocks (entry (vm_heap s) t j)) (j # js)) = [leaf_addr ?v] @ ?ys" using lb by simp
    then show ?thesis using s'(1) freed_trans [OF cm(2) s'(2)] unfolding step by simp
  qed
qed

lemma freed_blocks:
  assumes "freed s as s'" "\<forall>b \<in> set bs. page_block (vm_heap s) b" "set as \<inter> set bs = {}"
  shows "\<forall>b \<in> set bs. page_block (vm_heap s') b"
  using assms unfolding freed_def by blast

lemma destroy_nested_ok:
  assumes inv: "kheap_inv (vm_heap s)" and ns: "distinct (nodes (vm_heap s) v)" "\<forall>a \<in> set (nodes (vm_heap s) v). page_block (vm_heap s) a"
    and ok: "entry_ok v" "present v \<Longrightarrow> \<forall>j < PT_ENTRIES. entry_ok (entry (vm_heap s) (v AND PAGE_FRAME) j)"
  shows "\<exists>s'. destroy_nested_pagetable v s = Some s' \<and> freed s (nodes (vm_heap s) v) s'"
proof (cases "present v")
  case False
  then have "vacant v" using ok(1) by (simp add: entry_ok_def)
  then show ?thesis using False inv by (simp add: destroy_nested_pagetable_def state_by_value Let_def nodes_def freed_refl)
next
  case True
  let ?t = "v AND PAGE_FRAME"
  let ?ys = "leaves (vm_heap s) ?t"
  have n: "nodes (vm_heap s) v = ?ys @ [?t]" using True by (simp add: nodes_def)
  then have d: "distinct ?ys" "?t \<notin> set ?ys" "\<forall>a \<in> set ?ys. page_block (vm_heap s) a" "page_block (vm_heap s) ?t" using ns by auto
  have "\<exists>s1. free_leaves ?t [0..<PT_ENTRIES] s = Some s1 \<and> freed s ?ys s1"
    unfolding leaves_def by (rule free_leaves_ok [OF inv]) (use d ok(2) [OF True] in \<open>simp_all add: leaves_def\<close>)
  then obtain s1 where s1: "free_leaves ?t [0..<PT_ENTRIES] s = Some s1" "freed s ?ys s1" by blast
  have inv1: "kheap_inv (vm_heap s1)" using s1(2) by (simp add: freed_def)
  have "page_block (vm_heap s1) ?t" using freed_blocks [OF s1(2), of "[?t]"] d by simp
  from freed_one [OF inv1 this] obtain cm where cm: "free_kpages ?t (kh_cm (vm_heap s1)) = Some cm" "freed s1 [?t] (set_cm cm s1)" .
  have "destroy_nested_pagetable v s = Some (set_cm cm s1)"
    using True present_not_vacant [OF True] s1(1) cm(1) by (simp add: destroy_nested_pagetable_def state_by_value Let_def del: set_cm_simps)
  with freed_trans [OF s1(2) cm(2)] show ?thesis unfolding n by blast
qed

lemma freed_nodes: "freed s as s' \<Longrightarrow> nodes (vm_heap s') v = nodes (vm_heap s) v"
  by (auto simp: nodes_def leaves_def freed_entry)

lemma destroy_tables_ok:
  assumes inv: "kheap_inv (vm_heap s)"
    and ns: "distinct (concat (map (\<lambda>i. nodes (vm_heap s) (entry (vm_heap s) pt i)) is))"
      "\<forall>a \<in> set (concat (map (\<lambda>i. nodes (vm_heap s) (entry (vm_heap s) pt i)) is)). page_block (vm_heap s) a"
    and ok: "\<forall>i \<in> set is. entry_ok (entry (vm_heap s) pt i) \<and>
      (present (entry (vm_heap s) pt i) \<longrightarrow> (\<forall>j < PT_ENTRIES. entry_ok (entry (vm_heap s) (entry (vm_heap s) pt i AND PAGE_FRAME) j)))"
  shows "\<exists>s'. destroy_tables pt is s = Some s' \<and> freed s (concat (map (\<lambda>i. nodes (vm_heap s) (entry (vm_heap s) pt i)) is)) s'"
  using assms
proof (induction "is" arbitrary: s)
  case Nil
  then show ?case by (simp add: freed_refl)
next
  case (Cons i "is")
  let ?v = "entry (vm_heap s) pt i"
  let ?ys = "concat (map (\<lambda>i. nodes (vm_heap s) (entry (vm_heap s) pt i)) is)"
  have d: "distinct (nodes (vm_heap s) ?v)" "distinct ?ys" "set (nodes (vm_heap s) ?v) \<inter> set ?ys = {}"
    "\<forall>a \<in> set (nodes (vm_heap s) ?v). page_block (vm_heap s) a" "\<forall>a \<in> set ?ys. page_block (vm_heap s) a"
    using Cons.prems(2,3) by auto
  have "entry_ok ?v" "present ?v \<Longrightarrow> \<forall>j < PT_ENTRIES. entry_ok (entry (vm_heap s) (?v AND PAGE_FRAME) j)" using Cons.prems(4) by auto
  from destroy_nested_ok [OF Cons.prems(1) d(1,4) this]
  obtain s1 where s1: "destroy_nested_pagetable ?v s = Some s1" "freed s (nodes (vm_heap s) ?v) s1" by blast
  note e = freed_entry [OF s1(2)] and n = freed_nodes [OF s1(2)]
  have "kheap_inv (vm_heap s1)" using s1(2) by (simp add: freed_def)
  moreover have "\<forall>a \<in> set ?ys. page_block (vm_heap s1) a" by (rule freed_blocks [OF s1(2) d(5,3)])
  ultimately obtain s' where s': "destroy_tables pt is s1 = Some s'" "freed s1 ?ys s'"
    using Cons.IH [of s1] d(2) Cons.prems(4) unfolding e n by auto
  have "destroy_tables pt (i # is) s = Some s'" using s1(1) s'(1) by (simp add: get_value_entry)
  with freed_trans [OF s1(2) s'(2)] show ?case by simp
qed

lemma pt_destroy_ok:
  assumes inv: "kheap_inv (vm_heap s)" and wf: "pt_wf (vm_heap s) pt"
  obtains s' where "pt_destroy pt s = Some s'" "freed s (pt_blocks (vm_heap s) pt) s'"
proof -
  let ?ys = "concat (map (\<lambda>i. nodes (vm_heap s) (entry (vm_heap s) pt i)) [0..<PT_ENTRIES])"
  have b: "pt_blocks (vm_heap s) pt = ?ys @ [pt]" by (simp add: pt_blocks_def)
  from wf have d: "distinct ?ys" "pt \<notin> set ?ys" "\<forall>a \<in> set ?ys. page_block (vm_heap s) a" "page_block (vm_heap s) pt"
    unfolding pt_wf_def b by auto
  have "\<forall>i \<in> set [0..<PT_ENTRIES]. entry_ok (entry (vm_heap s) pt i) \<and>
      (present (entry (vm_heap s) pt i) \<longrightarrow> (\<forall>j < PT_ENTRIES. entry_ok (entry (vm_heap s) (entry (vm_heap s) pt i AND PAGE_FRAME) j)))"
    using wf by (auto simp: pt_wf_def)
  from destroy_tables_ok [OF inv d(1,3) this] obtain s1 where s1: "destroy_tables pt [0..<PT_ENTRIES] s = Some s1" "freed s ?ys s1" by blast
  have inv1: "kheap_inv (vm_heap s1)" using s1(2) by (simp add: freed_def)
  have "page_block (vm_heap s1) pt" using freed_blocks [OF s1(2), of "[pt]"] d by simp
  from freed_one [OF inv1 this] obtain cm where cm: "free_kpages pt (kh_cm (vm_heap s1)) = Some cm" "freed s1 [pt] (set_cm cm s1)" .
  have "pt_destroy pt s = Some (set_cm cm s1)" using s1(1) cm(1) by (simp add: pt_destroy_def del: set_cm_simps)
  with freed_trans [OF s1(2) cm(2)] that show ?thesis unfolding b by blast
qed

section \<open>Creation\<close>

lemma pt_create_ok:
  assumes inv: "kheap_inv (vm_heap s)"
  obtains (stuck) "pt_create s = None" "frames_left s = 0"
  | (new) pt h where "pt_create s = Some (pt, s\<lparr>vm_heap := h\<rparr>)" "kheap_inv h" "pt_wf h pt" "pt_lookup h pt = (\<lambda>_. None)" "pt_blocks h pt = [pt]"
      "heap_map (vm_heap s) pt = None" "heap_map h = (heap_map (vm_heap s))(pt \<mapsto> PAGE_SIZE)" "frames_left s = Suc (frames_left (s\<lparr>vm_heap := h\<rparr>))"
      "\<And>b. page_block h b \<longleftrightarrow> b = pt \<or> page_block (vm_heap s) b"
  using inv
proof (cases rule: pt_create_table_ok [where q = 0 and va = 0])
  case 1: stuck
  then show ?thesis using stuck by (simp add: pt_create_def)
next
  case n: (new t cm)
  let ?h1 = "(vm_heap s)\<lparr>kh_cm := cm\<rparr>"
  let ?m = "fill_table t PAGE_FREE PT_ENTRIES (kh_mem (vm_heap s))"
  have t: "page_block ?h1 t" using n(5) by simp
  note T = page_block_facts [OF n(2) t]
  have out: "?m x = kh_mem ?h1 x" if "page_no x \<noteq> page_no t" for x
    using fill_table_out [of PT_ENTRIES x t PAGE_FREE "kh_mem (vm_heap s)"] that word_in_page(2) [OF T(1)] by fastforce
  note K = kheap_write [OF n(2) t out, simplified]
  have "km_block cm t = Some 1" using t by (simp add: page_block_def)
  then have "frame_no (t - MIPS_KSEG0) < length (cm_pages cm)" by (auto simp: km_block_def cm_block_def split: if_splits)
  moreover have c: "coremap_inv cm" using n(2) by (simp add: kheap_inv_def)
  ultimately obtain cm' where f: "coremap_setpagefixed (t - MIPS_KSEG0) True cm = Some cm'" "coremap_inv cm'" "km_block cm' = km_block cm"
    "coremap_size cm' = coremap_size cm" using setpagefixed_blocks [OF c] by blast
  define h where "h = (vm_heap s)\<lparr>kh_mem := ?m, kh_cm := cm'\<rparr>"
  note F = kheap_same_blocks [OF K(1), of cm', simplified, OF f(2,4,3), folded h_def]
  have create: "pt_create s = Some (t, s\<lparr>vm_heap := h\<rparr>)" using n(1) f(1) by (simp add: pt_create_def set_cm_def h_def)
  have b: "page_block h b \<longleftrightarrow> b = t \<or> page_block (vm_heap s) b" for b
    using n(5) [of b] F(3) K(3) f(3) by (simp add: page_block_def h_def)
  have e: "entry h t j = PAGE_FREE" if "j < PT_ENTRIES" for j using fill_table_in [OF T(1) that] by (simp add: entry_def h_def)
  have v: "vacant PAGE_FREE" "\<not> present PAGE_FREE" by (simp_all add: vacant_def present_def)
  have "map (\<lambda>i. nodes h (entry h t i)) [0..<PT_ENTRIES] = map (\<lambda>i. []) [0..<PT_ENTRIES]" using e v(2) by (intro map_cong) (auto simp: nodes_def)
  then have bl: "pt_blocks h t = [t]" unfolding pt_blocks_def by (simp only: concat_map_singleton map_replicate_const) simp
  have wf: "pt_wf h t" unfolding pt_wf_def bl using b e v by (simp add: entry_ok_def)
  have lk: "pt_lookup h t = (\<lambda>_. None)" using e v(2) up_lo_bound(1) by (simp add: pt_lookup_def fun_eq_iff)
  have av: "cm_avail cm' = cm_avail cm" using coremap_setpagefixed_inv [OF c f(1)] by blast
  have hm: "heap_map h = (heap_map (vm_heap s))(t \<mapsto> PAGE_SIZE)" using F(2) K(2) n(3) by simp
  have fr: "frames_left s = Suc (frames_left (s\<lparr>vm_heap := h\<rparr>))" using n(8) av by (simp add: frames_left_def h_def)
  show ?thesis by (rule new [OF create F(1) wf lk bl n(4) hm fr b])
qed

lemma others_new:
  assumes "pt_blocks h pt = [pt]" "heap_map h = m(pt \<mapsto> n)" "m pt = None"
  shows "others h pt = m"
  using assms by (auto simp: others_def restrict_map_def fun_eq_iff)

lemma freed_pt:
  assumes "freed s (pt_blocks (vm_heap s) pt) s'"
  shows "kheap_inv (vm_heap s')" "heap_map (vm_heap s') = others (vm_heap s) pt"
  using assms by (simp_all add: freed_def others_def)

section \<open>Frames of different pages\<close>

lemma pt_frames_distinct:
  assumes wf: "pt_wf h pt" and v: "pt_lookup h pt a = Some v" and w: "pt_lookup h pt b = Some w" and ab: "page_no a \<noteq> page_no b"
  shows "leaf_addr v \<noteq> leaf_addr w"
proof -
  let ?e = "\<lambda>i. entry h pt i" and ?f = "\<lambda>i. nodes h (entry h pt i)"
  note A = up_lo_bound [of a] and B = up_lo_bound [of b]
  have d: "distinct (concat (map ?f [0..<PT_ENTRIES]))" using wf by (simp add: pt_wf_def pt_blocks_def)
  have p: "present (?e (up x)) \<and> present z \<and> z = entry h (?e (up x) AND PAGE_FRAME) (lo x)" if "pt_lookup h pt x = Some z" for x z
    using that by (auto simp: pt_lookup_def Let_def split: if_splits)
  note V = p [OF v] and W = p [OF w]
  let ?g = "\<lambda>j. leaf_blocks (entry h (?e (up a) AND PAGE_FRAME) j)"
  have leaf: "leaf_addr z \<in> set (leaf_blocks (entry h (?e (up x) AND PAGE_FRAME) (lo x)))" if "pt_lookup h pt x = Some z" for x z
    using p [OF that] by (auto simp: leaf_blocks_def)
  show ?thesis
  proof (cases "up a = up b")
    case True
    then have lo: "lo a \<noteq> lo b" using ab up_lo_page by blast
    have "distinct (concat (map ?g [0..<PT_ENTRIES]))" using distinct_concat_part [OF d A(1)] V by (simp add: nodes_def leaves_def)
    from distinct_concat_parts [OF this A(2) B(2) lo] leaf [OF v] leaf [OF w] True show ?thesis by auto
  next
    case False
    have "leaf_addr z \<in> set (?f (up x))" if "pt_lookup h pt x = Some z" for x z
      using in_concat [where f = "\<lambda>j. leaf_blocks (entry h (?e (up x) AND PAGE_FRAME) j)", OF up_lo_bound(2) leaf [OF that]] p [OF that]
      by (simp only: nodes_def leaves_def) simp
    from distinct_concat_parts [OF d A(1) B(1) False] this [OF v] this [OF w] show ?thesis by auto
  qed
qed

section \<open>A run of page faults\<close>

fun touch_pages :: "addr \<Rightarrow> (addr \<times> addr) list \<Rightarrow> vmsys \<Rightarrow> vmsys option" where
  \<comment> \<open>the calls of \<open>pt_get_paddr\<close> that page faults at the given addresses make, with the permissions they pass\<close>
  "touch_pages pt [] s = Some s"
| "touch_pages pt ((va, q) # vs) s = do { (_, s') \<leftarrow> pt_get_paddr pt va True q s; touch_pages pt vs s' }"

lemma touch_page_ok:
  assumes inv: "kheap_inv (vm_heap s)" and wf: "pt_wf (vm_heap s) pt" and q: "q AND PAGE_PERMS = q"
    and t: "pt_get_paddr pt va True q s = Some (p, s')"
  shows "kheap_inv (vm_heap s')" "pt_wf (vm_heap s') pt" "others (vm_heap s') pt = others (vm_heap s) pt"
    "{w. pt_lookup (vm_heap s') pt w \<noteq> None} = {w. pt_lookup (vm_heap s) pt w \<noteq> None \<or> page_no w = page_no va}"
proof -
  have "kheap_inv (vm_heap s') \<and> pt_wf (vm_heap s') pt \<and> others (vm_heap s') pt = others (vm_heap s) pt \<and>
    {w. pt_lookup (vm_heap s') pt w \<noteq> None} = {w. pt_lookup (vm_heap s) pt w \<noteq> None \<or> page_no w = page_no va}"
  proof (cases "pt_lookup (vm_heap s) pt va")
    case None
    from inv wf None q show ?thesis
    proof (cases rule: pt_get_paddr_create)
      case (new v h st)
      then show ?thesis using t by auto
    qed (use t in simp)
  next
    case (Some v)
    have "pt_lookup (vm_heap s) pt w = Some v" if "page_no w = page_no va" for w
      using Some that [unfolded up_lo_page [symmetric]] by (simp add: pt_lookup_def)
    then show ?thesis using pt_get_paddr_mapped [OF inv wf Some] t inv wf by auto
  qed
  then show "kheap_inv (vm_heap s')" "pt_wf (vm_heap s') pt" "others (vm_heap s') pt = others (vm_heap s) pt"
    "{w. pt_lookup (vm_heap s') pt w \<noteq> None} = {w. pt_lookup (vm_heap s) pt w \<noteq> None \<or> page_no w = page_no va}" by blast+
qed

lemma touch_pages_ok:
  assumes "kheap_inv (vm_heap s)" "pt_wf (vm_heap s) pt" "\<forall>(va, q) \<in> set vs. q AND PAGE_PERMS = q" "touch_pages pt vs s = Some s'"
  shows "kheap_inv (vm_heap s') \<and> pt_wf (vm_heap s') pt \<and> others (vm_heap s') pt = others (vm_heap s) pt \<and>
    {w. pt_lookup (vm_heap s') pt w \<noteq> None} = {w. pt_lookup (vm_heap s) pt w \<noteq> None \<or> page_no w \<in> (page_no \<circ> fst) ` set vs}"
  using assms
proof (induction vs arbitrary: s)
  case (Cons x vs)
  obtain va q where x: "x = (va, q)" by force
  from Cons.prems(4) obtain p s1 where s1: "pt_get_paddr pt va True q s = Some (p, s1)" "touch_pages pt vs s1 = Some s'"
    by (auto simp: x split: bind_splits prod.splits)
  have q: "q AND PAGE_PERMS = q" using Cons.prems(3) by (simp add: x)
  note T = touch_page_ok [OF Cons.prems(1,2) q s1(1)]
  show ?case using Cons.IH [OF T(1,2) _ s1(2)] Cons.prems(3) T(3,4) by (auto simp: x)
qed simp

section \<open>A small machine\<close>

definition small_vm :: vmsys where
  \<comment> \<open>eight page frames, the first two fixed, and nothing allocated\<close>
  "small_vm = \<lparr>vm_heap = kheap_boot \<lparr>cm_ram = \<lparr>firstpaddr = 0, lastpaddr = 0\<rparr>,
       cm_pages = replicate 2 (coremap_entry 0 FIXED) @ replicate 6 (coremap_entry 0 FREE),
       coremap_initialized = True, coremap_size = 8, coremap_pages_in_use = 2, last_page_used = 0\<rparr> (\<lambda>_. 0),
     vm_spaces = (\<lambda>_. None), t_vmspace = None, vm_tlb = [], next_tlb_idx = 0, stats_counts = vmstats_init\<rparr>"

lemma small_vm_ok: "kheap_inv (vm_heap small_vm)" "frames_left small_vm = 6"
proof -
  let ?c = "kh_cm (vm_heap small_vm)"
  have c: "coremap_inv ?c" "cm_avail ?c = {2..<8}" by (rule coremap_boot_pages [where u = 2 and n = 8]; simp add: small_vm_def kheap_boot_def)+
  show "frames_left small_vm = 6" by (simp add: frames_left_def c(2))
  have "coremap_size ?c < 2 ^ 19" "vm_heap small_vm = kheap_boot ?c (\<lambda>_. 0)" by (simp_all add: small_vm_def kheap_boot_def)
  then show "kheap_inv (vm_heap small_vm)" using kheap_boot_inv [OF c(1)] by metis
qed

lemma small_pt:
  obtains pt s where "pt_create small_vm = Some (pt, s)" "kheap_inv (vm_heap s)" "pt_wf (vm_heap s) pt" "pt_lookup (vm_heap s) pt = (\<lambda>_. None)"
    "frames_left s = 5"
  using small_vm_ok(1)
proof (cases rule: pt_create_ok)
  case (new pt h)
  then show ?thesis using that [of pt "small_vm\<lparr>vm_heap := h\<rparr>"] small_vm_ok(2) by simp
qed (use small_vm_ok(2) in simp)

lemma small_touch:
  obtains pt s v s' where "pt_create small_vm = Some (pt, s)" "kheap_inv (vm_heap s')" "pt_wf (vm_heap s') pt"
    "pt_get_paddr pt 0x400000 True PAGE_R_MASK s = Some (v, s')" "pt_lookup (vm_heap s') pt 0x400000 = Some v"
proof -
  obtain pt s where s: "pt_create small_vm = Some (pt, s)" "kheap_inv (vm_heap s)" "pt_wf (vm_heap s) pt" "pt_lookup (vm_heap s) pt = (\<lambda>_. None)"
    "frames_left s = 5" using small_pt .
  have q: "PAGE_R_MASK AND PAGE_PERMS = PAGE_R_MASK" by simp
  from s(2,3) fun_cong [OF s(4)] q show ?thesis
  proof (cases rule: pt_get_paddr_create [where va = "0x400000"])
    case (new v h st)
    then show ?thesis using that [of pt s "s\<lparr>vm_heap := h, stats_counts := st\<rparr>" v] s(1) by simp
  qed (use s(5) in simp)
qed

section \<open>Properties\<close>







end
