(* ===== verification/Kern_VM.thy ===== *)
theory Kern_VM
  imports Kern_Pagetable_Props Kern_Uio
begin

text \<open>
  The handler of page faults (\<open>kern/vm/vm.c\<close>), the TLB (\<open>kern/arch/mips/mips/tlb_mips1.S\<close>) and \<open>load_segment\<close>
  (\<open>kern/userprog/loadelf.c\<close>), which the handler calls to read a page of the program.

  The TLB is a list of pairs of the two words of an entry. \<open>load_segment\<close> reads with \<open>VOP_READ\<close>, a call through a table of
  function pointers; it is the argument \<open>vop_read\<close>, which takes the vnode and the \<open>uio\<close>. What it and \<open>uiomovezeros\<close> store goes to
  user memory, where in the handler only the page of the fault is mapped: its bytes are the big-endian bytes of the
  words of the frame, and they are put back there when \<open>load_segment\<close> returns.
\<close>

section \<open>The TLB\<close>

abbreviation TLBHI_VPAGE :: addr where "TLBHI_VPAGE \<equiv> 0xfffff000"
abbreviation TLBLO_DIRTY :: addr where "TLBLO_DIRTY \<equiv> 0x400"
abbreviation TLBLO_VALID :: addr where "TLBLO_VALID \<equiv> 0x200"
abbreviation NUM_TLB :: nat where "NUM_TLB \<equiv> 64"

definition TLB_Write :: "addr \<Rightarrow> addr \<Rightarrow> nat \<Rightarrow> vmsys \<Rightarrow> vmsys option" where
  "TLB_Write entryhi entrylo i s = do { kassert (i < NUM_TLB); Some (s\<lparr>vm_tlb := (vm_tlb s)[i := (entryhi, entrylo)]\<rparr>) }"

definition TLB_Read :: "nat \<Rightarrow> vmsys \<Rightarrow> (addr \<times> addr) option" where
  "TLB_Read i s = do { kassert (i < NUM_TLB); Some (vm_tlb s ! i) }"

definition TLB_Probe :: "addr \<Rightarrow> vmsys \<Rightarrow> nat option" where
  \<comment> \<open>\<open>None\<close> is the negative result; an entry may match without being valid\<close>
  "TLB_Probe entryhi s = find (\<lambda>i. fst (vm_tlb s ! i) AND TLBHI_VPAGE = entryhi AND TLBHI_VPAGE) [0..<NUM_TLB]"

definition get_tlb_replace_idx :: "vmsys \<Rightarrow> nat \<times> vmsys" where
  "get_tlb_replace_idx s = (next_tlb_idx s, s\<lparr>next_tlb_idx := (next_tlb_idx s + 1) mod NUM_TLB\<rparr>)"

definition tlb_update :: "addr \<Rightarrow> addr \<Rightarrow> nat \<Rightarrow> vmsys \<Rightarrow> vmsys option" where
  "tlb_update faultaddress paddr tlb_idx s =
     (let writeable = paddr AND PAGE_W_MASK;
          elo = (paddr AND PAGE_FRAME) OR TLBLO_VALID;
          elo = (if writeable \<noteq> 0 then elo OR TLBLO_DIRTY else elo)
      in TLB_Write faultaddress elo tlb_idx s)"

definition tlb_fault :: "addr \<Rightarrow> addr \<Rightarrow> vmsys \<Rightarrow> vmsys option" where
  \<comment> \<open>the returned index is not used\<close>
  "tlb_fault faultaddress paddr s = do {
     let (tlb_idx, s) = get_tlb_replace_idx s;
     s \<leftarrow> count_stat VMSTAT_TLB_FAULT s;
     (ehi, elo) \<leftarrow> TLB_Read tlb_idx s;
     s \<leftarrow> (if elo AND TLBLO_VALID \<noteq> 0 then count_stat VMSTAT_TLB_FAULT_REPLACE s else count_stat VMSTAT_TLB_FAULT_FREE s);
     tlb_update faultaddress paddr tlb_idx s
   }"

section \<open>Loading a segment\<close>

type_synonym vop_read = "nat \<Rightarrow> uio \<Rightarrow> (unit res \<times> uio) option"

definition load_segment :: "vop_read \<Rightarrow> nat \<Rightarrow> int \<Rightarrow> addr \<Rightarrow> nat \<Rightarrow> nat \<Rightarrow> bool \<Rightarrow> nat option \<Rightarrow> umem \<Rightarrow> (unit res \<times> umem) option" where
  "load_segment vop_read v offset vaddr memsize filesize is_executable cur um =
     (let filesize = (if filesize > memsize then memsize else filesize);
          u = \<lparr>iov_kbuf = [], iov_kbase = 0, iov_ubase = vaddr, iov_len = memsize, uio_offset = offset, uio_resid = filesize,
               uio_segflg = (if is_executable then UIO_USERISPACE else UIO_USERSPACE), uio_rw = UIO_READ, uio_space = cur,
               uio_cur = cur, uio_um = um\<rparr>
      in do {
        (result, u) \<leftarrow> vop_read v u;
        (case result of
           Inl e \<Rightarrow> Some (Inl e, uio_um u)
         | Inr _ \<Rightarrow>
             if uio_resid u \<noteq> 0 then Some (Inl ENOEXEC, uio_um u)
             else let fillamt = memsize - filesize
                  in if fillamt > 0 then do {
                       (result, u) \<leftarrow> uiomovezeros fillamt (u\<lparr>uio_resid := uio_resid u + fillamt\<rparr>);
                       Some (result, uio_um u)
                     }
                     else Some (Inr (), uio_um u))
      })"

section \<open>A frame as user memory\<close>

definition word_byte :: "addr \<Rightarrow> nat \<Rightarrow> byte" where
  \<comment> \<open>byte \<open>k\<close> of a word, the most significant one first\<close>
  "word_byte w k = ucast (drop_bit (8 * (3 - k)) w)"

definition word_of_bytes :: "byte \<Rightarrow> byte \<Rightarrow> byte \<Rightarrow> byte \<Rightarrow> addr" where
  "word_of_bytes b0 b1 b2 b3 = push_bit 24 (ucast b0) OR push_bit 16 (ucast b1) OR push_bit 8 (ucast b2) OR ucast b3"

definition frame_byte :: "(addr \<Rightarrow> addr) \<Rightarrow> addr \<Rightarrow> nat \<Rightarrow> byte" where
  \<comment> \<open>byte \<open>i\<close> of the page at the kernel address \<open>f\<close>\<close>
  "frame_byte m f i = word_byte (m (f + of_nat (4 * (i div 4)))) (i mod 4)"

definition put_frame :: "addr \<Rightarrow> (nat \<Rightarrow> byte) \<Rightarrow> (addr \<Rightarrow> addr) \<Rightarrow> addr \<Rightarrow> addr" where
  "put_frame f b m a =
     (let i = unat (a - f)
      in if i < PAGE_SIZE \<and> i mod 4 = 0 then word_of_bytes (b i) (b (i + 1)) (b (i + 2)) (b (i + 3)) else m a)"

definition load_page :: "vop_read \<Rightarrow> nat \<Rightarrow> int \<Rightarrow> addr \<Rightarrow> addr \<Rightarrow> addr \<Rightarrow> bool \<Rightarrow> addr \<Rightarrow> addr \<Rightarrow> vmsys \<Rightarrow> vmsys option" where
  \<comment> \<open>the call of \<open>load_segment\<close> while the page \<open>faultaddress\<close> is mapped to the frame of \<open>paddr\<close>; its result is not used\<close>
  "load_page vop_read v offset vaddr memsize filesize is_executable faultaddress paddr s =
     (let f = (paddr AND PAGE_FRAME) + MIPS_KSEG0;
          m = kh_mem (vm_heap s);
          um = \<lparr>um_data = (\<lambda>a. frame_byte m f (unat a mod PAGE_SIZE)), um_ok = (\<lambda>a. a AND PAGE_FRAME = faultaddress)\<rparr>
      in do {
        (_, um') \<leftarrow> load_segment vop_read v offset vaddr (unat memsize) (unat filesize) is_executable (map_option unat (t_vmspace s)) um;
        Some (s\<lparr>vm_heap := (vm_heap s)\<lparr>kh_mem := put_frame f (\<lambda>i. um_data um' (faultaddress + of_nat i)) m\<rparr>\<rparr>)
      })"

section \<open>The fault handler\<close>

abbreviation VM_FAULT_READ :: nat where "VM_FAULT_READ \<equiv> 0"
abbreviation VM_FAULT_WRITE :: nat where "VM_FAULT_WRITE \<equiv> 1"
abbreviation VM_FAULT_READONLY :: nat where "VM_FAULT_READONLY \<equiv> 2"

definition in_region :: "addr \<Rightarrow> region \<Rightarrow> bool" where
  "in_region vaddr r \<longleftrightarrow> vaddr < rg_vaddr r + rg_memsize r \<and> vaddr \<ge> rg_vaddr r"

definition part_size :: "addr \<Rightarrow> addr \<Rightarrow> addr \<Rightarrow> addr" where
  \<comment> \<open>how much of a segment that ends at \<open>stop\<close> lies between \<open>rbot\<close> and \<open>rtop\<close>; the code for \<open>filesize\<close> and for \<open>memsize\<close>\<close>
  "part_size stop rbot rtop = (if stop < rtop then (if rbot \<le> stop then stop - rbot else 0) else rtop - rbot)"

definition segment_part :: "region \<Rightarrow> addr \<Rightarrow> int \<times> addr \<times> addr \<times> addr" where
  \<comment> \<open>the arguments \<open>offset\<close>, \<open>rbot\<close>, \<open>memsize\<close> and \<open>filesize\<close> of \<open>load_segment\<close>\<close>
  "segment_part r faultaddress =
     (let offset = swrap32 (rg_offset r + sint (faultaddress - (rg_vaddr r AND PAGE_FRAME)));
          rbot = (if faultaddress > rg_vaddr r then faultaddress else rg_vaddr r);
          rtop = faultaddress + of_nat PAGE_SIZE
      in (offset, rbot, part_size (rg_vaddr r + rg_memsize r) rbot rtop, part_size (rg_vaddr r + rg_filesize r) rbot rtop))"

definition vm_fault_load :: "vop_read \<Rightarrow> addrspace \<Rightarrow> region \<Rightarrow> addr \<Rightarrow> vmsys \<Rightarrow> vmsys option" where
  \<comment> \<open>the body of the loop over the regions in \<open>vm_fault\<close>, for the region of the address\<close>
  "vm_fault_load vop_read as r faultaddress s = do {
     (paddr, s) \<leftarrow> pt_get_paddr (as_pt as) faultaddress True (PAGE_R_MASK OR PAGE_W_MASK) s;
     s \<leftarrow> tlb_fault faultaddress paddr s;
     let (offset, rbot, memsize, filesize) = segment_part r faultaddress;
     s \<leftarrow> load_page vop_read (as_v as) offset rbot memsize filesize (rg_permissions r AND PAGE_X_MASK \<noteq> 0) faultaddress paddr s;
     (_, s) \<leftarrow> pt_set_permissions (as_pt as) faultaddress True (rg_permissions r) s;
     s \<leftarrow> (case TLB_Probe faultaddress s of
             Some i \<Rightarrow> tlb_update faultaddress ((paddr AND NOT PAGE_PERMS) OR rg_permissions r) i s
           | None \<Rightarrow> tlb_fault faultaddress paddr s);
     s \<leftarrow> count_stat VMSTAT_ELF_FILE_READ s;
     count_stat VMSTAT_PAGE_FAULT_DISK s
   }"

definition fault_allowed :: "nat \<Rightarrow> addr \<Rightarrow> bool" where
  \<comment> \<open>the last \<open>switch\<close> of \<open>vm_fault\<close>\<close>
  "fault_allowed faulttype paddr \<longleftrightarrow>
     (if faulttype = VM_FAULT_READONLY then paddr AND PAGE_W_MASK \<noteq> 0 \<and> paddr AND PAGE_R_MASK \<noteq> 0
      else if faulttype = VM_FAULT_READ then paddr AND PAGE_R_MASK \<noteq> 0
      else paddr AND PAGE_W_MASK \<noteq> 0)"

definition vm_fault :: "vop_read \<Rightarrow> nat \<Rightarrow> addr \<Rightarrow> vmsys \<Rightarrow> (unit res \<times> vmsys) option" where
  "vm_fault vop_read faulttype vaddr s =
     (let faultaddress = vaddr AND PAGE_FRAME
      in if faulttype \<notin> {VM_FAULT_READONLY, VM_FAULT_READ, VM_FAULT_WRITE} then Some (Inl EINVAL, s)
         else case t_vmspace s of
           None \<Rightarrow> Some (Inl EFAULT, s)
         | Some a \<Rightarrow> do {
             as \<leftarrow> vm_spaces s a;
             (paddr, s) \<leftarrow> pt_get_paddr (as_pt as) faultaddress False 0 s;
             (case (if paddr AND PAGE_FREE \<noteq> 0 then find (in_region vaddr) (as_regions as) else None) of
                Some r \<Rightarrow> do { s \<leftarrow> vm_fault_load vop_read as r faultaddress s; Some (Inr (), s) }
              | None \<Rightarrow> do {
                  (paddr, s) \<leftarrow> (if paddr AND PAGE_FREE \<noteq> 0 \<or> paddr AND PAGE_IN_SWP \<noteq> 0
                                  then pt_get_paddr (as_pt as) faultaddress True (PAGE_R_MASK OR PAGE_W_MASK) s
                                  else do { s \<leftarrow> count_stat VMSTAT_TLB_RELOAD s; Some (paddr, s) });
                  (if fault_allowed faulttype paddr then do { s \<leftarrow> tlb_fault faultaddress paddr s; Some (Inr (), s) }
                   else Some (Inl EFAULT, s))
                })
           })"

end
