(* ===== verification/Kern_VM_Inv.thy ===== *)
theory Kern_VM_Inv
  imports Kern_VM
begin

text \<open>
  What the page fault handler relies on: page tables do not depend on the contents of the frames they map, the words of a
  frame are its bytes, and the TLB agrees with the page table.
\<close>

section \<open>Bytes of a frame\<close>

lemma word_byte_of_bytes:
  "word_byte (word_of_bytes b0 b1 b2 b3) 0 = b0" "word_byte (word_of_bytes b0 b1 b2 b3) 1 = b1"
  "word_byte (word_of_bytes b0 b1 b2 b3) 2 = b2" "word_byte (word_of_bytes b0 b1 b2 b3) 3 = b3"
  by (rule bit_word_eqI; simp add: word_byte_def word_of_bytes_def bit_simps; auto dest: bit_imp_le_length)+

lemma put_frame_out:
  assumes "unat f mod PAGE_SIZE = 0" "page_no a \<noteq> page_no f"
  shows "put_frame f b m a = m a"
proof -
  have "\<not> unat (a - f) < PAGE_SIZE"
  proof
    assume l: "unat (a - f) < PAGE_SIZE"
    have "unat (f + of_nat (unat (a - f))) = unat f + unat (a - f)" by (rule page_offset [OF assms(1) l])
    then have "unat a = unat f + unat (a - f)" by simp
    with same_page [OF assms(1), of "unat a"] l assms(2) show False by simp
  qed
  then show ?thesis by (simp add: put_frame_def)
qed

lemma frame_byte_put:
  assumes "i < PAGE_SIZE"
  shows "frame_byte (put_frame f b m) f i = b i"
proof -
  define q r where "q = i div 4" and "r = i mod 4"
  have i: "i = 4 * q + r" "r < 4" by (simp_all add: q_def r_def)
  have q: "4 * q < PAGE_SIZE" using assms i by simp
  then have u: "unat (of_nat (4 * q) :: addr) = 4 * q" by (simp add: unat_of_nat del: of_nat_mult)
  have "put_frame f b m (f + of_nat (4 * q)) = word_of_bytes (b (4 * q)) (b (4 * q + 1)) (b (4 * q + 2)) (b (4 * q + 3))"
    using q u by (simp add: put_frame_def Let_def del: of_nat_mult)
  then have w: "frame_byte (put_frame f b m) f i = word_byte (word_of_bytes (b (4 * q)) (b (4 * q + 1)) (b (4 * q + 2)) (b (4 * q + 3))) r"
    unfolding frame_byte_def q_def [symmetric] r_def [symmetric] by (rule arg_cong)
  consider "r = 0" | "r = 1" | "r = 2" | "r = 3" using i(2) by linarith
  then show ?thesis unfolding w by cases (simp_all only: i(1) word_byte_of_bytes add_0_right)
qed

lemma frame_byte_cong:
  fixes f :: addr
  assumes "unat f mod PAGE_SIZE = 0" "i < PAGE_SIZE" "\<And>y. page_no y = page_no f \<Longrightarrow> m y = m' y"
  shows "frame_byte m f i = frame_byte m' f i"
proof -
  have "i div 4 < PT_ENTRIES" using assms(2) by simp
  from word_in_page(2) [OF assms(1) this] show ?thesis unfolding frame_byte_def using assms(3) by simp
qed

lemma leaf_page_table:
  assumes "kheap_inv h" "pt_wf h pt" "pt_lookup h pt va = Some v" "page_no y = page_no (leaf_addr v)"
  shows "page_no y \<notin> page_no ` pt_tables h pt"
proof
  note L = leaf_block [OF assms(2,3)]
  assume "page_no y \<in> page_no ` pt_tables h pt"
  then obtain t where t: "t \<in> pt_tables h pt" "page_no t = page_no (leaf_addr v)" using assms(4) by auto
  have "page_block h t" using t(1) pt_tables_blocks assms(2) by (auto simp: pt_wf_def)
  from page_no_eq [OF page_block_facts(1) [OF assms(1) this] page_block_facts(1) [OF assms(1) L(1)] t(2)] t(1) L(3) show False by simp
qed

section \<open>The TLB and the page table\<close>

definition tlb_lo :: "addr \<Rightarrow> addr" where
  \<comment> \<open>the low word of the TLB entry for a page table entry\<close>
  "tlb_lo v = (if v AND PAGE_W_MASK \<noteq> 0 then ((v AND PAGE_FRAME) OR TLBLO_VALID) OR TLBLO_DIRTY else (v AND PAGE_FRAME) OR TLBLO_VALID)"

definition tlb_at :: "'as kheap \<Rightarrow> addr \<Rightarrow> addr \<times> addr \<Rightarrow> bool" where
  "tlb_at h pt e \<longleftrightarrow>
     (if snd e AND TLBLO_VALID = 0 then USERTOP \<le> fst e
      else fst e AND PAGE_FRAME = fst e \<and> fst e < USERTOP \<and> (\<exists>v. pt_lookup h pt (fst e) = Some v \<and> snd e = tlb_lo v))"

definition tlb_ok :: "'as kheap \<Rightarrow> addr \<Rightarrow> (addr \<times> addr) list \<Rightarrow> bool" where
  \<comment> \<open>the entries are those of the page table, and no page has two of them\<close>
  "tlb_ok h pt tlb \<longleftrightarrow> length tlb = NUM_TLB \<and> (\<forall>i < NUM_TLB. tlb_at h pt (tlb ! i)) \<and>
     (\<forall>i < NUM_TLB. \<forall>j < NUM_TLB. i \<noteq> j \<longrightarrow> fst (tlb ! i) < USERTOP \<longrightarrow> fst (tlb ! i) \<noteq> fst (tlb ! j))"

lemma tlb_lo_bits: "tlb_lo v AND TLBLO_VALID \<noteq> 0" "tlb_lo v AND PAGE_FRAME = v AND PAGE_FRAME"
  "tlb_lo v AND TLBLO_DIRTY \<noteq> 0 \<longleftrightarrow> v AND PAGE_W_MASK \<noteq> 0" "tlb_lo (v AND 0xFFFFFFFC) = tlb_lo v"
  by (simp_all add: tlb_lo_def bit.conj_disj_distrib2 and.assoc)

lemma tlb_update_eq: "i < NUM_TLB \<Longrightarrow> tlb_update fa p i s = Some (s\<lparr>vm_tlb := (vm_tlb s)[i := (fa, tlb_lo p)]\<rparr>)"
  by (simp add: tlb_update_def TLB_Write_def tlb_lo_def Let_def)

lemma count_stat_ok:
  assumes "i < VMSTAT_COUNT"
  obtains st where "count_stat i s = Some (s\<lparr>stats_counts := st\<rparr>)"
  using assms by (simp add: count_stat_def vmstats_inc_def)

lemma tlb_fault_ok:
  assumes "next_tlb_idx s < NUM_TLB"
  obtains st where "tlb_fault fa p s = Some (s\<lparr>next_tlb_idx := (next_tlb_idx s + 1) mod NUM_TLB, stats_counts := st,
    vm_tlb := (vm_tlb s)[next_tlb_idx s := (fa, tlb_lo p)]\<rparr>)"
proof -
  let ?s = "s\<lparr>next_tlb_idx := (next_tlb_idx s + 1) mod NUM_TLB\<rparr>"
  obtain st where st: "count_stat VMSTAT_TLB_FAULT ?s = Some (?s\<lparr>stats_counts := st\<rparr>)" by (rule count_stat_ok [of VMSTAT_TLB_FAULT ?s]) simp_all
  let ?s1 = "?s\<lparr>stats_counts := st\<rparr>"
  obtain hi l where e: "vm_tlb s ! next_tlb_idx s = (hi, l)" by fastforce
  let ?c = "if l AND TLBLO_VALID \<noteq> 0 then count_stat VMSTAT_TLB_FAULT_REPLACE ?s1 else count_stat VMSTAT_TLB_FAULT_FREE ?s1"
  have "\<exists>st'. ?c = Some (?s1\<lparr>stats_counts := st'\<rparr>)"
    by (auto simp: count_stat_def vmstats_inc_def)
  then obtain st' where c: "?c = Some (?s1\<lparr>stats_counts := st'\<rparr>)" by blast
  have "tlb_fault fa p s = ?c \<bind> tlb_update fa p (next_tlb_idx s)"
    using st e assms by (simp add: tlb_fault_def get_tlb_replace_idx_def TLB_Read_def Let_def)
  then show ?thesis using that assms unfolding c by (simp add: tlb_update_eq)
qed

lemma tlb_put:
  assumes len: "length tlb = NUM_TLB" and i: "i < NUM_TLB"
    and at: "\<And>j. j < NUM_TLB \<Longrightarrow> j \<noteq> i \<Longrightarrow> tlb_at h pt (tlb ! j) \<and> fst (tlb ! j) \<noteq> fa"
    and one: "\<And>j k. j < NUM_TLB \<Longrightarrow> k < NUM_TLB \<Longrightarrow> j \<noteq> i \<Longrightarrow> k \<noteq> i \<Longrightarrow> j \<noteq> k \<Longrightarrow> fst (tlb ! j) < USERTOP \<Longrightarrow> fst (tlb ! j) \<noteq> fst (tlb ! k)"
    and fa: "fa AND PAGE_FRAME = fa" "fa < USERTOP" and v: "pt_lookup h pt fa = Some v"
  shows "tlb_ok h pt (tlb[i := (fa, tlb_lo v)])"
proof -
  have "tlb_at h pt (tlb[i := (fa, tlb_lo v)] ! j)" if "j < NUM_TLB" for j
    using at [OF that] len that fa v tlb_lo_bits(1) by (cases "j = i") (simp_all add: tlb_at_def)
  moreover have "fst (tlb[i := (fa, tlb_lo v)] ! j) \<noteq> fst (tlb[i := (fa, tlb_lo v)] ! k)"
    if "j < NUM_TLB" "k < NUM_TLB" "j \<noteq> k" "fst (tlb[i := (fa, tlb_lo v)] ! j) < USERTOP" for j k
    using at [OF that(1)] at [OF that(2)] one [OF that(1,2)] len that by (cases "j = i"; cases "k = i") auto
  ultimately show ?thesis using len by (simp add: tlb_ok_def)
qed

lemma tlb_okD:
  assumes "tlb_ok h pt tlb"
  shows "length tlb = NUM_TLB" "\<And>i. i < NUM_TLB \<Longrightarrow> tlb_at h pt (tlb ! i)"
    "\<And>i j. i < NUM_TLB \<Longrightarrow> j < NUM_TLB \<Longrightarrow> i \<noteq> j \<Longrightarrow> fst (tlb ! i) < USERTOP \<Longrightarrow> fst (tlb ! i) \<noteq> fst (tlb ! j)"
  using assms by (auto simp: tlb_ok_def)

lemma tlb_ok_cong:
  assumes "tlb_ok h pt tlb" "\<And>a v. pt_lookup h pt a = Some v \<Longrightarrow> pt_lookup h' pt' a = Some v"
  shows "tlb_ok h' pt' tlb"
  using assms by (fastforce simp: tlb_ok_def tlb_at_def split: if_splits)

lemma tlb_fill:
  assumes ok: "tlb_ok h pt tlb" and i: "i < NUM_TLB" and fa: "fa AND PAGE_FRAME = fa" "fa < USERTOP" and v: "pt_lookup h pt fa = Some v"
    and miss: "\<And>j. j < NUM_TLB \<Longrightarrow> snd (tlb ! j) AND TLBLO_VALID \<noteq> 0 \<Longrightarrow> fst (tlb ! j) \<noteq> fa"
  shows "tlb_ok h pt (tlb[i := (fa, tlb_lo v)])"
proof (rule tlb_put [OF tlb_okD(1) [OF ok] i _ _ fa v])
  fix j
  assume j: "j < NUM_TLB" "j \<noteq> i"
  have "fst (tlb ! j) \<noteq> fa" using tlb_okD(2) [OF ok j(1)] miss [OF j(1)] fa(2) by (auto simp: tlb_at_def split: if_splits)
  then show "tlb_at h pt (tlb ! j) \<and> fst (tlb ! j) \<noteq> fa" using tlb_okD(2) [OF ok j(1)] by simp
qed (use tlb_okD(3) [OF ok] in blast)

lemma page_frame_eq: "a AND PAGE_FRAME = b AND PAGE_FRAME \<longleftrightarrow> page_no a = page_no b"
  by (simp add: word_unat_eq_iff page_part)

lemma TLB_Probe_eq:
  assumes i: "i < NUM_TLB" "fst (vm_tlb s ! i) = fa" and fa: "fa AND PAGE_FRAME = fa"
    and other: "\<And>j. j < NUM_TLB \<Longrightarrow> j \<noteq> i \<Longrightarrow> fst (vm_tlb s ! j) AND PAGE_FRAME \<noteq> fa"
  shows "TLB_Probe fa s = Some i"
  unfolding TLB_Probe_def find_Some_iff using assms by (intro exI [of _ i]) (auto simp: fa)

lemma tlb_at_page:
  assumes "tlb_at h pt e" "fst e \<noteq> fa" "fa AND PAGE_FRAME = fa" "fa < USERTOP"
  shows "fst e AND PAGE_FRAME \<noteq> fa"
proof (cases "snd e AND TLBLO_VALID = 0")
  case True
  then have "USERTOP \<le> fst e" using assms(1) by (simp add: tlb_at_def)
  then have "unat USERTOP \<le> unat (fst e)" "unat fa < unat USERTOP" using assms(4) by (simp_all add: word_le_nat_alt word_less_nat_alt)
  then have "(2 ^ 31 :: nat) \<le> unat (fst e)" "unat fa < 2 ^ 31" by simp_all
  then have "page_no fa < 2 ^ 19" "2 ^ 19 \<le> page_no (fst e)" by simp_all
  then show ?thesis using page_frame_eq [of "fst e" fa] assms(3) by auto
qed (use assms in \<open>simp add: tlb_at_def\<close>)

end
