(* ===== verification/Kern_VM_Props.thy ===== *)
theory Kern_VM_Props
  imports Kern_VM_Inv
begin

text \<open>
  The properties of the page fault handler: which part of a segment a fault loads, what the page holds afterwards, and that
  the TLB never maps a page of the user to memory its page table does not give it.
\<close>

section \<open>The part of a segment in a page\<close>

lemma unat_part_size: "unat b \<le> unat t \<Longrightarrow> unat (part_size e b t) = min (unat t) (unat e) - unat b"
  by (auto simp: part_size_def word_less_nat_alt word_le_nat_alt unat_sub_if')

lemma sint_small: "unat w < 2 ^ 31 \<Longrightarrow> sint w = int (unat w)" for w :: "32 word"
proof -
  assume "unat w < 2 ^ 31"
  then have "int (unat w) < int (2 ^ 31)" by (simp only: of_nat_less_iff)
  then have "uint w < 2 ^ 31" by simp
  moreover have "- (2 ^ 31) \<le> uint w" by (rule order_trans [OF _ uint_ge_0]) simp
  ultimately have "signed_take_bit 31 (uint w) = uint w" by (rule signed_take_bit_int_eq_self [rotated])
  then show ?thesis by (simp add: sint_uint)
qed

lemma unat_add_small: "unat a + unat b < 2 ^ 32 \<Longrightarrow> unat (a + b) = unat a + unat b" for a b :: "32 word"
  by (simp add: unat_word_ariths)

lemma page_start: "unat a div PAGE_SIZE * PAGE_SIZE \<le> unat a" "unat a < unat a div PAGE_SIZE * PAGE_SIZE + PAGE_SIZE" for a :: addr
  using div_mult_mod_eq [of "unat a" PAGE_SIZE] mod_less_divisor [of PAGE_SIZE "unat a"] by simp_all

lemma page_top: "unat a < 2 ^ 31 \<Longrightarrow> unat a div PAGE_SIZE * PAGE_SIZE + PAGE_SIZE \<le> 2 ^ 31" for a :: addr
proof -
  assume "unat a < 2 ^ 31"
  then have "unat a div PAGE_SIZE < 2 ^ 19" by simp
  then have "Suc (unat a div PAGE_SIZE) * PAGE_SIZE \<le> 2 ^ 19 * PAGE_SIZE" by (intro mult_right_mono) simp_all
  then show ?thesis by simp
qed

definition region_ok :: "region \<Rightarrow> bool" where
  \<comment> \<open>the segment lies in user memory and in a file\<close>
  "region_ok r \<longleftrightarrow> unat (rg_vaddr r) + unat (rg_memsize r) \<le> 2 ^ 31 \<and> unat (rg_filesize r) \<le> unat (rg_memsize r) \<and>
     0 \<le> rg_offset r \<and> rg_offset r + 2 ^ 12 + int (unat (rg_memsize r)) < 2 ^ 31 \<and> rg_permissions r AND PAGE_PERMS = rg_permissions r"

lemma in_region_nat:
  assumes "region_ok r"
  shows "in_region va r \<longleftrightarrow> unat (rg_vaddr r) \<le> unat va \<and> unat va < unat (rg_vaddr r) + unat (rg_memsize r)"
  using assms unat_add_small [of "rg_vaddr r" "rg_memsize r"] by (auto simp: in_region_def region_ok_def word_less_nat_alt word_le_nat_alt)

lemma segment_part_nat:
  assumes ok: "region_ok r" and va: "in_region va r"
  defines "p \<equiv> unat va div PAGE_SIZE * PAGE_SIZE" and "q \<equiv> unat (rg_vaddr r)"
  obtains rbot memsize filesize where
    "segment_part r (va AND PAGE_FRAME) = (rg_offset r + int (p - q div PAGE_SIZE * PAGE_SIZE), rbot, memsize, filesize)"
    "unat rbot = max p q" "unat memsize = min (p + PAGE_SIZE) (q + unat (rg_memsize r)) - max p q"
    "unat filesize = min (p + PAGE_SIZE) (q + unat (rg_filesize r)) - max p q"
proof -
  let ?fa = "va AND PAGE_FRAME" and ?m = "unat (rg_memsize r)" and ?f = "unat (rg_filesize r)"
  have b: "q + ?m \<le> 2 ^ 31" "?f \<le> ?m" "0 \<le> rg_offset r" "rg_offset r + 2 ^ 12 + int ?m < 2 ^ 31" using ok by (simp_all add: region_ok_def q_def)
  have v: "q \<le> unat va" "unat va < q + ?m" using va in_region_nat [OF ok] by (simp_all add: q_def)
  have p: "p \<le> unat va" "unat va < p + PAGE_SIZE" "p + PAGE_SIZE \<le> 2 ^ 31" using page_start [of va] page_top [of va] v b(1) by (simp_all add: p_def)
  have fa: "unat ?fa = p" by (simp add: page_part p_def)
  have qp: "q div PAGE_SIZE * PAGE_SIZE \<le> p" "q < q div PAGE_SIZE * PAGE_SIZE + PAGE_SIZE"
    using div_le_mono [OF v(1), of PAGE_SIZE] page_start [of "rg_vaddr r"] by (simp_all add: p_def q_def)
  have "unat (?fa - (rg_vaddr r AND PAGE_FRAME)) = p - q div PAGE_SIZE * PAGE_SIZE"
    using fa qp(1) by (simp add: unat_sub_if' page_part q_def)
  then have "sint (?fa - (rg_vaddr r AND PAGE_FRAME)) = int (p - q div PAGE_SIZE * PAGE_SIZE)"
    using p by (subst sint_small) simp_all
  moreover have "p - q div PAGE_SIZE * PAGE_SIZE < 2 ^ 12 + ?m" using v p qp by simp
  then have "int (p - q div PAGE_SIZE * PAGE_SIZE) < 2 ^ 12 + int ?m" unfolding of_nat_less_iff [where 'a = int, symmetric] by simp
  then have "rg_offset r + int (p - q div PAGE_SIZE * PAGE_SIZE) < 2 ^ 31" using b(4) by linarith
  ultimately have off: "swrap32 (rg_offset r + sint (?fa - (rg_vaddr r AND PAGE_FRAME))) = rg_offset r + int (p - q div PAGE_SIZE * PAGE_SIZE)"
    using b(3) by (simp add: swrap32_id)
  let ?rbot = "if ?fa > rg_vaddr r then ?fa else rg_vaddr r" and ?rtop = "?fa + of_nat PAGE_SIZE"
  have rb: "unat ?rbot = max p q" using fa by (auto simp: word_less_nat_alt q_def)
  have rt: "unat ?rtop = p + PAGE_SIZE" using unat_add_small [of ?fa "of_nat PAGE_SIZE"] fa p(3) by simp
  have e: "unat (rg_vaddr r + rg_memsize r) = q + ?m" "unat (rg_vaddr r + rg_filesize r) = q + ?f"
    using unat_add_small [of "rg_vaddr r"] b(1,2) by (simp_all add: q_def)
  have "unat ?rbot \<le> unat ?rtop" unfolding rb rt using v p by simp
  note S = unat_part_size [OF this, unfolded rb rt]
  show ?thesis
    by (rule that [of ?rbot "part_size (rg_vaddr r + rg_memsize r) ?rbot ?rtop" "part_size (rg_vaddr r + rg_filesize r) ?rbot ?rtop", OF _ rb])
      (simp_all only: segment_part_def Let_def off S e)
qed

section \<open>Loading from a file\<close>

definition reads_file :: "vop_read \<Rightarrow> nat \<Rightarrow> byte list \<Rightarrow> bool" where
  \<comment> \<open>\<open>VOP_READ\<close> of the vnode \<open>v\<close> transfers the bytes of \<open>file\<close> from \<open>uio_offset\<close> on, up to the end of the file\<close>
  "reads_file vop_read v file \<longleftrightarrow>
     (\<forall>u. let n = min (uio_resid u) (length file - nat (uio_offset u)) in
        uio_rw u = UIO_READ \<and> uio_ready n u \<longrightarrow>
        (\<exists>u'. vop_read v u = Some (Inr (), u') \<and> uio_moved n u u' \<and>
           iov_mem u' = mem_put (iov_pos u) (subblk file (nat (uio_offset u)) n) (iov_mem u)))"

lemma reads_fileD:
  assumes "reads_file vop_read v file" "uio_rw u = UIO_READ" "n = min (uio_resid u) (length file - nat (uio_offset u))" "uio_ready n u"
  obtains u' where "vop_read v u = Some (Inr (), u')" "uio_moved n u u'"
    "iov_mem u' = mem_put (iov_pos u) (subblk file (nat (uio_offset u)) n) (iov_mem u)"
  using assms unfolding reads_file_def Let_def by blast

lemma resid_irrelevant:
  "iov_pos (u\<lparr>uio_resid := n\<rparr>) = iov_pos u" "iov_can (u\<lparr>uio_resid := n\<rparr>) = iov_can u" "iov_mem (u\<lparr>uio_resid := n\<rparr>) = iov_mem u"
  by (simp_all add: iov_pos_def iov_can_def iov_mem_def fun_eq_iff)

lemma load_segment_ok:
  assumes vop: "reads_file vop_read v file" and size: "fsz \<le> msz" "0 \<le> off" "off + int msz < 2 ^ 31" "unat va + msz \<le> 2 ^ 31"
    and enough: "fsz = 0 \<or> nat off + fsz \<le> length file"
    and um: "\<And>i. unat va \<le> i \<Longrightarrow> i < unat va + msz \<Longrightarrow> um_ok um (of_nat i)"
  obtains um' where "load_segment vop_read v off va msz fsz x cur um = Some (Inr (), um')"
    "\<And>i. i < 2 ^ 31 \<Longrightarrow> um_data um' (of_nat i) =
       (if unat va \<le> i \<and> i < unat va + msz then (if i - unat va < fsz then file ! (nat off + (i - unat va)) else 0) else um_data um (of_nat i))"
proof -
  let ?u = "\<lparr>iov_kbuf = [], iov_kbase = 0, iov_ubase = va, iov_len = msz, uio_offset = off, uio_resid = fsz,
    uio_segflg = (if x then UIO_USERISPACE else UIO_USERSPACE), uio_rw = UIO_READ, uio_space = cur, uio_cur = cur, uio_um = um\<rparr>"
  let ?d = "subblk file (nat off) fsz"
  have seg: "uio_segflg ?u \<noteq> UIO_SYSSPACE" by simp
  have pos: "iov_pos ?u = unat va" by (simp add: iov_pos_def)
  have can: "iov_can ?u i" if "unat va \<le> i" "i < unat va + msz" for i using um [OF that] that size(4) by (simp add: iov_can_def)
  have n: "fsz = min (uio_resid ?u) (length file - nat (uio_offset ?u))" using enough by auto
  have ready: "uio_ready fsz ?u" using size can unfolding uio_ready_def pos by (auto split: if_splits)
  obtain u' where u': "vop_read v ?u = Some (Inr (), u')" "uio_moved fsz ?u u'" "iov_mem u' = mem_put (unat va) ?d (iov_mem ?u)"
    by (rule reads_fileD [OF vop _ n ready]) (simp_all add: pos)
  have d: "length ?d = fsz" using enough by (auto simp: subblk_def)
  let ?all = "?d @ replicate (msz - fsz) 0"
  have "\<exists>um' w. load_segment vop_read v off va msz fsz x cur um = Some (Inr (), um') \<and> uio_um w = um' \<and>
    uio_segflg w \<noteq> UIO_SYSSPACE \<and> iov_mem w = mem_put (unat va) ?all (iov_mem ?u)"
  proof (cases "msz = fsz")
    case True
    then show ?thesis using u' by (auto simp: load_segment_def Let_def uio_moved_def split: if_splits)
  next
    case False
    let ?w = "u'\<lparr>uio_resid := uio_resid u' + (msz - fsz)\<rparr>"
    have M: "iov_pos u' = unat va + fsz" "iov_len u' = msz - fsz" "uio_resid u' = 0" "uio_offset u' = off + int fsz" "uio_segflg u' = uio_segflg ?u"
      "uio_rw u' = UIO_READ" "uio_space u' = cur" "uio_cur u' = cur" "iov_can u' = iov_can ?u" using u'(2) unfolding uio_moved_def pos by simp_all
    have W: "iov_pos ?w = unat va + fsz" "iov_can ?w = iov_can ?u" "iov_mem ?w = iov_mem u'"
      using M(1,9) by (simp_all only: resid_irrelevant)
    have "uio_ready (msz - fsz) ?w" using size can M unfolding uio_ready_def W by (auto split: if_splits)
    from uiomovezeros_ready [OF this] M(6) obtain u'' where u'': "uiomovezeros (msz - fsz) ?w = Some (Inr (), u'')" "uio_moved (msz - fsz) ?w u''"
      "iov_mem u'' = mem_put (unat va + fsz) (replicate (msz - fsz) 0) (iov_mem u')" unfolding W by auto
    have "iov_mem u'' = mem_put (unat va) ?all (iov_mem ?u)" unfolding u''(3) u'(3) by (rule mem_put_put) (simp add: d)
    moreover have "load_segment vop_read v off va msz fsz x cur um = Some (Inr (), uio_um u'')"
      using u'(1) u''(1) M(3) False size(1) by (simp add: load_segment_def Let_def)
    moreover have "uio_segflg u'' \<noteq> UIO_SYSSPACE" using u''(2) M(5) by (simp add: uio_moved_def)
    ultimately show ?thesis by blast
  qed
  then obtain um' w where w: "load_segment vop_read v off va msz fsz x cur um = Some (Inr (), um')" "uio_um w = um'" "uio_segflg w \<noteq> UIO_SYSSPACE"
    "iov_mem w = mem_put (unat va) ?all (iov_mem ?u)" by blast
  have "um_data um' (of_nat i) = (if unat va \<le> i \<and> i < unat va + msz then (if i - unat va < fsz then file ! (nat off + (i - unat va)) else 0) else um_data um (of_nat i))"
    if i: "i < 2 ^ 31" for i
  proof -
    have "um_data um' (of_nat i) = iov_mem w i" using w(2,3) i by (simp add: iov_mem_def)
    also have "\<dots> = mem_put (unat va) ?all (iov_mem ?u) i" by (simp only: w(4))
    also have "iov_mem ?u i = um_data um (of_nat i)" using i by (simp add: iov_mem_def)
    then have "mem_put (unat va) ?all (iov_mem ?u) i =
      (if unat va \<le> i \<and> i < unat va + msz then (if i - unat va < fsz then file ! (nat off + (i - unat va)) else 0) else um_data um (of_nat i))"
      using d size(1) enough by (auto simp: mem_put_def nth_append)
    finally show ?thesis .
  qed
  with w(1) show ?thesis by (rule that)
qed

section \<open>A fault in a segment\<close>

definition vm_ok :: "addrspace \<Rightarrow> vmsys \<Rightarrow> bool" where
  "vm_ok as s \<longleftrightarrow> kheap_inv (vm_heap s) \<and> pt_wf (vm_heap s) (as_pt as) \<and> tlb_ok (vm_heap s) (as_pt as) (vm_tlb s) \<and> next_tlb_idx s < NUM_TLB"

lemma vm_okD:
  assumes "vm_ok as s"
  shows "kheap_inv (vm_heap s)" "pt_wf (vm_heap s) (as_pt as)" "tlb_ok (vm_heap s) (as_pt as) (vm_tlb s)" "next_tlb_idx s < NUM_TLB"
  using assms by (simp_all add: vm_ok_def)

lemma tlb_new_page:
  assumes tlb: "tlb_ok h pt tlb" and none: "pt_lookup h pt fa = None" and n: "n < NUM_TLB" and fa: "fa AND PAGE_FRAME = fa" "fa < USERTOP"
    and lk: "pt_lookup h' pt = (\<lambda>x. if page_no x = page_no fa then Some w else pt_lookup h pt x)"
  shows "tlb_ok h' pt (tlb[n := (fa, tlb_lo w)])" "\<And>j. j < NUM_TLB \<Longrightarrow> fst (tlb ! j) AND PAGE_FRAME \<noteq> fa"
proof -
  have lk': "pt_lookup h' pt a = Some v" if "pt_lookup h pt a = Some v" for a v
  proof -
    have "page_no a \<noteq> page_no fa" using pt_lookup_page [of a fa h pt] that none by auto
    then show ?thesis using that by (simp add: lk)
  qed
  have ne: "fst (tlb ! j) \<noteq> fa" if "j < NUM_TLB" for j
    using tlb_okD(2) [OF tlb that] none fa(2) by (auto simp: tlb_at_def split: if_splits)
  show "tlb_ok h' pt (tlb[n := (fa, tlb_lo w)])"
    by (rule tlb_fill [OF tlb_ok_cong [OF tlb lk'] n fa]) (use ne in \<open>simp_all add: lk\<close>)
  show "fst (tlb ! j) AND PAGE_FRAME \<noteq> fa" if "j < NUM_TLB" for j
    by (rule tlb_at_page [OF tlb_okD(2) [OF tlb that] ne [OF that] fa])
qed

lemma vm_fault_load_ok:
  assumes ok: "vm_ok as s" and none: "pt_lookup (vm_heap s) (as_pt as) fa = None" and fa: "fa AND PAGE_FRAME = fa" "fa < USERTOP"
    and q: "rg_permissions r AND PAGE_PERMS = rg_permissions r" and seg: "segment_part r fa = (off, rbot, msz, fsz)"
  defines "x \<equiv> rg_permissions r AND PAGE_X_MASK \<noteq> 0" and "cur \<equiv> map_option unat (t_vmspace s)"
  obtains (stuck) "vm_fault_load vop as r fa s = None" "frames_left s < 2"
  | (unread) um where "vm_fault_load vop as r fa s = None" "load_segment vop (as_v as) off rbot (unat msz) (unat fsz) x cur um = None"
      "um_ok um = (\<lambda>a. a AND PAGE_FRAME = fa)"
  | (new) s' w um um' res where "vm_fault_load vop as r fa s = Some s'" "vm_ok as s'" "t_vmspace s' = t_vmspace s" "vm_spaces s' = vm_spaces s"
      "pt_lookup (vm_heap s') (as_pt as) = (\<lambda>a. if page_no a = page_no fa then Some w else pt_lookup (vm_heap s) (as_pt as) a)"
      "w AND PAGE_PERMS = rg_permissions r" "others (vm_heap s') (as_pt as) = others (vm_heap s) (as_pt as)" "(fa, tlb_lo w) \<in> set (vm_tlb s')"
      "load_segment vop (as_v as) off rbot (unat msz) (unat fsz) x cur um = Some (res, um')" "um_ok um = (\<lambda>a. a AND PAGE_FRAME = fa)"
      "\<And>i. i < PAGE_SIZE \<Longrightarrow> frame_byte (kh_mem (vm_heap s')) (leaf_addr w) i = um_data um' (fa + of_nat i)"
proof -
  note V = vm_okD [OF ok]
  let ?pt = "as_pt as" and ?n = "next_tlb_idx s" and ?rw = "PAGE_R_MASK OR PAGE_W_MASK"
  have "?rw AND PAGE_PERMS = ?rw" by simp
  from V(1,2) none this show ?thesis
  proof (cases rule: pt_get_paddr_create)
    case 1: stuck
    then show ?thesis using stuck by (simp add: vm_fault_load_def)
  next
    case c: (new v h st)
    let ?s1 = "s\<lparr>vm_heap := h, stats_counts := st\<rparr>"
    have "next_tlb_idx ?s1 < NUM_TLB" using V(4) by simp
    then obtain st2 where t: "tlb_fault fa v ?s1 = Some (?s1\<lparr>next_tlb_idx := (?n + 1) mod NUM_TLB, stats_counts := st2, vm_tlb := (vm_tlb s)[?n := (fa, tlb_lo v)]\<rparr>)"
      by (rule tlb_fault_ok [of ?s1 fa v]) simp
    let ?s2 = "?s1\<lparr>next_tlb_idx := (?n + 1) mod NUM_TLB, stats_counts := st2, vm_tlb := (vm_tlb s)[?n := (fa, tlb_lo v)]\<rparr>"
    let ?f = "leaf_addr v"
    let ?um = "\<lparr>um_data = (\<lambda>a. frame_byte (kh_mem h) ?f (unat a mod PAGE_SIZE)), um_ok = (\<lambda>a. a AND PAGE_FRAME = fa)\<rparr>"
    let ?load = "load_segment vop (as_v as) off rbot (unat msz) (unat fsz) x cur ?um"
    have fv: "pt_lookup h ?pt fa = Some v" using c(5) by simp
    show ?thesis
    proof (cases ?load)
      case None
      then have "vm_fault_load vop as r fa s = None"
        using c(1) t seg by (simp add: vm_fault_load_def load_page_def Let_def leaf_addr_def x_def cur_def)
      from this None show ?thesis by (rule unread) simp
    next
      case (Some p)
      obtain res um' where p: "p = (res, um')" by fastforce
      note L = leaf_block [OF c(4) fv]
      note F = page_block_facts(1) [OF c(3) L(1)]
      let ?m = "put_frame ?f (\<lambda>i. um_data um' (fa + of_nat i)) (kh_mem h)"
      let ?h3 = "h\<lparr>kh_mem := ?m\<rparr>"
      have lp: "load_page vop (as_v as) off rbot msz fsz x fa v ?s2 = Some (?s2\<lparr>vm_heap := ?h3\<rparr>)"
        using Some by (simp add: load_page_def Let_def p leaf_addr_def cur_def)
      have "?m y = kh_mem h y" if "page_no y \<noteq> page_no ?f" for y by (rule put_frame_out [OF F that])
      note S = frame_store_ok [OF c(3,4) L(1,3) this]
      let ?s3 = "?s2\<lparr>vm_heap := ?h3\<rparr>"
      have l3: "kheap_inv (vm_heap ?s3)" "pt_wf (vm_heap ?s3) ?pt" "pt_lookup (vm_heap ?s3) ?pt fa = Some v" using S(1,4,5) fv by simp_all
      define w where "w = (v AND NOT PAGE_PERMS) OR rg_permissions r"
      obtain h4 where P: "pt_set_permissions ?pt fa True (rg_permissions r) ?s3 = Some (True, ?s3\<lparr>vm_heap := h4\<rparr>)" "kheap_inv h4" "pt_wf h4 ?pt"
        "pt_lookup h4 ?pt = (\<lambda>a. if page_no a = page_no fa then Some w else pt_lookup (vm_heap ?s3) ?pt a)"
        "others h4 ?pt = others (vm_heap ?s3) ?pt" "\<forall>y. page_no y \<notin> page_no ` pt_tables (vm_heap ?s3) ?pt \<longrightarrow> kh_mem h4 y = kh_mem (vm_heap ?s3) y"
        unfolding w_def by (rule pt_set_permissions_mapped [OF l3 q, of True]) blast
      have lk: "pt_lookup h4 ?pt = (\<lambda>a. if page_no a = page_no fa then Some w else pt_lookup (vm_heap s) ?pt a)"
        using P(4) S(5) c(5) by (auto simp: fun_eq_iff)
      note T = tlb_new_page [OF V(3) none V(4) fa lk]
      let ?s4 = "?s3\<lparr>vm_heap := h4\<rparr>"
      have pr: "TLB_Probe fa ?s4 = Some ?n"
        by (rule TLB_Probe_eq [OF V(4)]) (use T(2) tlb_okD(1) [OF V(3)] V(4) fa in simp_all)
      let ?s5 = "?s4\<lparr>vm_tlb := (vm_tlb s)[?n := (fa, tlb_lo w)]\<rparr>"
      have up5: "tlb_update fa w ?n ?s4 = Some ?s5" by (simp add: tlb_update_eq [OF V(4)])
      obtain st6 where st6: "count_stat VMSTAT_ELF_FILE_READ ?s5 = Some (?s5\<lparr>stats_counts := st6\<rparr>)"
        by (rule count_stat_ok [of VMSTAT_ELF_FILE_READ ?s5]) simp_all
      obtain st7 where st7: "count_stat VMSTAT_PAGE_FAULT_DISK (?s5\<lparr>stats_counts := st6\<rparr>) = Some (?s5\<lparr>stats_counts := st7\<rparr>)"
        by (rule count_stat_ok [of VMSTAT_PAGE_FAULT_DISK "?s5\<lparr>stats_counts := st6\<rparr>"]) simp_all
      let ?s' = "?s5\<lparr>stats_counts := st7\<rparr>"
      have run: "vm_fault_load vop as r fa s = Some ?s'"
        unfolding vm_fault_load_def c(1) bind.bind_lunit prod.case t seg Let_def lp [unfolded x_def] P(1) pr option.case w_def [symmetric] up5 st6 st7 ..
      have pv: "present v" by (rule c(2))
      note W = perm_bits [OF pv q, folded w_def]
      have la: "leaf_addr w = ?f" using W(2) by (simp add: leaf_addr_def)
      have ok': "vm_ok as ?s'" using P(2,3) T(1) by (simp add: vm_ok_def)
      have ot: "others (vm_heap ?s') ?pt = others (vm_heap s) ?pt" using P(5) S(7) c(12) by simp
      have "kh_mem h4 y = ?m y" if "page_no y = page_no ?f" for y
        using leaf_page_table [OF l3, of y] P(6) that by simp
      then have fb: "frame_byte (kh_mem (vm_heap ?s')) (leaf_addr w) i = um_data um' (fa + of_nat i)" if i: "i < PAGE_SIZE" for i
        using frame_byte_cong [OF F i, of "kh_mem h4" ?m] frame_byte_put [OF i] by (simp add: la)
      show ?thesis
        by (rule new [where s' = ?s' and w = w, OF run ok' _ _ _ W(3) ot _ Some [unfolded p]]) (use lk fb tlb_okD(1) [OF V(3)] V(4) in \<open>simp_all add: set_update_memI\<close>)
    qed
  qed
qed

section \<open>The fault handler\<close>

lemma fault_page:
  fixes va :: addr
  defines "fa \<equiv> va AND PAGE_FRAME"
  shows "fa AND PAGE_FRAME = fa" "page_no fa = page_no va" "va < USERTOP \<Longrightarrow> fa < USERTOP" "pt_lookup h pt fa = pt_lookup h pt va"
proof -
  show "fa AND PAGE_FRAME = fa" by (simp add: fa_def and.assoc)
  show p: "page_no fa = page_no va" by (simp add: fa_def page_part)
  have "unat fa \<le> unat va" using page_start(1) [of va] by (simp add: fa_def page_part)
  then show "va < USERTOP \<Longrightarrow> fa < USERTOP" unfolding word_less_nat_alt by linarith
  show "pt_lookup h pt fa = pt_lookup h pt va" by (rule pt_lookup_page [OF p])
qed

lemma mapped_bits:
  "(v AND 0xFFFFFFFC) AND PAGE_FREE = 0" "fault_allowed t (v AND 0xFFFFFFFC) = fault_allowed t v"
  by (simp_all add: fault_allowed_def and.assoc)

definition tlb_miss :: "addr \<Rightarrow> vmsys \<Rightarrow> bool" where
  "tlb_miss fa s \<longleftrightarrow> (\<forall>j < NUM_TLB. snd (vm_tlb s ! j) AND TLBLO_VALID \<noteq> 0 \<longrightarrow> fst (vm_tlb s ! j) \<noteq> fa)"

lemma fault_tail:
  assumes ok: "vm_ok as s" and v: "pt_lookup (vm_heap s) (as_pt as) fa = Some v" and fa: "fa AND PAGE_FRAME = fa" "fa < USERTOP"
    and p: "tlb_lo p = tlb_lo v" "fault_allowed t p = fault_allowed t v" and miss: "fault_allowed t v \<Longrightarrow> tlb_miss fa s"
  obtains r s' where "(if fault_allowed t p then do { s \<leftarrow> tlb_fault fa p s; Some (Inr (), s) } else Some (Inl EFAULT, s)) = Some (r, s')"
    "vm_ok as s'" "vm_heap s' = vm_heap s" "t_vmspace s' = t_vmspace s" "vm_spaces s' = vm_spaces s"
    "case r of Inl e \<Rightarrow> e = EFAULT \<and> vm_tlb s' = vm_tlb s | Inr _ \<Rightarrow> fault_allowed t v \<and> (fa, tlb_lo v) \<in> set (vm_tlb s')"
proof (cases "fault_allowed t v")
  case False
  then show ?thesis using that [of "Inl EFAULT" s] ok p by simp
next
  case True
  note V = vm_okD [OF ok]
  obtain st where t: "tlb_fault fa p s = Some (s\<lparr>next_tlb_idx := (next_tlb_idx s + 1) mod NUM_TLB, stats_counts := st,
    vm_tlb := (vm_tlb s)[next_tlb_idx s := (fa, tlb_lo p)]\<rparr>)" using tlb_fault_ok [OF V(4)] .
  let ?s = "s\<lparr>next_tlb_idx := (next_tlb_idx s + 1) mod NUM_TLB, stats_counts := st, vm_tlb := (vm_tlb s)[next_tlb_idx s := (fa, tlb_lo p)]\<rparr>"
  have "tlb_ok (vm_heap s) (as_pt as) ((vm_tlb s)[next_tlb_idx s := (fa, tlb_lo p)])"
    unfolding p(1) by (rule tlb_fill [OF V(3,4) fa v]) (use miss [OF True] in \<open>simp add: tlb_miss_def\<close>)
  then have "vm_ok as ?s" using V by (simp add: vm_ok_def)
  with t True p V(4) tlb_okD(1) [OF V(3)] show ?thesis by (intro that [of "Inr ()" ?s]) (simp_all add: set_update_memI)
qed

definition fault_result :: "addrspace \<Rightarrow> nat \<Rightarrow> addr \<Rightarrow> vmsys \<Rightarrow> unit res \<Rightarrow> vmsys \<Rightarrow> bool" where
  \<comment> \<open>what a fault of type \<open>t\<close> at \<open>va\<close> that leads from \<open>s\<close> to \<open>s'\<close> and returns \<open>r\<close> has done\<close>
  "fault_result as t va s r s' \<longleftrightarrow>
     (let old = pt_lookup (vm_heap s) (as_pt as); new = pt_lookup (vm_heap s') (as_pt as)
      in vm_ok as s' \<and> t_vmspace s' = t_vmspace s \<and> vm_spaces s' = vm_spaces s \<and>
         others (vm_heap s') (as_pt as) = others (vm_heap s) (as_pt as) \<and>
         (\<forall>w. page_no w \<noteq> page_no va \<longrightarrow> new w = old w) \<and>
         (case r of
            Inl e \<Rightarrow> e = EFAULT \<and> vm_tlb s' = vm_tlb s
          | Inr _ \<Rightarrow> \<exists>v. new va = Some v \<and> (va AND PAGE_FRAME, tlb_lo v) \<in> set (vm_tlb s') \<and>
              (old va \<noteq> None \<longrightarrow> old va = Some v \<and> fault_allowed t v)))"

definition fault_raised :: "nat \<Rightarrow> addr \<Rightarrow> vmsys \<Rightarrow> bool" where
  \<comment> \<open>when the processor reports a fault of a type: no valid entry for the page, or one without write privilege\<close>
  "fault_raised t fa s \<longleftrightarrow>
     (if t = VM_FAULT_READONLY
      then \<exists>j < NUM_TLB. fst (vm_tlb s ! j) = fa \<and> snd (vm_tlb s ! j) AND TLBLO_VALID \<noteq> 0 \<and> snd (vm_tlb s ! j) AND TLBLO_DIRTY = 0
      else (t = VM_FAULT_READ \<or> t = VM_FAULT_WRITE) \<and> tlb_miss fa s)"

lemma fault_raised_type: "fault_raised t fa s \<Longrightarrow> (t \<notin> {VM_FAULT_READONLY, VM_FAULT_READ, VM_FAULT_WRITE}) = False"
  by (auto simp: fault_raised_def split: if_splits)

lemma vm_fault_mapped:
  assumes ok: "vm_ok as s" and sp: "t_vmspace s = Some a" "vm_spaces s a = Some as" and va: "va < USERTOP"
    and hw: "fault_raised t (va AND PAGE_FRAME) s" and v: "pt_lookup (vm_heap s) (as_pt as) va = Some v"
  shows "\<exists>r s'. vm_fault vop t va s = Some (r, s') \<and> fault_result as t va s r s'"
proof -
  note V = vm_okD [OF ok]
  let ?fa = "va AND PAGE_FRAME" and ?pt = "as_pt as" and ?p = "v AND 0xFFFFFFFC"
  note F = fault_page(1,2) [of va] fault_page(3) [OF va]
  have fv: "pt_lookup (vm_heap s) ?pt ?fa = Some v" using v by (simp add: fault_page(4))
  note t = fault_raised_type [OF hw]
  have miss: "tlb_miss ?fa s" if "fault_allowed t v"
  proof (cases "t = VM_FAULT_READONLY")
    case True
    with hw obtain j where j: "j < NUM_TLB" "fst (vm_tlb s ! j) = ?fa" "snd (vm_tlb s ! j) AND TLBLO_VALID \<noteq> 0" "snd (vm_tlb s ! j) AND TLBLO_DIRTY = 0"
      unfolding fault_raised_def if_P [OF True] by blast
    then have "snd (vm_tlb s ! j) = tlb_lo v" using tlb_okD(2) [OF V(3) j(1)] fv by (simp add: tlb_at_def)
    with j(4) tlb_lo_bits(3) [of v] have "v AND PAGE_W_MASK = 0" by simp
    with that True show ?thesis by (simp add: fault_allowed_def)
  qed (use hw in \<open>simp add: fault_raised_def\<close>)
  have "\<exists>st. (if ?p AND PAGE_FREE \<noteq> 0 \<or> ?p AND PAGE_IN_SWP \<noteq> 0 then pt_get_paddr ?pt ?fa True (PAGE_R_MASK OR PAGE_W_MASK) s
      else do { s \<leftarrow> count_stat VMSTAT_TLB_RELOAD s; Some (?p, s) }) = Some (?p, s\<lparr>stats_counts := st\<rparr>)"
    using pt_get_paddr_mapped [OF V(1,2) fv] by (auto simp: count_stat_def vmstats_inc_def intro: exI [of _ "stats_counts s"])
  then obtain st where st: "(if ?p AND PAGE_FREE \<noteq> 0 \<or> ?p AND PAGE_IN_SWP \<noteq> 0 then pt_get_paddr ?pt ?fa True (PAGE_R_MASK OR PAGE_W_MASK) s
      else do { s \<leftarrow> count_stat VMSTAT_TLB_RELOAD s; Some (?p, s) }) = Some (?p, s\<lparr>stats_counts := st\<rparr>)" ..
  let ?s = "s\<lparr>stats_counts := st\<rparr>"
  have ok1: "vm_ok as ?s" "pt_lookup (vm_heap ?s) ?pt ?fa = Some v" "fault_allowed t v \<Longrightarrow> tlb_miss ?fa ?s"
    using ok fv miss by (simp_all add: vm_ok_def tlb_miss_def)
  obtain r s' where R: "(if fault_allowed t ?p then do { s \<leftarrow> tlb_fault ?fa ?p ?s; Some (Inr (), s) } else Some (Inl EFAULT, ?s)) = Some (r, s')"
    "vm_ok as s'" "vm_heap s' = vm_heap ?s" "t_vmspace s' = t_vmspace ?s" "vm_spaces s' = vm_spaces ?s"
    "case r of Inl e \<Rightarrow> e = EFAULT \<and> vm_tlb s' = vm_tlb ?s | Inr _ \<Rightarrow> fault_allowed t v \<and> (?fa, tlb_lo v) \<in> set (vm_tlb s')"
    using fault_tail [OF ok1(1,2) F(1,3) tlb_lo_bits(4) mapped_bits(2) ok1(3)] .
  have no: "(if ?p AND PAGE_FREE \<noteq> 0 then find (in_region va) (as_regions as) else None) = None" by (simp add: mapped_bits(1))
  have "vm_fault vop t va s = Some (r, s')"
    unfolding vm_fault_def Let_def t if_False sp option.case bind.bind_lunit pt_get_paddr_mapped [where c = False and q = 0, OF V(1,2) fv] prod.case no st R(1) ..
  moreover have "fault_result as t va s r s'"
    using R(2-6) v by (cases r) (simp_all add: fault_result_def)
  ultimately show ?thesis by blast
qed

lemma vm_fault_region:
  assumes ok: "vm_ok as s" and sp: "t_vmspace s = Some a" "vm_spaces s a = Some as" and hw: "fault_raised t (va AND PAGE_FRAME) s"
    and none: "pt_lookup (vm_heap s) (as_pt as) va = None" and r: "find (in_region va) (as_regions as) = Some r"
  shows "vm_fault vop t va s = do { s \<leftarrow> vm_fault_load vop as r (va AND PAGE_FRAME) s; Some (Inr (), s) }"
proof -
  let ?fa = "va AND PAGE_FRAME"
  have "pt_get_paddr (as_pt as) ?fa False 0 s = Some (PAGE_FREE, s)"
    using pt_get_paddr_lookup [OF vm_okD(1,2) [OF ok], of ?fa 0] none by (simp add: fault_page(4))
  then show ?thesis using r fault_raised_type [OF hw] by (auto simp: vm_fault_def Let_def sp)
qed

lemma vm_fault_fresh:
  assumes ok: "vm_ok as s" and sp: "t_vmspace s = Some a" "vm_spaces s a = Some as" and va: "va < USERTOP" and hw: "fault_raised t (va AND PAGE_FRAME) s"
    and none: "pt_lookup (vm_heap s) (as_pt as) va = None" and r: "find (in_region va) (as_regions as) = None"
  shows "(vm_fault vop t va s = None \<and> frames_left s < 2) \<or> (\<exists>r s'. vm_fault vop t va s = Some (r, s') \<and> fault_result as t va s r s')"
proof -
  note V = vm_okD [OF ok]
  let ?fa = "va AND PAGE_FRAME" and ?pt = "as_pt as" and ?rw = "PAGE_R_MASK OR PAGE_W_MASK"
  note F = fault_page(1,2) [of va] fault_page(3) [OF va]
  have fn: "pt_lookup (vm_heap s) ?pt ?fa = None" using none by (simp add: fault_page(4))
  have "pt_get_paddr ?pt ?fa False 0 s = Some (PAGE_FREE, s)" using pt_get_paddr_lookup [OF V(1,2), of ?fa 0] fn by simp
  then have eq: "vm_fault vop t va s = pt_get_paddr ?pt ?fa True ?rw s \<bind> (\<lambda>(paddr, s).
      if fault_allowed t paddr then do { s \<leftarrow> tlb_fault ?fa paddr s; Some (Inr (), s) } else Some (Inl EFAULT, s))"
    using r fault_raised_type [OF hw] by (auto simp: vm_fault_def Let_def sp)
  have "?rw AND PAGE_PERMS = ?rw" by simp
  from V(1,2) fn this show ?thesis
  proof (cases rule: pt_get_paddr_create)
    case stuck
    then show ?thesis unfolding eq by simp
  next
    case (new v h st)
    let ?s = "s\<lparr>vm_heap := h, stats_counts := st\<rparr>"
    note T = tlb_new_page [OF V(3) fn V(4) F(1,3) new(5)]
    have lk: "pt_lookup h ?pt x = Some w" if "pt_lookup (vm_heap s) ?pt x = Some w" for x w
      using that pt_lookup_page [of x ?fa "vm_heap s" ?pt] fn by (auto simp: new(5))
    have ok1: "vm_ok as ?s" using V new(3,4) tlb_ok_cong [OF V(3) lk] by (simp add: vm_ok_def)
    have fv: "pt_lookup (vm_heap ?s) ?pt ?fa = Some v" by (simp add: new(5))
    have "fst (vm_tlb s ! j) \<noteq> ?fa" if "j < NUM_TLB" for j using T(2) [OF that] F(1) by metis
    then have miss: "tlb_miss ?fa ?s" by (simp add: tlb_miss_def)
    obtain r s' where R: "(if fault_allowed t v then do { s \<leftarrow> tlb_fault ?fa v ?s; Some (Inr (), s) } else Some (Inl EFAULT, ?s)) = Some (r, s')"
      "vm_ok as s'" "vm_heap s' = vm_heap ?s" "t_vmspace s' = t_vmspace ?s" "vm_spaces s' = vm_spaces ?s"
      "case r of Inl e \<Rightarrow> e = EFAULT \<and> vm_tlb s' = vm_tlb ?s | Inr _ \<Rightarrow> fault_allowed t v \<and> (?fa, tlb_lo v) \<in> set (vm_tlb s')"
      using fault_tail [OF ok1 fv F(1,3) refl refl miss] .
    have "vm_fault vop t va s = Some (r, s')" unfolding eq new(1) bind.bind_lunit prod.case by (rule R(1))
    moreover have "fault_result as t va s r s'"
      using R(2-6) none new(5,12) F(2) by (cases r) (simp_all add: fault_result_def)
    ultimately show ?thesis by blast
  qed
qed

section \<open>The bytes of a page\<close>

lemma segment_load:
  assumes reg: "region_ok r" and ir: "in_region va r" and vop: "reads_file vop v file" "nat (rg_offset r) + unat (rg_filesize r) \<le> length file"
    and first: "unat (rg_vaddr r) mod PAGE_SIZE = 0 \<or> page_no va = page_no (rg_vaddr r)"
    and seg: "segment_part r (va AND PAGE_FRAME) = (off, rbot, msz, fsz)" and um: "um_ok um = (\<lambda>a. a AND PAGE_FRAME = va AND PAGE_FRAME)"
  obtains um' where "load_segment vop v off rbot (unat msz) (unat fsz) x cur um = Some (Inr (), um')"
    "\<And>y. page_no y = page_no va \<Longrightarrow> in_region y r \<Longrightarrow> um_data um' y =
       (let i = unat y - unat (rg_vaddr r) in if i < unat (rg_filesize r) then file ! (nat (rg_offset r) + i) else 0)"
proof -
  define p q q0 m f where "p = unat va div PAGE_SIZE * PAGE_SIZE" and "q = unat (rg_vaddr r)" and "q0 = q div PAGE_SIZE * PAGE_SIZE"
    and "m = unat (rg_memsize r)" and "f = unat (rg_filesize r)"
  define d where "d = p - q0"
  have R: "q + m \<le> 2 ^ 31" "f \<le> m" "0 \<le> rg_offset r" "rg_offset r + 2 ^ 12 + int m < 2 ^ 31" using reg by (simp_all add: region_ok_def q_def m_def f_def)
  have u: "q \<le> unat va" "unat va < q + m" using ir in_region_nat [OF reg] by (simp_all add: q_def m_def)
  have P: "p \<le> unat va" "unat va < p + PAGE_SIZE" using page_start [of va] by (simp_all add: p_def)
  have Q: "q0 \<le> q" "q < q0 + PAGE_SIZE" using page_start [of "rg_vaddr r"] by (simp_all add: q_def q0_def)
  have "q0 \<le> p" using div_le_mono [OF u(1), of PAGE_SIZE] by (simp add: p_def q0_def)
  moreover have "q = q0 \<or> p = q0" using first div_mult_mod_eq [of q PAGE_SIZE] by (auto simp: p_def q_def q0_def)
  ultimately have b: "max p q = q + d" "p + PAGE_SIZE \<le> q + d + PAGE_SIZE" using Q by (auto simp: d_def)
  obtain rb ms fs where S: "segment_part r (va AND PAGE_FRAME) = (rg_offset r + int d, rb, ms, fs)" "unat rb = q + d"
    "unat ms = min (p + PAGE_SIZE) (q + m) - (q + d)" "unat fs = min (p + PAGE_SIZE) (q + f) - (q + d)"
    using segment_part_nat [OF reg ir] unfolding p_def [symmetric] q_def [symmetric] q0_def [symmetric] d_def [symmetric] m_def [symmetric] f_def [symmetric] b(1) .
  then have E: "off = rg_offset r + int d" "rbot = rb" "msz = ms" "fsz = fs" using seg by simp_all
  have up: "q + d \<le> unat va" using b(1) u(1) P(1) by (metis max.bounded_iff order_refl)
  have ms: "q + d + unat ms = min (p + PAGE_SIZE) (q + m)" using S(3) up u(2) P(2) by simp
  have fs: "unat fs \<le> unat ms" "unat fs = 0 \<or> d + unat fs \<le> f" using S(3,4) R(2) by auto
  have dm: "d + unat ms \<le> m" using ms by linarith
  then have "int d + int (unat ms) \<le> int m" by (simp only: of_nat_add [symmetric] of_nat_le_iff)
  then have "rg_offset r + int d + int (unat ms) \<le> rg_offset r + int m" unfolding add.assoc by (rule add_left_mono)
  moreover have "rg_offset r + int m < 2 ^ 31" using R(4) by simp
  ultimately have o: "rg_offset r + int d + int (unat ms) < 2 ^ 31" by (rule order_le_less_trans)
  have o0: "0 \<le> rg_offset r + int d" using R(3) by simp
  have no: "nat (rg_offset r + int d) = nat (rg_offset r) + d" using R(3) by simp
  have en: "unat fs = 0 \<or> nat (rg_offset r + int d) + unat fs \<le> length file" using fs(2) vop(2) unfolding no f_def by linarith
  have rb: "unat rb + unat ms \<le> 2 ^ 31" using ms S(2) R(1) by simp
  have umok: "um_ok um (of_nat i)" if "unat rb \<le> i" "i < unat rb + unat ms" for i
  proof -
    have i: "p \<le> i" "i < p + PAGE_SIZE" "i < 2 ^ 31" using that ms rb S(2) b(1) by linarith+
    then have "unat (of_nat i :: addr) = i" by (simp add: unat_of_nat)
    moreover have "p mod PAGE_SIZE = 0" by (simp add: p_def)
    from same_page [OF this, of i] i have "p div PAGE_SIZE = i div PAGE_SIZE" by blast
    then have "i div PAGE_SIZE = page_no va" by (simp add: p_def)
    ultimately show ?thesis unfolding um page_frame_eq by simp
  qed
  obtain um' where L: "load_segment vop v (rg_offset r + int d) rb (unat ms) (unat fs) x cur um = Some (Inr (), um')"
    "\<forall>i < 2 ^ 31. um_data um' (of_nat i) =
      (if unat rb \<le> i \<and> i < unat rb + unat ms
       then (if i - unat rb < unat fs then file ! (nat (rg_offset r + int d) + (i - unat rb)) else 0) else um_data um (of_nat i))"
    by (rule load_segment_ok [where x = x and cur = cur, OF vop(1) fs(1) o0 o rb en umok]) blast+
  show ?thesis
  proof (rule that)
    show "load_segment vop v off rbot (unat msz) (unat fsz) x cur um = Some (Inr (), um')" unfolding E by (rule L(1))
    fix y :: addr
    assume y: "page_no y = page_no va" "in_region y r"
    have Y: "q \<le> unat y" "unat y < q + m" using y(2) in_region_nat [OF reg] by (simp_all add: q_def m_def)
    have pg: "p \<le> unat y" "unat y < p + PAGE_SIZE" using page_start [of y] y(1) by (simp_all add: p_def)
    have in_part: "unat rb \<le> unat y" "unat y < unat rb + unat ms" using Y pg ms S(2) b(1) by linarith+
    have "um_data um' y = (if unat y - unat rb < unat fs then file ! (nat (rg_offset r + int d) + (unat y - unat rb)) else 0)"
      using L(2) [rule_format, of "unat y"] Y(2) R(1) in_part by simp
    moreover have "unat y - unat rb < unat fs \<longleftrightarrow> unat y - q < f" using in_part S(2,4) pg by linarith
    moreover have "nat (rg_offset r + int d) + (unat y - unat rb) = nat (rg_offset r) + (unat y - q)" unfolding no using in_part S(2) by linarith
    ultimately show "um_data um' y = (let i = unat y - unat (rg_vaddr r) in if i < unat (rg_filesize r) then file ! (nat (rg_offset r) + i) else 0)"
      by (simp add: q_def f_def)
  qed
qed

section \<open>A small process\<close>

definition small_region :: region where
  "small_region = \<lparr>rg_offset = 16, rg_memsize = 0x1800, rg_filesize = 0x800, rg_vaddr = 0x400000, rg_permissions = PAGE_R_MASK\<rparr>"

definition small_space :: "addr \<Rightarrow> addrspace" where
  "small_space pt = \<lparr>as_pt = pt, as_v = 1, as_regions = [small_region]\<rparr>"

definition small_process :: "addr \<Rightarrow> vmsys \<Rightarrow> vmsys" where
  \<comment> \<open>a process with one read-only segment and an empty TLB\<close>
  "small_process pt s = s\<lparr>vm_spaces := [0x80005000 \<mapsto> small_space pt], t_vmspace := Some 0x80005000,
     vm_tlb := map (\<lambda>i. (0x80000000 + of_nat (4096 * i), 0)) [0..<NUM_TLB], next_tlb_idx := 0\<rparr>"

definition small_read :: "byte list \<Rightarrow> vop_read" where
  \<comment> \<open>a vnode that holds the given bytes\<close>
  "small_read file v u = map_option (\<lambda>(r, _, u'). (r, u'))
     (uiomove file (min (nat (uio_offset u)) (length file)) (min (uio_resid u) (length file - nat (uio_offset u))) u)"

lemma small_read_ok: "reads_file (small_read file) v file"
  unfolding reads_file_def Let_def
proof (intro allI impI, elim conjE)
  fix u :: uio
  let ?o = "nat (uio_offset u)"
  let ?n = "min (uio_resid u) (length file - ?o)"
  assume u: "uio_rw u = UIO_READ" "uio_ready ?n u"
  have "min ?o (length file) + ?n \<le> length file" by simp
  from uiomove_ready [OF u(2) this] u(1) obtain u' where "uiomove file (min ?o (length file)) ?n u = Some (Inr (), file, u')" "uio_moved ?n u u'"
    "iov_mem u' = mem_put (iov_pos u) (subblk file (min ?o (length file)) ?n) (iov_mem u)" by auto
  moreover have "subblk file (min ?o (length file)) ?n = subblk file ?o ?n" by (cases "?o \<le> length file") (simp_all add: subblk_def)
  ultimately show "\<exists>u'. small_read file v u = Some (Inr (), u') \<and> uio_moved ?n u u' \<and>
      iov_mem u' = mem_put (iov_pos u) (subblk file ?o ?n) (iov_mem u)" by (simp add: small_read_def)
qed

lemma small_process_ok:
  assumes "kheap_inv (vm_heap s)" "pt_wf (vm_heap s) pt"
  shows "vm_ok (small_space pt) (small_process pt s)" "t_vmspace (small_process pt s) = Some 0x80005000"
    "vm_spaces (small_process pt s) 0x80005000 = Some (small_space pt)" "tlb_miss fa (small_process pt s)" "frames_left (small_process pt s) = frames_left s"
    "pt_lookup (vm_heap (small_process pt s)) pt = pt_lookup (vm_heap s) pt"
proof -
  have "USERTOP \<le> 0x80000000 + of_nat (4096 * i)" if "i < NUM_TLB" for i
  proof -
    have "unat (of_nat (4096 * i) :: addr) = 4096 * i" using that by (simp add: unat_of_nat del: of_nat_mult)
    moreover have "unat (0x80000000 + of_nat (4096 * i) :: addr) = 2 ^ 31 + 4096 * i"
      using unat_add_small [of "0x80000000" "of_nat (4096 * i)"] calculation that by (simp del: of_nat_mult)
    ultimately show ?thesis by (simp add: word_le_nat_alt del: of_nat_mult)
  qed
  then have "tlb_ok (vm_heap s) pt (map (\<lambda>i. (0x80000000 + of_nat (4096 * i), 0)) [0..<NUM_TLB])"
    by (auto simp: tlb_ok_def tlb_at_def linorder_not_less [symmetric] simp del: of_nat_mult)
  then show "vm_ok (small_space pt) (small_process pt s)" using assms by (simp add: vm_ok_def small_space_def small_process_def)
  show "tlb_miss fa (small_process pt s)" by (simp add: tlb_miss_def small_process_def)
qed (simp_all add: small_process_def frames_left_def)

section \<open>Properties\<close>

text \<open>C904. The fault handler. From a state in which every valid TLB entry agrees with the page table of the running
  process, \<open>vm_fault\<close> returns unless fewer than two frames are free or the program cannot be read, and leads to such a state again.
  It changes the mapping of no other page and no block that the page table does not own. On success the page is mapped and has the TLB entry
  of its page table entry, and a page that was mapped before is left as it was and allows the access; the only failure is \<open>EFAULT\<close>, which
  leaves the TLB alone.\<close>

theorem vm_fault_spec:
  assumes ok: "vm_ok as s" and sp: "t_vmspace s = Some a" "vm_spaces s a = Some as" and va: "va < USERTOP"
    and perms: "\<forall>r \<in> set (as_regions as). rg_permissions r AND PAGE_PERMS = rg_permissions r"
    and hw: "fault_raised t (va AND PAGE_FRAME) s"
  shows "case vm_fault vop t va s of
      None \<Rightarrow> frames_left s < 2 \<or> (\<exists>off b m f x cur um. load_segment vop (as_v as) off b m f x cur um = None)
    | Some (r, s') \<Rightarrow> fault_result as t va s r s'"
proof (cases "pt_lookup (vm_heap s) (as_pt as) va")
  case (Some v)
  then show ?thesis using vm_fault_mapped [OF ok sp va hw Some, of vop] by auto
next
  case none: None
  show ?thesis
  proof (cases "find (in_region va) (as_regions as)")
    case None
    then show ?thesis using vm_fault_fresh [OF ok sp va hw none None, of vop] by auto
  next
    case (Some r)
    have q: "rg_permissions r AND PAGE_PERMS = rg_permissions r" using Some perms by (auto simp: find_Some_iff)
    obtain off rbot msz fsz where seg: "segment_part r (va AND PAGE_FRAME) = (off, rbot, msz, fsz)" by (metis prod_cases4)
    have fn: "pt_lookup (vm_heap s) (as_pt as) (va AND PAGE_FRAME) = None" using none by (simp add: fault_page(4))
    note eq = vm_fault_region [OF ok sp hw none Some, of vop] and F = fault_page(1) [of va] fault_page(3) [OF va]
    from ok fn F q seg show ?thesis
    proof (cases rule: vm_fault_load_ok [where vop = vop])
      case (new s' w um um' res)
      have "fault_result as t va s (Inr ()) s'"
        using new(2-5,7,8) none by (simp add: fault_result_def fault_page(2))
      then show ?thesis using new(1) by (simp add: eq)
    qed (use eq in \<open>auto simp del: not_None_eq\<close>)
  qed
qed

theorem vm_fault_spec_witness:
  "\<exists>pt s r s'. pt_create small_vm = Some (pt, s) \<and> vm_fault (\<lambda>_ u. Some (Inl EIO, u)) VM_FAULT_WRITE 0x7FFFFFFC (small_process pt s) = Some (r, s') \<and>
     fault_result (small_space pt) VM_FAULT_WRITE 0x7FFFFFFC (small_process pt s) r s'"
proof -
  let ?vop = "\<lambda>_ u. Some (Inl EIO, u)"
  obtain pt s where s: "pt_create small_vm = Some (pt, s)" "kheap_inv (vm_heap s)" "pt_wf (vm_heap s) pt" "frames_left s = 5"
    using small_pt by metis
  note P = small_process_ok [OF s(2,3)]
  have load: "load_segment ?vop v off b m f x cur um = Some (Inl EIO, um)" for v off b m f x cur um by (simp add: load_segment_def Let_def)
  have "\<forall>r \<in> set (as_regions (small_space pt)). rg_permissions r AND PAGE_PERMS = rg_permissions r" "0x7FFFFFFC < USERTOP"
    "fault_raised VM_FAULT_WRITE (0x7FFFFFFC AND PAGE_FRAME) (small_process pt s)"
    using P(4) by (simp_all add: small_space_def small_region_def fault_raised_def)
  from vm_fault_spec [OF P(1-3) this(2,1,3), of ?vop] s(1,4) P(5) show ?thesis by (auto simp: load split: option.splits)
qed

text \<open>C905. Demand paging. A fault at an unmapped address of a segment that starts at a page boundary, or in the first page of the segment,
  maps the page with the permissions of the segment, and the frame then holds the bytes of the program: each byte of the page that lies in the segment is the byte of
  the file at the offset of the segment plus the distance from its start, or zero past \<open>filesize\<close>.\<close>

theorem vm_fault_loads:
  assumes ok: "vm_ok as s" and sp: "t_vmspace s = Some a" "vm_spaces s a = Some as" and va: "va < USERTOP"
    and hw: "fault_raised t (va AND PAGE_FRAME) s" and none: "pt_lookup (vm_heap s) (as_pt as) va = None"
    and r: "find (in_region va) (as_regions as) = Some r" and reg: "region_ok r"
    and first: "unat (rg_vaddr r) mod PAGE_SIZE = 0 \<or> page_no va = page_no (rg_vaddr r)"
    and vop: "reads_file vop (as_v as) file" "nat (rg_offset r) + unat (rg_filesize r) \<le> length file" and frames: "2 \<le> frames_left s"
  shows "\<exists>s' w. vm_fault vop t va s = Some (Inr (), s') \<and> pt_lookup (vm_heap s') (as_pt as) va = Some w \<and> w AND PAGE_PERMS = rg_permissions r \<and>
    (\<forall>x. page_no x = page_no va \<and> in_region x r \<longrightarrow>
       frame_byte (kh_mem (vm_heap s')) (leaf_addr w) (unat x mod PAGE_SIZE) =
         (let i = unat x - unat (rg_vaddr r) in if i < unat (rg_filesize r) then file ! (nat (rg_offset r) + i) else 0))"
proof -
  let ?fa = "va AND PAGE_FRAME"
  have ir: "in_region va r" using r by (auto simp: find_Some_iff)
  have q: "rg_permissions r AND PAGE_PERMS = rg_permissions r" using reg by (simp add: region_ok_def)
  obtain off rbot msz fsz where seg: "segment_part r ?fa = (off, rbot, msz, fsz)" by (metis prod_cases4)
  have fn: "pt_lookup (vm_heap s) (as_pt as) ?fa = None" using none by (simp add: fault_page(4))
  note eq = vm_fault_region [OF ok sp hw none r, of vop] and F = fault_page(1) [of va] fault_page(3) [OF va]
  from ok fn F q seg show ?thesis
  proof (cases rule: vm_fault_load_ok [where vop = vop])
    case (unread um)
    show ?thesis
      by (rule segment_load [where x = "rg_permissions r AND PAGE_X_MASK \<noteq> 0" and cur = "map_option unat (t_vmspace s)",
          OF reg ir vop first seg unread(3)]) (use unread(2) in simp)
  next
    case (new s' w um um' res)
    obtain um2 where um2: "load_segment vop (as_v as) off rbot (unat msz) (unat fsz) (rg_permissions r AND PAGE_X_MASK \<noteq> 0)
        (map_option unat (t_vmspace s)) um = Some (Inr (), um2)"
      "\<forall>y. page_no y = page_no va \<longrightarrow> in_region y r \<longrightarrow> um_data um2 y =
         (let i = unat y - unat (rg_vaddr r) in if i < unat (rg_filesize r) then file ! (nat (rg_offset r) + i) else 0)"
      by (rule segment_load [where x = "rg_permissions r AND PAGE_X_MASK \<noteq> 0" and cur = "map_option unat (t_vmspace s)",
          OF reg ir vop first seg new(10)]) blast
    have "um_data um' y = (let i = unat y - unat (rg_vaddr r) in if i < unat (rg_filesize r) then file ! (nat (rg_offset r) + i) else 0)"
      if "page_no y = page_no va" "in_region y r" for y using um2 new(9) that by simp
    moreover have "?fa + of_nat (unat y mod PAGE_SIZE) = y" if "page_no y = page_no va" for y :: addr
    proof -
      have "unat (?fa + of_nat (unat y mod PAGE_SIZE)) = unat ?fa + unat y mod PAGE_SIZE" by (rule page_offset) (simp_all add: page_part)
      then show ?thesis using that div_mult_mod_eq [of "unat y" PAGE_SIZE] by (simp add: word_unat_eq_iff page_part)
    qed
    ultimately have "frame_byte (kh_mem (vm_heap s')) (leaf_addr w) (unat y mod PAGE_SIZE) =
        (let i = unat y - unat (rg_vaddr r) in if i < unat (rg_filesize r) then file ! (nat (rg_offset r) + i) else 0)"
      if "page_no y = page_no va" "in_region y r" for y using new(11) [of "unat y mod PAGE_SIZE"] that by simp
    moreover have "pt_lookup (vm_heap s') (as_pt as) va = Some w" using new(5) by (simp add: fault_page(2))
    ultimately show ?thesis using new(1,6) by (simp add: eq)
  qed (use frames in simp)
qed

theorem vm_fault_loads_witness:
  "\<exists>pt s s' w. pt_create small_vm = Some (pt, s) \<and>
     vm_fault (small_read (replicate 3000 7)) VM_FAULT_READ 0x400004 (small_process pt s) = Some (Inr (), s') \<and>
     pt_lookup (vm_heap s') pt 0x400004 = Some w \<and> w AND PAGE_PERMS = PAGE_R_MASK \<and>
     frame_byte (kh_mem (vm_heap s')) (leaf_addr w) 5 = 7 \<and> frame_byte (kh_mem (vm_heap s')) (leaf_addr w) 0x900 = 0"
proof -
  let ?f = "replicate 3000 (7 :: byte)"
  obtain pt s where s: "pt_create small_vm = Some (pt, s)" "kheap_inv (vm_heap s)" "pt_wf (vm_heap s) pt" "frames_left s = 5"
    "pt_lookup (vm_heap s) pt = (\<lambda>_. None)" using small_pt by metis
  note P = small_process_ok [OF s(2,3)]
  have h: "fault_raised VM_FAULT_READ (0x400004 AND PAGE_FRAME) (small_process pt s)" using P(4) by (simp add: fault_raised_def)
  have n: "pt_lookup (vm_heap (small_process pt s)) (as_pt (small_space pt)) 0x400004 = None" using P(6) s(5) by (simp add: small_space_def)
  have r: "find (in_region 0x400004) (as_regions (small_space pt)) = Some small_region"
    by (simp add: small_space_def small_region_def in_region_def)
  have g: "region_ok small_region" by (simp add: region_ok_def small_region_def)
  have a: "unat (rg_vaddr small_region) mod PAGE_SIZE = 0 \<or> page_no 0x400004 = page_no (rg_vaddr small_region)"
    "nat (rg_offset small_region) + unat (rg_filesize small_region) \<le> length ?f" "2 \<le> frames_left (small_process pt s)"
    using P(5) s(4) by (simp_all add: small_region_def)
  have u: "(0x400004 :: addr) < USERTOP" by simp
  obtain s' w where w: "vm_fault (small_read ?f) VM_FAULT_READ 0x400004 (small_process pt s) = Some (Inr (), s')"
    "pt_lookup (vm_heap s') pt 0x400004 = Some w" "w AND PAGE_PERMS = rg_permissions small_region"
    "\<forall>x. page_no x = page_no 0x400004 \<and> in_region x small_region \<longrightarrow>
       frame_byte (kh_mem (vm_heap s')) (leaf_addr w) (unat x mod PAGE_SIZE) =
       (let i = unat x - unat (rg_vaddr small_region) in if i < unat (rg_filesize small_region) then ?f ! (nat (rg_offset small_region) + i) else 0)"
    using vm_fault_loads [OF P(1-3) u h n r g a(1) small_read_ok a(2,3)] by (auto simp: small_space_def)
  have "in_region 0x400005 small_region" "in_region 0x400900 small_region" by (simp_all add: in_region_def small_region_def)
  with w(4) [rule_format, of "0x400005"] w(4) [rule_format, of "0x400900"]
  have "frame_byte (kh_mem (vm_heap s')) (leaf_addr w) 5 = 7" "frame_byte (kh_mem (vm_heap s')) (leaf_addr w) 0x900 = 0"
    by (simp_all add: small_region_def Let_def)
  with s(1) w(1-3) show ?thesis by (auto simp: small_region_def)
qed

text \<open>C906. The part of a segment that a fault loads is the intersection of the page with the segment, and its part from the file the intersection with
  that part of the segment. The offset in the file that goes with it is right exactly when the segment starts at a page boundary or the
  fault is in its first page: in every other page of an unaligned segment the handler reads from the wrong place.\<close>

theorem segment_part_spec:
  assumes "region_ok r" "in_region va r"
  shows "case segment_part r (va AND PAGE_FRAME) of (off, rbot, memsize, filesize) \<Rightarrow>
    (let p = unat va div PAGE_SIZE * PAGE_SIZE; q = unat (rg_vaddr r)
     in {unat rbot..<unat rbot + unat memsize} = {p..<p + PAGE_SIZE} \<inter> {q..<q + unat (rg_memsize r)} \<and>
        {unat rbot..<unat rbot + unat filesize} = {p..<p + PAGE_SIZE} \<inter> {q..<q + unat (rg_filesize r)} \<and>
        (off = rg_offset r + int (unat rbot - q) \<longleftrightarrow> q mod PAGE_SIZE = 0 \<or> page_no va = page_no (rg_vaddr r)))"
proof -
  define p q where "p = unat va div PAGE_SIZE * PAGE_SIZE" and "q = unat (rg_vaddr r)"
  obtain rbot msz fsz where S: "segment_part r (va AND PAGE_FRAME) = (rg_offset r + int (p - q div PAGE_SIZE * PAGE_SIZE), rbot, msz, fsz)"
    "unat rbot = max p q" "unat msz = min (p + PAGE_SIZE) (q + unat (rg_memsize r)) - max p q"
    "unat fsz = min (p + PAGE_SIZE) (q + unat (rg_filesize r)) - max p q"
    using segment_part_nat [OF assms] unfolding p_def q_def .
  have part: "{max p q..<max p q + (min (p + PAGE_SIZE) (q + n) - max p q)} = {p..<p + PAGE_SIZE} \<inter> {q..<q + n}" for n by auto
  have u: "q \<le> unat va" using assms in_region_nat [OF assms(1)] by (simp add: q_def)
  have le: "q div PAGE_SIZE \<le> unat va div PAGE_SIZE" by (rule div_le_mono [OF u])
  have Q: "q = q div PAGE_SIZE * PAGE_SIZE + q mod PAGE_SIZE" "q mod PAGE_SIZE < PAGE_SIZE" by simp_all
  have "p - q div PAGE_SIZE * PAGE_SIZE = max p q - q \<longleftrightarrow> q mod PAGE_SIZE = 0 \<or> unat va div PAGE_SIZE = q div PAGE_SIZE"
  proof (cases "unat va div PAGE_SIZE = q div PAGE_SIZE")
    case True
    then show ?thesis using Q(1) by (simp add: p_def max_def)
  next
    case False
    with le have "(q div PAGE_SIZE + 1) * PAGE_SIZE \<le> p" unfolding p_def by (intro mult_right_mono) simp_all
    then have b: "q div PAGE_SIZE * PAGE_SIZE + PAGE_SIZE \<le> p" by simp
    then have m: "max p q = p" using Q by linarith
    have "p - q div PAGE_SIZE * PAGE_SIZE = p - q \<longleftrightarrow> q mod PAGE_SIZE = 0" using Q b by linarith
    with False m show ?thesis by simp
  qed
  then show ?thesis using S part unfolding p_def [symmetric] q_def [symmetric] by (simp add: Let_def p_def [symmetric] q_def [symmetric])
qed

theorem segment_part_spec_witness:
  "case segment_part (small_region\<lparr>rg_vaddr := 0x400100\<rparr>) 0x401000 of (off, rbot, memsize, filesize) \<Rightarrow>
     unat rbot = 0x401000 \<and> off \<noteq> rg_offset small_region + int (unat rbot - 0x400100)"
proof -
  let ?r = "small_region\<lparr>rg_vaddr := 0x400100\<rparr>"
  have "region_ok ?r" "in_region 0x401000 ?r" by (simp_all add: region_ok_def in_region_def small_region_def)
  from segment_part_spec [OF this] show ?thesis by (auto simp: small_region_def segment_part_def Let_def split: prod.splits)
qed

end
