(* ===== verification/Spec2Isabelle.thy ===== *)
theory Spec2Isabelle
  imports Kern_Array Kern_Queue Kern_Bitmap Kern_Coremap Kern_Copyinout Kern_Uio Kern_Disk Kern_SFS_Trunc Kern_Threads Kern_Kheap_Props Kern_VM_Props
begin

text \<open>
  A verification of the OS/161 kernel (version 1.11, configuration \<open>kern/conf/ASST3\<close>: the options
  \<open>A1\<close>, \<open>A2\<close>, \<open>A3\<close> and \<open>sfs\<close> are on). Paths below are relative to \<open>src/os161-1.11\<close>.

  \<^bold>\<open>Conventions.\<close> A kernel operation that may stop the machine is a function into \<open>'a option\<close>: \<open>None\<close> is a
  failed \<open>assert\<close>, a call of \<open>panic\<close>, a load or store outside the object a pointer points into, or a loop that
  never ends. An \<open>int\<close> error code is a value of \<open>errno + 'a\<close>. Machine words keep their width where a sum or a
  shift can leave it (\<open>32 word\<close>, or \<open>int\<close> with \<open>swrap32\<close> and \<open>u32\<close> written out). Whether \<open>kmalloc\<close> succeeds is an
  argument of every operation that calls it.

  \<^bold>\<open>Parts and theories.\<close>

  \<^item> Vocabulary: \<open>Kern_Prelude\<close> has the error codes of \<open>kern/include/kern/errno.h\<close>, assertions, checked loads and
    stores and C arithmetic. \<open>Kern_Interfaces\<close> has the contracts between components as locales: \<open>reserved_seq\<close>
    (arrays), \<open>fifo\<close> (queues), \<open>slot_map\<close> (bitmaps), \<open>frame_pool\<close> (page frames) and \<open>block_heap\<close> (the kernel
    heap); each is interpreted in the theory of the component that provides it.
  \<^item> Containers: \<open>Kern_Array\<close> (\<open>kern/lib/array.c\<close>), \<open>Kern_Queue\<close> (\<open>kern/lib/queue.c\<close>), \<open>Kern_Bitmap\<close>
    (\<open>kern/lib/bitmap.c\<close>). Each has the C structure as a record, one definition per function, a representation
    invariant and a refinement to lists or sets. The mutual recursion of \<open>q_grow\<close> and \<open>q_addtail\<close> runs with a depth
    that is proved to be enough.
  \<^item> Memory: \<open>Kern_Coremap\<close> (\<open>kern/arch/mips/mips/ram.c\<close>, \<open>kern/vm/coremap.c\<close>, \<open>alloc_kpages\<close> and \<open>free_kpages\<close> of
    \<open>kern/vm/vm.c\<close>): the frame allocator keeps its table consistent, hands out runs of free frames and
    takes them back exactly.
  \<^item> Kernel heap: \<open>Kern_Kheap\<close> defines \<open>kmalloc\<close> and \<open>kfree\<close> (\<open>kern/lib/kheap.c\<close>) with the page references, the
    lists that link them and the free lists that run through the words of the free blocks, on top of the frame
    allocator. \<open>Kern_Kheap_Inv\<close> and \<open>Kern_Kheap_Spec\<close> relate this memory to a finite map from addresses to block
    sizes, \<open>Kern_Kheap_Ops\<close> and \<open>Kern_Kheap_Props\<close> show that the operations refine insertion into and deletion from it.
    The lists are walked by recursion on their links; the invariant says that they are finite.
  \<^item> Page tables: \<open>Kern_Pagetable\<close> (\<open>kern/vm/pt.c\<close>, \<open>kern/vm/uw-vmstats.c\<close>) keeps the tables in the words of pages of the
    same memory. \<open>Kern_Pagetable_Inv\<close> says which pages a table owns and which entry a virtual address has,
    \<open>Kern_Pagetable_Ops\<close> and \<open>Kern_Pagetable_Props\<close> show that looking up, creating and protecting a page changes this
    map at one page, that no two pages share a frame and that destruction gives back all that was taken.
  \<^item> User memory: \<open>Kern_Copyinout\<close> (\<open>kern/lib/copyinout.c\<close>) and \<open>Kern_Uio\<close> (\<open>kern/userprog/uio.c\<close>): every address range a
    system call passes is checked before a byte of it is touched, and the bytes moved are the ones asked for.
  \<^item> Shared C library: \<open>Kern_Libc\<close> (\<open>lib/libc\<close>).
  \<^item> Disk and file system: \<open>Kern_Disk\<close> (\<open>kern/dev/lamebus/lhd.c\<close>, \<open>kern/fs/sfs/sfs_io.c\<close>); \<open>Kern_SFS\<close> and
    \<open>Kern_SFS_Ops\<close> define the operations of \<open>kern/fs/sfs/sfs_vnode.c\<close>, \<open>kern/fs/sfs/sfs_fs.c\<close> and
    \<open>kern/fs/vfs/vnode.c\<close>; \<open>Kern_SFS_Bmap\<close>, \<open>Kern_SFS_File\<close>, \<open>Kern_SFS_Dir\<close> and \<open>Kern_SFS_Trunc\<close> prove that block
    mapping keeps the volume consistent, that files are byte sequences, that directories are finite maps from
    names to inode numbers, and which blocks truncation gives back.
  \<^item> Threads: \<open>Kern_Thread\<close> (\<open>kern/thread/thread.c\<close>, \<open>scheduler.c\<close>, \<open>spl.c\<close>, \<open>pcb.c\<close>, \<open>trap.c\<close>, \<open>interrupt.c\<close>) and
    \<open>Kern_Synch\<close> (\<open>kern/thread/synch.c\<close>, \<open>hardclock.c\<close>) define a labelled step relation \<open>kstep\<close> on the state of
    the kernel: a kernel stack is the list of the frames still to run, a step is one run of code up to the next
    context switch or return. \<open>Kern_Thread_Inv\<close> and \<open>Kern_Synch_Inv\<close> prove the invariants by induction on the
    steps; \<open>Kern_Thread_Props\<close> and \<open>Kern_Threads\<close> derive mutual exclusion, accounting of threads, absence of lost
    wakeups and round-robin scheduling for every path of the machine from the boot.

  \<^bold>\<open>Not modelled.\<close>

  \<^item> \<open>vm_fault\<close> (\<open>kern/vm/vm.c\<close>), which reads a program through the file system and may sleep between looking a page up and
    entering it into the TLB, and \<open>kern/vm/addrspace.c\<close> above it. The swap file (\<open>kern/vm/swapfile.c\<close>): the calls that
    would write to it are not compiled, so a page table never has an entry there.
  \<^item> The system calls for processes and files (\<open>kern/arch/mips/mips/syscall\<close>), loading of programs
    (\<open>kern/userprog/loadelf.c\<close>, \<open>runprogram.c\<close>) and the name space of \<open>kern/fs/vfs\<close>, which dispatch through tables of
    function pointers to the file systems and devices.
  \<^item> Devices other than the disk, console input and output, the boot sequence, the menu and the tests in the kernel:
    register access and input and output. Assembly code: the context switch is a step of the thread model.
  \<^item> \<open>dumbvm.c\<close>, \<open>asst1\<close> and the network device are not compiled in this configuration. Programs of users
    (\<open>bin\<close>, \<open>sbin\<close>, \<open>testbin\<close>) are not part of the kernel.
\<close>

end
